(* ===== verification/Prelude.thy ===== *)
theory Prelude
  imports Main "HOL-Library.Word" "HOL-Library.Monad_Syntax"
begin

text \<open>
  What every component of the development shares: names for the machine types of the
  program (a Windows x64 build, so \<open>int\<close> and \<open>long\<close> have 32 bits, \<open>size_t\<close> and pointers
  64 bits, \<open>wchar_t\<close> 16 bits), blocks of bytes with checked reads and writes, the
  little-endian layout of integers, and cyclic reads of a block. A value \<^term>\<open>None\<close> of an
  operation means that the C++ operation has no defined outcome: an access outside its
  object, a call that aborts the process, or a loop that never ends.
\<close>

unbundle bit_operations_syntax

type_synonym byte = "8 word"
type_synonym u16 = "16 word"
type_synonym u32 = "32 word"
type_synonym u64 = "64 word"

named_theorems mem_simps "checked reads and writes of blocks"
named_theorems layout_simps "little-endian layout of machine integers"

section \<open>Blocks of bytes\<close>

definition mem_read :: "byte list \<Rightarrow> nat \<Rightarrow> nat \<Rightarrow> byte list option" where
  "mem_read m a n = (if a + n \<le> length m then Some (take n (drop a m)) else None)"

definition mem_write :: "byte list \<Rightarrow> nat \<Rightarrow> byte list \<Rightarrow> byte list option" where
  "mem_write m a d =
     (if a + length d \<le> length m then Some (take a m @ d @ drop (a + length d) m) else None)"

lemma mem_read_Some [mem_simps]:
  "a + n \<le> length m \<Longrightarrow> mem_read m a n = Some (take n (drop a m))"
  by (simp add: mem_read_def)

lemma mem_write_Some [mem_simps]:
  "a + length d \<le> length m \<Longrightarrow>
     mem_write m a d = Some (take a m @ d @ drop (a + length d) m)"
  by (simp add: mem_write_def)

lemma mem_read_length: "mem_read m a n = Some d \<Longrightarrow> length d = n"
  by (auto simp: mem_read_def split: if_splits)

lemma mem_write_length: "mem_write m a d = Some m' \<Longrightarrow> length m' = length m"
  by (auto simp: mem_write_def split: if_splits)

lemma mem_write_nth:
  assumes "mem_write m a d = Some m'" and "j < length m"
  shows "m' ! j = (if a \<le> j \<and> j < a + length d then d ! (j - a) else m ! j)"
  using assms by (auto simp: mem_write_def nth_append min_def split: if_splits)

lemma mem_read_write_same: "mem_write m a d = Some m' \<Longrightarrow> mem_read m' a (length d) = Some d"
  by (auto simp: mem_write_def mem_read_def split: if_splits)

lemma take_drop_nth_eqI:
  assumes "i + n \<le> length xs" and "length ys = n" and "\<And>j. j < n \<Longrightarrow> xs ! (i + j) = ys ! j"
  shows "take n (drop i xs) = ys"
  using assms by (intro nth_equalityI) auto

section \<open>Cyclic reads\<close>

text \<open>The \<open>k\<close> bytes of a block of \<open>n\<close> bytes that start at \<open>i\<close>, with wrap-around.\<close>

definition cyc_read :: "'a list \<Rightarrow> nat \<Rightarrow> nat \<Rightarrow> nat \<Rightarrow> 'a list" where
  "cyc_read m n i k = map (\<lambda>j. m ! ((i + j) mod n)) [0..<k]"

lemma length_cyc_read [simp]: "length (cyc_read m n i k) = k"
  by (simp add: cyc_read_def)

lemma nth_cyc_read [simp]: "j < k \<Longrightarrow> cyc_read m n i k ! j = m ! ((i + j) mod n)"
  by (simp add: cyc_read_def)

lemma cyc_read_mod: "cyc_read m n (i mod n) k = cyc_read m n i k"
  by (simp add: cyc_read_def mod_simps)

lemma take_cyc_read: "j \<le> k \<Longrightarrow> take j (cyc_read m n i k) = cyc_read m n i j"
  by (simp add: cyc_read_def take_map)

lemma drop_cyc_read: "j \<le> k \<Longrightarrow> drop j (cyc_read m n i k) = cyc_read m n (i + j) (k - j)"
  by (rule nth_equalityI) (simp_all add: add.assoc)

lemma cyc_read_add: "cyc_read m n i (k + l) = cyc_read m n i k @ cyc_read m n (i + k) l"
  by (rule nth_equalityI) (auto simp: nth_append add.assoc)

lemma cyc_read_straight:
  assumes "length m = n" "i < n" "i + k \<le> n"
  shows "cyc_read m n i k = take k (drop i m)"
  using assms by (intro nth_equalityI) auto

lemma cyc_read_wrap:
  assumes len: "length m = n" and i: "i < n" and k: "n - i \<le> k" "k \<le> n"
  shows "cyc_read m n i k = drop i m @ take (k - (n - i)) m"
proof -
  have "cyc_read m n i k = cyc_read m n i (n - i) @ cyc_read m n (i + (n - i)) (k - (n - i))"
    using k cyc_read_add [of m n i "n - i" "k - (n - i)"] by simp
  also have "cyc_read m n i (n - i) = drop i m"
    using len i by (simp add: cyc_read_straight)
  also have "cyc_read m n (i + (n - i)) (k - (n - i)) = cyc_read m n 0 (k - (n - i))"
    using i cyc_read_mod [of m n n "k - (n - i)"] by simp
  also have "\<dots> = take (k - (n - i)) m"
    using len i k by (subst cyc_read_straight) auto
  finally show ?thesis .
qed

lemma cyc_read_cong:
  assumes "\<And>j. j < k \<Longrightarrow> m ! ((i + j) mod n) = m' ! ((i + j) mod n)"
  shows "cyc_read m n i k = cyc_read m' n i k"
  using assms by (auto simp: cyc_read_def)

text \<open>Two positions less than one turn apart are the same only if they are equal.\<close>

lemma mod_window_inj:
  assumes "(i + a) mod n = (i + b) mod n" "a < n" "b < n"
  shows "a = (b::nat)"
proof -
  have "a mod n = b mod n"
    using assms(1) by (simp only: nat_mod_eq_iff) auto
  then show ?thesis
    using assms(2,3) by simp
qed

section \<open>Little-endian layout\<close>

text \<open>
  The bytes of an integer in the order a \<open>memmove\<close> from its address copies them on x64, and
  the integer that the same bytes make when they are copied back.
\<close>

definition le_bytes :: "nat \<Rightarrow> 'a::len word \<Rightarrow> byte list" where
  "le_bytes n w = map (\<lambda>i. ucast (drop_bit (8 * i) w)) [0..<n]"

fun le_word :: "byte list \<Rightarrow> 'a::len word" where
  "le_word [] = 0"
| "le_word (b # bs) = ucast b OR push_bit 8 (le_word bs)"

lemma length_le_bytes [simp, layout_simps]: "length (le_bytes n w) = n"
  by (simp add: le_bytes_def)

lemma le_bytes_Suc: "le_bytes (Suc n) w = ucast w # le_bytes n (drop_bit 8 w)"
  by (simp add: le_bytes_def upt_conv_Cons map_Suc_upt [symmetric] o_def drop_bit_drop_bit
      add.commute del: upt_Suc)

lemma le_word_le_bytes:
  "le_word (le_bytes n w) = (take_bit (8 * n) w :: 'a::len word)"
proof (induction n arbitrary: w)
  case 0
  show ?case by (simp add: le_bytes_def)
next
  case (Suc n)
  show ?case
    by (rule bit_word_eqI)
      (auto simp: le_bytes_Suc Suc bit_simps bit_imp_le_length)
qed

lemma le_word_bit: "bit (le_word xs :: 'a::len word) n = (n < LENGTH('a) \<and> n div 8 < length xs \<and> bit (xs ! (n div 8)) (n mod 8))"
proof (induction xs arbitrary: n)
  case (Cons x xs)
  show ?case
  proof (cases "n < 8")
    case False
    then obtain k where n: "n = 8 + k" by (metis le_Suc_ex not_less)
    then have d: "n div 8 = Suc (k div 8)" "n mod 8 = k mod 8" by simp_all
    show ?thesis unfolding d by (auto simp: n bit_simps Cons.IH dest: bit_imp_le_length)
  qed (auto simp: bit_simps)
qed simp

lemma le_bytes_le_word: 
  assumes "length xs = n" "8 * n \<le> LENGTH('a)"
  shows "le_bytes n (le_word xs :: 'a::len word) = xs"
proof (rule nth_equalityI)
  fix i assume i: "i < length (le_bytes n (le_word xs :: 'a word))"
  show "le_bytes n (le_word xs :: 'a word) ! i = xs ! i"
  proof (rule bit_word_eqI)
    fix k assume k: "k < LENGTH(8)"
    have "(8 * i + k) div 8 = i" "(8 * i + k) mod 8 = k" "8 * i + k < LENGTH('a)" using k i assms by simp_all
    then show "bit (le_bytes n (le_word xs :: 'a word) ! i) k = bit (xs ! i) k"
      using i k assms(1) by (simp add: le_bytes_def bit_simps le_word_bit)
  qed
qed (simp add: assms(1))

lemma le_word_le_bytes_16 [simp, layout_simps]: "le_word (le_bytes 2 w) = (w::u16)"
  by (simp add: le_word_le_bytes take_bit_word_eq_self)

lemma le_word_le_bytes_8 [simp, layout_simps]: "le_word (le_bytes 1 w) = (w::byte)"
  by (simp add: le_word_le_bytes take_bit_word_eq_self)

lemma le_word_le_bytes_32 [simp, layout_simps]: "le_word (le_bytes 4 w) = (w::u32)"
  by (simp add: le_word_le_bytes take_bit_word_eq_self)

lemma le_word_le_bytes_64 [simp, layout_simps]: "le_word (le_bytes 8 w) = (w::u64)"
  by (simp add: le_word_le_bytes take_bit_word_eq_self)

section \<open>Masks and conversions\<close>

lemma unat_and_mask: "unat (x AND mask k) = unat x mod 2 ^ k"
  by (simp add: take_bit_eq_mask [symmetric] take_bit_eq_mod [symmetric] unsigned_take_bit_eq)

lemma unat_ucast_32_64 [simp]: "unat (ucast (x::u32) :: u64) = unat x"
proof -
  have "unat x < 2 ^ 32"
    using unsigned_less [of x] by simp
  then have "unat x < 2 ^ 64" by simp
  then show ?thesis
    by (simp add: unsigned_ucast_eq take_bit_nat_eq_self_iff)
qed

lemma unat_mask_pow: "unat (mask k :: 'a::len word) = 2 ^ min LENGTH('a) k - 1"
proof -
  have "unat (mask k :: 'a word) = unat (of_nat (mask k) :: 'a word)"
    by (simp only: of_nat_mask_eq)
  also have "\<dots> = mask (min LENGTH('a) k)"
    by (simp only: unsigned_of_nat take_bit_of_mask of_nat_id)
  finally show ?thesis
    by (simp add: mask_eq_exp_minus_1)
qed

lemma unat_add_no_wrap:
  "unat (a :: 'a::len word) + unat b < 2 ^ LENGTH('a) \<Longrightarrow> unat (a + b) = unat a + unat b"
  by (simp add: unat_word_ariths)

lemma unat_add_small: "unat (a::u64) + unat b < 2 ^ 64 \<Longrightarrow> unat (a + b) = unat a + unat b"
  by (simp add: unat_word_ariths)

lemma uint_diff_mod:
  assumes "k \<le> LENGTH('a)"
  shows "uint (a - b :: 'a::len word) mod 2 ^ k = (uint a - uint b) mod 2 ^ k"
proof -
  have "(2::int) ^ k dvd 2 ^ LENGTH('a)" using assms by (rule le_imp_power_dvd)
  then show ?thesis by (simp only: uint_word_ariths mod_mod_cancel)
qed

lemma uint_and_mask: "uint (x AND mask k) = uint x mod 2 ^ k"
  by (simp add: take_bit_eq_mask [symmetric] take_bit_eq_mod [symmetric] unsigned_take_bit_eq)

lemma unat_min_if: "unat (if n > m then m else n) = min (unat n) (unat m)"
  by (simp add: word_less_nat_alt min_def)

lemma mod_Suc_less: "(a::nat) < n \<Longrightarrow> (a + 1) mod n = (if a + 1 = n then 0 else a + 1)"
  by (simp add: mod_Suc)

lemma sint_small_gen:
  fixes x :: "'a::len word"
  assumes "unat x < 2 ^ (LENGTH('a) - 1)"
  shows "sint x = int (unat x)"
proof -
  have "int (unat x) < int (2 ^ (LENGTH('a) - 1))" using assms by (simp only: of_nat_less_iff)
  then have "int (unat x) < 2 ^ (LENGTH('a) - 1)" by (simp only: of_nat_power of_nat_numeral)
  moreover have "- (2 ^ (LENGTH('a) - 1)) \<le> int (unat x)"
    by (rule order_trans [OF _ of_nat_0_le_iff]) simp
  ultimately have "signed_take_bit (LENGTH('a) - 1) (int (unat x)) = int (unat x)"
    by (intro signed_take_bit_int_eq_self)
  then show ?thesis by (simp add: sint_uint)
qed

lemma sint_small: "unat (x::u32) < 2 ^ 31 \<Longrightarrow> sint x = int (unat x)"
  using sint_small_gen [of x] by simp

lemma sint_small_64: "unat (x::u64) < 2 ^ 63 \<Longrightarrow> sint x = int (unat x)"
  using sint_small_gen [of x] by simp

lemma sint_small_16: "unat (x::u16) < 2 ^ 15 \<Longrightarrow> sint x = int (unat x)"
  using sint_small_gen [of x] by simp

lemma sint_less_small:
  "unat (x::u32) < 2 ^ 31 \<Longrightarrow> unat (y::u32) < 2 ^ 31 \<Longrightarrow> sint x < sint y \<longleftrightarrow> unat x < unat y"
  by (simp only: sint_small of_nat_less_iff)

lemma unat_scast_small: "unat (x::u32) < 2 ^ 31 \<Longrightarrow> unat (scast x :: u64) = unat x"
  by (simp add: scast_eq sint_small unat_of_nat)

lemma word_eq_of_nat: "unat (w :: 'a::len word) = k \<Longrightarrow> w = of_nat k"
  by auto

end
