(* ===== verification/Serializer.thy ===== *)
theory Serializer
  imports Prelude
begin

text \<open>
  The packet buffer of \<open>serializer.h\<close> and \<open>serializer.cpp\<close> with the wire header of
  \<open>define.h\<close>. Pointers are 64-bit addresses and \<open>sz_mem\<close> is the block that \<open>bufferPtr\<close>
  points to, so that an access outside the block is visible as such (\<^term>\<open>None\<close>); the
  allocator and the bytes of fresh memory are parameters. Fields and operations carry the
  prefix \<open>sz\<close>; the stream operators are called \<open>shl\<close> (\<open><<\<close>) and \<open>shr\<close> (\<open>>>\<close>) with
  the C++ type. The bytes between \<open>headPtr\<close> and \<open>tailPtr\<close> are the abstraction
  \<open>sz_data\<close>.
\<close>

section \<open>The wire header\<close>

text \<open>Five packed bytes: \<open>code\<close>, \<open>size\<close> (little endian), \<open>randKey\<close>, \<open>checkSum\<close>.\<close>

record networkHeader =
  nh_code :: byte
  nh_size :: u16
  nh_randKey :: byte
  nh_checkSum :: byte

definition networkHeader_zero :: networkHeader where
  "networkHeader_zero = \<lparr> nh_code = 0, nh_size = 0, nh_randKey = 0, nh_checkSum = 0 \<rparr>"

definition networkHeader_new :: "u16 \<Rightarrow> byte \<Rightarrow> byte \<Rightarrow> networkHeader" where
  "networkHeader_new sz key cs =
     \<lparr> nh_code = 0x77, nh_size = sz, nh_randKey = key, nh_checkSum = cs \<rparr>"

definition nh_bytes :: "networkHeader \<Rightarrow> byte list" where
  "nh_bytes h = nh_code h # le_bytes 2 (nh_size h) @ [nh_randKey h, nh_checkSum h]"

definition nh_of_bytes :: "byte list \<Rightarrow> networkHeader" where
  "nh_of_bytes bs = \<lparr> nh_code = bs ! 0, nh_size = le_word (take 2 (drop 1 bs)),
                      nh_randKey = bs ! 3, nh_checkSum = bs ! 4 \<rparr>"

section \<open>State, allocation, constructors\<close>

record serializer =
  sz_referenceCounter :: u32
  sz_bufferPtr :: u64
  sz_bufferSize :: u64
  sz_headPtr :: u64
  sz_tailPtr :: u64
  sz_useHeap :: bool
  sz_heap :: u64
  sz_mem :: "byte list"
  sz_fromHeap :: bool

text \<open>
  \<open>env_alloc True n\<close> is the address \<open>HeapAlloc\<close> returns for \<open>n\<close> bytes, \<open>env_alloc False n\<close>
  that of \<open>_aligned_malloc\<close>; 0 is a failed allocation. \<open>env_raw\<close> gives the uninitialised
  bytes of a fresh block. \<open>sz_fromHeap\<close> records which of the two made the current block.
\<close>

record mem_env =
  env_alloc :: "bool \<Rightarrow> u64 \<Rightarrow> u64"
  env_raw :: "nat \<Rightarrow> byte"

definition fresh_block :: "mem_env \<Rightarrow> u64 \<Rightarrow> u64 \<Rightarrow> byte list" where
  "fresh_block env a n = (if a = 0 then [] else map (env_raw env) [0..<unat n])"

definition serializer_new_size :: "mem_env \<Rightarrow> u64 \<Rightarrow> serializer" where
  "serializer_new_size env n =
     (let a = env_alloc env False n in
      \<lparr> sz_referenceCounter = 0, sz_bufferPtr = a, sz_bufferSize = n, sz_headPtr = a,
        sz_tailPtr = a, sz_useHeap = False, sz_heap = 0, sz_mem = fresh_block env a n,
        sz_fromHeap = False \<rparr>)"

definition serializer_new :: "mem_env \<Rightarrow> serializer" where
  "serializer_new env = serializer_new_size env 1024"

definition serializer_new_heap_size :: "mem_env \<Rightarrow> u64 \<Rightarrow> u64 \<Rightarrow> serializer" where
  "serializer_new_heap_size env hp n =
     (let a = env_alloc env True n in
      \<lparr> sz_referenceCounter = 0, sz_bufferPtr = a, sz_bufferSize = n, sz_headPtr = a,
        sz_tailPtr = a, sz_useHeap = True, sz_heap = hp, sz_mem = fresh_block env a n,
        sz_fromHeap = True \<rparr>)"

definition serializer_new_heap :: "mem_env \<Rightarrow> u64 \<Rightarrow> serializer" where
  "serializer_new_heap env hp = serializer_new_heap_size env hp 1024"

text \<open>The offset of an address in the current block, and reads and writes at an address.\<close>

definition sz_off :: "serializer \<Rightarrow> u64 \<Rightarrow> nat" where
  "sz_off s p = unat (p - sz_bufferPtr s)"

definition sz_read :: "serializer \<Rightarrow> u64 \<Rightarrow> nat \<Rightarrow> byte list option" where
  "sz_read s p n = mem_read (sz_mem s) (sz_off s p) n"

definition sz_write :: "serializer \<Rightarrow> u64 \<Rightarrow> byte list \<Rightarrow> serializer option" where
  "sz_write s p d = map_option (\<lambda>m. s\<lparr>sz_mem := m\<rparr>) (mem_write (sz_mem s) (sz_off s p) d)"

text \<open>
  The copy constructor takes the block from \<open>_aligned_malloc\<close> but copies \<open>useHeap\<close>; the
  destructor frees by \<open>useHeap\<close>, and freeing a block with the other allocator's function has
  no defined outcome.
\<close>

definition serializer_copy :: "mem_env \<Rightarrow> serializer \<Rightarrow> serializer option" where
  "serializer_copy env s =
     (let a = env_alloc env False (sz_bufferSize s);
          c = \<lparr> sz_referenceCounter = 0, sz_bufferPtr = a, sz_bufferSize = sz_bufferSize s,
                sz_headPtr = a + (sz_headPtr s - sz_bufferPtr s),
                sz_tailPtr = a + (sz_tailPtr s - sz_bufferPtr s),
                sz_useHeap = sz_useHeap s, sz_heap = sz_heap s,
                sz_mem = fresh_block env a (sz_bufferSize s), sz_fromHeap = False \<rparr>
      in do { x \<leftarrow> sz_read s (sz_headPtr s) (unat (sz_tailPtr s - sz_headPtr s));
              sz_write c (sz_headPtr c) x })"

definition serializer_delete :: "serializer \<Rightarrow> unit option" where
  "serializer_delete s = (if sz_useHeap s = sz_fromHeap s then Some () else None)"

section \<open>Positions\<close>

definition sz_clear :: "serializer \<Rightarrow> serializer" where
  "sz_clear s = s\<lparr>sz_headPtr := sz_bufferPtr s, sz_tailPtr := sz_bufferPtr s\<rparr>"

definition sz_getBufferPtr :: "serializer \<Rightarrow> u64" where
  "sz_getBufferPtr s = sz_bufferPtr s"

definition sz_getBufferSize :: "serializer \<Rightarrow> u64" where
  "sz_getBufferSize s = sz_bufferSize s"

definition sz_getHeadPtr :: "serializer \<Rightarrow> u64" where
  "sz_getHeadPtr s = sz_headPtr s"

definition sz_getTailPtr :: "serializer \<Rightarrow> u64" where
  "sz_getTailPtr s = sz_tailPtr s"

definition sz_size :: "serializer \<Rightarrow> u64" where
  "sz_size s = sz_tailPtr s - sz_headPtr s"

definition sz_useableSize :: "serializer \<Rightarrow> u64" where
  "sz_useableSize s = sz_bufferSize s - (sz_tailPtr s - sz_bufferPtr s)"

definition sz_maxSize :: "serializer \<Rightarrow> u64" where
  "sz_maxSize s = sz_bufferSize s"

definition sz_usedSize :: "serializer \<Rightarrow> u64" where
  "sz_usedSize s = sz_headPtr s - sz_bufferPtr s"

text \<open>
  \<open>min\<close> and \<open>max\<close> are the macros of \<open>windows.h\<close>: \<open>min\<close> compares an \<open>int\<close> with a \<open>size_t\<close>
  as unsigned 64-bit values, \<open>max\<close> compares an \<open>int\<close> with a pointer difference as signed
  ones; the result is cut to \<open>int\<close> and added, sign-extended, to the pointer.
\<close>

definition sz_moveFront :: "serializer \<Rightarrow> u32 \<Rightarrow> serializer \<times> u32" where
  "sz_moveFront s n =
     (let offset :: u32 =
        (if 0 \<le> sint n then ucast (if (scast n :: u64) < sz_size s then scast n else sz_size s)
         else ucast (let d = sz_bufferPtr s - sz_headPtr s in
                     if sint (scast n :: u64) > sint d then scast n else d))
      in (s\<lparr>sz_headPtr := sz_headPtr s + scast offset\<rparr>, offset))"

definition sz_moveRear :: "serializer \<Rightarrow> u32 \<Rightarrow> serializer \<times> u32" where
  "sz_moveRear s n =
     (let offset :: u32 =
        (if 0 \<le> sint n then ucast (if (scast n :: u64) < sz_useableSize s then scast n else sz_useableSize s)
         else ucast (let d = sz_headPtr s - sz_tailPtr s in
                     if sint (scast n :: u64) > sint d then scast n else d))
      in (s\<lparr>sz_tailPtr := sz_tailPtr s + scast offset\<rparr>, offset))"

section \<open>Growing\<close>

text \<open>
  \<open>resize\<close> copies the data to the new block, sets \<open>headPtr\<close> to it and only then computes
  \<open>tailPtr = tempPtr + (tailPtr - headPtr)\<close>, with the new \<open>headPtr\<close>.
\<close>

definition sz_resize :: "mem_env \<Rightarrow> serializer \<Rightarrow> u64 \<Rightarrow> serializer option" where
  "sz_resize env s n =
     (let tempPtr = (if sz_useHeap s then env_alloc env True n else env_alloc env False n)
      in do {
        x \<leftarrow> sz_read s (sz_headPtr s) (unat (sz_tailPtr s - sz_headPtr s));
        m \<leftarrow> mem_write (fresh_block env tempPtr n) 0 x;
        (if sz_useHeap s = sz_fromHeap s
         then let s1 = s\<lparr>sz_headPtr := tempPtr\<rparr>;
                  s2 = s1\<lparr>sz_tailPtr := tempPtr + (sz_tailPtr s1 - sz_headPtr s1)\<rparr>
              in Some (s2\<lparr>sz_bufferSize := n, sz_bufferPtr := tempPtr, sz_mem := m,
                          sz_fromHeap := sz_useHeap s\<rparr>)
         else None)
      })"

text \<open>\<open>while (useableSize() < n) resize(bufferSize * 2);\<close>\<close>

partial_function (option) sz_grow :: "mem_env \<Rightarrow> u64 \<Rightarrow> serializer \<Rightarrow> serializer option" where
  "sz_grow env n s =
     (if sz_useableSize s < n
      then Option.bind (sz_resize env s (sz_bufferSize s * 2)) (\<lambda>s'. sz_grow env n s')
      else Some s)"

section \<open>Raw pushes and pops\<close>

definition sz_push :: "mem_env \<Rightarrow> serializer \<Rightarrow> byte list \<Rightarrow> u64 \<Rightarrow> (serializer \<times> u64) option" where
  "sz_push env s data n =
     do { s1 \<leftarrow> sz_grow env n s;
          x \<leftarrow> mem_read data 0 (unat n);
          s2 \<leftarrow> sz_write s1 (sz_tailPtr s1) x;
          Some (fst (sz_moveRear s2 (ucast n)), n) }"

definition sz_pop :: "serializer \<Rightarrow> u64 \<Rightarrow> (serializer \<times> byte list) option" where
  "sz_pop s n =
     (let n1 = (if sz_size s < n then sz_size s else n)
      in do { x \<leftarrow> sz_read s (sz_headPtr s) (unat n1);
              Some (fst (sz_moveFront s (ucast n1)), x) })"

definition sz_peek :: "serializer \<Rightarrow> u64 \<Rightarrow> byte list option" where
  "sz_peek s n =
     (let n1 = (if sz_size s < n then sz_size s else n)
      in sz_read s (sz_headPtr s) (unat n1))"

text \<open>
  The assignment: \<open>clear\<close>, \<open>resize\<close> to the source's size, then the whole block and both
  positions of the source. With \<open>self\<close> the source is the object itself, so its positions are
  the ones \<open>clear\<close> and \<open>resize\<close> have just set.
\<close>

definition serializer_assign :: "mem_env \<Rightarrow> bool \<Rightarrow> serializer \<Rightarrow> serializer \<Rightarrow> serializer option" where
  "serializer_assign env self s v =
     do { s1 \<leftarrow> sz_resize env (sz_clear s) (sz_bufferSize v);
          (let w = (if self then s1 else v) in
           do { x \<leftarrow> sz_read w (sz_bufferPtr w) (unat (sz_bufferSize s1));
                s2 \<leftarrow> sz_write s1 (sz_bufferPtr s1) x;
                (let s3 = s2\<lparr>sz_headPtr := sz_bufferPtr s2 + (sz_headPtr w - sz_bufferPtr w)\<rparr>
                 in Some (s3\<lparr>sz_tailPtr := sz_bufferPtr s3 +
                    ((if self then sz_tailPtr s3 else sz_tailPtr w) - sz_bufferPtr w)\<rparr>)) }) }"

section \<open>Reference counter\<close>

text \<open>\<open>InterlockedAdd\<close> returns the new value, \<open>InterlockedExchange\<close> the old one.\<close>

definition sz_incRef :: "serializer \<Rightarrow> u32 \<Rightarrow> serializer \<times> u32" where
  "sz_incRef s n = (let r = sz_referenceCounter s + n in (s\<lparr>sz_referenceCounter := r\<rparr>, r))"

definition sz_decRef :: "serializer \<Rightarrow> u32 \<Rightarrow> serializer \<times> u32" where
  "sz_decRef s n = (let r = sz_referenceCounter s + (- n) in (s\<lparr>sz_referenceCounter := r\<rparr>, r))"

definition sz_setRef :: "serializer \<Rightarrow> u32 \<Rightarrow> serializer \<times> u32" where
  "sz_setRef s n = (s\<lparr>sz_referenceCounter := n\<rparr>, sz_referenceCounter s)"

section \<open>Invariant and abstraction\<close>

abbreviation sz_ho :: "serializer \<Rightarrow> nat" where "sz_ho s \<equiv> sz_off s (sz_headPtr s)"
abbreviation sz_to :: "serializer \<Rightarrow> nat" where "sz_to s \<equiv> sz_off s (sz_tailPtr s)"

definition sz_inv :: "serializer \<Rightarrow> bool" where
  "sz_inv s \<longleftrightarrow> sz_ho s \<le> sz_to s \<and> sz_to s \<le> unat (sz_bufferSize s) \<and>
     length (sz_mem s) = unat (sz_bufferSize s) \<and> unat (sz_bufferSize s) < 2 ^ 31"

definition sz_data :: "serializer \<Rightarrow> byte list" where
  "sz_data s = take (sz_to s - sz_ho s) (drop (sz_ho s) (sz_mem s))"

abbreviation sz_room :: "serializer \<Rightarrow> nat" where "sz_room s \<equiv> unat (sz_bufferSize s) - sz_to s"

lemma sz_off_upd [simp]:
  "sz_off (s\<lparr>sz_mem := m\<rparr>) p = sz_off s p" "sz_off (s\<lparr>sz_headPtr := h\<rparr>) p = sz_off s p"
  "sz_off (s\<lparr>sz_tailPtr := t\<rparr>) p = sz_off s p" "sz_off (s\<lparr>sz_referenceCounter := r\<rparr>) p = sz_off s p"
  by (simp_all add: sz_off_def)

lemma sz_invD:
  assumes "sz_inv s"
  shows "sz_ho s \<le> sz_to s" "sz_to s \<le> unat (sz_bufferSize s)"
    "length (sz_mem s) = unat (sz_bufferSize s)" "unat (sz_bufferSize s) < 2 ^ 31"
  using assms by (simp_all add: sz_inv_def)

lemma length_sz_data: "sz_inv s \<Longrightarrow> length (sz_data s) = sz_to s - sz_ho s"
  by (auto simp: sz_data_def sz_inv_def)

lemma unat_sz_size:
  assumes "sz_inv s"
  shows "unat (sz_size s) = sz_to s - sz_ho s"
proof -
  have "sz_size s = (sz_tailPtr s - sz_bufferPtr s) - (sz_headPtr s - sz_bufferPtr s)"
    by (simp add: sz_size_def)
  moreover have "sz_headPtr s - sz_bufferPtr s \<le> sz_tailPtr s - sz_bufferPtr s"
    using sz_invD(1) [OF assms] by (simp add: word_le_nat_alt sz_off_def)
  ultimately show ?thesis by (simp only: unat_sub sz_off_def)
qed

lemma unat_sz_useableSize:
  assumes "sz_inv s"
  shows "unat (sz_useableSize s) = sz_room s"
proof -
  have "sz_tailPtr s - sz_bufferPtr s \<le> sz_bufferSize s"
    using sz_invD(2) [OF assms] by (simp add: word_le_nat_alt sz_off_def)
  then show ?thesis by (simp only: sz_useableSize_def unat_sub sz_off_def)
qed

lemma sz_off_add:
  assumes "sz_off s p + unat d < 2 ^ 64"
  shows "sz_off s (p + d) = sz_off s p + unat d"
proof -
  have "p + d - sz_bufferPtr s = (p - sz_bufferPtr s) + d" by simp
  moreover have "unat ((p - sz_bufferPtr s) + d) = unat (p - sz_bufferPtr s) + unat d"
    using assms by (subst unat_add_lem [THEN iffD1]) (simp_all add: sz_off_def)
  ultimately show ?thesis by (simp only: sz_off_def)
qed

lemma unat_ucast_64_32: "unat (x::u64) < 2 ^ 32 \<Longrightarrow> unat (ucast x :: u32) = unat x"
  by (simp add: unsigned_ucast_eq take_bit_nat_eq_self_iff)

lemma sint_nonneg_small: "unat (n::u32) < 2 ^ 31 \<Longrightarrow> 0 \<le> sint n"
  by (simp only: sint_small of_nat_0_le_iff)

lemma sz_clip_nonneg:
  assumes n: "unat (n::u32) < 2 ^ 31" and z: "unat z < 2 ^ 31"
  defines "r \<equiv> (ucast (if (scast n :: u64) < z then scast n else z) :: u32)"
  shows "unat r = min (unat n) (unat z)" and "unat (scast r :: u64) = min (unat n) (unat z)"
proof -
  have "unat (if (scast n :: u64) < z then scast n else z) = min (unat n) (unat z)"
    using n by (simp add: word_less_nat_alt unat_scast_small min_def)
  then show r: "unat r = min (unat n) (unat z)"
    using n unfolding r_def by (subst unat_ucast_64_32) simp_all
  then show "unat (scast r :: u64) = min (unat n) (unat z)"
    using n by (simp add: unat_scast_small)
qed

lemma sz_moveRear_spec:
  assumes inv: "sz_inv s" and n: "unat n < 2 ^ 31"
  defines "k \<equiv> min (unat n) (sz_room s)"
  shows "sz_inv (fst (sz_moveRear s n))" and "sz_to (fst (sz_moveRear s n)) = sz_to s + k"
    and "unat (snd (sz_moveRear s n)) = k" 
    and "sz_moveRear s n = (s\<lparr>sz_tailPtr := sz_tailPtr s + of_nat k\<rparr>, of_nat k)"
proof -
  have u: "unat (sz_useableSize s) < 2 ^ 31"
    using unat_sz_useableSize [OF inv] sz_invD(4) [OF inv] by simp
  let ?r = "ucast (if (scast n :: u64) < sz_useableSize s then scast n else sz_useableSize s) :: u32"
  have r: "unat ?r = k" "unat (scast ?r :: u64) = k"
    using sz_clip_nonneg [OF n u] unat_sz_useableSize [OF inv] by (simp_all only: k_def)
  have r': "?r = of_nat k" "(scast ?r :: u64) = of_nat k"
    using r by (blast intro: word_eq_of_nat)+
  show eq: "sz_moveRear s n = (s\<lparr>sz_tailPtr := sz_tailPtr s + of_nat k\<rparr>, of_nat k)"
    using sint_nonneg_small [OF n] by (simp only: sz_moveRear_def Let_def if_True r'(1) r'(2) [unfolded r'(1)])
  have k: "sz_to s + k \<le> unat (sz_bufferSize s)" "k < 2 ^ 31"
    using sz_invD(2,4) [OF inv] by (simp_all add: k_def)
  have uk: "unat (of_nat k :: u64) = k" using k by (simp add: unat_of_nat)
  then have "sz_off s (sz_tailPtr s + of_nat k) = sz_to s + k"
    using k sz_invD(4) [OF inv] by (subst sz_off_add) simp_all
  then show to: "sz_to (fst (sz_moveRear s n)) = sz_to s + k"
    by (simp add: eq sz_off_def)
  show "unat (snd (sz_moveRear s n)) = k"
    using k(2) by (simp add: eq unat_of_nat)
  show "sz_inv (fst (sz_moveRear s n))"
    using inv k to by (simp add: sz_inv_def) (simp add: eq sz_off_def)
qed

lemma sz_moveFront_spec:
  assumes inv: "sz_inv s" and n: "unat n < 2 ^ 31"
  defines "k \<equiv> min (unat n) (sz_to s - sz_ho s)"
  shows "sz_inv (fst (sz_moveFront s n))" and "sz_ho (fst (sz_moveFront s n)) = sz_ho s + k"
    and "unat (snd (sz_moveFront s n)) = k"
    and "sz_moveFront s n = (s\<lparr>sz_headPtr := sz_headPtr s + of_nat k\<rparr>, of_nat k)"
proof -
  have u: "unat (sz_size s) < 2 ^ 31"
    using unat_sz_size [OF inv] sz_invD(2,4) [OF inv] by simp
  let ?r = "ucast (if (scast n :: u64) < sz_size s then scast n else sz_size s) :: u32"
  have r: "unat ?r = k" "unat (scast ?r :: u64) = k"
    using sz_clip_nonneg [OF n u] unat_sz_size [OF inv] by (simp_all only: k_def)
  have r': "?r = of_nat k" "(scast ?r :: u64) = of_nat k"
    using r by (blast intro: word_eq_of_nat)+
  show eq: "sz_moveFront s n = (s\<lparr>sz_headPtr := sz_headPtr s + of_nat k\<rparr>, of_nat k)"
    using sint_nonneg_small [OF n] by (simp only: sz_moveFront_def Let_def if_True r'(1) r'(2) [unfolded r'(1)])
  have k: "sz_ho s + k \<le> sz_to s" "k < 2 ^ 31"
    using sz_invD(1,2,4) [OF inv] by (simp_all add: k_def)
  have uk: "unat (of_nat k :: u64) = k" using k by (simp add: unat_of_nat)
  then have "sz_off s (sz_headPtr s + of_nat k) = sz_ho s + k"
    using k sz_invD(2,4) [OF inv] by (subst sz_off_add) simp_all
  then show ho: "sz_ho (fst (sz_moveFront s n)) = sz_ho s + k"
    by (simp add: eq sz_off_def)
  show "unat (snd (sz_moveFront s n)) = k"
    using k(2) by (simp add: eq unat_of_nat)
  show "sz_inv (fst (sz_moveFront s n))"
    using inv k ho by (simp add: sz_inv_def) (simp add: eq sz_off_def)
qed


lemma sz_moveRear_exact:
  assumes inv: "sz_inv s" and n: "n \<le> sz_room s"
  shows "sz_moveRear s (of_nat n) = (s\<lparr>sz_tailPtr := sz_tailPtr s + of_nat n\<rparr>, of_nat n)"
    and "sz_inv (s\<lparr>sz_tailPtr := sz_tailPtr s + of_nat n\<rparr>)"
    and "sz_off s (sz_tailPtr s + of_nat n) = sz_to s + n"
proof -
  have n31: "unat (of_nat n :: u32) = n" "n < 2 ^ 31"
    using n sz_invD(4) [OF inv] by (simp_all add: unat_of_nat)
  have k: "min (unat (of_nat n :: u32)) (sz_room s) = n" using n n31 by simp
  note R = sz_moveRear_spec [OF inv, of "of_nat n", unfolded k, unfolded n31(1), OF n31(2)]
  show "sz_moveRear s (of_nat n) = (s\<lparr>sz_tailPtr := sz_tailPtr s + of_nat n\<rparr>, of_nat n)"
    by (rule R(4))
  show "sz_inv (s\<lparr>sz_tailPtr := sz_tailPtr s + of_nat n\<rparr>)" "sz_off s (sz_tailPtr s + of_nat n) = sz_to s + n"
    using R(1,2) by (simp_all add: R(4))
qed

lemma sz_moveFront_exact:
  assumes inv: "sz_inv s" and n: "n \<le> sz_to s - sz_ho s"
  shows "sz_moveFront s (of_nat n) = (s\<lparr>sz_headPtr := sz_headPtr s + of_nat n\<rparr>, of_nat n)"
    and "sz_inv (s\<lparr>sz_headPtr := sz_headPtr s + of_nat n\<rparr>)"
    and "sz_off s (sz_headPtr s + of_nat n) = sz_ho s + n"
proof -
  have n31: "unat (of_nat n :: u32) = n" "n < 2 ^ 31"
    using n sz_invD(2,4) [OF inv] by (simp_all add: unat_of_nat)
  have k: "min (unat (of_nat n :: u32)) (sz_to s - sz_ho s) = n" using n n31 by simp
  note R = sz_moveFront_spec [OF inv, of "of_nat n", unfolded k, unfolded n31(1), OF n31(2)]
  show "sz_moveFront s (of_nat n) = (s\<lparr>sz_headPtr := sz_headPtr s + of_nat n\<rparr>, of_nat n)"
    by (rule R(4))
  show "sz_inv (s\<lparr>sz_headPtr := sz_headPtr s + of_nat n\<rparr>)" "sz_off s (sz_headPtr s + of_nat n) = sz_ho s + n"
    using R(1,2) by (simp_all add: R(4))
qed

section \<open>Appending and taking bytes\<close>

definition sz_put :: "mem_env \<Rightarrow> serializer \<Rightarrow> byte list \<Rightarrow> serializer option" where
  "sz_put env s bs =
     do { s1 \<leftarrow> sz_grow env (of_nat (length bs)) s;
          s2 \<leftarrow> sz_write s1 (sz_tailPtr s1) bs;
          Some (fst (sz_moveRear s2 (of_nat (length bs)))) }"

definition sz_get :: "serializer \<Rightarrow> nat \<Rightarrow> (serializer \<times> byte list) option" where
  "sz_get s n =
     do { x \<leftarrow> sz_read s (sz_headPtr s) n;
          Some (fst (sz_moveFront s (of_nat n)), x) }"

lemma sz_grow_fits: "n \<le> sz_useableSize s \<Longrightarrow> sz_grow env n s = Some s"
  by (simp add: sz_grow.simps leD)

lemma sz_write_tail_spec:
  assumes inv: "sz_inv s" and n: "length bs \<le> sz_room s"
  defines "s' \<equiv> s\<lparr>sz_mem := take (sz_to s) (sz_mem s) @ bs @ drop (sz_to s + length bs) (sz_mem s),
                   sz_tailPtr := sz_tailPtr s + of_nat (length bs)\<rparr>"
  shows "do { s2 \<leftarrow> sz_write s (sz_tailPtr s) bs; Some (fst (sz_moveRear s2 (of_nat (length bs)))) } = Some s'"
    and "sz_inv s'" and "sz_data s' = sz_data s @ bs" and "sz_ho s' = sz_ho s"
    and "sz_to s' = sz_to s + length bs"
proof -
  let ?m = "take (sz_to s) (sz_mem s) @ bs @ drop (sz_to s + length bs) (sz_mem s)"
  let ?s2 = "s\<lparr>sz_mem := ?m\<rparr>"
  note I = sz_invD [OF inv]
  have len: "length ?m = unat (sz_bufferSize s)" using n I by simp
  have inv2: "sz_inv ?s2" using inv len by (simp add: sz_inv_def)
  have "length bs \<le> sz_room ?s2" using n by simp
  note R = sz_moveRear_exact [OF inv2 this]
  show "do { s2 \<leftarrow> sz_write s (sz_tailPtr s) bs; Some (fst (sz_moveRear s2 (of_nat (length bs)))) } = Some s'"
    using n I(2,3) R(1) by (simp add: sz_write_def mem_simps s'_def)
  show "sz_inv s'" using R(2) by (simp add: s'_def)
  show to: "sz_to s' = sz_to s + length bs" and ho: "sz_ho s' = sz_ho s"
    using R(3) by (simp_all add: s'_def)
  have m': "sz_mem s' = ?m" by (simp add: s'_def)
  show "sz_data s' = sz_data s @ bs"
  proof -
    let ?A = "drop (sz_ho s) (take (sz_to s) (sz_mem s))"
    have A: "?A = sz_data s" by (simp add: sz_data_def drop_take)
    have "drop (sz_ho s) ?m = ?A @ bs @ drop (sz_to s + length bs) (sz_mem s)"
      using I by simp
    moreover have "sz_to s + length bs - sz_ho s = length (?A @ bs)" using I by simp
    ultimately show ?thesis
      unfolding sz_data_def [of s'] to ho m' by (simp only: A) simp
  qed
qed

lemma sz_put_spec:
  assumes inv: "sz_inv s" and n: "length bs \<le> sz_room s"
  obtains s' where "sz_put env s bs = Some s'" "sz_inv s'" "sz_data s' = sz_data s @ bs"
    "sz_ho s' = sz_ho s" "sz_to s' = sz_to s + length bs" "sz_bufferSize s' = sz_bufferSize s"
    "sz_bufferPtr s' = sz_bufferPtr s" "sz_referenceCounter s' = sz_referenceCounter s"
proof -
  have "(of_nat (length bs) :: u64) \<le> sz_useableSize s"
    using n sz_invD(4) [OF inv] by (simp add: word_le_nat_alt unat_sz_useableSize [OF inv] unat_of_nat)
  then have g: "sz_grow env (of_nat (length bs)) s = Some s" by (rule sz_grow_fits)
  note W = sz_write_tail_spec [OF inv n]
  show thesis
    by (rule that [OF _ W(2-5)]) (simp_all only: sz_put_def g bind.bind_lunit W(1), simp_all)
qed

lemma sz_get_spec:
  assumes inv: "sz_inv s" and n: "n \<le> sz_to s - sz_ho s"
  obtains s' where "sz_get s n = Some (s', take n (sz_data s))" "sz_inv s'" "sz_data s' = drop n (sz_data s)"
    "sz_ho s' = sz_ho s + n" "sz_to s' = sz_to s" "sz_bufferSize s' = sz_bufferSize s"
    "sz_bufferPtr s' = sz_bufferPtr s" "sz_mem s' = sz_mem s"
    "sz_referenceCounter s' = sz_referenceCounter s"
proof -
  note I = sz_invD [OF inv] and R = sz_moveFront_exact [OF inv n]
  let ?s' = "s\<lparr>sz_headPtr := sz_headPtr s + of_nat n\<rparr>"
  have get: "sz_get s n = Some (?s', take n (sz_data s))"
    using n I by (simp add: sz_get_def sz_read_def mem_simps R(1) sz_data_def min_absorb2)
  have ho: "sz_ho ?s' = sz_ho s + n" and to: "sz_to ?s' = sz_to s" using R(3) by simp_all
  have "sz_data ?s' = drop n (sz_data s)"
    unfolding sz_data_def ho to using n I by (simp add: drop_take add.commute)
  then show thesis
    using that [OF get R(2)] ho to by simp
qed

text \<open>
  A read of more bytes than are stored is not refused: the bytes after \<open>tailPtr\<close> that are
  still in the block are taken for the value, and the position stops at \<open>tailPtr\<close>.
\<close>

lemma sz_get_short:
  assumes inv: "sz_inv s" and n: "sz_to s - sz_ho s < n" "sz_ho s + n \<le> unat (sz_bufferSize s)"
  obtains s' where "sz_get s n = Some (s', take n (drop (sz_ho s) (sz_mem s)))" "sz_inv s'"
    "sz_data s' = []" "sz_ho s' = sz_to s" "sz_to s' = sz_to s" "sz_mem s' = sz_mem s"
    "sz_bufferSize s' = sz_bufferSize s" "sz_bufferPtr s' = sz_bufferPtr s"
proof -
  note I = sz_invD [OF inv]
  have n31: "unat (of_nat n :: u32) = n" "n < 2 ^ 31"
    using n I(4) by (simp_all add: unat_of_nat)
  have k: "min (unat (of_nat n :: u32)) (sz_to s - sz_ho s) = sz_to s - sz_ho s" using n n31 by simp
  note R = sz_moveFront_spec [OF inv, of "of_nat n", unfolded k, unfolded n31(1), OF n31(2)]
  let ?s' = "s\<lparr>sz_headPtr := sz_headPtr s + of_nat (sz_to s - sz_ho s)\<rparr>"
  have ho: "sz_ho ?s' = sz_to s" using R(2) I(1) by (simp only: R(4) fst_conv)
  have inv': "sz_inv ?s'" using R(1) by (simp add: R(4))
  have to: "sz_to ?s' = sz_to s" by simp
  have get: "sz_get s n = Some (?s', take n (drop (sz_ho s) (sz_mem s)))"
    using n I by (simp add: sz_get_def sz_read_def mem_simps R(4))
  have "sz_data ?s' = []" unfolding sz_data_def ho to by simp
  then show thesis using that [OF get inv'] ho to by simp
qed


section \<open>Constructors, clear, copy and assignment\<close>

lemma sz_clear_spec:
  assumes "sz_inv s"
  shows "sz_inv (sz_clear s)" and "sz_data (sz_clear s) = []" and "sz_to (sz_clear s) = 0"
    and "sz_ho (sz_clear s) = 0"
  using assms by (auto simp: sz_inv_def sz_clear_def sz_data_def sz_off_def)

lemma length_fresh_block [simp]: "a \<noteq> 0 \<Longrightarrow> length (fresh_block env a n) = unat n"
  by (simp add: fresh_block_def)

lemma serializer_new_size_spec:
  assumes "env_alloc env False n \<noteq> 0" and "unat n < 2 ^ 31"
  shows "sz_inv (serializer_new_size env n)" and "sz_data (serializer_new_size env n) = []"
    and "sz_room (serializer_new_size env n) = unat n"
  using assms by (auto simp: serializer_new_size_def Let_def sz_inv_def sz_data_def sz_off_def)

lemma sz_read_data:
  assumes inv: "sz_inv s"
  shows "sz_read s (sz_headPtr s) (unat (sz_tailPtr s - sz_headPtr s)) = Some (sz_data s)"
  using unat_sz_size [OF inv] sz_invD [OF inv]
  by (simp add: sz_read_def mem_simps sz_data_def sz_size_def)

lemma serializer_copy_spec:
  assumes inv: "sz_inv s" and a: "env_alloc env False (sz_bufferSize s) \<noteq> 0"
  obtains c where "serializer_copy env s = Some c" "sz_inv c" "sz_data c = sz_data s"
    "sz_referenceCounter c = 0" "sz_useHeap c = sz_useHeap s" "sz_fromHeap c = False"
    "sz_bufferPtr c = env_alloc env False (sz_bufferSize s)" "sz_bufferSize c = sz_bufferSize s"
    "sz_ho c = sz_ho s" "sz_to c = sz_to s"
proof -
  let ?a = "env_alloc env False (sz_bufferSize s)"
  let ?blk = "fresh_block env ?a (sz_bufferSize s)"
  let ?c = "\<lparr> sz_referenceCounter = 0, sz_bufferPtr = ?a, sz_bufferSize = sz_bufferSize s,
                sz_headPtr = ?a + (sz_headPtr s - sz_bufferPtr s),
                sz_tailPtr = ?a + (sz_tailPtr s - sz_bufferPtr s),
                sz_useHeap = sz_useHeap s, sz_heap = sz_heap s,
                sz_mem = ?blk, sz_fromHeap = False \<rparr>"
  let ?m = "take (sz_ho s) ?blk @ sz_data s @ drop (sz_ho s + length (sz_data s)) ?blk"
  note I = sz_invD [OF inv] and L = length_sz_data [OF inv]
  have off: "sz_ho ?c = sz_ho s" "sz_to ?c = sz_to s" by (simp_all add: sz_off_def)
  have "mem_write ?blk (sz_ho s) (sz_data s) = Some ?m"
    using I L a by (simp add: mem_simps)
  then have w: "sz_write ?c (sz_headPtr ?c) (sz_data s) = Some (?c\<lparr>sz_mem := ?m\<rparr>)"
    unfolding sz_write_def off by simp
  have ml: "length ?m = unat (sz_bufferSize s)" using I L a by simp
  have "serializer_copy env s = Some (?c\<lparr>sz_mem := ?m\<rparr>)"
    using w by (simp add: serializer_copy_def Let_def sz_read_data [OF inv])
  moreover have "sz_inv (?c\<lparr>sz_mem := ?m\<rparr>)"
    using I ml off by (simp add: sz_inv_def sz_off_def)
  moreover have "sz_data (?c\<lparr>sz_mem := ?m\<rparr>) = sz_data s"
  proof -
    have o: "sz_ho (?c\<lparr>sz_mem := ?m\<rparr>) = sz_ho s" "sz_to (?c\<lparr>sz_mem := ?m\<rparr>) = sz_to s"
      "sz_mem (?c\<lparr>sz_mem := ?m\<rparr>) = ?m" by (simp_all add: sz_off_def)
    show ?thesis unfolding sz_data_def [of "?c\<lparr>sz_mem := ?m\<rparr>"] o using I L a by simp
  qed
  moreover have "sz_ho (?c\<lparr>sz_mem := ?m\<rparr>) = sz_ho s" "sz_to (?c\<lparr>sz_mem := ?m\<rparr>) = sz_to s" by (simp_all add: sz_off_def)
  ultimately show thesis by (intro that [of "?c\<lparr>sz_mem := ?m\<rparr>"]) simp_all
qed

lemma sz_resize_cleared:
  assumes "sz_useHeap s = sz_fromHeap s" and "env_alloc env (sz_useHeap s) n \<noteq> 0"
  shows "sz_resize env (sz_clear s) n =
    Some (s\<lparr>sz_headPtr := env_alloc env (sz_useHeap s) n, sz_tailPtr := sz_bufferPtr s,
           sz_bufferSize := n, sz_bufferPtr := env_alloc env (sz_useHeap s) n,
           sz_mem := fresh_block env (env_alloc env (sz_useHeap s) n) n,
           sz_fromHeap := sz_useHeap s\<rparr>)"
  using assms by (auto simp: sz_resize_def sz_clear_def Let_def sz_read_def sz_off_def mem_read_def mem_write_def)

lemma serializer_assign_spec:
  assumes inv: "sz_inv v" and uh: "sz_useHeap s = sz_fromHeap s"
    and a: "env_alloc env (sz_useHeap s) (sz_bufferSize v) \<noteq> 0"
  obtains c where "serializer_assign env False s v = Some c" "sz_inv c" "sz_data c = sz_data v"
    "sz_referenceCounter c = sz_referenceCounter s"
proof -
  let ?a = "env_alloc env (sz_useHeap s) (sz_bufferSize v)"
  let ?c = "s\<lparr>sz_headPtr := ?a + (sz_headPtr v - sz_bufferPtr v),
              sz_tailPtr := ?a + (sz_tailPtr v - sz_bufferPtr v),
              sz_bufferSize := sz_bufferSize v, sz_bufferPtr := ?a, sz_mem := sz_mem v,
              sz_fromHeap := sz_useHeap s\<rparr>"
  note I = sz_invD [OF inv]
  have off: "sz_ho ?c = sz_ho v" "sz_to ?c = sz_to v" by (simp_all add: sz_off_def)
  have "serializer_assign env False s v = Some ?c"
    using I a by (simp add: serializer_assign_def sz_resize_cleared [OF uh a] sz_read_def sz_write_def
        sz_off_def mem_read_def mem_write_def Let_def)
  moreover have "sz_inv ?c" using I off by (simp add: sz_inv_def)
  moreover have "sz_data ?c = sz_data v" unfolding sz_data_def off by simp
  ultimately show thesis by (rule that) simp
qed

section \<open>Growing loses the tail\<close>

lemma sz_resize_tail:
  assumes "sz_resize env s n = Some s'"
  shows "sz_tailPtr s' = sz_tailPtr s" and "sz_headPtr s' = sz_bufferPtr s'"
    and "sz_bufferPtr s' = env_alloc env (sz_useHeap s) n" and "sz_bufferSize s' = n"
    and "length (sz_mem s') \<le> unat n"
proof -
  obtain x m where "mem_write (fresh_block env (env_alloc env (sz_useHeap s) n) n) 0 x = Some m"
    and s': "s' = s\<lparr>sz_headPtr := env_alloc env (sz_useHeap s) n, sz_tailPtr := sz_tailPtr s,
       sz_bufferSize := n, sz_bufferPtr := env_alloc env (sz_useHeap s) n, sz_mem := m,
       sz_fromHeap := sz_useHeap s\<rparr>"
    using assms by (cases "sz_useHeap s") (auto simp: sz_resize_def Let_def split: if_splits bind_splits)
  then have "length m \<le> unat n"
    by (auto dest: mem_write_length simp: fresh_block_def)
  then show "sz_tailPtr s' = sz_tailPtr s" "sz_headPtr s' = sz_bufferPtr s'"
    "sz_bufferPtr s' = env_alloc env (sz_useHeap s) n" "sz_bufferSize s' = n"
    "length (sz_mem s') \<le> unat n"
    by (simp_all add: s')
qed

lemma sz_put_grow_faults:
  assumes inv: "sz_inv s" and n: "sz_room s < length bs" "length bs < 2 ^ 31"
    and out: "unat (sz_bufferSize s * 2) < unat (sz_tailPtr s - env_alloc env (sz_useHeap s) (sz_bufferSize s * 2))"
  shows "sz_put env s bs = None"
proof -
  let ?n = "of_nat (length bs) :: u64"
  have "sz_useableSize s < ?n"
    using n unat_sz_useableSize [OF inv] by (simp add: word_less_nat_alt unat_of_nat)
  then have g: "sz_grow env ?n s = Option.bind (sz_resize env s (sz_bufferSize s * 2)) (sz_grow env ?n)"
    by (simp add: sz_grow.simps [of env ?n s])
  show ?thesis
  proof (cases "sz_resize env s (sz_bufferSize s * 2)")
    case None
    then show ?thesis by (simp add: sz_put_def g)
  next
    case (Some s1)
    note R = sz_resize_tail [OF Some]
    have big: "length (sz_mem s1) < sz_off s1 (sz_tailPtr s1)"
      using out R by (simp add: sz_off_def)
    have "sz_resize env s1 m = None" for m
      using big R(2) by (simp add: sz_resize_def Let_def sz_read_def mem_read_def sz_off_def)
    then have "sz_grow env ?n s1 = None \<or> sz_grow env ?n s1 = Some s1"
      by (simp add: sz_grow.simps [of env ?n s1])
    moreover have "sz_write s1 (sz_tailPtr s1) bs = None"
      using big by (simp add: sz_write_def mem_write_def)
    ultimately show ?thesis using Some by (auto simp: sz_put_def g)
  qed
qed

end
