(* ===== verification/Serializer_Codec.thy ===== *)
theory Serializer_Codec
  imports Serializer
begin

text \<open>
  The stream operators of \<open>serializer.cpp\<close> and the string members of \<open>serializer.h\<close>. Every
  \<open><<\<close> makes room, copies the bytes of its argument to \<open>tailPtr\<close> and moves \<open>tailPtr\<close>; every \<open>>>\<close>
  copies the bytes at \<open>headPtr\<close> and moves \<open>headPtr\<close>, without a test of how many are stored.
  A \<open>float\<close> or \<open>double\<close> is its bit pattern. The interface \<open>marshal\<close> is what a typed
  pair of operators promises; each pair is an instance of it.
\<close>

section \<open>Stream output\<close>

definition shl_bool :: "mem_env \<Rightarrow> serializer \<Rightarrow> bool \<Rightarrow> serializer option" where
  "shl_bool env s v = sz_put env s (le_bytes 1 (if v then 1 else 0 :: byte))"

definition shl_char :: "mem_env \<Rightarrow> serializer \<Rightarrow> byte \<Rightarrow> serializer option" where
  "shl_char env s v = sz_put env s (le_bytes 1 v)"

definition shl_uchar :: "mem_env \<Rightarrow> serializer \<Rightarrow> byte \<Rightarrow> serializer option" where
  "shl_uchar env s v = sz_put env s (le_bytes 1 v)"

definition shl_wchar :: "mem_env \<Rightarrow> serializer \<Rightarrow> u16 \<Rightarrow> serializer option" where
  "shl_wchar env s v = sz_put env s (le_bytes 2 v)"

definition shl_short :: "mem_env \<Rightarrow> serializer \<Rightarrow> u16 \<Rightarrow> serializer option" where
  "shl_short env s v = sz_put env s (le_bytes 2 v)"

definition shl_ushort :: "mem_env \<Rightarrow> serializer \<Rightarrow> u16 \<Rightarrow> serializer option" where
  "shl_ushort env s v = sz_put env s (le_bytes 2 v)"

definition shl_int :: "mem_env \<Rightarrow> serializer \<Rightarrow> u32 \<Rightarrow> serializer option" where
  "shl_int env s v = sz_put env s (le_bytes 4 v)"

definition shl_uint :: "mem_env \<Rightarrow> serializer \<Rightarrow> u32 \<Rightarrow> serializer option" where
  "shl_uint env s v = sz_put env s (le_bytes 4 v)"

definition shl_long :: "mem_env \<Rightarrow> serializer \<Rightarrow> u32 \<Rightarrow> serializer option" where
  "shl_long env s v = sz_put env s (le_bytes 4 v)"

definition shl_ulong :: "mem_env \<Rightarrow> serializer \<Rightarrow> u32 \<Rightarrow> serializer option" where
  "shl_ulong env s v = sz_put env s (le_bytes 4 v)"

definition shl_longlong :: "mem_env \<Rightarrow> serializer \<Rightarrow> u64 \<Rightarrow> serializer option" where
  "shl_longlong env s v = sz_put env s (le_bytes 8 v)"

definition shl_ulonglong :: "mem_env \<Rightarrow> serializer \<Rightarrow> u64 \<Rightarrow> serializer option" where
  "shl_ulonglong env s v = sz_put env s (le_bytes 8 v)"

definition shl_float :: "mem_env \<Rightarrow> serializer \<Rightarrow> u32 \<Rightarrow> serializer option" where
  "shl_float env s v = sz_put env s (le_bytes 4 v)"

definition shl_double :: "mem_env \<Rightarrow> serializer \<Rightarrow> u64 \<Rightarrow> serializer option" where
  "shl_double env s v = sz_put env s (le_bytes 8 v)"

text \<open>A string is its length as an \<open>int\<close>, followed by its bytes.\<close>

definition shl_string :: "mem_env \<Rightarrow> serializer \<Rightarrow> byte list \<Rightarrow> serializer option" where
  "shl_string env s v =
     (let len :: u32 = of_nat (length v)
      in do { s1 \<leftarrow> sz_grow env (scast len + 4) s;
              s2 \<leftarrow> sz_write s1 (sz_tailPtr s1) (le_bytes 4 len);
              (let s3 = fst (sz_moveRear s2 4)
               in do { s4 \<leftarrow> sz_write s3 (sz_tailPtr s3) v;
                       Some (fst (sz_moveRear s4 len)) }) })"

section \<open>Stream input\<close>

definition shr_bool :: "serializer \<Rightarrow> (serializer \<times> bool) option" where
  "shr_bool s = map_option (\<lambda>(s', x). (s', (le_word x :: byte) \<noteq> 0)) (sz_get s 1)"

definition shr_char :: "serializer \<Rightarrow> (serializer \<times> byte) option" where
  "shr_char s = map_option (\<lambda>(s', x). (s', le_word x)) (sz_get s 1)"

definition shr_uchar :: "serializer \<Rightarrow> (serializer \<times> byte) option" where
  "shr_uchar s = map_option (\<lambda>(s', x). (s', le_word x)) (sz_get s 1)"

definition shr_wchar :: "serializer \<Rightarrow> (serializer \<times> u16) option" where
  "shr_wchar s = map_option (\<lambda>(s', x). (s', le_word x)) (sz_get s 2)"

definition shr_short :: "serializer \<Rightarrow> (serializer \<times> u16) option" where
  "shr_short s = map_option (\<lambda>(s', x). (s', le_word x)) (sz_get s 2)"

definition shr_ushort :: "serializer \<Rightarrow> (serializer \<times> u16) option" where
  "shr_ushort s = map_option (\<lambda>(s', x). (s', le_word x)) (sz_get s 2)"

definition shr_int :: "serializer \<Rightarrow> (serializer \<times> u32) option" where
  "shr_int s = map_option (\<lambda>(s', x). (s', le_word x)) (sz_get s 4)"

definition shr_uint :: "serializer \<Rightarrow> (serializer \<times> u32) option" where
  "shr_uint s = map_option (\<lambda>(s', x). (s', le_word x)) (sz_get s 4)"

definition shr_long :: "serializer \<Rightarrow> (serializer \<times> u32) option" where
  "shr_long s = map_option (\<lambda>(s', x). (s', le_word x)) (sz_get s 4)"

definition shr_ulong :: "serializer \<Rightarrow> (serializer \<times> u32) option" where
  "shr_ulong s = map_option (\<lambda>(s', x). (s', le_word x)) (sz_get s 4)"

definition shr_longlong :: "serializer \<Rightarrow> (serializer \<times> u64) option" where
  "shr_longlong s = map_option (\<lambda>(s', x). (s', le_word x)) (sz_get s 8)"

definition shr_ulonglong :: "serializer \<Rightarrow> (serializer \<times> u64) option" where
  "shr_ulonglong s = map_option (\<lambda>(s', x). (s', le_word x)) (sz_get s 8)"

definition shr_float :: "serializer \<Rightarrow> (serializer \<times> u32) option" where
  "shr_float s = map_option (\<lambda>(s', x). (s', le_word x)) (sz_get s 4)"

definition shr_double :: "serializer \<Rightarrow> (serializer \<times> u64) option" where
  "shr_double s = map_option (\<lambda>(s', x). (s', le_word x)) (sz_get s 8)"

definition shr_string :: "serializer \<Rightarrow> (serializer \<times> byte list) option" where
  "shr_string s =
     do { x \<leftarrow> sz_read s (sz_headPtr s) 4;
          (let len :: u32 = le_word x; s1 = fst (sz_moveFront s 4)
           in do { v \<leftarrow> sz_read s1 (sz_headPtr s1) (unat (scast len :: u64));
                   Some (fst (sz_moveFront s1 len), v) }) }"

section \<open>Strings of a given length\<close>

text \<open>
  \<open>memcpy_s\<close> with a count above the size of the destination calls the invalid-parameter
  handler, which ends the process.
\<close>

definition memcpy_s :: "u64 \<Rightarrow> byte list \<Rightarrow> byte list option" where
  "memcpy_s cap x = (if length x \<le> unat cap then Some x else None)"

definition wchar_bytes :: "u16 list \<Rightarrow> byte list" where
  "wchar_bytes ws = concat (map (le_bytes 2) ws)"

definition sz_getString :: "serializer \<Rightarrow> u32 \<Rightarrow> (serializer \<times> byte list) option" where
  "sz_getString s len =
     do { x \<leftarrow> sz_read s (sz_headPtr s) (unat (sz_size s));
          y \<leftarrow> memcpy_s (scast len) x;
          Some (fst (sz_moveFront s len), y) }"

definition sz_setString :: "serializer \<Rightarrow> byte list \<Rightarrow> u32 \<Rightarrow> serializer option" where
  "sz_setString s str len =
     do { x \<leftarrow> mem_read str 0 (unat (scast len :: u64));
          y \<leftarrow> memcpy_s (sz_useableSize s) x;
          s1 \<leftarrow> sz_write s (sz_tailPtr s) y;
          Some (fst (sz_moveRear s1 len)) }"

definition sz_getWstring :: "serializer \<Rightarrow> u32 \<Rightarrow> (serializer \<times> byte list) option" where
  "sz_getWstring s len =
     do { x \<leftarrow> sz_read s (sz_headPtr s) (unat (sz_size s));
          y \<leftarrow> memcpy_s (2 * scast len) x;
          Some (fst (sz_moveFront s (ucast (2 * scast len :: u64))), y) }"

definition sz_setWstring :: "serializer \<Rightarrow> u16 list \<Rightarrow> u32 \<Rightarrow> serializer option" where
  "sz_setWstring s wstr len =
     do { x \<leftarrow> mem_read (wchar_bytes wstr) 0 (unat (2 * scast len :: u64));
          y \<leftarrow> memcpy_s (sz_useableSize s) x;
          s1 \<leftarrow> sz_write s (sz_tailPtr s) y;
          Some (fst (sz_moveRear s1 (ucast (2 * scast len :: u64)))) }"

section \<open>The interface of a typed pair of operators\<close>

locale marshal =
  fixes inv :: "'s \<Rightarrow> bool" and data :: "'s \<Rightarrow> byte list" and room :: "'s \<Rightarrow> nat"
    and enc :: "'v \<Rightarrow> byte list"
    and shl :: "'s \<Rightarrow> 'v \<Rightarrow> 's option" and shr :: "'s \<Rightarrow> ('s \<times> 'v) option"
  assumes shl_law: "inv s \<Longrightarrow> length (enc v) \<le> room s \<Longrightarrow>
      \<exists>s'. shl s v = Some s' \<and> inv s' \<and> data s' = data s @ enc v \<and> room s' = room s - length (enc v)"
    and shr_law: "inv s \<Longrightarrow> data s = enc v @ rest \<Longrightarrow>
      \<exists>s'. shr s = Some (s', v) \<and> inv s' \<and> data s' = rest \<and> room s' = room s"
begin

lemma shlE:
  assumes "inv s" and "length (enc v) \<le> room s"
  obtains s' where "shl s v = Some s'" "inv s'" "data s' = data s @ enc v" "room s' = room s - length (enc v)"
  using shl_law [OF assms] by blast

lemma shrE:
  assumes "inv s" and "data s = enc v @ rest"
  obtains s' where "shr s = Some (s', v)" "inv s'" "data s' = rest" "room s' = room s"
  using shr_law [OF assms] by blast

lemma roundtrip:
  assumes "inv s" "data s = []" "length (enc v) \<le> room s"
  shows "\<exists>s1 s2. shl s v = Some s1 \<and> shr s1 = Some (s2, v) \<and> data s2 = []"
proof -
  obtain s1 where s1: "shl s v = Some s1" "inv s1" "data s1 = enc v @ []"
    using assms by (auto elim: shlE)
  obtain s2 where "shr s1 = Some (s2, v)" "data s2 = []" by (rule shrE [OF s1(2,3)])
  with s1 show ?thesis by blast
qed

lemma roundtrip2:
  assumes "inv s" "data s = []" "length (enc v) + length (enc w) \<le> room s"
  shows "\<exists>s1 s2 s3 s4. shl s v = Some s1 \<and> shl s1 w = Some s2 \<and>
    shr s2 = Some (s3, v) \<and> shr s3 = Some (s4, w) \<and> data s4 = []"
proof -
  obtain s1 where s1: "shl s v = Some s1" "inv s1" "data s1 = enc v" "room s1 = room s - length (enc v)"
    using assms shlE [of s v] by auto
  obtain s2 where s2: "shl s1 w = Some s2" "inv s2" "data s2 = enc v @ enc w"
    using shlE [OF s1(2), of w] s1(3,4) assms(3) by (metis add_le_imp_le_diff add.commute)
  obtain s3 where s3: "shr s2 = Some (s3, v)" "inv s3" "data s3 = enc w @ []"
    using shrE [OF s2(2,3)] by auto
  obtain s4 where "shr s3 = Some (s4, w)" "data s4 = []" using shrE [OF s3(2,3)] by auto
  with s1 s2 s3 show ?thesis by blast
qed

end

lemma marshal_word:
  assumes le: "\<And>v :: 'a::len word. le_word (le_bytes k v) = v"
  shows "marshal sz_inv sz_data (\<lambda>s. sz_room s) (le_bytes k :: 'a word \<Rightarrow> byte list)
    (\<lambda>s v. sz_put env s (le_bytes k v)) (\<lambda>s. map_option (\<lambda>(s', x). (s', le_word x)) (sz_get s k))"
proof unfold_locales
  fix s and v :: "'a word" and rest
  assume inv: "sz_inv s"
  show "\<exists>s'. sz_put env s (le_bytes k v) = Some s' \<and> sz_inv s' \<and> sz_data s' = sz_data s @ le_bytes k v \<and>
      sz_room s' = sz_room s - length (le_bytes k v)" if "length (le_bytes k v) \<le> sz_room s"
    using that by (auto intro: sz_put_spec [OF inv, of "le_bytes k v" env])
  show "\<exists>s'. map_option (\<lambda>(s', x). (s', le_word x)) (sz_get s k) = Some (s', v) \<and> sz_inv s' \<and>
      sz_data s' = rest \<and> sz_room s' = sz_room s" if d: "sz_data s = le_bytes k v @ rest"
  proof -
    have "k \<le> sz_to s - sz_ho s" using d length_sz_data [OF inv] by simp
    then obtain s' where "sz_get s k = Some (s', take k (sz_data s))" "sz_inv s'" "sz_data s' = drop k (sz_data s)"
      "sz_to s' = sz_to s" "sz_bufferSize s' = sz_bufferSize s"
      by (rule sz_get_spec [OF inv])
    then show ?thesis using d le by simp
  qed
qed

interpretation m_char: marshal sz_inv sz_data "\<lambda>s. sz_room s" "le_bytes 1 :: byte \<Rightarrow> byte list"
  "shl_char env" "shr_char" for env
  unfolding shl_char_def shr_char_def by (rule marshal_word, rule le_word_le_bytes_8)

interpretation m_uchar: marshal sz_inv sz_data "\<lambda>s. sz_room s" "le_bytes 1 :: byte \<Rightarrow> byte list"
  "shl_uchar env" "shr_uchar" for env
  unfolding shl_uchar_def shr_uchar_def by (rule marshal_word, rule le_word_le_bytes_8)

interpretation m_wchar: marshal sz_inv sz_data "\<lambda>s. sz_room s" "le_bytes 2 :: u16 \<Rightarrow> byte list"
  "shl_wchar env" "shr_wchar" for env
  unfolding shl_wchar_def shr_wchar_def by (rule marshal_word, rule le_word_le_bytes_16)

interpretation m_short: marshal sz_inv sz_data "\<lambda>s. sz_room s" "le_bytes 2 :: u16 \<Rightarrow> byte list"
  "shl_short env" "shr_short" for env
  unfolding shl_short_def shr_short_def by (rule marshal_word, rule le_word_le_bytes_16)

interpretation m_ushort: marshal sz_inv sz_data "\<lambda>s. sz_room s" "le_bytes 2 :: u16 \<Rightarrow> byte list"
  "shl_ushort env" "shr_ushort" for env
  unfolding shl_ushort_def shr_ushort_def by (rule marshal_word, rule le_word_le_bytes_16)

interpretation m_int: marshal sz_inv sz_data "\<lambda>s. sz_room s" "le_bytes 4 :: u32 \<Rightarrow> byte list"
  "shl_int env" "shr_int" for env
  unfolding shl_int_def shr_int_def by (rule marshal_word, rule le_word_le_bytes_32)

interpretation m_uint: marshal sz_inv sz_data "\<lambda>s. sz_room s" "le_bytes 4 :: u32 \<Rightarrow> byte list"
  "shl_uint env" "shr_uint" for env
  unfolding shl_uint_def shr_uint_def by (rule marshal_word, rule le_word_le_bytes_32)

interpretation m_long: marshal sz_inv sz_data "\<lambda>s. sz_room s" "le_bytes 4 :: u32 \<Rightarrow> byte list"
  "shl_long env" "shr_long" for env
  unfolding shl_long_def shr_long_def by (rule marshal_word, rule le_word_le_bytes_32)

interpretation m_ulong: marshal sz_inv sz_data "\<lambda>s. sz_room s" "le_bytes 4 :: u32 \<Rightarrow> byte list"
  "shl_ulong env" "shr_ulong" for env
  unfolding shl_ulong_def shr_ulong_def by (rule marshal_word, rule le_word_le_bytes_32)

interpretation m_longlong: marshal sz_inv sz_data "\<lambda>s. sz_room s" "le_bytes 8 :: u64 \<Rightarrow> byte list"
  "shl_longlong env" "shr_longlong" for env
  unfolding shl_longlong_def shr_longlong_def by (rule marshal_word, rule le_word_le_bytes_64)

interpretation m_ulonglong: marshal sz_inv sz_data "\<lambda>s. sz_room s" "le_bytes 8 :: u64 \<Rightarrow> byte list"
  "shl_ulonglong env" "shr_ulonglong" for env
  unfolding shl_ulonglong_def shr_ulonglong_def by (rule marshal_word, rule le_word_le_bytes_64)

interpretation m_float: marshal sz_inv sz_data "\<lambda>s. sz_room s" "le_bytes 4 :: u32 \<Rightarrow> byte list"
  "shl_float env" "shr_float" for env
  unfolding shl_float_def shr_float_def by (rule marshal_word, rule le_word_le_bytes_32)

interpretation m_double: marshal sz_inv sz_data "\<lambda>s. sz_room s" "le_bytes 8 :: u64 \<Rightarrow> byte list"
  "shl_double env" "shr_double" for env
  unfolding shl_double_def shr_double_def by (rule marshal_word, rule le_word_le_bytes_64)

interpretation m_bool: marshal sz_inv sz_data "\<lambda>s. sz_room s" "\<lambda>v. le_bytes 1 (if v then 1 else 0 :: byte)"
  "shl_bool env" "shr_bool" for env
proof unfold_locales
  fix s and v :: bool and rest
  let ?b = "if v then 1 else 0 :: byte"
  assume inv: "sz_inv s"
  show "\<exists>s'. shl_bool env s v = Some s' \<and> sz_inv s' \<and> sz_data s' = sz_data s @ le_bytes 1 ?b \<and>
      sz_room s' = sz_room s - length (le_bytes 1 ?b)" if "length (le_bytes 1 ?b) \<le> sz_room s"
    using m_char.shl_law [OF inv that] by (simp add: shl_bool_def shl_char_def)
  show "\<exists>s'. shr_bool s = Some (s', v) \<and> sz_inv s' \<and> sz_data s' = rest \<and> sz_room s' = sz_room s"
    if "sz_data s = le_bytes 1 ?b @ rest"
    using m_char.shr_law [OF inv that] by (auto simp: shr_bool_def shr_char_def)
qed

definition string_enc :: "byte list \<Rightarrow> byte list" where
  "string_enc v = le_bytes 4 (of_nat (length v) :: u32) @ v"

lemma shl_string_spec:
  assumes inv: "sz_inv s" and n: "length (string_enc v) \<le> sz_room s"
  obtains s' where "shl_string env s v = Some s'" "sz_inv s'" "sz_data s' = sz_data s @ string_enc v"
    "sz_room s' = sz_room s - length (string_enc v)"
proof -
  let ?len = "of_nat (length v) :: u32"
  let ?h = "le_bytes 4 ?len"
  have l: "length v + 4 \<le> sz_room s" using n by (simp add: string_enc_def)
  then have l31: "length v < 2 ^ 31" using sz_invD(4) [OF inv] by simp
  then have ul: "unat ?len = length v" by (simp add: unat_of_nat)
  have sc: "unat (scast ?len :: u64) = length v"
    using unat_scast_small [of ?len] l31 by (simp add: ul)
  have "unat (scast ?len + 4 :: u64) = length v + 4"
    using sc l31 by (subst unat_add_small) simp_all
  then have g: "sz_grow env (scast ?len + 4) s = Some s"
    using l by (intro sz_grow_fits) (simp add: word_le_nat_alt unat_sz_useableSize [OF inv])
  have h: "length ?h \<le> sz_room s" using l by simp
  note W = sz_write_tail_spec [OF inv h]
  obtain s2 where s2: "sz_write s (sz_tailPtr s) ?h = Some s2"
    using W(1) by (auto split: bind_splits)
  define s3 where "s3 = fst (sz_moveRear s2 4)"
  have w1: "do { s2 \<leftarrow> sz_write s (sz_tailPtr s) ?h; Some (fst (sz_moveRear s2 4)) } = Some s3"
    by (simp add: s2 s3_def)
  have I3: "sz_inv s3" "sz_data s3 = sz_data s @ ?h" "sz_to s3 = sz_to s + 4" "sz_bufferSize s3 = sz_bufferSize s"
    using W w1 by auto
  have v: "length v \<le> sz_room s3" using l I3 by simp
  note V = sz_write_tail_spec [OF I3(1) v]
  obtain s4 where s4: "sz_write s3 (sz_tailPtr s3) v = Some s4"
    using V(1) by (auto split: bind_splits)
  define s5 where "s5 = fst (sz_moveRear s4 ?len)"
  have I5: "sz_inv s5" "sz_data s5 = sz_data s3 @ v" "sz_to s5 = sz_to s3 + length v" "sz_bufferSize s5 = sz_bufferSize s3"
    using V s4 by (auto simp: s5_def)
  have "shl_string env s v = Some s5"
    by (simp add: shl_string_def Let_def g s2 s3_def [symmetric] s4 s5_def [symmetric])
  moreover have "sz_data s5 = sz_data s @ string_enc v" using I5(2) I3(2) by (simp add: string_enc_def)
  moreover have "sz_room s5 = sz_room s - length (string_enc v)"
    by (simp add: I5(3,4) I3(3,4) string_enc_def)
  ultimately show thesis using that I5(1) by blast
qed

lemma shr_string_spec:
  assumes inv: "sz_inv s" and d: "sz_data s = string_enc v @ rest"
  obtains s' where "shr_string s = Some (s', v)" "sz_inv s'" "sz_data s' = rest" "sz_room s' = sz_room s"
proof -
  let ?len = "of_nat (length v) :: u32"
  have l: "length v + 4 \<le> sz_to s - sz_ho s"
    using d length_sz_data [OF inv] by (simp add: string_enc_def)
  then have l31: "length v < 2 ^ 31" using sz_invD(2,4) [OF inv] by simp
  then have ul: "unat ?len = length v" by (simp add: unat_of_nat)
  have sc: "unat (scast ?len :: u64) = length v"
    using unat_scast_small [of ?len] l31 by (simp add: ul)
  have "4 \<le> sz_to s - sz_ho s" using l by simp
  then obtain s1 where s1: "sz_get s 4 = Some (s1, take 4 (sz_data s))" "sz_inv s1"
    "sz_data s1 = drop 4 (sz_data s)" "sz_ho s1 = sz_ho s + 4" "sz_to s1 = sz_to s" "sz_bufferSize s1 = sz_bufferSize s"
    by (rule sz_get_spec [OF inv])
  have "length v \<le> sz_to s1 - sz_ho s1" using l s1 by simp
  then obtain s2 where s2: "sz_get s1 (length v) = Some (s2, take (length v) (sz_data s1))" "sz_inv s2"
    "sz_data s2 = drop (length v) (sz_data s1)" "sz_to s2 = sz_to s1" "sz_bufferSize s2 = sz_bufferSize s1"
    by (rule sz_get_spec [OF s1(2)])
  have r1: "sz_read s (sz_headPtr s) 4 = Some (le_bytes 4 ?len)" "fst (sz_moveFront s 4) = s1"
    using s1(1) d by (auto simp: sz_get_def string_enc_def split: bind_splits)
  have r2: "sz_read s1 (sz_headPtr s1) (length v) = Some v" "fst (sz_moveFront s1 ?len) = s2"
    using s2(1) s1(3) d by (auto simp: sz_get_def string_enc_def split: bind_splits)
  have "shr_string s = Some (s2, v)"
    by (simp add: shr_string_def Let_def r1 r2 sc)
  moreover have "sz_data s2 = rest" using s2(3) s1(3) d by (simp add: string_enc_def)
  moreover have "sz_room s2 = sz_room s" by (simp add: s2(4,5) s1(5,6))
  ultimately show thesis using that s2(2) by blast
qed

interpretation m_string: marshal sz_inv sz_data "\<lambda>s. sz_room s" string_enc "shl_string env" shr_string for env
proof unfold_locales
  fix s v rest
  assume inv: "sz_inv s"
  show "\<exists>s'. shl_string env s v = Some s' \<and> sz_inv s' \<and> sz_data s' = sz_data s @ string_enc v \<and>
      sz_room s' = sz_room s - length (string_enc v)" if "length (string_enc v) \<le> sz_room s"
    using shl_string_spec [OF inv that, of env] by metis
  show "\<exists>s'. shr_string s = Some (s', v) \<and> sz_inv s' \<and> sz_data s' = rest \<and> sz_room s' = sz_room s"
    if "sz_data s = string_enc v @ rest"
    using shr_string_spec [OF inv that] by metis
qed

section \<open>Every pair of operators\<close>

text \<open>Writing \<open>v\<close> and reading it back: the value comes back and nothing is left.\<close>

definition comes_back :: "(serializer \<Rightarrow> 'v \<Rightarrow> serializer option) \<Rightarrow> (serializer \<Rightarrow> (serializer \<times> 'v) option) \<Rightarrow> serializer \<Rightarrow> 'v \<Rightarrow> bool" where
  "comes_back shl shr s v \<longleftrightarrow> (\<exists>s1 s2. shl s v = Some s1 \<and> shr s1 = Some (s2, v) \<and> sz_data s2 = [])"

lemmas all_roundtrips = m_bool.roundtrip m_char.roundtrip m_uchar.roundtrip m_wchar.roundtrip m_short.roundtrip m_ushort.roundtrip
  m_int.roundtrip m_uint.roundtrip m_long.roundtrip m_ulong.roundtrip m_longlong.roundtrip m_ulonglong.roundtrip
  m_float.roundtrip m_double.roundtrip m_string.roundtrip

end
