(* ===== verification/Packet_Crypto.thy ===== *)
theory Packet_Crypto
  imports Serializer_Codec
begin

text \<open>
  The header, checksum and stream cipher members of \<open>serializer.h\<close>: \<open>setHeader\<close>,
  \<open>encryption\<close> and \<open>decryption\<close>. The arithmetic on \<open>char\<close> is written with C's promotion
  to \<open>int\<close> and the cut back to eight bits; the lemmas show that it is plain arithmetic on
  bytes, that decrypting inverts encrypting, and that the checksum of a packet set up by
  \<open>setHeader\<close> is accepted.
\<close>

section \<open>Header and checksum\<close>

definition sz_getHeader :: "serializer \<Rightarrow> networkHeader option" where
  "sz_getHeader s = map_option nh_of_bytes (sz_read s (sz_bufferPtr s) 5)"

definition setHeader3 :: "serializer \<Rightarrow> u16 \<Rightarrow> byte \<Rightarrow> byte \<Rightarrow> serializer option" where
  "setHeader3 s psize key checkSum =
     do { s1 \<leftarrow> sz_write s (sz_getHeadPtr s - 5) (nh_bytes (networkHeader_new psize key checkSum));
          Some (fst (sz_moveFront s1 (-5))) }"

text \<open>How often \<open>for (int i = 0; i < n; i++)\<close> runs.\<close>

definition loop_count :: "u32 \<Rightarrow> nat" where
  "loop_count n = nat (sint n)"

fun checksum_add :: "byte \<Rightarrow> byte list \<Rightarrow> byte" where
  "checksum_add cs [] = cs"
| "checksum_add cs (b # bs) = checksum_add (ucast (scast cs + scast b :: u32)) bs"

fun checksum_sub :: "byte \<Rightarrow> byte list \<Rightarrow> byte" where
  "checksum_sub cs [] = cs"
| "checksum_sub cs (b # bs) = checksum_sub (ucast (scast cs - scast b :: u32)) bs"

definition setHeader :: "serializer \<Rightarrow> byte \<Rightarrow> serializer option" where
  "setHeader s key =
     (let payloadSize :: u32 = ucast ((sz_tailPtr s - sz_bufferPtr s) - 5)
      in do { payload \<leftarrow> sz_read s (sz_bufferPtr s + 5) (loop_count payloadSize);
              s1 \<leftarrow> sz_write s (sz_bufferPtr s)
                     (nh_bytes (networkHeader_new (ucast payloadSize) key (checksum_add 0 payload)));
              Some (fst (sz_moveFront s1 (-5))) })"

section \<open>The stream cipher\<close>

fun enc_loop :: "byte \<Rightarrow> byte \<Rightarrow> u32 \<Rightarrow> byte \<Rightarrow> byte \<Rightarrow> byte list \<Rightarrow> byte list" where
  "enc_loop staticKey dynamicKey i pP pE [] = []"
| "enc_loop staticKey dynamicKey i pP pE (t # ts) =
     (let pP1 = ucast (scast t XOR (scast pP + scast dynamicKey + 1 + i) :: u32) :: byte;
          pE1 = ucast (scast pP1 XOR (scast pE + scast staticKey + 1 + i) :: u32) :: byte
      in pE1 # enc_loop staticKey dynamicKey (i + 1) pP1 pE1 ts)"

fun dec_loop :: "byte \<Rightarrow> byte \<Rightarrow> u32 \<Rightarrow> byte \<Rightarrow> byte \<Rightarrow> byte list \<Rightarrow> byte list" where
  "dec_loop staticKey dynamicKey i pP pE [] = []"
| "dec_loop staticKey dynamicKey i pP pE (t # ts) =
     (let p = ucast (scast t XOR (scast pE + scast staticKey + 1 + i) :: u32) :: byte
      in ucast (scast p XOR (scast pP + scast dynamicKey + 1 + i) :: u32)
         # dec_loop staticKey dynamicKey (i + 1) p t ts)"

definition encryption :: "serializer \<Rightarrow> byte \<Rightarrow> serializer option" where
  "encryption s staticKey =
     do { h \<leftarrow> sz_getHeader s;
          (let inputSize = loop_count (scast (nh_size h) + 1)
           in do { target \<leftarrow> sz_read s (sz_bufferPtr s + 4) inputSize;
                   sz_write s (sz_bufferPtr s + 4) (enc_loop staticKey (nh_randKey h) 0 0 0 target) }) }"

definition decryption :: "serializer \<Rightarrow> byte \<Rightarrow> (serializer \<times> bool) option" where
  "decryption s staticKey =
     do { h \<leftarrow> sz_getHeader s;
          (let inputSize = loop_count (scast (nh_size h) + 1)
           in do { target \<leftarrow> sz_read s (sz_bufferPtr s + 4) inputSize;
                   s1 \<leftarrow> sz_write s (sz_bufferPtr s + 4) (dec_loop staticKey (nh_randKey h) 0 0 0 target);
                   (let payloadSize = loop_count (ucast ((sz_tailPtr s1 - sz_bufferPtr s1) - 5))
                    in do { payload \<leftarrow> sz_read s1 (sz_bufferPtr s1 + 5) payloadSize;
                            h1 \<leftarrow> sz_getHeader s1;
                            (let cs = checksum_sub (nh_checkSum h1) payload
                             in do { s2 \<leftarrow> sz_write s1 (sz_bufferPtr s1 + 4) [cs];
                                     Some (s2, cs = 0) }) }) }) }"

section \<open>The arithmetic is arithmetic on bytes\<close>

lemma ucast_scast_byte: "ucast (scast (x::byte) :: u32) = x"
  by (rule bit_word_eqI) (simp add: bit_simps)

lemma ucast_xor_byte: "(ucast (a XOR b :: u32) :: byte) = ucast a XOR ucast b"
  by (rule bit_word_eqI) (simp add: bit_simps)

lemma ucast_add_byte: "(ucast (a + b :: u32) :: byte) = ucast a + ucast b"
  by (simp add: word_uint_eq_iff uint_word_ariths unsigned_ucast_eq take_bit_eq_mod mod_simps mod_mod_cancel)

lemma ucast_diff_byte: "(ucast (a - b :: u32) :: byte) = ucast a - ucast b"
  by (simp add: word_uint_eq_iff uint_word_ariths unsigned_ucast_eq take_bit_eq_mod mod_simps mod_mod_cancel)

lemmas byte_arith = ucast_scast_byte ucast_xor_byte ucast_add_byte ucast_diff_byte

lemma checksum_add_sum: "checksum_add cs bs = cs + sum_list bs"
  by (induction bs arbitrary: cs) (simp_all add: byte_arith add.assoc)

lemma checksum_sub_sum: "checksum_sub cs bs = cs - sum_list bs"
  by (induction bs arbitrary: cs) (simp_all add: byte_arith diff_diff_eq)

lemma length_enc_loop [simp]: "length (enc_loop sk dk i pP pE ts) = length ts"
  by (induction ts arbitrary: i pP pE) (simp_all add: Let_def)

lemma length_dec_loop [simp]: "length (dec_loop sk dk i pP pE ts) = length ts"
  by (induction ts arbitrary: i pP pE) (simp_all add: Let_def)

lemma dec_enc_loop: "dec_loop sk dk i pP pE (enc_loop sk dk i pP pE ts) = ts"
  by (induction ts arbitrary: i pP pE) (simp_all add: Let_def byte_arith xor.assoc)

lemma enc_dec_loop: "enc_loop sk dk i pP pE (dec_loop sk dk i pP pE ts) = ts"
  by (induction ts arbitrary: i pP pE) (simp_all add: Let_def byte_arith xor.assoc)

lemma loop_count_small: "unat n < 2 ^ 31 \<Longrightarrow> loop_count n = unat n"
  by (simp only: loop_count_def sint_small nat_int)


section \<open>Effect on the block\<close>

lemma nh_of_bytes_bytes [simp]: "nh_of_bytes (nh_bytes h) = h"
  by (simp add: nh_of_bytes_def nh_bytes_def nth_append)

lemma length_nh_bytes [simp]: "length (nh_bytes h) = 5"
  by (simp add: nh_bytes_def)

lemma sz_off_base [simp]: "sz_off s (sz_bufferPtr s) = 0" "sz_off s (sz_bufferPtr s + k) = unat k"
  by (simp_all add: sz_off_def)

lemma sz_moveFront_back:
  assumes inv: "sz_inv s" and h: "5 \<le> sz_ho s"
  shows "sz_moveFront s (-5) = (s\<lparr>sz_headPtr := sz_headPtr s - 5\<rparr>, -5)"
    and "sz_off s (sz_headPtr s - 5) = sz_ho s - 5"
proof -
  let ?x = "sz_headPtr s - sz_bufferPtr s"
  have x: "unat ?x < 2 ^ 31" "5 \<le> unat ?x"
    using h sz_invD(1,2,4) [OF inv] by (simp_all add: sz_off_def)
  then have le: "5 \<le> ?x" by (simp add: word_le_nat_alt)
  show "sz_off s (sz_headPtr s - 5) = sz_ho s - 5"
  proof -
    have e: "sz_headPtr s - 5 - sz_bufferPtr s = ?x - 5" by simp
    have "unat (?x - 5) = unat ?x - 5" using unat_sub [OF le] by simp
    then show ?thesis by (simp only: sz_off_def e)
  qed
  have sx: "sint ?x = int (unat ?x)"
    using x by (intro sint_small_64) simp
  have "sz_bufferPtr s - sz_headPtr s = - ?x" by simp
  moreover have "sint (- ?x) = - int (unat ?x)"
  proof -
    have "- ?x = word_of_int (- int (unat ?x))" by simp
    moreover have "signed_take_bit 63 (- int (unat ?x)) = - int (unat ?x)"
    proof (rule signed_take_bit_int_eq_self)
      have "int (unat ?x) < int (2 ^ 31)" using x(1) by (simp only: of_nat_less_iff)
      then show "- (2 ^ 63) \<le> - int (unat ?x)" by simp
      have "- int (unat ?x) \<le> 0" by simp
      then show "- int (unat ?x) < 2 ^ 63" by (rule order.strict_trans1) simp
    qed
    moreover have "sint (word_of_int (- int (unat ?x)) :: u64) = signed_take_bit 63 (- int (unat ?x))"
      by (subst sint_sbintrunc') simp
    ultimately show ?thesis by (simp only:)
  qed
  moreover have le5: "5 < uint ?x" if "unat ?x \<noteq> 5"
  proof -
    have "int 5 < int (unat ?x)" using that x(2) by (simp only: of_nat_less_iff)
    then show ?thesis by simp
  qed
  moreover have "unat ?x = 5 \<Longrightarrow> sz_bufferPtr s - sz_headPtr s = -5"
  proof -
    assume "unat ?x = 5"
    then have "?x = of_nat 5" by (rule word_eq_of_nat)
    then have "- ?x = -5" by simp
    then show ?thesis by simp
  qed
  ultimately show "sz_moveFront s (-5) = (s\<lparr>sz_headPtr := sz_headPtr s - 5\<rparr>, -5)"
    using x le5 by (cases "unat ?x = 5") (simp_all add: sz_moveFront_def Let_def)
qed

definition sz_payload :: "serializer \<Rightarrow> byte list" where
  "sz_payload s = take (sz_to s - 5) (drop 5 (sz_mem s))"

lemma payload_size_word:
  assumes inv: "sz_inv s" and t: "5 \<le> sz_to s"
  shows "unat (ucast ((sz_tailPtr s - sz_bufferPtr s) - 5) :: u32) = sz_to s - 5"
    and "loop_count (ucast ((sz_tailPtr s - sz_bufferPtr s) - 5)) = sz_to s - 5"
proof -
  have "(5::u64) \<le> sz_tailPtr s - sz_bufferPtr s" using t by (simp add: word_le_nat_alt sz_off_def)
  then have u: "unat ((sz_tailPtr s - sz_bufferPtr s) - 5) = sz_to s - 5"
    by (simp only: unat_sub sz_off_def) simp
  have lt: "sz_to s - 5 < 2 ^ 31" using sz_invD(2,4) [OF inv] by simp
  show *: "unat (ucast ((sz_tailPtr s - sz_bufferPtr s) - 5) :: u32) = sz_to s - 5"
    using lt by (subst unat_ucast_64_32) (simp_all only: u, simp)
  show "loop_count (ucast ((sz_tailPtr s - sz_bufferPtr s) - 5)) = sz_to s - 5"
    using loop_count_small [of "ucast ((sz_tailPtr s - sz_bufferPtr s) - 5)"] lt * by simp
qed

lemma setHeader_spec:
  fixes key :: byte
  assumes inv: "sz_inv s" and h: "sz_ho s = 5"
  defines "n \<equiv> sz_to s - 5"
  defines "H \<equiv> networkHeader_new (of_nat n) key (sum_list (sz_payload s))"
  obtains s' where "setHeader s key = Some s'" "sz_inv s'" "sz_ho s' = 0" "sz_to s' = sz_to s"
    "sz_mem s' = nh_bytes H @ drop 5 (sz_mem s)" "sz_data s' = nh_bytes H @ sz_data s"
    "sz_bufferPtr s' = sz_bufferPtr s" "sz_bufferSize s' = sz_bufferSize s"
    "sz_referenceCounter s' = sz_referenceCounter s"
proof -
  note I = sz_invD [OF inv]
  let ?p = "ucast ((sz_tailPtr s - sz_bufferPtr s) - 5) :: u32"
  have t: "5 \<le> sz_to s" using I(1) h by simp
  note P = payload_size_word [OF inv t]
  have up: "(ucast ?p :: u16) = of_nat n"
  proof -
    have "(of_nat (unat ?p) :: u16) = ucast ?p" by (rule of_nat_unat)
    then show ?thesis by (simp only: P(1) n_def)
  qed
  have rd: "sz_read s (sz_bufferPtr s + 5) (loop_count ?p) = Some (sz_payload s)"
    unfolding P(2) using I t by (simp add: sz_read_def mem_simps sz_payload_def)
  let ?s1 = "s\<lparr>sz_mem := nh_bytes H @ drop 5 (sz_mem s)\<rparr>"
  have wr: "sz_write s (sz_bufferPtr s) (nh_bytes H) = Some ?s1"
    using I t by (simp add: sz_write_def mem_simps)
  have inv1: "sz_inv ?s1" using inv t by (simp add: sz_inv_def)
  have h1: "5 \<le> sz_ho ?s1" using h by simp
  note M = sz_moveFront_back [OF inv1 h1]
  let ?s' = "?s1\<lparr>sz_headPtr := sz_headPtr s - 5\<rparr>"
  have eq: "setHeader s key = Some ?s'"
    using rd wr M(1) by (simp add: setHeader_def Let_def up checksum_add_sum H_def)
  have o: "sz_ho ?s' = 0" "sz_to ?s' = sz_to s" using M(2) h by simp_all
  have inv': "sz_inv ?s'" using inv1 o by (simp add: sz_inv_def)
  have "sz_data ?s' = take (sz_to s) (nh_bytes H @ drop 5 (sz_mem s))"
    unfolding sz_data_def o by simp
  also have "\<dots> = nh_bytes H @ sz_data s"
    using t h by (simp add: sz_data_def)
  finally show thesis using that [OF eq inv' o] by simp
qed

text \<open>The cipher covers the checksum byte and the \<open>size\<close> bytes after it.\<close>

definition crypt_ok :: "serializer \<Rightarrow> networkHeader \<Rightarrow> nat \<Rightarrow> bool" where
  "crypt_ok s h n \<longleftrightarrow> sz_inv s \<and> h = nh_of_bytes (take 5 (sz_mem s)) \<and> n < 2 ^ 15 \<and>
     nh_size h = of_nat n \<and> 5 + n \<le> unat (sz_bufferSize s)"

lemma crypt_size:
  assumes "n < 2 ^ 15"
  shows "loop_count (scast (of_nat n :: u16) + 1) = n + 1"
proof -
  have u: "unat (of_nat n :: u16) = n" using assms by (simp add: unat_of_nat)
  have "sint (of_nat n :: u16) = int n"
    using sint_small_16 [of "of_nat n"] assms by (simp only: u)
  then have "unat (scast (of_nat n :: u16) + 1 :: u32) = n + 1"
    using assms by (subst unat_add_no_wrap) (simp_all add: scast_eq unat_of_nat)
  then show ?thesis using loop_count_small [of "scast (of_nat n :: u16) + 1"] assms by simp
qed

definition crypt_span :: "serializer \<Rightarrow> nat \<Rightarrow> byte list" where
  "crypt_span s n = take (n + 1) (drop 4 (sz_mem s))"

definition crypt_put :: "serializer \<Rightarrow> byte list \<Rightarrow> serializer" where
  "crypt_put s bs = s\<lparr>sz_mem := take 4 (sz_mem s) @ bs @ drop (4 + length bs) (sz_mem s)\<rparr>"

lemma crypt_okD:
  assumes "crypt_ok s h n"
  shows "sz_inv s" "sz_getHeader s = Some h" "loop_count (scast (nh_size h) + 1) = n + 1"
    "sz_read s (sz_bufferPtr s + 4) (n + 1) = Some (crypt_span s n)" "length (crypt_span s n) = n + 1"
    "length (sz_mem s) = unat (sz_bufferSize s)" "5 + n \<le> length (sz_mem s)"
proof -
  note c = assms [unfolded crypt_ok_def]
  show i: "sz_inv s" using c by simp
  note I = sz_invD [OF i]
  show L: "length (sz_mem s) = unat (sz_bufferSize s)" by (rule I(3))
  show "5 + n \<le> length (sz_mem s)" using c L by simp
  show "sz_getHeader s = Some h" using c L by (simp add: sz_getHeader_def sz_read_def mem_simps)
  show "loop_count (scast (nh_size h) + 1) = n + 1"
  proof -
    have "nh_size h = of_nat n" "n < 2 ^ 15" using c by blast+
    then show ?thesis using crypt_size [of n] by (simp only:)
  qed
  show "sz_read s (sz_bufferPtr s + 4) (n + 1) = Some (crypt_span s n)" "length (crypt_span s n) = n + 1"
    using c L by (auto simp: sz_read_def mem_simps crypt_span_def)
qed

lemma crypt_write:
  assumes "crypt_ok s h n" "length bs \<le> n + 1"
  shows "sz_write s (sz_bufferPtr s + 4) bs = Some (crypt_put s bs)"
  using crypt_okD(7) [OF assms(1)] assms(2)
  by (simp add: sz_write_def mem_simps crypt_put_def)

lemma crypt_put_ok:
  assumes c: "crypt_ok s h n" and bs: "length bs = n + 1"
  shows "crypt_ok (crypt_put s bs) (h\<lparr>nh_checkSum := hd bs\<rparr>) n" "crypt_span (crypt_put s bs) n = bs"
proof -
  note D = crypt_okD [OF c]
  have "nh_of_bytes (take 5 (take 4 (sz_mem s) @ bs @ drop (4 + length bs) (sz_mem s)))
      = nh_of_bytes (take 5 (sz_mem s)) \<lparr>nh_checkSum := hd bs\<rparr>"
    using D(7) bs by (cases bs) (simp_all add: nh_of_bytes_def nth_append drop_take min_def)
  then show "crypt_ok (crypt_put s bs) (h\<lparr>nh_checkSum := hd bs\<rparr>) n"
    using c D(7) bs by (auto simp: crypt_ok_def crypt_put_def sz_inv_def)
  show "crypt_span (crypt_put s bs) n = bs"
    using D(7) bs by (simp add: crypt_span_def crypt_put_def min_def)
qed

lemma encryption_spec:
  assumes "crypt_ok s h n"
  shows "encryption s sk = Some (crypt_put s (enc_loop sk (nh_randKey h) 0 0 0 (crypt_span s n)))"
  using crypt_okD [OF assms] crypt_write [OF assms, of "enc_loop sk (nh_randKey h) 0 0 0 (crypt_span s n)"]
  by (simp add: encryption_def)

text \<open>
  \<open>decryption\<close> deciphers as many bytes as the header says, but sums up the payload that stands before the tail.
\<close>

lemma decryption_part:
  assumes c: "crypt_ok s h n" and t: "sz_to s = 5 + m" "m \<le> n"
    and d: "dec_loop sk (nh_randKey h) 0 0 0 (crypt_span s n) = cs # p"
  shows "decryption s sk = Some (crypt_put s ((cs - sum_list (take m p)) # p), cs = sum_list (take m p))"
proof -
  note D = crypt_okD [OF c]
  have len: "length (cs # p) = n + 1" using D(5) by (simp add: d [symmetric])
  let ?s1 = "crypt_put s (cs # p)"
  note C1 = crypt_put_ok [OF c len]
  note D1 = crypt_okD [OF C1(1)]
  have same: "sz_bufferPtr ?s1 = sz_bufferPtr s" "sz_tailPtr ?s1 = sz_tailPtr s" "sz_to ?s1 = sz_to s"
    by (simp_all add: crypt_put_def)
  have w1: "sz_write s (sz_bufferPtr s + 4) (cs # p) = Some ?s1"
    using crypt_write [OF c] len by simp
  have ps: "loop_count (ucast ((sz_tailPtr s - sz_bufferPtr s) - 5)) = m"
    using payload_size_word(2) [OF D(1)] t by simp
  have "drop 5 (sz_mem ?s1) = p @ drop (5 + n) (sz_mem s)"
    using D(7) len by (simp add: crypt_put_def)
  then have rd: "sz_read ?s1 (sz_bufferPtr s + 5) m = Some (take m p)"
    using D1(7) len t(2) by (simp add: sz_read_def mem_simps same flip: same)
  have w2: "sz_write ?s1 (sz_bufferPtr s + 4) [cs - sum_list (take m p)] = Some (crypt_put s ((cs - sum_list (take m p)) # p))"
    using crypt_write [OF C1(1), of "[cs - sum_list (take m p)]"] D(7) len
    by (simp add: same) (simp add: crypt_put_def min_def)
  show ?thesis
    using D d w1 ps rd w2 D1(2)
    by (simp add: decryption_def Let_def same checksum_sub_sum)
qed

text \<open>\<open>decryption\<close> of a block whose tail stands right after the payload.\<close>

lemma decryption_spec:
  assumes c: "crypt_ok s h n" and t: "sz_to s = 5 + n"
    and d: "dec_loop sk (nh_randKey h) 0 0 0 (crypt_span s n) = cs # p"
  shows "decryption s sk = Some (crypt_put s ((cs - sum_list p) # p), cs = sum_list p)"
proof -
  have "length (cs # p) = n + 1" using crypt_okD(5) [OF c] by (simp add: d [symmetric])
  then show ?thesis using decryption_part [OF c t order.refl d] by simp
qed

lemma length_crypt_put [simp]:
  "4 + length bs \<le> length (sz_mem s) \<Longrightarrow> length (sz_mem (crypt_put s bs)) = length (sz_mem s)"
  by (simp add: crypt_put_def)

text \<open>What the sender's \<open>setHeader\<close> and \<open>encryption\<close> put on the wire, the receiver's
  \<open>decryption\<close> accepts and turns back, whatever block it was received into.\<close>

lemma setHeader_crypt_ok:
  fixes key :: byte
  assumes inv: "sz_inv s" and h: "sz_ho s = 5" and n: "sz_to s = 5 + n" "n < 2 ^ 15"
    and H: "H = networkHeader_new (of_nat n) key (sum_list (sz_payload s))"
  obtains s1 where "setHeader s key = Some s1" "crypt_ok s1 H n" "sz_ho s1 = 0" "sz_to s1 = 5 + n"
    "sz_data s1 = nh_bytes H @ sz_data s" "crypt_span s1 n = sum_list (sz_payload s) # sz_payload s"
    "sz_bufferPtr s1 = sz_bufferPtr s" "sz_bufferSize s1 = sz_bufferSize s"
    "sz_mem s1 = nh_bytes H @ drop 5 (sz_mem s)" "sz_referenceCounter s1 = sz_referenceCounter s"
proof -
  have H': "networkHeader_new (of_nat (sz_to s - 5)) key (sum_list (sz_payload s)) = H"
    using n by (simp add: H)
  note I = sz_invD [OF inv]
  obtain s1 where S: "setHeader s key = Some s1" "sz_inv s1" "sz_ho s1 = 0" "sz_to s1 = sz_to s"
    "sz_mem s1 = nh_bytes H @ drop 5 (sz_mem s)" "sz_data s1 = nh_bytes H @ sz_data s"
    "sz_bufferPtr s1 = sz_bufferPtr s" "sz_bufferSize s1 = sz_bufferSize s"
    "sz_referenceCounter s1 = sz_referenceCounter s"
    by (rule setHeader_spec [OF inv h, of key, unfolded H'])
  have ok: "crypt_ok s1 H n"
    using S I n by (simp add: crypt_ok_def) (simp add: H networkHeader_new_def)
  have "drop 4 (nh_bytes H) = [sum_list (sz_payload s)]"
    by (simp add: nh_bytes_def H networkHeader_new_def)
  then have sp: "crypt_span s1 n = sum_list (sz_payload s) # sz_payload s"
    using I n S by (simp add: crypt_span_def sz_payload_def)
  show thesis by (rule that [of s1]) (use S ok sp n in simp_all)
qed

lemma wire_accepted:
  fixes key sk :: byte
  assumes inv: "sz_inv s" and h: "sz_ho s = 5" and n: "sz_to s = 5 + n" "n < 2 ^ 15"
  obtains s1 s2 where "setHeader s key = Some s1" "encryption s1 sk = Some s2" "sz_inv s2"
    "sz_ho s2 = 0" "sz_to s2 = 5 + n" "length (sz_data s2) = 5 + n"
    "sz_referenceCounter s2 = sz_referenceCounter s" "sz_bufferSize s2 = sz_bufferSize s"
    "\<And>r. sz_inv r \<Longrightarrow> sz_to r = 5 + n \<Longrightarrow> take (5 + n) (sz_mem r) = sz_data s2 \<Longrightarrow>
       decryption r sk = Some (crypt_put r (0 # sz_payload s), True)"
    "nh_size (nh_of_bytes (take 5 (sz_data s2))) = of_nat n"
proof -
  define H where "H = networkHeader_new (of_nat n) key (sum_list (sz_payload s))"
  have key: "nh_randKey H = key" by (simp add: H_def networkHeader_new_def)
  obtain s1 where S1: "setHeader s key = Some s1" "crypt_ok s1 H n" "sz_ho s1 = 0" "sz_to s1 = 5 + n"
    "crypt_span s1 n = sum_list (sz_payload s) # sz_payload s" "sz_referenceCounter s1 = sz_referenceCounter s"
    "sz_bufferSize s1 = sz_bufferSize s"
    by (rule setHeader_crypt_ok [OF inv h n H_def])
  let ?e = "enc_loop sk key 0 0 0 (crypt_span s1 n)"
  let ?s2 = "crypt_put s1 ?e"
  have e: "encryption s1 sk = Some ?s2" using encryption_spec [OF S1(2), of sk] by (simp add: key)
  have le: "length ?e = n + 1" using crypt_okD(5) [OF S1(2)] by simp
  note C = crypt_put_ok [OF S1(2) le]
  note D = crypt_okD [OF C(1)]
  have o: "sz_ho ?s2 = 0" "sz_to ?s2 = 5 + n" using S1 by (simp_all add: crypt_put_def)
  have data: "sz_data ?s2 = take (5 + n) (sz_mem ?s2)" using o by (simp add: sz_data_def)
  have recv: "decryption r sk = Some (crypt_put r (0 # sz_payload s), True)"
    if r: "sz_inv r" "sz_to r = 5 + n" "take (5 + n) (sz_mem r) = sz_data ?s2" for r
  proof -
    have "take 5 (take (5 + n) (sz_mem r)) = take 5 (take (5 + n) (sz_mem ?s2))"
      by (simp only: r data)
    then have t5: "take 5 (sz_mem r) = take 5 (sz_mem ?s2)" by simp
    have "drop 4 (take (5 + n) (sz_mem r)) = drop 4 (take (5 + n) (sz_mem ?s2))"
      by (simp only: r data)
    then have sp: "crypt_span r n = ?e"
      using C(2) by (simp add: crypt_span_def drop_take)
    have ok: "crypt_ok r (H\<lparr>nh_checkSum := hd ?e\<rparr>) n"
    proof -
      have "H\<lparr>nh_checkSum := hd ?e\<rparr> = nh_of_bytes (take 5 (sz_mem r))" "n < 2 ^ 15"
        "nh_size (H\<lparr>nh_checkSum := hd ?e\<rparr>) = of_nat n"
        using C(1) unfolding crypt_ok_def t5 by blast+
      then show ?thesis
        using sz_invD(2) [OF r(1)] r unfolding crypt_ok_def by simp
    qed
    have "dec_loop sk (nh_randKey (H\<lparr>nh_checkSum := hd ?e\<rparr>)) 0 0 0 (crypt_span r n)
        = sum_list (sz_payload s) # sz_payload s"
    proof -
      have "nh_randKey (H\<lparr>nh_checkSum := hd ?e\<rparr>) = key" using key by simp
      then show ?thesis by (simp only: sp dec_enc_loop S1(5))
    qed
    from decryption_spec [OF ok r(2) this] show ?thesis by simp
  qed
  have "H\<lparr>nh_checkSum := hd ?e\<rparr> = nh_of_bytes (take 5 (sz_mem ?s2))" "nh_size (H\<lparr>nh_checkSum := hd ?e\<rparr>) = of_nat n"
    using C(1) unfolding crypt_ok_def by blast+
  moreover have "take 5 (sz_data ?s2) = take 5 (sz_mem ?s2)" by (simp add: data)
  ultimately have sz: "nh_size (nh_of_bytes (take 5 (sz_data ?s2))) = of_nat n" by metis
  show thesis
    by (rule that [OF S1(1) e _ _ _ _ _ _ _ sz]) (use o D data recv S1(6,7) in \<open>simp_all add: crypt_put_def\<close>)
qed
end
