(* ===== verification/Packet.thy ===== *)
theory Packet
  imports Packet_Crypto
begin

text \<open>
  Reference-counted packets: \<open>packet.h\<close> and \<open>packet.cpp\<close>. The serializers live in a heap,
  addressed by pointer. The \<open>ObjectPool\<close> that hands them out is not part of the repository:
  \<open>ph_supply\<close> lists the pointers its \<open>Alloc\<close> is going to return, \<open>ph_freed\<close> records the
  pointers given back to \<open>Free\<close> (the latest first). Dereferencing a pointer that is not an object of the
  heap (the null pointer in particular) has no outcome.
\<close>

section \<open>The heap of serializers and the pool\<close>

record pheap =
  ph_ser :: "u64 \<rightharpoonup> serializer"
  ph_supply :: "u64 list"
  ph_freed :: "u64 list"

definition ser_at :: "'a pheap_scheme \<Rightarrow> u64 \<Rightarrow> serializer option" where
  "ser_at h p = (if p = 0 then None else ph_ser h p)"

definition ser_put :: "'a pheap_scheme \<Rightarrow> u64 \<Rightarrow> serializer \<Rightarrow> 'a pheap_scheme" where
  "ser_put h p s = h\<lparr>ph_ser := (ph_ser h)(p \<mapsto> s)\<rparr>"

definition pool_Alloc :: "'a pheap_scheme \<Rightarrow> ('a pheap_scheme \<times> u64) option" where
  "pool_Alloc h = (case ph_supply h of [] \<Rightarrow> None | p # ps \<Rightarrow> Some (h\<lparr>ph_supply := ps\<rparr>, p))"

definition pool_Free :: "'a pheap_scheme \<Rightarrow> u64 \<Rightarrow> 'a pheap_scheme" where
  "pool_Free h p = h\<lparr>ph_freed := p # ph_freed h\<rparr>"

text \<open>A member function of a serializer, called through a pointer.\<close>

definition ser_call :: "'a pheap_scheme \<Rightarrow> u64 \<Rightarrow> (serializer \<Rightarrow> (serializer \<times> 'r) option) \<Rightarrow>
    ('a pheap_scheme \<times> 'r) option" where
  "ser_call h p f = do { s \<leftarrow> ser_at h p; (s', r) \<leftarrow> f s; Some (ser_put h p s', r) }"

definition ser_inc :: "'a pheap_scheme \<Rightarrow> u64 \<Rightarrow> u32 \<Rightarrow> ('a pheap_scheme \<times> u32) option" where
  "ser_inc h p n = ser_call h p (\<lambda>s. Some (sz_incRef s n))"

definition ser_dec :: "'a pheap_scheme \<Rightarrow> u64 \<Rightarrow> u32 \<Rightarrow> ('a pheap_scheme \<times> u32) option" where
  "ser_dec h p n = ser_call h p (\<lambda>s. Some (sz_decRef s n))"

section \<open>\<open>packet.cpp\<close>\<close>

definition packetPoolMemoryCheck :: "u64 \<Rightarrow> u64 \<Rightarrow> u64 \<times> u64" where
  "packetPoolMemoryCheck capacityCount useCount = (capacityCount, useCount)"

definition serializerFree :: "'a pheap_scheme \<Rightarrow> u64 \<Rightarrow> 'a pheap_scheme" where
  "serializerFree h s = pool_Free h s"

definition serializerAlloc :: "'a pheap_scheme \<Rightarrow> ('a pheap_scheme \<times> u64) option" where
  "serializerAlloc h =
     do { (h1, p) \<leftarrow> pool_Alloc h;
          (h2, _) \<leftarrow> ser_call h1 p (\<lambda>s. Some (sz_clear s, ()));
          Some (h2, p) }"

text \<open>\<open>if (p->decReferenceCounter() == 0) serializerFree(p);\<close>, as the session code writes it.\<close>

definition ser_release :: "'a pheap_scheme \<Rightarrow> u64 \<Rightarrow> 'a pheap_scheme option" where
  "ser_release h p =
     do { (h1, r) \<leftarrow> ser_dec h p 1; Some (if r = 0 then serializerFree h1 p else h1) }"

section \<open>Class \<open>packet\<close>\<close>

record packet =
  pk_buffer :: u64

text \<open>The position of a packet that is being filled: head and tail just after the header.\<close>

definition sz_begin :: "serializer \<Rightarrow> serializer" where
  "sz_begin s = fst (sz_moveFront (fst (sz_moveRear (sz_clear s) 5)) 5)"

definition packet_new :: "'a pheap_scheme \<Rightarrow> ('a pheap_scheme \<times> packet) option" where
  "packet_new h =
     do { (h1, p) \<leftarrow> pool_Alloc h;
          (h2, _) \<leftarrow> ser_call h1 p (\<lambda>s. Some (sz_begin s, ()));
          (h3, _) \<leftarrow> ser_inc h2 p 1;
          Some (h3, \<lparr>pk_buffer = p\<rparr>) }"

definition packet_delete :: "'a pheap_scheme \<Rightarrow> packet \<Rightarrow> ('a pheap_scheme \<times> string) option" where
  "packet_delete h k =
     (if pk_buffer k \<noteq> 0
      then do { (h1, temp) \<leftarrow> ser_dec h (pk_buffer k) 1;
                (let out = (if sint temp < 0 then ''error'' @ [CHR 0x0A] else [])
                 in Some (if temp = 0 then serializerFree h1 (pk_buffer k) else h1, out)) }
      else Some (h, []))"

definition packet_copy :: "'a pheap_scheme \<Rightarrow> packet \<Rightarrow> ('a pheap_scheme \<times> packet) option" where
  "packet_copy h k =
     do { (h1, _) \<leftarrow> ser_inc h (pk_buffer k) 1; Some (h1, \<lparr>pk_buffer = pk_buffer k\<rparr>) }"

definition packet_of_serializer :: "u64 \<Rightarrow> packet" where
  "packet_of_serializer s = \<lparr>pk_buffer = s\<rparr>"

definition packet_incReferenceCounter ::
    "'a pheap_scheme \<Rightarrow> packet \<Rightarrow> u32 \<Rightarrow> ('a pheap_scheme \<times> u32) option" where
  "packet_incReferenceCounter h k n =
     (if pk_buffer k = 0 then Some (h, 0) else ser_inc h (pk_buffer k) n)"

definition packet_decReferenceCounter ::
    "'a pheap_scheme \<Rightarrow> packet \<Rightarrow> u32 \<Rightarrow> ('a pheap_scheme \<times> packet \<times> u32) option" where
  "packet_decReferenceCounter h k n =
     (if pk_buffer k = 0 then Some (h, k, 0)
      else do { (h1, ret) \<leftarrow> ser_dec h (pk_buffer k) n;
                Some (if ret = 0 then (pool_Free h1 (pk_buffer k), k\<lparr>pk_buffer := 0\<rparr>, ret)
                      else (h1, k, ret)) })"

definition packet_setHeader :: "'a pheap_scheme \<Rightarrow> packet \<Rightarrow> byte \<Rightarrow> 'a pheap_scheme option" where
  "packet_setHeader h k key =
     map_option fst (ser_call h (pk_buffer k) (\<lambda>s. map_option (\<lambda>s'. (s', ())) (setHeader s key)))"

definition packet_encryption :: "'a pheap_scheme \<Rightarrow> packet \<Rightarrow> byte \<Rightarrow> 'a pheap_scheme option" where
  "packet_encryption h k staticKey =
     map_option fst (ser_call h (pk_buffer k) (\<lambda>s. map_option (\<lambda>s'. (s', ())) (encryption s staticKey)))"

definition packet_decryption :: "'a pheap_scheme \<Rightarrow> packet \<Rightarrow> byte \<Rightarrow> ('a pheap_scheme \<times> bool) option" where
  "packet_decryption h k staticKey = ser_call h (pk_buffer k) (\<lambda>s. decryption s staticKey)"

definition packet_getPacketHeader :: "'a pheap_scheme \<Rightarrow> packet \<Rightarrow> u64 option" where
  "packet_getPacketHeader h k = map_option sz_getBufferPtr (ser_at h (pk_buffer k))"

definition packet_getPayload :: "'a pheap_scheme \<Rightarrow> packet \<Rightarrow> u64 option" where
  "packet_getPayload h k = map_option (\<lambda>s. sz_getBufferPtr s + 5) (ser_at h (pk_buffer k))"

definition packet_getHeadPtr :: "'a pheap_scheme \<Rightarrow> packet \<Rightarrow> u64 option" where
  "packet_getHeadPtr h k = map_option sz_getHeadPtr (ser_at h (pk_buffer k))"

definition packet_getTailPtr :: "'a pheap_scheme \<Rightarrow> packet \<Rightarrow> u64 option" where
  "packet_getTailPtr h k = map_option sz_getTailPtr (ser_at h (pk_buffer k))"

definition packet_moveFront :: "'a pheap_scheme \<Rightarrow> packet \<Rightarrow> u32 \<Rightarrow> ('a pheap_scheme \<times> u32) option" where
  "packet_moveFront h k n = ser_call h (pk_buffer k) (\<lambda>s. Some (sz_moveFront s n))"

definition packet_moveRear :: "'a pheap_scheme \<Rightarrow> packet \<Rightarrow> u32 \<Rightarrow> ('a pheap_scheme \<times> u32) option" where
  "packet_moveRear h k n = ser_call h (pk_buffer k) (\<lambda>s. Some (sz_moveRear s n))"

definition packet_size :: "'a pheap_scheme \<Rightarrow> packet \<Rightarrow> u64 option" where
  "packet_size h k = map_option sz_size (ser_at h (pk_buffer k))"

definition packet_useableSize :: "'a pheap_scheme \<Rightarrow> packet \<Rightarrow> u64 option" where
  "packet_useableSize h k = map_option sz_useableSize (ser_at h (pk_buffer k))"

text \<open>The string members and the stream operators forward to the buffer and return the packet.\<close>

definition packet_getString :: "'a pheap_scheme \<Rightarrow> packet \<Rightarrow> u32 \<Rightarrow> ('a pheap_scheme \<times> byte list) option" where
  "packet_getString h k len = ser_call h (pk_buffer k) (\<lambda>s. sz_getString s len)"

definition packet_getWstring :: "'a pheap_scheme \<Rightarrow> packet \<Rightarrow> u32 \<Rightarrow> ('a pheap_scheme \<times> byte list) option" where
  "packet_getWstring h k len = ser_call h (pk_buffer k) (\<lambda>s. sz_getWstring s len)"

definition packet_out :: "(serializer \<Rightarrow> 'v \<Rightarrow> serializer option) \<Rightarrow> 'a pheap_scheme \<Rightarrow> packet \<Rightarrow> 'v \<Rightarrow>
    'a pheap_scheme option" where
  "packet_out shl h k v =
     map_option fst (ser_call h (pk_buffer k) (\<lambda>s. map_option (\<lambda>s'. (s', ())) (shl s v)))"

definition packet_setString :: "'a pheap_scheme \<Rightarrow> packet \<Rightarrow> byte list \<Rightarrow> u32 \<Rightarrow> 'a pheap_scheme option" where
  "packet_setString h k str len = packet_out (\<lambda>s str. sz_setString s str len) h k str"

definition packet_setWstring :: "'a pheap_scheme \<Rightarrow> packet \<Rightarrow> u16 list \<Rightarrow> u32 \<Rightarrow> 'a pheap_scheme option" where
  "packet_setWstring h k wstr len = packet_out (\<lambda>s wstr. sz_setWstring s wstr len) h k wstr"

definition packet_in :: "(serializer \<Rightarrow> (serializer \<times> 'v) option) \<Rightarrow> 'a pheap_scheme \<Rightarrow> packet \<Rightarrow>
    ('a pheap_scheme \<times> 'v) option" where
  "packet_in shr h k = ser_call h (pk_buffer k) shr"

definition packet_drop :: "'a pheap_scheme \<Rightarrow> packet \<Rightarrow> 'a pheap_scheme option" where
  "packet_drop h k =
     (if pk_buffer k \<noteq> 0
      then do { (h1, r) \<leftarrow> ser_dec h (pk_buffer k) 1; Some (if r = 0 then pool_Free h1 (pk_buffer k) else h1) }
      else Some h)"

definition packet_assign :: "'a pheap_scheme \<Rightarrow> packet \<Rightarrow> packet \<Rightarrow> ('a pheap_scheme \<times> packet) option" where
  "packet_assign h k p =
     do { (h1, _) \<leftarrow> ser_inc h (pk_buffer p) 1;
          h2 \<leftarrow> packet_drop h1 k;
          Some (h2, k\<lparr>pk_buffer := pk_buffer p\<rparr>) }"

definition packet_assign_serializer :: "'a pheap_scheme \<Rightarrow> packet \<Rightarrow> u64 \<Rightarrow> ('a pheap_scheme \<times> packet) option" where
  "packet_assign_serializer h k s =
     do { h2 \<leftarrow> packet_drop h k; Some (h2, k\<lparr>pk_buffer := s\<rparr>) }"

section \<open>Reference counting\<close>

named_theorems ph_simps "the heap of serializers"

lemma ser_at_put [ph_simps]: "p \<noteq> 0 \<Longrightarrow> ser_at (ser_put h p s) q = (if q = p then Some s else ser_at h q)"
  by (simp add: ser_at_def ser_put_def)

lemma ser_put_put [ph_simps]: "ser_put (ser_put h p s) p t = ser_put h p t"
  by (simp add: ser_put_def)

lemma ser_put_same: "ser_at h p = Some s \<Longrightarrow> ser_put h p s = h"
  by (cases h) (auto simp: ser_put_def ser_at_def fun_upd_idem_iff split: if_splits)

lemma ser_at_nonnull: "ser_at h p = Some s \<Longrightarrow> p \<noteq> 0"
  by (auto simp: ser_at_def)

lemma ser_at_pool [ph_simps]: "ser_at (pool_Free h q) p = ser_at h p" "ser_at (serializerFree h q) p = ser_at h p"
  by (simp_all add: ser_at_def pool_Free_def serializerFree_def)

lemma ph_put_other [ph_simps]:
  "ph_supply (ser_put h p s) = ph_supply h" "ph_freed (ser_put h p s) = ph_freed h"
  "ph_freed (serializerFree h p) = p # ph_freed h" "ph_freed (pool_Free h p) = p # ph_freed h"
  "ph_supply (serializerFree h p) = ph_supply h" "ph_supply (pool_Free h p) = ph_supply h"
  by (simp_all add: ser_put_def serializerFree_def pool_Free_def)

lemma ser_inc_Some:
  "ser_at h p = Some s \<Longrightarrow> ser_inc h p n =
     Some (ser_put h p (s\<lparr>sz_referenceCounter := sz_referenceCounter s + n\<rparr>), sz_referenceCounter s + n)"
  by (simp add: ser_inc_def ser_call_def sz_incRef_def Let_def)

lemma ser_dec_Some:
  "ser_at h p = Some s \<Longrightarrow> ser_dec h p n =
     Some (ser_put h p (s\<lparr>sz_referenceCounter := sz_referenceCounter s - n\<rparr>), sz_referenceCounter s - n)"
  by (simp add: ser_dec_def ser_call_def sz_decRef_def Let_def)

lemma ser_release_Some:
  assumes "ser_at h p = Some s"
  shows "ser_release h p =
    Some (let h1 = ser_put h p (s\<lparr>sz_referenceCounter := sz_referenceCounter s - 1\<rparr>)
          in if sz_referenceCounter s = 1 then serializerFree h1 p else h1)"
  using ser_dec_Some [OF assms, of 1] by (simp add: ser_release_def Let_def)

text \<open>A reference taken and dropped again leaves the heap as it was.\<close>

lemma copy_then_delete:
  assumes s: "ser_at h (pk_buffer k) = Some s" and c: "sz_referenceCounter s \<noteq> 0" "0 \<le> sint (sz_referenceCounter s)"
  shows "do { (h1, k1) \<leftarrow> packet_copy h k; packet_delete h1 k1 } = Some (h, [])"
proof -
  let ?p = "pk_buffer k"
  have p: "?p \<noteq> 0" using s by (rule ser_at_nonnull)
  let ?h1 = "ser_put h ?p (s\<lparr>sz_referenceCounter := sz_referenceCounter s + 1\<rparr>)"
  have at1: "ser_at ?h1 ?p = Some (s\<lparr>sz_referenceCounter := sz_referenceCounter s + 1\<rparr>)"
    using p by (simp add: ph_simps)
  show ?thesis
    using p c ser_inc_Some [OF s, of 1] ser_dec_Some [OF at1, of 1]
    by (simp add: packet_copy_def packet_delete_def ph_simps ser_put_same [OF s])
qed

text \<open>Assigning a packet to itself changes nothing.\<close>

lemma assign_self:
  assumes s: "ser_at h (pk_buffer k) = Some s" and c: "sz_referenceCounter s \<noteq> 0"
  shows "packet_assign h k k = Some (h, k)"
proof -
  let ?p = "pk_buffer k"
  have p: "?p \<noteq> 0" using s by (rule ser_at_nonnull)
  let ?h1 = "ser_put h ?p (s\<lparr>sz_referenceCounter := sz_referenceCounter s + 1\<rparr>)"
  have at1: "ser_at ?h1 ?p = Some (s\<lparr>sz_referenceCounter := sz_referenceCounter s + 1\<rparr>)"
    using p by (simp add: ph_simps)
  show ?thesis
    using p c ser_inc_Some [OF s, of 1] ser_dec_Some [OF at1, of 1]
    by (simp add: packet_assign_def packet_drop_def ph_simps ser_put_same [OF s])
qed

text \<open>A new packet holds a cleared buffer with the header skipped.\<close>

lemma sz_begin_spec:
  assumes inv: "sz_inv s" and n: "5 \<le> unat (sz_bufferSize s)"
  shows "sz_inv (sz_begin s)" "sz_ho (sz_begin s) = 5" "sz_to (sz_begin s) = 5" "sz_data (sz_begin s) = []"
    "sz_begin s = s\<lparr>sz_headPtr := sz_bufferPtr s + 5, sz_tailPtr := sz_bufferPtr s + 5\<rparr>"
proof -
  note C = sz_clear_spec [OF inv]
  have cb: "sz_bufferSize (sz_clear s) = sz_bufferSize s" by (simp add: sz_clear_def)
  define s1 where "s1 = fst (sz_moveRear (sz_clear s) 5)"
  have m: "sz_moveRear (sz_clear s) (of_nat 5) = ((sz_clear s)\<lparr>sz_tailPtr := sz_tailPtr (sz_clear s) + of_nat 5\<rparr>, of_nat 5)"
    using n C(3) cb by (intro sz_moveRear_exact [OF C(1)]) simp
  have s1: "s1 = (sz_clear s)\<lparr>sz_tailPtr := sz_tailPtr (sz_clear s) + 5\<rparr>"
    using m by (simp add: s1_def)
  have to1: "sz_to s1 = 5" "sz_ho s1 = 0" by (simp_all add: s1 sz_clear_def sz_off_def)
  have i1: "sz_inv s1" using C(1) n to1 cb by (simp add: sz_inv_def s1 sz_clear_def)
  have f: "sz_moveFront s1 (of_nat 5) = (s1\<lparr>sz_headPtr := sz_headPtr s1 + of_nat 5\<rparr>, of_nat 5)"
    using to1 by (intro sz_moveFront_exact [OF i1]) simp
  show eq: "sz_begin s = s\<lparr>sz_headPtr := sz_bufferPtr s + 5, sz_tailPtr := sz_bufferPtr s + 5\<rparr>"
    using f by (simp add: sz_begin_def s1_def [symmetric]) (simp add: s1 sz_clear_def)
  show o: "sz_ho (sz_begin s) = 5" "sz_to (sz_begin s) = 5" by (simp_all add: eq sz_off_def)
  show "sz_inv (sz_begin s)" using inv n by (simp add: sz_inv_def o eq)
  show "sz_data (sz_begin s) = []" by (simp add: sz_data_def o)
qed

lemma packet_new_spec:
  assumes "ph_supply h = p # ps" and "ser_at h p = Some s"
  defines "s' \<equiv> (sz_begin s)\<lparr>sz_referenceCounter := sz_referenceCounter (sz_begin s) + 1\<rparr>"
  shows "packet_new h = Some (ser_put (h\<lparr>ph_supply := ps\<rparr>) p s', \<lparr>pk_buffer = p\<rparr>)"
proof -
  have p: "p \<noteq> 0" using assms(2) by (rule ser_at_nonnull)
  have at0: "ser_at (h\<lparr>ph_supply := ps\<rparr>) p = Some s" using assms(2) p by (simp add: ser_at_def)
  then have c: "ser_call (h\<lparr>ph_supply := ps\<rparr>) p (\<lambda>s. Some (sz_begin s, ())) =
      Some (ser_put (h\<lparr>ph_supply := ps\<rparr>) p (sz_begin s), ())"
    by (simp add: ser_call_def)
  have at1: "ser_at (ser_put (h\<lparr>ph_supply := ps\<rparr>) p (sz_begin s)) p = Some (sz_begin s)"
    using p by (simp add: ph_simps)
  show ?thesis
    using assms(1) c ser_inc_Some [OF at1, of 1]
    by (simp add: packet_new_def pool_Alloc_def ph_simps s'_def)
qed

text \<open>A packet that is constructed from an unused buffer and destroyed gives it back to the pool once.\<close>

lemma new_then_delete:
  assumes "ph_supply h = p # ps" and "ser_at h p = Some s" "sz_referenceCounter (sz_begin s) = 0"
  shows "do { (h1, k) \<leftarrow> packet_new h; packet_delete h1 k } =
    Some (serializerFree (ser_put (h\<lparr>ph_supply := ps\<rparr>) p (sz_begin s)) p, [])"
proof -
  have p: "p \<noteq> 0" using assms(2) by (rule ser_at_nonnull)
  let ?s' = "(sz_begin s)\<lparr>sz_referenceCounter := 1\<rparr>"
  have at1: "ser_at (ser_put (h\<lparr>ph_supply := ps\<rparr>) p ?s') p = Some ?s'"
    using p by (simp add: ph_simps)
  have z: "sz_begin s\<lparr>sz_referenceCounter := 0\<rparr> = sz_begin s"
    using assms(3) by (cases "sz_begin s") simp
  show ?thesis
    using packet_new_spec [OF assms(1,2)] ser_dec_Some [OF at1, of 1] p
    by (simp add: assms(3) packet_delete_def ph_simps z)
qed

end
