(* ===== verification/Node_Pool.thy ===== *)
theory Node_Pool
  imports Prelude
begin

text \<open>
  The node pool inside \<open>LockFreeQueue.h\<close>: a stack of free nodes, linked by keys. A key packs the
  address of a node with a push number in its upper 16 bits. \<open>np_mem\<close> is the memory of the
  nodes. The definitions are what one thread does when no other thread runs between its steps;
  a compare-and-swap is written with the value that it compares, and a loop that repeats it
  is a loop here.
\<close>

section \<open>Nodes and keys\<close>

record node =
  nd_value :: u64
  nd_key :: u64
  nd_poolNext :: u64

definition node_new :: node where
  "node_new = \<lparr>nd_value = 0, nd_key = 0, nd_poolNext = 0\<rparr>"

definition node_new_value :: "u64 \<Rightarrow> node" where
  "node_new_value v = \<lparr>nd_value = v, nd_key = 0, nd_poolNext = 0\<rparr>"

definition node_new_key :: "u64 \<Rightarrow> u64 \<Rightarrow> node" where
  "node_new_key v k = \<lparr>nd_value = v, nd_key = k, nd_poolNext = 0\<rparr>"

definition MAKE_KEY :: "u64 \<Rightarrow> u64 \<Rightarrow> u64" where
  "MAKE_KEY nodePtr pushNo = push_bit 48 pushNo OR nodePtr"

definition MAKE_NODEPTR :: "u64 \<Rightarrow> u64" where
  "MAKE_NODEPTR key = 0x0000FFFFFFFFFFFF AND key"

text \<open>\<open>InterlockedCompareExchange(&x, new, cmp)\<close>: the value \<open>x\<close> gets and the value returned.\<close>

definition cas :: "'v \<Rightarrow> 'v \<Rightarrow> 'v \<Rightarrow> 'v \<times> 'v" where
  "cas x new cmp = (if x = cmp then new else x, x)"

section \<open>The pool\<close>

record nodePool =
  np_maxSize :: u64
  np_useSize :: u64
  np_topKey :: u64
  np_pushCount :: u64
  np_heap :: u64
  np_mem :: "u64 \<rightharpoonup> node"

definition nodePool_empty :: "u64 \<Rightarrow> nodePool" where
  "nodePool_empty pc = \<lparr>np_maxSize = 0, np_useSize = 0, np_topKey = 0, np_pushCount = pc, np_heap = 0,
     np_mem = Map.empty\<rparr>"

text \<open>
  The constructor's loop: \<open>as\<close> are the results of the calls of \<open>malloc\<close>, \<open>raw\<close> the
  uninitialised contents of a node. The constructor does not initialise \<open>pushCount\<close>;
  \<open>pc\<close> is what is there.
\<close>

fun np_fill :: "(u64 \<Rightarrow> node) \<Rightarrow> u64 list \<Rightarrow> nodePool \<Rightarrow> nodePool option" where
  "np_fill raw [] p = Some p"
| "np_fill raw (a # as) p =
     (if a = 0 then None
      else np_fill raw as
        (p\<lparr>np_mem := (np_mem p)(a \<mapsto> (raw a)\<lparr>nd_poolNext := np_topKey p\<rparr>),
           np_topKey := MAKE_KEY a (np_pushCount p),
           np_pushCount := np_pushCount p + 1\<rparr>))"

definition nodePool_new :: "(u64 \<Rightarrow> node) \<Rightarrow> u64 \<Rightarrow> (nat \<Rightarrow> u64) \<Rightarrow> u32 \<Rightarrow> nodePool option" where
  "nodePool_new raw pc malloc n =
     np_fill raw (map malloc [0..<nat (sint n)])
       (nodePool_empty pc \<lparr>np_maxSize := scast n\<rparr>)"

partial_function (option) np_free_all :: "nodePool \<Rightarrow> nodePool option" where
  "np_free_all p =
     (if np_topKey p \<noteq> 0
      then Option.bind (np_mem p (MAKE_NODEPTR (np_topKey p)))
        (\<lambda>temp. np_free_all
           (p\<lparr>np_mem := (np_mem p)(MAKE_NODEPTR (np_topKey p) := None), np_topKey := nd_poolNext temp\<rparr>))
      else Some p)"

definition nodePool_delete :: "nodePool \<Rightarrow> nodePool option" where
  "nodePool_delete p = np_free_all p"

definition np_clear :: "nodePool \<Rightarrow> nodePool option" where
  "np_clear p = np_free_all (p\<lparr>np_maxSize := 0, np_useSize := 0, np_pushCount := 0\<rparr>)"

partial_function (option) np_Alloc :: "nodePool \<Rightarrow> (nodePool \<times> u64) option" where
  "np_Alloc p =
     (let compareKey = np_topKey p; popNode = MAKE_NODEPTR compareKey in
      if popNode = 0 then Some (p, 0)
      else Option.bind (np_mem p popNode)
        (\<lambda>n. let r = cas (np_topKey p) (nd_poolNext n) compareKey; p1 = p\<lparr>np_topKey := fst r\<rparr> in
             if snd r = compareKey then Some (p1\<lparr>np_useSize := np_useSize p1 + 1\<rparr>, popNode)
             else np_Alloc p1))"

partial_function (option) np_Free :: "nodePool \<Rightarrow> u64 \<Rightarrow> (nodePool \<times> bool) option" where
  "np_Free p a =
     (let compareKey = np_topKey p in
      Option.bind (np_mem p a)
        (\<lambda>n. let p1 = p\<lparr>np_mem := (np_mem p)(a \<mapsto> n\<lparr>nd_poolNext := compareKey\<rparr>),
                        np_pushCount := np_pushCount p + 1\<rparr>;
                 r = cas (np_topKey p1) (MAKE_KEY a (np_pushCount p1)) compareKey;
                 p2 = p1\<lparr>np_topKey := fst r\<rparr> in
             if snd r = compareKey then Some (p2\<lparr>np_useSize := np_useSize p2 - 1\<rparr>, True)
             else np_Free p2 a))"

definition np_GetCapacityCount :: "nodePool \<Rightarrow> u32" where
  "np_GetCapacityCount p = ucast (np_maxSize p)"

definition np_GetUseCount :: "nodePool \<Rightarrow> u32" where
  "np_GetUseCount p = ucast (np_useSize p)"

section \<open>Keys\<close>

lemma NODEPTR_mask: "MAKE_NODEPTR k = k AND mask 48"
  by (simp add: MAKE_NODEPTR_def and.commute mask_eq_exp_minus_1)

lemma addr_mask: "unat (a::u64) < 2 ^ 48 \<Longrightarrow> a AND mask 48 = a"
  by (simp add: word_unat_eq_iff unat_and_mask)

lemma addr_bits: "unat (a::u64) < 2 ^ 48 \<Longrightarrow> \<not> bit a (48 + n)"
  by (subst addr_mask [symmetric]) (simp_all add: bit_simps)

lemma NODEPTR_KEY: "unat a < 2 ^ 48 \<Longrightarrow> MAKE_NODEPTR (MAKE_KEY a c) = a"
proof -
  assume "unat a < 2 ^ 48"
  then have a: "a AND mask 48 = a" by (rule addr_mask)
  have "(push_bit 48 c OR a) AND mask 48 = (push_bit 48 c AND mask 48) OR (a AND mask 48)"
    by (rule bit.conj_disj_distrib2)
  also have "push_bit 48 c AND mask 48 = 0"
    by (rule bit_word_eqI) (auto simp: bit_simps)
  finally show ?thesis by (simp add: NODEPTR_mask MAKE_KEY_def a)
qed

lemma NODEPTR_small: "unat a < 2 ^ 48 \<Longrightarrow> MAKE_NODEPTR a = a"
  using NODEPTR_KEY [of a 0] by (simp add: MAKE_KEY_def)

lemma NODEPTR_0 [simp]: "MAKE_NODEPTR 0 = 0"
  by (simp add: MAKE_NODEPTR_def)

lemma KEY_nonzero: "unat a < 2 ^ 48 \<Longrightarrow> a \<noteq> 0 \<Longrightarrow> MAKE_KEY a c \<noteq> 0"
  using NODEPTR_KEY [of a c] by auto

lemma KEY_tag: "unat a < 2 ^ 48 \<Longrightarrow> drop_bit 48 (MAKE_KEY a c) = take_bit 16 c"
  by (rule bit_word_eqI)
     (auto simp: bit_simps MAKE_KEY_def addr_bits dest: bit_imp_le_length)

section \<open>The free list\<close>

fun pool_path :: "(u64 \<rightharpoonup> node) \<Rightarrow> u64 \<Rightarrow> u64 list \<Rightarrow> bool" where
  "pool_path m k [] \<longleftrightarrow> k = 0"
| "pool_path m k (a # as) \<longleftrightarrow> a \<noteq> 0 \<and> MAKE_NODEPTR k = a \<and>
     (case m a of None \<Rightarrow> False | Some n \<Rightarrow> pool_path m (nd_poolNext n) as)"

definition np_rep :: "nodePool \<Rightarrow> u64 list \<Rightarrow> bool" where
  "np_rep p fs \<longleftrightarrow> pool_path (np_mem p) (np_topKey p) fs \<and> distinct fs \<and>
     (\<forall>a \<in> dom (np_mem p). a \<noteq> 0 \<and> unat a < 2 ^ 48)"

lemma pool_path_dom: "pool_path m k fs \<Longrightarrow> set fs \<subseteq> dom m"
  by (induction fs arbitrary: k) (auto split: option.splits)

lemma pool_path_upd: "a \<notin> set fs \<Longrightarrow> pool_path (m(a := x)) k fs = pool_path m k fs"
  by (induction fs arbitrary: k) (auto split: option.splits)

lemma np_Alloc_empty:
  "np_rep p [] \<Longrightarrow> np_Alloc p = Some (p, 0)"
  by (subst np_Alloc.simps) (simp add: np_rep_def)

lemma np_Alloc_cons:
  assumes "np_rep p (a # fs)"
  obtains p' where "np_Alloc p = Some (p', a)" "np_rep p' fs" "np_mem p' = np_mem p"
    "np_useSize p' = np_useSize p + 1" "np_pushCount p' = np_pushCount p" "np_maxSize p' = np_maxSize p"
proof -
  obtain n where n: "np_mem p a = Some n" "pool_path (np_mem p) (nd_poolNext n) fs"
    and a: "a \<noteq> 0" "MAKE_NODEPTR (np_topKey p) = a"
    using assms by (auto simp: np_rep_def split: option.splits)
  let ?p = "p\<lparr>np_topKey := nd_poolNext n, np_useSize := np_useSize p + 1\<rparr>"
  have "np_Alloc p = Some (?p, a)"
    using n a by (subst np_Alloc.simps) (simp add: Let_def cas_def)
  moreover have "np_rep ?p fs" using assms n by (simp add: np_rep_def)
  ultimately show thesis by (rule that) simp_all
qed

lemma np_Free_cons:
  assumes p: "np_rep p fs" and a: "np_mem p a = Some n" "a \<notin> set fs"
  obtains p' where "np_Free p a = Some (p', True)" "np_rep p' (a # fs)"
    "np_mem p' = (np_mem p)(a \<mapsto> n\<lparr>nd_poolNext := np_topKey p\<rparr>)"
    "np_useSize p' = np_useSize p - 1" "np_maxSize p' = np_maxSize p"
proof -
  let ?m = "(np_mem p)(a \<mapsto> n\<lparr>nd_poolNext := np_topKey p\<rparr>)"
  let ?p = "p\<lparr>np_mem := ?m, np_pushCount := np_pushCount p + 1,
     np_topKey := MAKE_KEY a (np_pushCount p + 1), np_useSize := np_useSize p - 1\<rparr>"
  have small: "a \<noteq> 0" "unat a < 2 ^ 48" using p a by (auto simp: np_rep_def)
  have "np_Free p a = Some (?p, True)"
    using a by (subst np_Free.simps) (simp add: Let_def cas_def)
  moreover have "np_rep ?p (a # fs)"
    using p a small by (auto simp: np_rep_def pool_path_upd NODEPTR_KEY)
  ultimately show thesis by (rule that) simp_all
qed

lemma np_free_all_spec:
  assumes "pool_path (np_mem p) (np_topKey p) fs" "distinct fs"
  shows "np_free_all p = Some (p\<lparr>np_mem := (np_mem p) |` (- set fs), np_topKey := 0\<rparr>)"
  using assms
proof (induction fs arbitrary: p)
  case Nil
  then show ?case by (subst np_free_all.simps) (cases p, simp add: restrict_map_def)
next
  case (Cons a fs)
  then obtain n where n: "np_mem p a = Some n" "pool_path (np_mem p) (nd_poolNext n) fs"
    and a: "a \<noteq> 0" "MAKE_NODEPTR (np_topKey p) = a"
    by (auto split: option.splits)
  let ?p = "p\<lparr>np_mem := (np_mem p)(a := None), np_topKey := nd_poolNext n\<rparr>"
  have "np_topKey p \<noteq> 0" using a by auto
  then have "np_free_all p = np_free_all ?p"
    using n a by (subst np_free_all.simps) simp
  also have "\<dots> = Some (?p\<lparr>np_mem := (np_mem ?p) |` (- set fs), np_topKey := 0\<rparr>)"
  proof (rule Cons.IH)
    have "pool_path ((np_mem p)(a := None)) (nd_poolNext n) fs"
      by (subst pool_path_upd) (use Cons.prems n in simp_all)
    then show "pool_path (np_mem ?p) (np_topKey ?p) fs" by simp
    show "distinct fs" using Cons.prems by simp
  qed
  finally have "np_free_all p = Some (?p\<lparr>np_mem := (np_mem ?p) |` (- set fs), np_topKey := 0\<rparr>)" .
  moreover have "((np_mem p)(a := None)) |` (- set fs) = np_mem p |` (- set (a # fs))"
    by (rule ext) (simp add: restrict_map_def)
  ultimately show ?case by simp
qed

lemma np_fill_spec:
  assumes "np_rep p fs" "distinct as" "set as \<inter> dom (np_mem p) = {}" "\<forall>a \<in> set as. a \<noteq> 0 \<and> unat a < 2 ^ 48"
  shows "\<exists>p'. np_fill raw as p = Some p' \<and> np_rep p' (rev as @ fs) \<and>
    dom (np_mem p') = dom (np_mem p) \<union> set as \<and> np_useSize p' = np_useSize p \<and> np_maxSize p' = np_maxSize p"
  using assms
proof (induction as arbitrary: p fs)
  case (Cons a as)
  let ?p = "p\<lparr>np_mem := (np_mem p)(a \<mapsto> (raw a)\<lparr>nd_poolNext := np_topKey p\<rparr>),
           np_topKey := MAKE_KEY a (np_pushCount p), np_pushCount := np_pushCount p + 1\<rparr>"
  have a: "a \<noteq> 0" "unat a < 2 ^ 48" "a \<notin> dom (np_mem p)" using Cons.prems by auto
  have "set fs \<subseteq> dom (np_mem p)" using Cons.prems(1) by (auto simp: np_rep_def dest: pool_path_dom)
  then have "a \<notin> set fs" using a by auto
  then have "np_rep ?p (a # fs)"
    using Cons.prems(1) a by (auto simp: np_rep_def pool_path_upd NODEPTR_KEY)
  moreover have "distinct as" "set as \<inter> dom (np_mem ?p) = {}" "\<forall>a \<in> set as. a \<noteq> 0 \<and> unat a < 2 ^ 48"
    using Cons.prems(2-4) by auto
  ultimately have "\<exists>p'. np_fill raw as ?p = Some p' \<and> np_rep p' (rev as @ (a # fs)) \<and>
    dom (np_mem p') = dom (np_mem ?p) \<union> set as \<and> np_useSize p' = np_useSize ?p \<and> np_maxSize p' = np_maxSize ?p"
    by (rule Cons.IH)
  then show ?case using a by auto
qed simp

text \<open>
  The pool hands out distinct nodes of its memory, and gives back what it was given last
  first; the laws a client uses.
\<close>

locale node_pool =
  fixes rep :: "'p \<Rightarrow> 'a list \<Rightarrow> bool" and owns :: "'p \<Rightarrow> 'a \<Rightarrow> bool"
    and alloc :: "'p \<Rightarrow> ('p \<times> 'a) option" and release :: "'p \<Rightarrow> 'a \<Rightarrow> ('p \<times> bool) option"
    and null :: 'a
  assumes dist: "rep p fs \<Longrightarrow> distinct fs \<and> null \<notin> set fs \<and> (\<forall>a \<in> set fs. owns p a)"
    and alloc_empty: "rep p [] \<Longrightarrow> \<exists>p'. alloc p = Some (p', null) \<and> rep p' [] \<and> owns p' = owns p"
    and alloc_cons: "rep p (a # fs) \<Longrightarrow> \<exists>p'. alloc p = Some (p', a) \<and> rep p' fs \<and> owns p' = owns p"
    and release_law: "rep p fs \<Longrightarrow> owns p a \<Longrightarrow> a \<notin> set fs \<Longrightarrow>
      \<exists>p'. release p a = Some (p', True) \<and> rep p' (a # fs) \<and> owns p' = owns p"
begin

lemma alloc_fresh:
  assumes "rep p fs" "fs \<noteq> []"
  obtains p' a where "alloc p = Some (p', a)" "a \<noteq> null" "owns p a" "rep p' (tl fs)" "a \<notin> set (tl fs)"
proof -
  obtain a gs where fs: "fs = a # gs" using assms(2) by (cases fs) auto
  then show thesis using that alloc_cons [of p a gs] dist [of p "a # gs"] assms(1) by auto
qed

lemma alloc_twice_distinct:
  assumes "rep p (a # b # fs)"
  shows "\<exists>p1 p2. alloc p = Some (p1, a) \<and> alloc p1 = Some (p2, b) \<and> a \<noteq> b"
proof -
  obtain p1 where "alloc p = Some (p1, a)" "rep p1 (b # fs)" using alloc_cons [OF assms] by auto
  moreover obtain p2 where "alloc p1 = Some (p2, b)" using alloc_cons [OF calculation(2)] by auto
  ultimately show ?thesis using dist [OF assms] by auto
qed

lemma release_alloc:
  assumes "rep p fs" "owns p a" "a \<notin> set fs"
  shows "\<exists>p1 p2. release p a = Some (p1, True) \<and> alloc p1 = Some (p2, a) \<and> rep p2 fs"
  using release_law [OF assms] alloc_cons by metis

end

interpretation np: node_pool np_rep "\<lambda>p a. a \<in> dom (np_mem p)" np_Alloc np_Free 0
proof unfold_locales
  fix p fs and a :: u64
  show "distinct fs \<and> 0 \<notin> set fs \<and> (\<forall>a \<in> set fs. a \<in> dom (np_mem p))" if "np_rep p fs"
    using that pool_path_dom [of "np_mem p" "np_topKey p" fs] by (auto simp: np_rep_def)
  show "\<exists>p'. np_Alloc p = Some (p', 0) \<and> np_rep p' [] \<and>
      (\<lambda>a. a \<in> dom (np_mem p')) = (\<lambda>a. a \<in> dom (np_mem p))" if "np_rep p []"
    using np_Alloc_empty [OF that] that by auto
  show "\<exists>p'. np_Alloc p = Some (p', a) \<and> np_rep p' fs \<and>
      (\<lambda>a. a \<in> dom (np_mem p')) = (\<lambda>a. a \<in> dom (np_mem p))" if "np_rep p (a # fs)"
    by (rule np_Alloc_cons [OF that]) simp
  show "\<exists>p'. np_Free p a = Some (p', True) \<and> np_rep p' (a # fs) \<and>
      (\<lambda>a. a \<in> dom (np_mem p')) = (\<lambda>a. a \<in> dom (np_mem p))"
    if "np_rep p fs" "a \<in> dom (np_mem p)" "a \<notin> set fs"
  proof -
    note T = that
    from T(2) obtain n where n: "np_mem p a = Some n" by auto
    obtain p' where p': "np_Free p a = Some (p', True)" "np_rep p' (a # fs)"
      "np_mem p' = (np_mem p)(a \<mapsto> n\<lparr>nd_poolNext := np_topKey p\<rparr>)"
      by (rule np_Free_cons [OF T(1) n T(3)])
    have "dom (np_mem p') = dom (np_mem p)" using n p'(3) by auto
    then show ?thesis using p'(1,2) by auto
  qed
qed

lemma nodePool_new_spec:
  assumes n: "0 \<le> sint n" and m: "inj_on malloc {0..<nat (sint n)}"
    "\<And>i. i < nat (sint n) \<Longrightarrow> malloc i \<noteq> 0 \<and> unat (malloc i) < 2 ^ 48"
  shows "\<exists>p. nodePool_new raw pc malloc n = Some p \<and> np_rep p (rev (map malloc [0..<nat (sint n)])) \<and>
    dom (np_mem p) = malloc ` {0..<nat (sint n)} \<and> np_useSize p = 0 \<and> np_maxSize p = scast n"
proof -
  let ?e = "nodePool_empty pc \<lparr>np_maxSize := scast n\<rparr>"
  have "np_rep ?e []" by (simp add: np_rep_def nodePool_empty_def)
  moreover have "distinct (map malloc [0..<nat (sint n)])" using m by (simp add: distinct_map)
  moreover have "set (map malloc [0..<nat (sint n)]) \<inter> dom (np_mem ?e) = {}"
    by (simp add: nodePool_empty_def)
  moreover have "\<forall>a \<in> set (map malloc [0..<nat (sint n)]). a \<noteq> 0 \<and> unat a < 2 ^ 48" using m by auto
  ultimately have "\<exists>p. np_fill raw (map malloc [0..<nat (sint n)]) ?e = Some p \<and>
    np_rep p (rev (map malloc [0..<nat (sint n)]) @ []) \<and>
    dom (np_mem p) = dom (np_mem ?e) \<union> set (map malloc [0..<nat (sint n)]) \<and>
    np_useSize p = np_useSize ?e \<and> np_maxSize p = np_maxSize ?e"
    by (rule np_fill_spec)
  then show ?thesis by (simp add: nodePool_new_def nodePool_empty_def)
qed

end
