(* ===== verification/Lock_Free_Queue.thy ===== *)
theory Lock_Free_Queue
  imports Node_Pool
begin

text \<open>
  The queue of serializer pointers of \<open>LockFreeQueue.h\<close>: a chain of pool nodes from a dummy
  node at \<open>_head\<close> to the node at \<open>_tail\<close>. As in \<open>Node_Pool\<close>, the operations run without another
  thread in between; a loop that would spin for ever has no result. The interface
  \<open>ptr_queue\<close> is what the session code relies on.
\<close>

section \<open>Operations\<close>

record lfq =
  lq_pushs :: u64
  lq_head :: u64
  lq_tail :: u64
  lq_np :: nodePool
  lq_size :: u32

abbreviation lq_mem :: "lfq \<Rightarrow> (u64 \<rightharpoonup> node)" where "lq_mem q \<equiv> np_mem (lq_np q)"

text \<open>A write to the node at an address.\<close>

definition nd_upd :: "lfq \<Rightarrow> u64 \<Rightarrow> (node \<Rightarrow> node) \<Rightarrow> lfq option" where
  "nd_upd q a f =
     map_option (\<lambda>n. q\<lparr>lq_np := (lq_np q)\<lparr>np_mem := (lq_mem q)(a \<mapsto> f n)\<rparr>\<rparr>) (lq_mem q a)"

definition lfq_new :: "(u64 \<Rightarrow> node) \<Rightarrow> u64 \<Rightarrow> (nat \<Rightarrow> u64) \<Rightarrow> u64 \<Rightarrow> lfq option" where
  "lfq_new raw pc malloc initialSize =
     do { np \<leftarrow> nodePool_new raw pc malloc (ucast initialSize);
          (np1, a) \<leftarrow> np_Alloc np;
          q \<leftarrow> nd_upd \<lparr>lq_pushs = 0, lq_head = a, lq_tail = a, lq_np = np1, lq_size = 0\<rparr> a
                 (\<lambda>n. n\<lparr>nd_key := 0\<rparr>);
          Some q }"

partial_function (option) lfq_delete_loop :: "lfq \<Rightarrow> lfq option" where
  "lfq_delete_loop q =
     (if lq_head q \<noteq> 0
      then Option.bind (lq_mem q (MAKE_NODEPTR (lq_head q))) (\<lambda>n.
           Option.bind (np_Free (lq_np q) (MAKE_NODEPTR (lq_head q)))
             (\<lambda>r. lfq_delete_loop (q\<lparr>lq_head := nd_key n, lq_np := fst r\<rparr>)))
      else Some q)"

text \<open>The destructor; the pool's destructor runs after its body.\<close>

definition lfq_delete :: "lfq \<Rightarrow> nodePool option" where
  "lfq_delete q = do { q1 \<leftarrow> lfq_delete_loop q; nodePool_delete (lq_np q1) }"

partial_function (option) lfq_push_loop :: "u64 \<Rightarrow> lfq \<Rightarrow> lfq option" where
  "lfq_push_loop newKey q =
     (let tail = lq_tail q in
      Option.bind (lq_mem q (MAKE_NODEPTR tail)) (\<lambda>n.
        let key = nd_key n in
        if key = 0 then
          let r = cas (nd_key n) newKey key in
          Option.bind (nd_upd q (MAKE_NODEPTR tail) (\<lambda>n. n\<lparr>nd_key := fst r\<rparr>)) (\<lambda>q1.
            if snd r = key then Some (q1\<lparr>lq_tail := fst (cas (lq_tail q1) newKey tail)\<rparr>)
            else lfq_push_loop newKey q1)
        else lfq_push_loop newKey (q\<lparr>lq_tail := fst (cas (lq_tail q) key tail)\<rparr>)))"

definition lfq_push :: "lfq \<Rightarrow> u64 \<Rightarrow> (lfq \<times> bool) option" where
  "lfq_push q t =
     (let pushCount = lq_pushs q + 1; q1 = q\<lparr>lq_pushs := pushCount\<rparr> in
      do { (np, n) \<leftarrow> np_Alloc (lq_np q1);
           (let q2 = q1\<lparr>lq_np := np\<rparr> in
            if n = 0 then Some (q2, False)
            else do { q3 \<leftarrow> nd_upd q2 n (\<lambda>n. n\<lparr>nd_value := t, nd_key := 0\<rparr>);
                      q4 \<leftarrow> lfq_push_loop (MAKE_KEY n pushCount) q3;
                      Some (q4\<lparr>lq_size := lq_size q4 + 1\<rparr>, True) }) })"

partial_function (option) lfq_pop_loop :: "lfq \<Rightarrow> (lfq \<times> u64) option" where
  "lfq_pop_loop q =
     (let head = lq_head q; tail = lq_tail q in
      Option.bind (lq_mem q (MAKE_NODEPTR head)) (\<lambda>n.
        let key = nd_key n in
        if key = 0 then lfq_pop_loop q
        else if head = tail then
          Option.bind (lq_mem q (MAKE_NODEPTR tail)) (\<lambda>m.
            lfq_pop_loop (q\<lparr>lq_tail := fst (cas (lq_tail q) (nd_key m) tail)\<rparr>))
        else if lq_head q = head then
          let q1 = q\<lparr>lq_head := key\<rparr> in
          Option.bind (np_Free (lq_np q1) (MAKE_NODEPTR head)) (\<lambda>r.
            let q2 = q1\<lparr>lq_np := fst r\<rparr> in
            Option.bind (lq_mem q2 (MAKE_NODEPTR key)) (\<lambda>m. Some (q2, nd_value m)))
        else lfq_pop_loop q))"

text \<open>The result is \<^term>\<open>None\<close> inside when the C++ function returns \<open>false\<close>.\<close>

definition lfq_pop :: "lfq \<Rightarrow> (lfq \<times> u64 option) option" where
  "lfq_pop q =
     (let q1 = q\<lparr>lq_size := lq_size q - 1\<rparr> in
      if sint (lq_size q1) < 0 then Some (q1\<lparr>lq_size := lq_size q1 + 1\<rparr>, None)
      else do { (q2, t) \<leftarrow> lfq_pop_loop q1; Some (q2, Some t) })"

definition lfq_sizeFn :: "lfq \<Rightarrow> u32" where
  "lfq_sizeFn q = lq_size q"

section \<open>The interface of a bounded queue of pointers\<close>

locale ptr_queue =
  fixes rep :: "'q \<Rightarrow> u64 list \<Rightarrow> nat \<Rightarrow> bool"
    and push :: "'q \<Rightarrow> u64 \<Rightarrow> ('q \<times> bool) option"
    and pop :: "'q \<Rightarrow> ('q \<times> u64 option) option"
    and size :: "'q \<Rightarrow> u32"
  assumes bound_law: "rep q xs c \<Longrightarrow> length xs \<le> c \<and> c < 2 ^ 31"
    and push_law: "rep q xs c \<Longrightarrow> length xs < c \<Longrightarrow> \<exists>q'. push q x = Some (q', True) \<and> rep q' (xs @ [x]) c"
    and push_full: "rep q xs c \<Longrightarrow> length xs = c \<Longrightarrow> \<exists>q'. push q x = Some (q', False) \<and> rep q' xs c"
    and pop_law: "rep q (x # xs) c \<Longrightarrow> \<exists>q'. pop q = Some (q', Some x) \<and> rep q' xs c"
    and pop_empty: "rep q [] c \<Longrightarrow> \<exists>q'. pop q = Some (q', None) \<and> rep q' [] c"
    and size_law: "rep q xs c \<Longrightarrow> size q = of_nat (length xs)"
begin

lemma size_nat: "rep q xs c \<Longrightarrow> unat (size q) = length xs"
  using bound_law [of q xs c] size_law [of q xs c] by (simp add: unat_of_nat)

lemma push_cases:
  assumes "rep q xs c"
  obtains q' where "length xs < c" "push q x = Some (q', True)" "rep q' (xs @ [x]) c"
  | q' where "length xs = c" "push q x = Some (q', False)" "rep q' xs c"
  using push_law [OF assms, of x] push_full [OF assms, of x] bound_law [OF assms]
  by (metis le_neq_implies_less)

fun push_all :: "'q \<Rightarrow> u64 list \<Rightarrow> 'q option" where
  "push_all q [] = Some q"
| "push_all q (x # xs) = Option.bind (push q x) (\<lambda>(q', b). push_all q' xs)"

fun pop_n :: "nat \<Rightarrow> 'q \<Rightarrow> ('q \<times> u64 list) option" where
  "pop_n 0 q = Some (q, [])"
| "pop_n (Suc n) q = Option.bind (pop q) (\<lambda>(q', r).
     case r of None \<Rightarrow> Some (q', []) | Some x \<Rightarrow> map_option (\<lambda>(q2, ys). (q2, x # ys)) (pop_n n q'))"

lemma push_all_rep:
  assumes "rep q xs c" "length xs + length ys \<le> c"
  shows "\<exists>q'. push_all q ys = Some q' \<and> rep q' (xs @ ys) c"
  using assms
proof (induction ys arbitrary: q xs)
  case (Cons y ys)
  have "length xs < c" using Cons.prems(2) by simp
  then obtain q1 where q1: "push q y = Some (q1, True)" "rep q1 (xs @ [y]) c"
    using push_law [OF Cons.prems(1)] by auto
  have "length (xs @ [y]) + length ys \<le> c" using Cons.prems(2) by simp
  from Cons.IH [OF q1(2) this] show ?case using q1(1) by simp
qed simp

lemma pop_n_rep:
  assumes "rep q (ys @ xs) c"
  shows "\<exists>q'. pop_n (length ys) q = Some (q', ys) \<and> rep q' xs c"
  using assms
proof (induction ys arbitrary: q)
  case (Cons y ys)
  then obtain q1 where "pop q = Some (q1, Some y)" "rep q1 (ys @ xs) c"
    using pop_law [of q y "ys @ xs" c] by auto
  then show ?case using Cons.IH [of q1] by auto
qed simp

text \<open>What goes in comes out in the same order.\<close>

lemma fifo:
  assumes "rep q [] c" "length ys \<le> c"
  shows "\<exists>q1 q2. push_all q ys = Some q1 \<and> pop_n (length ys) q1 = Some (q2, ys) \<and> rep q2 [] c"
  using push_all_rep [OF assms(1), of ys] pop_n_rep [of _ ys "[]" c] assms(2) by auto

end

section \<open>The chain of nodes\<close>

fun key_path :: "(u64 \<rightharpoonup> node) \<Rightarrow> u64 list \<Rightarrow> bool" where
  "key_path m [] \<longleftrightarrow> False"
| "key_path m [k] \<longleftrightarrow> (case m (MAKE_NODEPTR k) of None \<Rightarrow> False | Some n \<Rightarrow> nd_key n = 0)"
| "key_path m (k # k' # ks) \<longleftrightarrow> k' \<noteq> 0 \<and>
     (case m (MAKE_NODEPTR k) of None \<Rightarrow> False | Some n \<Rightarrow> nd_key n = k') \<and> key_path m (k' # ks)"

definition node_values :: "(u64 \<rightharpoonup> node) \<Rightarrow> u64 list \<Rightarrow> u64 list" where
  "node_values m ks = map (\<lambda>k. case m (MAKE_NODEPTR k) of None \<Rightarrow> 0 | Some n \<Rightarrow> nd_value n) ks"

text \<open>\<open>ks\<close> are the keys of the chain, the dummy node's first, and \<open>fs\<close> the free nodes; there are no others.\<close>

definition lfq_chain :: "lfq \<Rightarrow> u64 list \<Rightarrow> u64 list \<Rightarrow> bool" where
  "lfq_chain q ks fs \<longleftrightarrow> key_path (lq_mem q) ks \<and> lq_head q = hd ks \<and> lq_tail q = last ks \<and>
     np_rep (lq_np q) fs \<and> distinct (map MAKE_NODEPTR ks) \<and> MAKE_NODEPTR ` set ks \<inter> set fs = {} \<and>
     lq_size q = of_nat (length ks - 1) \<and> length ks + length fs \<le> 2 ^ 31 \<and>
     hd ks \<noteq> 0 \<and> dom (lq_mem q) = MAKE_NODEPTR ` set ks \<union> set fs"

definition lfq_rep :: "lfq \<Rightarrow> u64 list \<Rightarrow> nat \<Rightarrow> bool" where
  "lfq_rep q xs c \<longleftrightarrow> (\<exists>ks fs. lfq_chain q ks fs \<and> xs = node_values (lq_mem q) (tl ks) \<and>
     c + 1 = length ks + length fs)"

lemma key_path_nonempty: "key_path m ks \<Longrightarrow> ks \<noteq> []"
  by auto

lemma key_path_dom: "key_path m ks \<Longrightarrow> MAKE_NODEPTR ` set ks \<subseteq> dom m"
  by (induction m ks rule: key_path.induct) (auto split: option.splits)

lemma key_path_upd:
  "a \<notin> MAKE_NODEPTR ` set ks \<Longrightarrow> key_path (m(a := x)) ks = key_path m ks"
  by (induction m ks rule: key_path.induct) (auto split: option.splits)

lemma key_path_same:
  assumes "m a = Some n" "nd_key n' = nd_key n"
  shows "key_path (m(a \<mapsto> n')) ks = key_path m ks"
  using assms by (induction m ks rule: key_path.induct) (auto split: option.splits)

lemma key_path_snoc:
  assumes "key_path m ks" "distinct (map MAKE_NODEPTR ks)" "MAKE_NODEPTR k \<notin> MAKE_NODEPTR ` set ks" "k \<noteq> 0"
    and "m (MAKE_NODEPTR (last ks)) = Some n" "m (MAKE_NODEPTR k) = Some n'" "nd_key n' = 0"
  shows "key_path (m(MAKE_NODEPTR (last ks) \<mapsto> n\<lparr>nd_key := k\<rparr>)) (ks @ [k])"
  using assms
proof (induction m ks rule: key_path.induct)
  case (3 m k1 k2 ks)
  have ne: "MAKE_NODEPTR k1 \<noteq> MAKE_NODEPTR (last (k2 # ks))"
    using 3(3) last_in_set [of "k2 # ks"] by (auto split: if_splits)
  have "key_path (m(MAKE_NODEPTR (last (k2 # ks)) \<mapsto> n\<lparr>nd_key := k\<rparr>)) ((k2 # ks) @ [k])"
    using 3(2-) by (intro 3(1)) auto
  moreover have "last (k1 # k2 # ks) = last (k2 # ks)" by simp
  moreover have "(m(MAKE_NODEPTR (last (k2 # ks)) \<mapsto> n\<lparr>nd_key := k\<rparr>)) (MAKE_NODEPTR k1) = m (MAKE_NODEPTR k1)"
    using ne by (rule fun_upd_other)
  ultimately show ?case using 3(2) by (simp only: append.simps key_path.simps) simp
qed (auto split: option.splits)

lemma pool_path_key:
  assumes "m a = Some n" "nd_poolNext n' = nd_poolNext n"
  shows "pool_path (m(a \<mapsto> n')) k fs = pool_path m k fs"
  using assms by (induction fs arbitrary: k) (auto split: option.splits)

lemma np_rep_key:
  assumes "np_mem p a = Some n" "nd_poolNext n' = nd_poolNext n"
  shows "np_rep (p\<lparr>np_mem := (np_mem p)(a \<mapsto> n')\<rparr>) fs = np_rep p fs"
proof -
  have "dom ((np_mem p)(a \<mapsto> n')) = dom (np_mem p)" using assms(1) by auto
  moreover have "pool_path ((np_mem p)(a \<mapsto> n')) k fs = pool_path (np_mem p) k fs" for k
    using assms by (rule pool_path_key)
  ultimately show ?thesis by (simp add: np_rep_def del: fun_upd_apply dom_fun_upd)
qed

lemma lfq_chainD:
  assumes "lfq_chain q ks fs"
  shows "ks \<noteq> []" "lq_head q = hd ks" "lq_tail q = last ks" "np_rep (lq_np q) fs"
    "MAKE_NODEPTR ` set ks \<subseteq> dom (lq_mem q)" "set fs \<subseteq> dom (lq_mem q)"
proof -
  note C = assms [unfolded lfq_chain_def]
  show "ks \<noteq> []" using C by (intro key_path_nonempty [of "lq_mem q"]) blast
  show "lq_head q = hd ks" "lq_tail q = last ks" "np_rep (lq_np q) fs"
    using C by blast+
  show "MAKE_NODEPTR ` set ks \<subseteq> dom (lq_mem q)" using C by (intro key_path_dom) blast
  have "np_rep (lq_np q) fs" using C by blast
  then show "set fs \<subseteq> dom (lq_mem q)"
    unfolding np_rep_def by (intro pool_path_dom [of "lq_mem q" "np_topKey (lq_np q)"]) (rule conjunct1)
qed

lemma node_values_cong:
  "(\<And>k. k \<in> set ks \<Longrightarrow> map_option nd_value (m (MAKE_NODEPTR k)) = map_option nd_value (m' (MAKE_NODEPTR k))) \<Longrightarrow>
     node_values m ks = node_values m' ks"
  unfolding node_values_def
  by (rule map_cong [OF refl]) (force split: option.splits)

lemma lfq_pop_empty:
  assumes "lfq_chain q [k] fs"
  shows "lfq_pop q = Some (q, None)"
  using assms by (simp add: lfq_pop_def lfq_chain_def)

lemma lfq_pop_cons:
  assumes c: "lfq_chain q (k1 # k2 # ks) fs"
  obtains q' where "lfq_pop q = Some (q', Some (hd (node_values (lq_mem q) (k2 # ks))))"
    "lfq_chain q' (k2 # ks) (MAKE_NODEPTR k1 # fs)"
    "node_values (lq_mem q') ks = node_values (lq_mem q) ks"
proof -
  note C = c [unfolded lfq_chain_def]
  let ?a1 = "MAKE_NODEPTR k1" let ?a2 = "MAKE_NODEPTR k2"
  obtain n1 where n1: "lq_mem q ?a1 = Some n1" "nd_key n1 = k2" and k2: "k2 \<noteq> 0"
    using C by (auto split: option.splits)
  obtain n2 where n2: "lq_mem q ?a2 = Some n2" using lfq_chainD(5) [OF c] by auto
  have h: "lq_head q = k1" "lq_tail q = last (k2 # ks)" using C by simp_all
  have ne: "?a1 \<notin> MAKE_NODEPTR ` set (k2 # ks)" "?a1 \<notin> set fs" using C by auto
  have ht: "k1 \<noteq> last (k2 # ks)" using ne(1) last_in_set [of "k2 # ks"] by auto
  obtain np' where f: "np_Free (lq_np q) ?a1 = Some (np', True)" "np_rep np' (?a1 # fs)"
    "np_mem np' = (lq_mem q)(?a1 \<mapsto> n1\<lparr>nd_poolNext := np_topKey (lq_np q)\<rparr>)"
    using n1(1) ne(2) C by (blast elim: np_Free_cons)
  let ?s = "lq_size q - 1"
  let ?q' = "q\<lparr>lq_size := ?s, lq_head := k2, lq_np := np'\<rparr>"
  have s: "?s = of_nat (length ks)" "length ks < 2 ^ 31" using C by simp_all
  have s0: "\<not> sint ?s < 0"
  proof -
    have "unat (of_nat (length ks) :: u32) = length ks" using s(2) by (simp add: unat_of_nat)
    then have "0 \<le> sint (of_nat (length ks) :: u32)"
      using s(2) sint_small [of "of_nat (length ks)"] by simp
    then show ?thesis by (simp add: s(1))
  qed
  have m2: "np_mem np' ?a2 = Some n2" using n2 ne by (auto simp: f(3))
  have "lfq_pop_loop (q\<lparr>lq_size := ?s\<rparr>) = Some (?q', nd_value n2)"
    using n1 k2 h ht f(1) m2 by (subst lfq_pop_loop.simps) (simp add: Let_def)
  then have "lfq_pop q = Some (?q', Some (nd_value n2))"
    using s0 by (simp add: lfq_pop_def Let_def)
  moreover have "nd_value n2 = hd (node_values (lq_mem q) (k2 # ks))"
    by (simp add: node_values_def n2)
  moreover have "lfq_chain ?q' (k2 # ks) (?a1 # fs)"
  proof -
    have "dom (np_mem np') = dom (lq_mem q)" using n1(1) by (auto simp: f(3))
    also have "\<dots> = MAKE_NODEPTR ` set (k2 # ks) \<union> set (?a1 # fs)" using C by auto
    finally have d: "dom (np_mem np') = MAKE_NODEPTR ` set (k2 # ks) \<union> set (?a1 # fs)" .
    have kp: "key_path (np_mem np') (k2 # ks)" using C ne(1) by (simp add: f(3) key_path_upd del: fun_upd_apply)
    show ?thesis using C f(2) s(1) ne k2 d kp by (simp add: lfq_chain_def)
  qed
  moreover have "node_values (lq_mem ?q') ks = node_values (lq_mem q) ks"
  proof (rule node_values_cong)
    fix k assume "k \<in> set ks"
    then have "MAKE_NODEPTR k \<in> MAKE_NODEPTR ` set (k2 # ks)" by simp
    then have "MAKE_NODEPTR k \<noteq> ?a1" using ne(1) by metis
    then show "map_option nd_value (lq_mem ?q' (MAKE_NODEPTR k)) = map_option nd_value (lq_mem q (MAKE_NODEPTR k))"
      by (simp add: f(3))
  qed
  ultimately show thesis using that by simp
qed

lemma lfq_push_full:
  assumes "lfq_chain q ks []"
  shows "lfq_push q t = Some (q\<lparr>lq_pushs := lq_pushs q + 1\<rparr>, False)"
    and "lfq_chain (q\<lparr>lq_pushs := lq_pushs q + 1\<rparr>) ks []"
proof -
  have "np_Alloc (lq_np q) = Some (lq_np q, 0)"
    using assms by (intro np_Alloc_empty) (simp add: lfq_chain_def)
  then show "lfq_push q t = Some (q\<lparr>lq_pushs := lq_pushs q + 1\<rparr>, False)"
    by (simp add: lfq_push_def Let_def)
  show "lfq_chain (q\<lparr>lq_pushs := lq_pushs q + 1\<rparr>) ks []" using assms by (simp add: lfq_chain_def)
qed

lemma lfq_push_room:
  assumes c: "lfq_chain q ks (a # fs)"
  obtains q' k where "lfq_push q t = Some (q', True)" "lfq_chain q' (ks @ [k]) fs"
    "node_values (lq_mem q') (tl ks @ [k]) = node_values (lq_mem q) (tl ks) @ [t]"
proof -
  note C = c [unfolded lfq_chain_def]
  note D = lfq_chainD [OF c]
  let ?k = "MAKE_KEY a (lq_pushs q + 1)"
  have a: "a \<noteq> 0" "unat a < 2 ^ 48" "a \<in> dom (lq_mem q)"
    using C D(6) by (auto simp: np_rep_def)
  have ka: "MAKE_NODEPTR ?k = a" "?k \<noteq> 0" using a NODEPTR_KEY KEY_nonzero by simp_all
  obtain n0 where n0: "lq_mem q a = Some n0" using a by auto
  obtain np' where f: "np_Alloc (lq_np q) = Some (np', a)" "np_rep np' fs" "np_mem np' = lq_mem q"
    using np_Alloc_cons [OF D(4)] by metis
  let ?n1 = "n0\<lparr>nd_value := t, nd_key := 0\<rparr>"
  let ?m = "(lq_mem q)(a \<mapsto> ?n1)"
  let ?l = "MAKE_NODEPTR (last ks)"
  let ?q1 = "q\<lparr>lq_pushs := lq_pushs q + 1, lq_np := np'\<lparr>np_mem := ?m\<rparr>\<rparr>"
  have u: "nd_upd (q\<lparr>lq_pushs := lq_pushs q + 1, lq_np := np'\<rparr>) a (\<lambda>n. n\<lparr>nd_value := t, nd_key := 0\<rparr>) = Some ?q1"
    by (simp add: nd_upd_def f(3) n0)
  have na: "a \<notin> MAKE_NODEPTR ` set ks" using C by auto
  have la: "?l \<noteq> a" using na D(1) by auto
  have kp: "key_path ?m ks" using C na by (simp add: key_path_upd)
  have "?l \<in> MAKE_NODEPTR ` set ks" using D(1) by simp
  then have "?l \<in> dom (lq_mem q)" by (rule subsetD [OF D(5)])
  then obtain nl where nl: "lq_mem q ?l = Some nl" by blast
  have nk: "nd_key nl = 0"
  proof -
    have "key_path m ks \<Longrightarrow> (case m (MAKE_NODEPTR (last ks)) of None \<Rightarrow> False | Some n \<Rightarrow> nd_key n = 0)" for m
      by (induction m ks rule: key_path.induct) auto
    then show ?thesis using C nl by force
  qed
  let ?m2 = "?m(?l \<mapsto> nl\<lparr>nd_key := ?k\<rparr>)"
  let ?q2 = "?q1\<lparr>lq_np := np'\<lparr>np_mem := ?m2\<rparr>, lq_tail := ?k\<rparr>"
  have loop: "lfq_push_loop ?k ?q1 = Some ?q2"
    using nl la nk D(3)
    by (subst lfq_push_loop.simps) (simp add: Let_def cas_def nd_upd_def)
  let ?q' = "?q2\<lparr>lq_size := lq_size q + 1\<rparr>"
  have "lfq_push q t = Some (?q', True)"
    using f(1) a(1) u loop by (simp add: lfq_push_def Let_def)
  moreover have "lfq_chain ?q' (ks @ [?k]) fs"
  proof -
    have "key_path ?m2 (ks @ [?k])"
      using key_path_snoc [OF kp _ _ ka(2), of nl ?n1] C na nl la ka(1) by simp
    moreover have "np_rep (np'\<lparr>np_mem := ?m2\<rparr>) fs"
    proof -
      have "np_rep (np'\<lparr>np_mem := ?m\<rparr>) fs"
        using np_rep_key [of np' a n0 ?n1 fs] f(2,3) n0 by simp
      then show ?thesis
        using np_rep_key [of "np'\<lparr>np_mem := ?m\<rparr>" ?l nl "nl\<lparr>nd_key := ?k\<rparr>" fs] nl la by simp
    qed
    moreover have "a \<notin> set fs" using C by (simp add: np_rep_def)
    moreover have "of_nat (length ks - 1) + 1 = (of_nat (length ks) :: u32)"
      using D(1) by (cases ks) (simp_all add: add.commute)
    moreover have "dom ?m2 = MAKE_NODEPTR ` set (ks @ [?k]) \<union> set fs"
    proof -
      have "dom ?m2 = dom (lq_mem q)" using a(3) nl by auto
      also have "\<dots> = MAKE_NODEPTR ` set ks \<union> insert a (set fs)" using C by auto
      finally show ?thesis using ka(1) by auto
    qed
    moreover have "hd (ks @ [?k]) \<noteq> 0" using C D(1) by simp
    ultimately show ?thesis
      using C na ka D(1) by (simp add: lfq_chain_def del: fun_upd_apply dom_fun_upd)
  qed
  moreover have "node_values (lq_mem ?q') (tl ks @ [?k]) = node_values (lq_mem q) (tl ks) @ [t]"
  proof -
    have "node_values ?m2 (tl ks) = node_values (lq_mem q) (tl ks)"
    proof (rule node_values_cong)
      fix k assume "k \<in> set (tl ks)"
      then have "MAKE_NODEPTR k \<noteq> a" using na by (metis image_eqI list.set_sel(2) D(1))
      then show "map_option nd_value (?m2 (MAKE_NODEPTR k)) = map_option nd_value (lq_mem q (MAKE_NODEPTR k))"
        using nl by simp
    qed
    then show ?thesis using la ka(1) by (simp add: node_values_def)
  qed
  ultimately show thesis by (rule that)
qed

interpretation lfq: ptr_queue lfq_rep lfq_push lfq_pop lfq_sizeFn
proof unfold_locales
  fix q xs c x
  show "length xs \<le> c \<and> c < 2 ^ 31" if "lfq_rep q xs c"
    using that by (auto simp: lfq_rep_def lfq_chain_def node_values_def)
  show "\<exists>q'. lfq_push q x = Some (q', True) \<and> lfq_rep q' (xs @ [x]) c" if r: "lfq_rep q xs c" "length xs < c"
  proof -
    obtain ks fs where c: "lfq_chain q ks fs" "xs = node_values (lq_mem q) (tl ks)" "c + 1 = length ks + length fs"
      using r(1) by (auto simp: lfq_rep_def)
    have "ks \<noteq> []" by (rule lfq_chainD(1) [OF c(1)])
    moreover have "fs \<noteq> []" using c r(2) calculation by (auto simp: node_values_def)
    then obtain a gs where fs: "fs = a # gs" by (cases fs) auto
    obtain q' k where q': "lfq_push q x = Some (q', True)" "lfq_chain q' (ks @ [k]) gs"
      "node_values (lq_mem q') (tl ks @ [k]) = node_values (lq_mem q) (tl ks) @ [x]"
      using lfq_push_room [OF c(1) [unfolded fs]] by metis
    moreover have "tl (ks @ [k]) = tl ks @ [k]" using \<open>ks \<noteq> []\<close> by simp
    ultimately have "lfq_rep q' (xs @ [x]) c"
      unfolding lfq_rep_def using c fs by (intro exI [of _ "ks @ [k]"] exI [of _ gs]) simp
    then show ?thesis using q' by blast
  qed
  show "\<exists>q'. lfq_push q x = Some (q', False) \<and> lfq_rep q' xs c" if r: "lfq_rep q xs c" "length xs = c"
  proof -
    obtain ks fs where c: "lfq_chain q ks fs" "xs = node_values (lq_mem q) (tl ks)" "c + 1 = length ks + length fs"
      using r(1) by (auto simp: lfq_rep_def)
    have "ks \<noteq> []" by (rule lfq_chainD(1) [OF c(1)])
    then have "fs = []" using c r(2) by (cases ks) (auto simp: node_values_def)
    then have f: "lfq_chain q ks []" using c(1) by simp
    have "lfq_rep (q\<lparr>lq_pushs := lq_pushs q + 1\<rparr>) xs c"
      unfolding lfq_rep_def using lfq_push_full(2) [OF f] c \<open>fs = []\<close>
      by (intro exI [of _ ks] exI [of _ "[]"]) simp
    then show ?thesis using lfq_push_full(1) [OF f, of x] by blast
  qed
  show "\<exists>q'. lfq_pop q = Some (q', Some x) \<and> lfq_rep q' xs c" if r: "lfq_rep q (x # xs) c"
  proof -
    obtain ks fs where c: "lfq_chain q ks fs" "x # xs = node_values (lq_mem q) (tl ks)" "c + 1 = length ks + length fs"
      using r(1) by (auto simp: lfq_rep_def)
    obtain k1 k2 rest where ks: "ks = k1 # k2 # rest"
      using c(2) by (cases ks; cases "tl ks") (auto simp: node_values_def)
    obtain q' where q': "lfq_pop q = Some (q', Some (hd (node_values (lq_mem q) (k2 # rest))))"
      "lfq_chain q' (k2 # rest) (MAKE_NODEPTR k1 # fs)" "node_values (lq_mem q') rest = node_values (lq_mem q) rest"
      using lfq_pop_cons [OF c(1) [unfolded ks]] by metis
    have "x = hd (node_values (lq_mem q) (k2 # rest))" "xs = node_values (lq_mem q) rest"
      using c(2) by (auto simp: ks node_values_def)
    moreover have "lfq_rep q' (node_values (lq_mem q) rest) c"
      unfolding lfq_rep_def using q'(2,3) c(3) ks
      by (intro exI [of _ "k2 # rest"] exI [of _ "MAKE_NODEPTR k1 # fs"]) simp
    ultimately show ?thesis using q'(1) by auto
  qed
  show "\<exists>q'. lfq_pop q = Some (q', None) \<and> lfq_rep q' [] c" if r: "lfq_rep q [] c"
  proof -
    obtain ks fs where c: "lfq_chain q ks fs" "[] = node_values (lq_mem q) (tl ks)"
      using r(1) by (auto simp: lfq_rep_def)
    then obtain k where "ks = [k]" using lfq_chainD(1) [OF c(1)] by (cases ks) (auto simp: node_values_def)
    then show ?thesis using lfq_pop_empty [of q k fs] c(1) r by auto
  qed
  show "lfq_sizeFn q = of_nat (length xs)" if "lfq_rep q xs c"
    using that by (auto simp: lfq_rep_def lfq_chain_def node_values_def lfq_sizeFn_def)
qed


section \<open>Construction and destruction\<close>

lemma lfq_new_spec:
  assumes n: "0 < unat n" "unat n < 2 ^ 31"
    and m: "inj_on malloc {0..<unat n}" "\<And>i. i < unat n \<Longrightarrow> malloc i \<noteq> 0 \<and> unat (malloc i) < 2 ^ 48"
  shows "\<exists>q. lfq_new raw pc malloc n = Some q \<and> lfq_rep q [] (unat n - 1) \<and> lq_size q = 0"
proof -
  have u: "unat (ucast n :: u32) = unat n" using n by (simp add: unsigned_ucast_eq take_bit_nat_eq_self)
  then have s: "sint (ucast n :: u32) = int (unat n)" using n(2) sint_small [of "ucast n"] by (simp only: u)
  then have sn: "nat (sint (ucast n :: u32)) = unat n" by (simp only: s nat_int)
  have s0: "0 \<le> sint (ucast n :: u32)" by (simp only: s of_nat_0_le_iff)
  let ?as = "rev (map malloc [0..<unat n])"
  obtain np where np: "nodePool_new raw pc malloc (ucast n) = Some np" "np_rep np ?as" "dom (np_mem np) = malloc ` {0..<unat n}"
    using nodePool_new_spec [OF s0, of malloc raw pc] m unfolding sn by blast
  define a where "a = malloc (unat n - 1)"
  have as: "?as = a # rev (map malloc [0..<unat n - 1])"
    using n(1) by (cases "unat n") (simp_all add: a_def)
  obtain np1 where np1: "np_Alloc np = Some (np1, a)" "np_rep np1 (rev (map malloc [0..<unat n - 1]))" "np_mem np1 = np_mem np"
    using np_Alloc_cons [OF np(2) [unfolded as]] by metis
  have a0: "a \<noteq> 0" "unat a < 2 ^ 48" using m(2) [of "unat n - 1"] n(1) by (simp_all add: a_def)
  have "a \<in> dom (np_mem np)"
    using np.dist [OF np(2)] as by auto
  then obtain nd where nd: "np_mem np1 a = Some nd" by (auto simp: np1(3))
  let ?q = "\<lparr>lq_pushs = 0, lq_head = a, lq_tail = a,
     lq_np = np1\<lparr>np_mem := (np_mem np1)(a \<mapsto> nd\<lparr>nd_key := 0\<rparr>)\<rparr>, lq_size = 0\<rparr>"
  have eq: "lfq_new raw pc malloc n = Some ?q"
    by (simp add: lfq_new_def np(1) np1(1) nd_upd_def nd)
  have rep1: "np_rep (lq_np ?q) (rev (map malloc [0..<unat n - 1]))"
    using np_rep_key [OF nd, of "nd\<lparr>nd_key := 0\<rparr>"] np1(2) by simp
  have dj: "a \<notin> set (rev (map malloc [0..<unat n - 1]))"
    using np.dist [OF np(2)] by (simp only: as distinct.simps) blast
  have "set ?as = malloc ` {0..<unat n}" by simp
  then have d: "dom (np_mem np1) = insert a (set (rev (map malloc [0..<unat n - 1])))"
    unfolding np1(3) np(3) by (simp only: as list.set)
  have "dom (lq_mem ?q) = MAKE_NODEPTR ` set [a] \<union> set (rev (map malloc [0..<unat n - 1]))"
    using d a0 by (simp add: NODEPTR_small)
  then have "lfq_chain ?q [a] (rev (map malloc [0..<unat n - 1]))"
    using rep1 dj a0 n(2) by (simp add: lfq_chain_def NODEPTR_small)
  then have "lfq_rep ?q [] (unat n - 1)"
    unfolding lfq_rep_def using n(1)
    by (intro exI [of _ "[a]"] exI [of _ "rev (map malloc [0..<unat n - 1])"]) (simp add: node_values_def)
  then show ?thesis using eq by simp
qed

lemma lfq_delete_loop_spec:
  assumes "key_path (lq_mem q) ks" "lq_head q = hd ks" "hd ks \<noteq> 0" "np_rep (lq_np q) fs"
    "distinct (map MAKE_NODEPTR ks)" "MAKE_NODEPTR ` set ks \<inter> set fs = {}"
  shows "\<exists>q'. lfq_delete_loop q = Some q' \<and> np_rep (lq_np q') (rev (map MAKE_NODEPTR ks) @ fs) \<and>
    dom (lq_mem q') = dom (lq_mem q)"
  using assms
proof (induction ks arbitrary: q fs)
  case (Cons k ks)
  let ?a = "MAKE_NODEPTR k"
  obtain n where n: "lq_mem q ?a = Some n"
    using key_path_dom [OF Cons.prems(1)] by auto
  have af: "?a \<notin> set fs" using Cons.prems(6) by auto
  obtain np' where f: "np_Free (lq_np q) ?a = Some (np', True)" "np_rep np' (?a # fs)"
    "np_mem np' = (lq_mem q)(?a \<mapsto> n\<lparr>nd_poolNext := np_topKey (lq_np q)\<rparr>)"
    by (rule np_Free_cons [OF Cons.prems(4) n af])
  have d: "dom (np_mem np') = dom (lq_mem q)" using n f(3) by auto
  let ?q = "q\<lparr>lq_head := nd_key n, lq_np := np'\<rparr>"
  have step: "lfq_delete_loop q = lfq_delete_loop ?q"
    using Cons.prems(2,3) n f(1) by (subst lfq_delete_loop.simps) simp
  show ?case
  proof (cases ks)
    case Nil
    then have "nd_key n = 0" using Cons.prems(1) n by simp
    then have "lfq_delete_loop ?q = Some ?q" by (subst lfq_delete_loop.simps) simp
    then show ?thesis using step f(2) d Nil by auto
  next
    case (Cons k' ks')
    have kp: "key_path (lq_mem q) ks" "nd_key n = hd ks" "hd ks \<noteq> 0"
      using \<open>key_path (lq_mem q) (k # ks)\<close> n by (auto simp: Cons)
    have nk: "?a \<notin> MAKE_NODEPTR ` set ks" using Cons.prems(5) by simp
    have "key_path (lq_mem ?q) ks" using kp(1) nk by (simp add: f(3) key_path_upd del: fun_upd_apply)
    moreover have "lq_head ?q = hd ks" "np_rep (lq_np ?q) (?a # fs)" using kp f(2) by simp_all
    moreover have "distinct (map MAKE_NODEPTR ks)" "MAKE_NODEPTR ` set ks \<inter> set (?a # fs) = {}"
      using Cons.prems(5,6) nk by auto
    ultimately have "\<exists>q'. lfq_delete_loop ?q = Some q' \<and>
        np_rep (lq_np q') (rev (map MAKE_NODEPTR ks) @ (?a # fs)) \<and> dom (lq_mem q') = dom (lq_mem ?q)"
      using kp(3) by (intro Cons.IH)
    then show ?thesis using step d by simp
  qed
qed simp

text \<open>The destructor frees every node, queued or free, once.\<close>

lemma lfq_delete_spec:
  assumes "lfq_rep q xs c"
  shows "\<exists>p. lfq_delete q = Some p \<and> np_mem p = Map.empty"
proof -
  obtain ks fs where c: "lfq_chain q ks fs" using assms by (auto simp: lfq_rep_def)
  have h: "hd ks \<noteq> 0" and all: "dom (lq_mem q) = MAKE_NODEPTR ` set ks \<union> set fs"
    using c unfolding lfq_chain_def by blast+
  note C = c [unfolded lfq_chain_def]
  obtain q' where q': "lfq_delete_loop q = Some q'" "np_rep (lq_np q') (rev (map MAKE_NODEPTR ks) @ fs)"
    "dom (lq_mem q') = dom (lq_mem q)"
    using lfq_delete_loop_spec [of q ks fs] C by auto
  have "nodePool_delete (lq_np q') =
      Some ((lq_np q')\<lparr>np_mem := lq_mem q' |` (- set (rev (map MAKE_NODEPTR ks) @ fs)), np_topKey := 0\<rparr>)"
    unfolding nodePool_delete_def using q'(2) unfolding np_rep_def by (intro np_free_all_spec) blast+
  moreover have "lq_mem q' |` (- set (rev (map MAKE_NODEPTR ks) @ fs)) = Map.empty"
    using q'(3) all by (auto simp: restrict_map_def fun_eq_iff domIff)
  ultimately show ?thesis by (simp add: lfq_delete_def q'(1))
qed

end
