(* ===== verification/Byte_Fifo.thy ===== *)
theory Byte_Fifo
  imports Prelude
begin

text \<open>
  The interface of a bounded byte queue, as the session code relies on it: what a push, a pop
  and a look at the front do to the stored bytes. The lemmas of the locale are the client's:
  exact pushes and pops, and the use of the queue for 8-byte pointers (\<open>sendedBuffer\<close> keeps
  the serializer pointers of a running send that way).
\<close>

fun ptr_bytes :: "u64 list \<Rightarrow> byte list" where
  "ptr_bytes [] = []"
| "ptr_bytes (p # ps) = le_bytes 8 p @ ptr_bytes ps"

lemma ptr_bytes_append [simp]: "ptr_bytes (ps @ qs) = ptr_bytes ps @ ptr_bytes qs"
  by (induction ps) simp_all

lemma length_ptr_bytes [simp]: "length (ptr_bytes ps) = 8 * length ps"
  by (induction ps) simp_all

lemma ptr_bytes_eq_Nil [simp]: "ptr_bytes ps = [] \<longleftrightarrow> ps = []"
  using length_ptr_bytes by (metis length_0_conv mult_eq_0_iff zero_neq_numeral)

locale byte_fifo =
  fixes inv :: "'q \<Rightarrow> bool" and contents :: "'q \<Rightarrow> byte list" and cap :: "'q \<Rightarrow> nat"
    and push :: "'q \<Rightarrow> byte list \<Rightarrow> u64 \<Rightarrow> ('q \<times> u64) option"
    and pop :: "'q \<Rightarrow> u64 \<Rightarrow> ('q \<times> byte list) option"
    and front :: "'q \<Rightarrow> u64 \<Rightarrow> byte list option"
  assumes bounded: "inv q \<Longrightarrow> length (contents q) \<le> cap q"
    and push_law: "inv q \<Longrightarrow> unat n \<le> length d \<Longrightarrow> k = min (unat n) (cap q - length (contents q)) \<Longrightarrow>
      \<exists>q'. push q d n = Some (q', of_nat k) \<and> inv q' \<and> contents q' = contents q @ take k d \<and> cap q' = cap q"
    and pop_law: "inv q \<Longrightarrow> \<exists>q'. pop q n = Some (q', take (unat n) (contents q)) \<and> inv q' \<and>
      contents q' = drop (unat n) (contents q) \<and> cap q' = cap q"
    and front_law: "inv q \<Longrightarrow> front q n = Some (take (unat n) (contents q))"
begin

lemma push_exact:
  assumes "inv q" and "length d = unat n" and "length (contents q) + unat n \<le> cap q"
  obtains q' where "push q d n = Some (q', n)" "inv q'" "contents q' = contents q @ d" "cap q' = cap q"
proof -
  have k: "min (unat n) (cap q - length (contents q)) = unat n" using assms(3) by simp
  have "\<exists>q'. push q d n = Some (q', of_nat (unat n)) \<and> inv q' \<and>
      contents q' = contents q @ take (unat n) d \<and> cap q' = cap q"
    using push_law [OF assms(1) _ refl, of n d] assms(2) by (simp only: k order.refl)
  then show thesis using that assms(2) by auto
qed

lemma pop_exact:
  assumes "inv q" and "contents q = d @ rest" and "length d = unat n"
  obtains q' where "pop q n = Some (q', d)" "inv q'" "contents q' = rest" "cap q' = cap q"
  using pop_law [OF assms(1), of n] assms(2,3) by auto

lemma push_pop_empty:
  assumes "inv q" "contents q = []" "length d = unat n" "unat n \<le> cap q"
  shows "\<exists>q1 q2. push q d n = Some (q1, n) \<and> pop q1 n = Some (q2, d) \<and> contents q2 = []"
proof -
  obtain q1 where q1: "push q d n = Some (q1, n)" "inv q1" "contents q1 = contents q @ d"
    using assms by (auto elim: push_exact)
  then obtain q2 where "pop q1 n = Some (q2, d)" "contents q2 = []"
    using assms pop_exact [of q1 d "[]" n] by auto
  with q1 show ?thesis by blast
qed

lemma push_ptr:
  assumes "inv q" and "contents q = ptr_bytes ps" and "8 * length ps + 8 \<le> cap q"
  obtains q' where "push q (le_bytes 8 p) 8 = Some (q', 8)" "inv q'"
    "contents q' = ptr_bytes (ps @ [p])" "cap q' = cap q"
  using assms by (auto elim!: push_exact [of q "le_bytes 8 p" 8])

lemma pop_ptr:
  assumes "inv q" and "contents q = ptr_bytes (p # ps)"
  obtains q' where "pop q 8 = Some (q', le_bytes 8 p)" "inv q'" "contents q' = ptr_bytes ps" "cap q' = cap q"
  using assms by (auto elim!: pop_exact [of q "le_bytes 8 p" "ptr_bytes ps" 8])

lemma ptr_count: "inv q \<Longrightarrow> contents q = ptr_bytes ps \<Longrightarrow> 8 * length ps \<le> cap q"
  using bounded [of q] by simp

end

end
