(* ===== verification/Ring_Buffer.thy ===== *)
theory Ring_Buffer
  imports Byte_Fifo
begin

text \<open>
  The byte ring of \<open>ringBuffer.h\<close> and \<open>ringBuffer.cpp\<close>. The pointers \<open>headPtr\<close> and
  \<open>tailPtr\<close> are 64-bit offsets from \<open>buffer\<close>, the block itself is a list of bytes, and the
  size computations are done on 64-bit words with the code's masks. \<open>headPtr\<close> stands one
  before the first stored byte and \<open>tailPtr\<close> on the last one, so a buffer of \<open>2 ^ k\<close> bytes
  holds at most \<open>2 ^ k - 1\<close>. The abstraction \<open>rb_contents\<close> is the list of stored
  bytes; the lemmas show that every operation acts on it as on a bounded byte queue.
\<close>

section \<open>State and size computations\<close>

record ringBuffer =
  rb_bufferSize :: u32
  rb_maxSize :: u32
  rb_buffer :: "byte list"
  rb_headPtr :: u64
  rb_tailPtr :: u64

text \<open>
  The constructor computes \<open>pow(2, ceil(log2(size)))\<close> on doubles and casts it to \<open>int\<close>, which
  is undefined from \<open>2 ^ 31\<close> on; \<open>pow2_from 1\<close> is the least power of two that is not below
  its argument, and a size 0 gives \<open>pow(2, -inf) = 0\<close>. The bytes of \<open>new char[]\<close> are not
  initialised: \<open>raw\<close> stands for them.
\<close>

function pow2_from :: "nat \<Rightarrow> nat \<Rightarrow> nat" where
  "pow2_from p n = (if n \<le> p \<or> p = 0 then p else pow2_from (2 * p) n)"
  by pat_completeness auto
termination
  by (relation "measure (\<lambda>(p, n). n - p)") auto

declare pow2_from.simps [simp del]

definition pow2_ceil :: "nat \<Rightarrow> nat" where
  "pow2_ceil n = (if n = 0 then 0 else pow2_from 1 n)"

definition ringBuffer_new :: "(nat \<Rightarrow> byte) \<Rightarrow> u64 \<Rightarrow> ringBuffer option" where
  "ringBuffer_new raw sz =
     (let bs = pow2_ceil (unat sz) in
      if 2 ^ 31 \<le> bs then None
      else Some \<lparr> rb_bufferSize = of_nat bs, rb_maxSize = of_nat bs - 1,
                  rb_buffer = map raw [0..<bs], rb_headPtr = 0, rb_tailPtr = 0 \<rparr>)"

definition rb_size_of :: "ringBuffer \<Rightarrow> u64 \<Rightarrow> u64 \<Rightarrow> u64" where
  "rb_size_of rb h t = (t - h + ucast (rb_bufferSize rb)) AND ucast (rb_maxSize rb)"

definition rb_freeSize_of :: "ringBuffer \<Rightarrow> u64 \<Rightarrow> u64 \<Rightarrow> u64" where
  "rb_freeSize_of rb h t =
     ucast (rb_maxSize rb) - ((t - h + ucast (rb_bufferSize rb)) AND ucast (rb_maxSize rb))"

definition rb_empty_of :: "u64 \<Rightarrow> u64 \<Rightarrow> bool" where
  "rb_empty_of h t \<longleftrightarrow> h = t"

definition rb_full_of :: "ringBuffer \<Rightarrow> u64 \<Rightarrow> u64 \<Rightarrow> bool" where
  "rb_full_of rb h t \<longleftrightarrow> h = (t + 1) AND ucast (rb_maxSize rb)"

definition rb_head_of :: "ringBuffer \<Rightarrow> u64 \<Rightarrow> u64 \<Rightarrow> u64" where
  "rb_head_of rb h t = (h + 1) AND ucast (rb_maxSize rb)"

definition rb_tail_of :: "ringBuffer \<Rightarrow> u64 \<Rightarrow> u64 \<Rightarrow> u64" where
  "rb_tail_of rb h t = (t + 1) AND ucast (rb_maxSize rb)"

text \<open>
  The public members. \<open>freeSize()\<close> is written without inner brackets, so the mask is applied
  to the whole difference.
\<close>

definition rb_size :: "ringBuffer \<Rightarrow> u64" where
  "rb_size rb = (rb_tailPtr rb - rb_headPtr rb + ucast (rb_bufferSize rb)) AND ucast (rb_maxSize rb)"

definition rb_maxSizeFn :: "ringBuffer \<Rightarrow> u64" where
  "rb_maxSizeFn rb = ucast (rb_maxSize rb)"

definition rb_freeSize :: "ringBuffer \<Rightarrow> u64" where
  "rb_freeSize rb =
     (ucast (rb_maxSize rb) - (rb_tailPtr rb - rb_headPtr rb + ucast (rb_bufferSize rb)))
       AND ucast (rb_maxSize rb)"

definition rb_clear :: "ringBuffer \<Rightarrow> ringBuffer" where
  "rb_clear rb = rb\<lparr>rb_headPtr := rb_tailPtr rb\<rparr>"

definition rb_empty :: "ringBuffer \<Rightarrow> bool" where
  "rb_empty rb \<longleftrightarrow> rb_headPtr rb = rb_tailPtr rb"

definition rb_full :: "ringBuffer \<Rightarrow> bool" where
  "rb_full rb \<longleftrightarrow> rb_headPtr rb = (rb_tailPtr rb + 1) AND ucast (rb_maxSize rb)"

definition rb_head :: "ringBuffer \<Rightarrow> u64" where
  "rb_head rb = (rb_headPtr rb + 1) AND ucast (rb_maxSize rb)"

definition rb_tail :: "ringBuffer \<Rightarrow> u64" where
  "rb_tail rb = (rb_tailPtr rb + 1) AND ucast (rb_maxSize rb)"

definition rb_DirectEnqueueSize :: "ringBuffer \<Rightarrow> u64" where
  "rb_DirectEnqueueSize rb =
     (let h = rb_headPtr rb; t = rb_tailPtr rb in
      if (t + 1) AND ucast (rb_maxSize rb) \<le> h
      then h - ((t + 1) AND ucast (rb_maxSize rb))
      else ucast (rb_bufferSize rb) - ((t + 1) AND ucast (rb_maxSize rb)))"

definition rb_DirectDequeueSize :: "ringBuffer \<Rightarrow> u64" where
  "rb_DirectDequeueSize rb =
     (let h = rb_headPtr rb; t = rb_tailPtr rb in
      if (h + 1) AND ucast (rb_maxSize rb) \<le> (t + 1) AND ucast (rb_maxSize rb)
      then ((t + 1) AND ucast (rb_maxSize rb)) - ((h + 1) AND ucast (rb_maxSize rb))
      else ucast (rb_bufferSize rb) - ((h + 1) AND ucast (rb_maxSize rb)))"

definition rb_bufferPtr :: "ringBuffer \<Rightarrow> u64" where
  "rb_bufferPtr rb = 0"

section \<open>Operations\<close>

text \<open>\<open>std::min(x, static_cast<size_t>(INT_MAX))\<close>, cast to \<open>int\<close>.\<close>

definition to_int_sat :: "u64 \<Rightarrow> u32" where
  "to_int_sat x = ucast (min x 0x7FFFFFFF)"

definition rb_MoveRear :: "ringBuffer \<Rightarrow> u32 \<Rightarrow> ringBuffer \<times> u32" where
  "rb_MoveRear rb n =
     (let h = rb_headPtr rb; t = rb_tailPtr rb;
          tempF = to_int_sat (rb_freeSize_of rb h t);
          n1 = (if sint n > sint tempF then tempF else n);
          offset = (t + scast n1) AND ucast (rb_maxSize rb)
      in (rb\<lparr>rb_tailPtr := offset\<rparr>, n1))"

definition rb_MoveFront :: "ringBuffer \<Rightarrow> u32 \<Rightarrow> ringBuffer \<times> u32" where
  "rb_MoveFront rb n =
     (let h = rb_headPtr rb; t = rb_tailPtr rb;
          tempS = to_int_sat (rb_size_of rb h t);
          n1 = (if sint n > sint tempS then tempS else n);
          offset = (h + scast n1) AND ucast (rb_maxSize rb)
      in (rb\<lparr>rb_headPtr := offset\<rparr>, n1))"

definition rb_push :: "ringBuffer \<Rightarrow> byte list \<Rightarrow> u64 \<Rightarrow> (ringBuffer \<times> u64) option" where
  "rb_push rb data n =
     (let h = rb_headPtr rb; t = rb_tailPtr rb;
          tempF = rb_freeSize_of rb h t;
          n1 = (if n > tempF then tempF else n);
          tempT = rb_tail_of rb h t;
          d = (if tempT \<le> h then h - tempT else ucast (rb_bufferSize rb) - tempT)
      in do {
        buf \<leftarrow> (if n1 \<le> d
                then do { x \<leftarrow> mem_read data 0 (unat n1);
                          mem_write (rb_buffer rb) (unat tempT) x }
                else do { x \<leftarrow> mem_read data 0 (unat d);
                          b1 \<leftarrow> mem_write (rb_buffer rb) (unat tempT) x;
                          y \<leftarrow> mem_read data (unat d) (unat (n1 - d));
                          mem_write b1 0 y });
        Some (rb\<lparr>rb_buffer := buf, rb_tailPtr := (t + n1) AND ucast (rb_maxSize rb)\<rparr>, n1)
      })"

definition rb_front :: "ringBuffer \<Rightarrow> u64 \<Rightarrow> byte list option" where
  "rb_front rb n =
     (let h = rb_headPtr rb; t = rb_tailPtr rb;
          tempS = rb_size_of rb h t;
          n1 = (if n > tempS then tempS else n);
          tempT = rb_tail_of rb h t;
          tempH = rb_head_of rb h t;
          d = (if tempH \<le> tempT then tempT - tempH else ucast (rb_bufferSize rb) - tempH)
      in if n1 \<le> d then mem_read (rb_buffer rb) (unat tempH) (unat n1)
         else do { x \<leftarrow> mem_read (rb_buffer rb) (unat tempH) (unat d);
                   y \<leftarrow> mem_read (rb_buffer rb) 0 (unat (n1 - d));
                   Some (x @ y) })"

definition rb_pop :: "ringBuffer \<Rightarrow> u64 \<Rightarrow> (ringBuffer \<times> byte list) option" where
  "rb_pop rb n =
     (let h = rb_headPtr rb; t = rb_tailPtr rb;
          tempS = rb_size_of rb h t;
          n1 = (if n > tempS then tempS else n);
          tempT = rb_tail_of rb h t;
          tempH = rb_head_of rb h t;
          d = (if tempH \<le> tempT then tempT - tempH else ucast (rb_bufferSize rb) - tempH)
      in do {
        out \<leftarrow> (if n1 \<le> d then mem_read (rb_buffer rb) (unat tempH) (unat n1)
                else do { x \<leftarrow> mem_read (rb_buffer rb) (unat tempH) (unat d);
                          y \<leftarrow> mem_read (rb_buffer rb) 0 (unat (n1 - d));
                          Some (x @ y) });
        Some (rb\<lparr>rb_headPtr := (h + n1) AND ucast (rb_maxSize rb)\<rparr>, out)
      })"

text \<open>
  The copy constructor and the assignment allocate a block of the source's size, take over the
  two offsets and copy the stored bytes; the rest of the new block stays uninitialised. The
  assignment does not test for \<open>this == &_b\<close>: it has already deleted and replaced \<open>buffer\<close>
  when it subtracts \<open>_b.buffer\<close> from \<open>_b.headPtr\<close>, so a self-assignment has no defined
  outcome.
\<close>

definition rb_copy_data :: "ringBuffer \<Rightarrow> ringBuffer \<Rightarrow> byte list option" where
  "rb_copy_data new b =
     (if rb_headPtr new \<le> rb_tailPtr new
      then do { x \<leftarrow> mem_read (rb_buffer b) (unat (rb_head b)) (unat (rb_size b));
                mem_write (rb_buffer new) (unat (rb_head new)) x }
      else do { x \<leftarrow> mem_read (rb_buffer b) (unat (rb_head b)) (unat (rb_DirectDequeueSize b));
                b1 \<leftarrow> mem_write (rb_buffer new) (unat (rb_head new)) x;
                y \<leftarrow> mem_read (rb_buffer b) 0 (unat (rb_size b - rb_DirectDequeueSize b));
                mem_write b1 0 y })"

definition ringBuffer_copy :: "(nat \<Rightarrow> byte) \<Rightarrow> ringBuffer \<Rightarrow> ringBuffer option" where
  "ringBuffer_copy raw b =
     (let new = \<lparr> rb_bufferSize = rb_bufferSize b, rb_maxSize = rb_bufferSize b - 1,
                  rb_buffer = map raw [0..<unat (rb_bufferSize b)],
                  rb_headPtr = rb_headPtr b, rb_tailPtr = rb_tailPtr b \<rparr>
      in map_option (\<lambda>buf. new\<lparr>rb_buffer := buf\<rparr>) (rb_copy_data new b))"

definition ringBuffer_assign :: "(nat \<Rightarrow> byte) \<Rightarrow> bool \<Rightarrow> ringBuffer \<Rightarrow> ringBuffer \<Rightarrow> ringBuffer option"
  where
  "ringBuffer_assign raw self a b =
     (if self then None
      else (let new = a\<lparr> rb_bufferSize := rb_bufferSize b, rb_maxSize := rb_maxSize b,
                         rb_buffer := map raw [0..<unat (rb_bufferSize b)],
                         rb_headPtr := rb_headPtr b, rb_tailPtr := rb_tailPtr b \<rparr>
            in map_option (\<lambda>buf. new\<lparr>rb_buffer := buf\<rparr>) (rb_copy_data new b)))"

definition rb_printbuffer :: "ringBuffer \<Rightarrow> string" where
  "rb_printbuffer rb =
     (let is = [0..<unat (rb_bufferSize rb)]; nl = [CHR 0x0A] in
      concat (map (\<lambda>i. ''=='') is) @ nl
      @ concat (map (\<lambda>i. if of_nat i = rb_head rb then '' ->'' else ''  '') is) @ nl
      @ concat (map (\<lambda>i. '' '' @ [char_of (unat (rb_buffer rb ! i))]) is) @ nl
      @ concat (map (\<lambda>i. if of_nat i = rb_tail rb then ''-|'' else ''  '') is) @ nl
      @ concat (map (\<lambda>i. ''=='') is) @ nl)"

section \<open>Invariant and abstraction\<close>

definition rb_inv :: "ringBuffer \<Rightarrow> bool" where
  "rb_inv rb \<longleftrightarrow>
     (\<exists>k<31. unat (rb_bufferSize rb) = 2 ^ k) \<and> rb_maxSize rb = rb_bufferSize rb - 1 \<and>
     length (rb_buffer rb) = unat (rb_bufferSize rb) \<and>
     unat (rb_headPtr rb) < unat (rb_bufferSize rb) \<and>
     unat (rb_tailPtr rb) < unat (rb_bufferSize rb)"

abbreviation rb_cap :: "ringBuffer \<Rightarrow> nat" where
  "rb_cap rb \<equiv> unat (rb_bufferSize rb) - 1"

definition rb_contents :: "ringBuffer \<Rightarrow> byte list" where
  "rb_contents rb =
     cyc_read (rb_buffer rb) (unat (rb_bufferSize rb)) (unat (rb_headPtr rb) + 1) (unat (rb_size rb))"

lemma rb_invD:
  assumes "rb_inv rb"
  shows "unat (rb_bufferSize rb) > 0" and "unat (rb_bufferSize rb) < 2 ^ 31"
    and "length (rb_buffer rb) = unat (rb_bufferSize rb)"
    and "unat (rb_headPtr rb) < unat (rb_bufferSize rb)"
    and "unat (rb_tailPtr rb) < unat (rb_bufferSize rb)"
    and "rb_maxSize rb = rb_bufferSize rb - 1"
proof -
  obtain k where k: "k < 31" "unat (rb_bufferSize rb) = 2 ^ k"
    using assms by (auto simp: rb_inv_def)
  then show "unat (rb_bufferSize rb) > 0" "unat (rb_bufferSize rb) < 2 ^ 31"
    using power_strict_increasing [of k 31 "2::nat"] by simp_all
qed (use assms in \<open>auto simp: rb_inv_def\<close>)

lemma unat_maxSize:
  assumes "rb_inv rb"
  shows "unat (rb_maxSize rb) = unat (rb_bufferSize rb) - 1"
proof -
  have "(1::u32) \<le> rb_bufferSize rb"
    using rb_invD(1) [OF assms] by (simp add: word_le_nat_alt)
  then show ?thesis
    using rb_invD(6) [OF assms] by (simp add: unat_sub)
qed

lemma maxSize_mask:
  assumes "rb_inv rb"
  obtains k where "k < 31" "unat (rb_bufferSize rb) = 2 ^ k" "ucast (rb_maxSize rb) = (mask k :: u64)"
proof -
  obtain k where k: "k < 31" "unat (rb_bufferSize rb) = 2 ^ k"
    using assms by (auto simp: rb_inv_def)
  have "unat (mask k :: u64) = 2 ^ k - 1"
    using k by (simp add: unat_mask_pow)
  then have "ucast (rb_maxSize rb) = (mask k :: u64)"
    using unat_maxSize [OF assms] k by (simp add: word_unat_eq_iff)
  with k show thesis by (rule that)
qed

lemma unat_and_max:
  "rb_inv rb \<Longrightarrow> unat (x AND ucast (rb_maxSize rb) :: u64) = unat x mod unat (rb_bufferSize rb)"
  by (metis maxSize_mask unat_and_mask)

lemma unat_ring_diff:
  assumes "rb_inv rb" "unat h < unat (rb_bufferSize rb)" "unat t < unat (rb_bufferSize rb)"
  shows "unat (t - h + ucast (rb_bufferSize rb) :: u64) = unat t + unat (rb_bufferSize rb) - unat h"
proof -
  let ?b = "ucast (rb_bufferSize rb) :: u64"
  have eq: "t - h + ?b = (t + ?b) - h" by simp
  have tb: "unat (t + ?b) = unat t + unat (rb_bufferSize rb)"
    using assms rb_invD(2) [OF assms(1)] by (subst unat_add_small) auto
  have "h \<le> t + ?b" using assms by (simp add: word_le_nat_alt tb)
  then show ?thesis unfolding eq by (simp only: unat_sub tb)
qed

lemma rb_size_of_nat:
  assumes "rb_inv rb" "unat h < unat (rb_bufferSize rb)" "unat t < unat (rb_bufferSize rb)"
  shows "unat (rb_size_of rb h t) =
    (if unat h \<le> unat t then unat t - unat h else unat t + unat (rb_bufferSize rb) - unat h)"
proof -
  have "unat (rb_size_of rb h t) =
      (unat t + unat (rb_bufferSize rb) - unat h) mod unat (rb_bufferSize rb)"
    using assms by (simp add: rb_size_of_def unat_and_max unat_ring_diff)
  also have "\<dots> = (if unat h \<le> unat t then unat t - unat h else unat t + unat (rb_bufferSize rb) - unat h)"
  proof (cases "unat h \<le> unat t")
    case True
    then have eq: "unat t + unat (rb_bufferSize rb) - unat h = (unat t - unat h) + unat (rb_bufferSize rb)"
      by simp
    have "unat t - unat h < unat (rb_bufferSize rb)" using assms by simp
    then have "(unat t + unat (rb_bufferSize rb) - unat h) mod unat (rb_bufferSize rb) = unat t - unat h"
      by (simp only: eq mod_add_self2 mod_less)
    with True show ?thesis by simp
  next
    case False
    with assms show ?thesis by simp
  qed
  finally show ?thesis .
qed

lemma rb_size_of_le:
  assumes "rb_inv rb"
  shows "unat (rb_size_of rb h t) \<le> rb_cap rb"
proof -
  have "unat (rb_size_of rb h t) < unat (rb_bufferSize rb)"
    using rb_invD(1) [OF assms] by (simp add: rb_size_of_def unat_and_max [OF assms])
  then show ?thesis by simp
qed

lemma rb_freeSize_of_nat:
  assumes "rb_inv rb"
  shows "unat (rb_freeSize_of rb h t) = rb_cap rb - unat (rb_size_of rb h t)"
proof -
  have "rb_freeSize_of rb h t = ucast (rb_maxSize rb) - rb_size_of rb h t"
    by (simp add: rb_freeSize_of_def rb_size_of_def)
  moreover have "rb_size_of rb h t \<le> ucast (rb_maxSize rb)"
    using assms rb_size_of_le [OF assms] by (simp add: word_le_nat_alt unat_maxSize)
  ultimately show ?thesis
    using assms by (simp add: unat_sub unat_maxSize)
qed

lemma rb_size_eq: "rb_size rb = rb_size_of rb (rb_headPtr rb) (rb_tailPtr rb)"
  by (simp add: rb_size_def rb_size_of_def)

lemma rb_freeSize_eq:
  assumes "rb_inv rb"
  shows "rb_freeSize rb = rb_freeSize_of rb (rb_headPtr rb) (rb_tailPtr rb)"
proof -
  obtain k where k: "k < 31" "unat (rb_bufferSize rb) = 2 ^ k" "ucast (rb_maxSize rb) = (mask k :: u64)"
    using assms by (rule maxSize_mask)
  let ?x = "rb_tailPtr rb - rb_headPtr rb + ucast (rb_bufferSize rb) :: u64"
  have "unat (mask k :: u64) = 2 ^ k - 1"
    using unat_maxSize [OF assms] k by (metis unat_ucast_32_64)
  then have m: "uint (mask k :: u64) = 2 ^ k - 1"
    by (simp add: uint_nat of_nat_diff)
  have xm: "uint (?x AND mask k) = uint ?x mod 2 ^ k" by (rule uint_and_mask)
  have "uint ((mask k - ?x) AND mask k) = (2 ^ k - 1 - uint ?x) mod 2 ^ k"
    using k(1) by (simp add: uint_and_mask uint_diff_mod m)
  also have "\<dots> = (2 ^ k - 1 - uint ?x mod 2 ^ k) mod 2 ^ k"
    by (simp add: mod_simps)
  also have "\<dots> = 2 ^ k - 1 - uint ?x mod 2 ^ k"
  proof (rule mod_pos_pos_trivial)
    have "0 \<le> uint ?x mod 2 ^ k" "uint ?x mod 2 ^ k < 2 ^ k" by simp_all
    then show "0 \<le> 2 ^ k - 1 - uint ?x mod 2 ^ k" "2 ^ k - 1 - uint ?x mod 2 ^ k < 2 ^ k"
      by linarith+
  qed
  also have "\<dots> = uint (mask k - (?x AND mask k))"
  proof -
    have "uint (?x AND mask k) \<le> uint (mask k :: u64)"
      using pos_mod_bound [of "2 ^ k" "uint ?x"] by (simp only: xm m) simp
    then have "uint (mask k - (?x AND mask k)) = uint (mask k :: u64) - uint (?x AND mask k)"
      by (rule uint_sub_lem [THEN iffD1])
    then show ?thesis by (simp only: xm m)
  qed
  finally show ?thesis
    by (simp add: rb_freeSize_def rb_freeSize_of_def k(3) word_uint_eq_iff)
qed

lemma rb_tail_of_nat:
  assumes "rb_inv rb" "unat t < unat (rb_bufferSize rb)"
  shows "unat (rb_tail_of rb h t) = (unat t + 1) mod unat (rb_bufferSize rb)"
proof -
  have "unat (t + 1) = unat t + 1"
    using assms rb_invD(2) [OF assms(1)] by (subst unat_add_small) auto
  then show ?thesis by (simp add: rb_tail_of_def unat_and_max [OF assms(1)])
qed

lemma rb_head_of_nat:
  assumes "rb_inv rb" "unat h < unat (rb_bufferSize rb)"
  shows "unat (rb_head_of rb h t) = (unat h + 1) mod unat (rb_bufferSize rb)"
  using rb_tail_of_nat [OF assms] by (simp add: rb_head_of_def rb_tail_of_def)

text \<open>Where the free area starts, seen from the first stored byte.\<close>

lemma rb_tail_from_head:
  assumes "rb_inv rb"
  shows "(unat (rb_tailPtr rb) + 1) mod unat (rb_bufferSize rb) =
    (unat (rb_headPtr rb) + 1 + unat (rb_size rb)) mod unat (rb_bufferSize rb)"
proof (cases "unat (rb_headPtr rb) \<le> unat (rb_tailPtr rb)")
  case True
  then show ?thesis
    using rb_size_of_nat [OF assms rb_invD(4,5) [OF assms]] by (simp add: rb_size_eq)
next
  case False
  then have "unat (rb_headPtr rb) + 1 + unat (rb_size rb) =
      unat (rb_tailPtr rb) + 1 + unat (rb_bufferSize rb)"
    using rb_size_of_nat [OF assms rb_invD(4,5) [OF assms]] rb_invD(4) [OF assms]
    by (simp add: rb_size_eq)
  then show ?thesis by (simp only: mod_add_self2)
qed

lemma ring_read:
  assumes m: "length m = B" and i: "i < B" and n: "n \<le> B"
    and straight: "n \<le> d \<Longrightarrow> i + n \<le> B" and wrap: "d < n \<Longrightarrow> d = B - i"
  shows "(if n \<le> d then mem_read m i n
          else do { x \<leftarrow> mem_read m i d; y \<leftarrow> mem_read m 0 (n - d); Some (x @ y) })
         = Some (cyc_read m B i n)"
proof (cases "n \<le> d")
  case True
  then show ?thesis using assms by (simp add: mem_simps cyc_read_straight)
next
  case False
  then have "cyc_read m B i n = drop i m @ take (n - d) m"
    using assms by (subst cyc_read_wrap) auto
  then show ?thesis using False assms by (simp add: mem_simps)
qed

lemma ring_write:
  assumes m: "length m = B" and i: "i < B" and n: "n \<le> B" "n \<le> length data"
    and straight: "n \<le> d \<Longrightarrow> i + n \<le> B" and wrap: "d < n \<Longrightarrow> d = B - i"
  obtains m' where
    "(if n \<le> d then do { x \<leftarrow> mem_read data 0 n; mem_write m i x }
      else do { x \<leftarrow> mem_read data 0 d; b1 \<leftarrow> mem_write m i x;
                y \<leftarrow> mem_read data d (n - d); mem_write b1 0 y }) = Some m'"
    and "length m' = B"
    and "\<And>q. q < B \<Longrightarrow> m' ! ((i + q) mod B) = (if q < n then data ! q else m ! ((i + q) mod B))"
proof (cases "n \<le> d")
  case True
  obtain m' where w: "mem_write m i (take n data) = Some m'"
    using True assms by (simp add: mem_simps)
  have "m' ! ((i + q) mod B) = (if q < n then data ! q else m ! ((i + q) mod B))" if "q < B" for q
  proof -
    have p: "(i + q) mod B = (if i + q < B then i + q else i + q - B)"
      using i that by (simp add: mod_if)
    then show ?thesis
      using mem_write_nth [OF w, of "(i + q) mod B"] straight [OF True] i n m that by auto
  qed
  then show thesis
    using that [of m'] w True n mem_write_length [OF w] m by (simp add: mem_simps)
next
  case False
  then have d: "d = B - i" "d < n" using wrap by auto
  have "i + length (take d data) \<le> length m" using d(1) m i by simp
  then obtain b1 where w1: "mem_write m i (take d data) = Some b1"
    by (simp add: mem_simps)
  have b1: "length b1 = B" using mem_write_length [OF w1] m by simp
  have "0 + length (take (n - d) (drop d data)) \<le> length b1" using d(1) b1 n i by simp
  then obtain m' where w2: "mem_write b1 0 (take (n - d) (drop d data)) = Some m'"
    by (simp add: mem_simps)
  have "m' ! ((i + q) mod B) = (if q < n then data ! q else m ! ((i + q) mod B))" if "q < B" for q
  proof -
    let ?p = "(i + q) mod B"
    have p: "?p = (if i + q < B then i + q else i + q - B)"
      using i that by (simp add: mod_if)
    have pB: "?p < B" using i by simp
    have 1: "b1 ! ?p = (if i \<le> ?p \<and> ?p < i + d then take d data ! (?p - i) else m ! ?p)"
      using mem_write_nth [OF w1, of ?p] pB m n d by simp
    have 2: "m' ! ?p = (if ?p < n - d then take (n - d) (drop d data) ! ?p else b1 ! ?p)"
      using mem_write_nth [OF w2, of ?p] pB b1 n by simp
    show ?thesis
    proof (cases "q < d")
      case True
      then have iq: "i + q < B" "q < n" using d by auto
      then have p': "?p = i + q" "\<not> i + q < n - d" using p d i n by auto
      then have "m' ! ?p = b1 ! ?p" using 2 by simp
      also have "\<dots> = take d data ! q" using 1 p' iq d by simp
      finally show ?thesis using True iq by simp
    next
      case False
      then have p': "?p = q - d" "q - d < i" using p d i that by auto
      show ?thesis
      proof (cases "q < n")
        case True
        then have lt: "q - d < n - d" using False by arith
        then have "m' ! ?p = drop d data ! (q - d)" using 2 p'(1) by simp
        also have "\<dots> = data ! q" using True False n(2) by simp
        finally show ?thesis using True by simp
      next
        case f: False
        then have nlt: "\<not> ?p < n - d" using p' False by arith
        then have "m' ! ?p = b1 ! ?p" using 2 by (simp only: if_False)
        also have "\<dots> = m ! ?p" using 1 p' by simp
        finally show ?thesis using f by simp
      qed
    qed
  qed
  then show thesis
    using that [of m'] w1 w2 False n d mem_write_length [OF w2] b1 by (simp add: mem_simps)
qed

lemma cyc_append:
  assumes B: "0 < B" and h: "i = (h + s) mod B" and sn: "s + n \<le> B" and n: "n \<le> length data"
    and upd: "\<And>q. q < B \<Longrightarrow> m' ! ((i + q) mod B) = (if q < n then data ! q else m ! ((i + q) mod B))"
  shows "cyc_read m' B h (s + n) = cyc_read m B h s @ take n data"
proof (rule nth_equalityI)
  fix j assume j: "j < length (cyc_read m' B h (s + n))"
  show "cyc_read m' B h (s + n) ! j = (cyc_read m B h s @ take n data) ! j"
  proof (cases "j < s")
    case True
    let ?q = "B - s + j"
    have "h + s + ?q = h + j + B" using True sn by simp
    then have p: "(i + ?q) mod B = (h + j) mod B"
      unfolding h by (metis mod_add_left_eq mod_add_self2)
    have "?q < B" "\<not> ?q < n" using True sn by auto
    then have "m' ! ((h + j) mod B) = m ! ((h + j) mod B)"
      using upd [of ?q] by (simp only: p if_False)
    then show ?thesis
      using True by (simp add: nth_append)
  next
    case False
    then have "h + s + (j - s) = h + j" by simp
    then have "(i + (j - s)) mod B = (h + j) mod B"
      unfolding h by (metis mod_add_left_eq)
    moreover have q: "j - s < B" "j - s < n" using False sn j by auto
    ultimately have "m' ! ((h + j) mod B) = data ! (j - s)"
      using upd [of "j - s"] by (simp only: if_True)
    then show ?thesis
      using False q n j by (simp add: nth_append)
  qed
qed (use n in simp)


section \<open>Every operation acts on the stored bytes as on a bounded queue\<close>

lemma length_rb_contents: "length (rb_contents rb) = unat (rb_size rb)"
  by (simp add: rb_contents_def)

lemma rb_size_le: "rb_inv rb \<Longrightarrow> unat (rb_size rb) \<le> rb_cap rb"
  unfolding rb_size_eq by (rule rb_size_of_le)

lemma rb_read_part:
  fixes n :: u64
  assumes inv: "rb_inv rb" and n: "unat n \<le> unat (rb_size rb)"
  defines "h \<equiv> rb_headPtr rb" and "t \<equiv> rb_tailPtr rb"
  defines "d \<equiv> (if rb_head_of rb h t \<le> rb_tail_of rb h t then rb_tail_of rb h t - rb_head_of rb h t
                else ucast (rb_bufferSize rb) - rb_head_of rb h t)"
  shows "(if n \<le> d then mem_read (rb_buffer rb) (unat (rb_head_of rb h t)) (unat n)
          else do { x \<leftarrow> mem_read (rb_buffer rb) (unat (rb_head_of rb h t)) (unat d);
                    y \<leftarrow> mem_read (rb_buffer rb) 0 (unat (n - d)); Some (x @ y) })
         = Some (take (unat n) (rb_contents rb))"
proof -
  define B where "B = unat (rb_bufferSize rb)"
  define i where "i = (unat h + 1) mod B"
  define j where "j = (unat t + 1) mod B"
  note I = rb_invD [OF inv, folded h_def t_def B_def]
  have hd: "unat (rb_head_of rb h t) = i" and tl: "unat (rb_tail_of rb h t) = j"
    using I by (simp_all only: rb_head_of_nat [OF inv] rb_tail_of_nat [OF inv] i_def j_def B_def)
  have i: "i < B" and j: "j < B" using I(1) by (simp_all add: i_def j_def)
  have d: "unat d = (if i \<le> j then j - i else B - i)"
    using i unfolding d_def word_le_nat_alt hd tl
    by (simp add: unat_sub word_le_nat_alt hd tl B_def)
  have s: "unat (rb_size rb) = (if i \<le> j then j - i else B + j - i)"
    using I rb_size_of_nat [OF inv, of h t] mod_Suc_less [OF I(4)] mod_Suc_less [OF I(5)]
    by (auto simp: rb_size_eq h_def [symmetric] t_def [symmetric] i_def j_def B_def [symmetric])
  have sB: "unat (rb_size rb) < B" using rb_size_le [OF inv] I(1) by (simp add: B_def)
  have "(if unat n \<le> unat d then mem_read (rb_buffer rb) i (unat n)
      else do { x \<leftarrow> mem_read (rb_buffer rb) i (unat d);
                y \<leftarrow> mem_read (rb_buffer rb) 0 (unat n - unat d); Some (x @ y) })
     = Some (cyc_read (rb_buffer rb) B i (unat n))"
  proof (rule ring_read [OF I(3) i])
    show "unat n \<le> B" using n sB by linarith
    show "unat n \<le> unat d \<Longrightarrow> i + unat n \<le> B" using d i j by (simp split: if_splits)
    show "unat d < unat n \<Longrightarrow> unat d = B - i" using d s n by (simp split: if_splits)
  qed
  moreover have "cyc_read (rb_buffer rb) B i (unat n) = take (unat n) (rb_contents rb)"
    using n by (simp add: rb_contents_def cyc_read_mod take_cyc_read h_def i_def B_def del: Suc_eq_plus1)
  ultimately show ?thesis
    by (auto simp: hd word_le_nat_alt unat_sub split: if_splits)
qed

lemma rb_front_spec:
  assumes "rb_inv rb"
  shows "rb_front rb n = Some (take (unat n) (rb_contents rb))"
proof -
  let ?s = "rb_size_of rb (rb_headPtr rb) (rb_tailPtr rb)"
  let ?n = "if n > ?s then ?s else n"
  have n: "unat ?n = min (unat n) (unat (rb_size rb))"
    by (simp add: unat_min_if rb_size_eq)
  have "take (unat ?n) (rb_contents rb) = take (unat n) (rb_contents rb)"
    by (simp add: n length_rb_contents [symmetric] min_def)
  moreover have "unat ?n \<le> unat (rb_size rb)" by (simp add: n)
  ultimately show ?thesis
    using rb_read_part [OF assms, of ?n] by (simp only: rb_front_def Let_def)
qed

lemma ring_offset_inv:
  assumes "rb_inv rb"
  shows "rb_inv (rb\<lparr>rb_headPtr := x AND ucast (rb_maxSize rb)\<rparr>)"
    and "rb_inv (rb\<lparr>rb_tailPtr := x AND ucast (rb_maxSize rb)\<rparr>)"
proof -
  have "unat (x AND ucast (rb_maxSize rb)) < unat (rb_bufferSize rb)"
    using rb_invD(1) [OF assms] by (simp add: unat_and_max [OF assms])
  then show "rb_inv (rb\<lparr>rb_headPtr := x AND ucast (rb_maxSize rb)\<rparr>)"
    "rb_inv (rb\<lparr>rb_tailPtr := x AND ucast (rb_maxSize rb)\<rparr>)"
    using assms by (simp_all add: rb_inv_def)
qed

lemma rb_inv_buffer: "rb_inv rb \<Longrightarrow> length m = unat (rb_bufferSize rb) \<Longrightarrow> rb_inv (rb\<lparr>rb_buffer := m\<rparr>)"
  by (simp add: rb_inv_def)

text \<open>Moving the head by at most the stored size drops that many bytes.\<close>

lemma rb_advance_head:
  fixes n :: u64
  assumes inv: "rb_inv rb" and n: "unat n \<le> unat (rb_size rb)"
  defines "rb' \<equiv> rb\<lparr>rb_headPtr := (rb_headPtr rb + n) AND ucast (rb_maxSize rb)\<rparr>"
  shows "rb_inv rb'" and "rb_contents rb' = drop (unat n) (rb_contents rb)"
proof -
  define B where "B = unat (rb_bufferSize rb)"
  define h where "h = unat (rb_headPtr rb)"
  define t where "t = unat (rb_tailPtr rb)"
  note I = rb_invD [OF inv, folded B_def h_def t_def]
  show inv': "rb_inv rb'" unfolding rb'_def by (rule ring_offset_inv(1) [OF inv])
  have s: "unat (rb_size rb) = (if h \<le> t then t - h else t + B - h)"
    using rb_size_of_nat [OF inv rb_invD(4,5) [OF inv]] by (simp add: rb_size_eq h_def t_def B_def)
  have sB: "unat (rb_size rb) < B" using rb_size_le [OF inv] I(1) by (simp add: B_def)
  have h': "unat (rb_headPtr rb') = (h + unat n) mod B"
  proof -
    have "unat (rb_headPtr rb + n) = h + unat n"
      using n sB I(2,4) unfolding h_def by (intro unat_add_small) simp
    then show ?thesis by (simp add: rb'_def unat_and_max [OF inv] B_def)
  qed
  have h'': "(h + unat n) mod B = (if h + unat n < B then h + unat n else h + unat n - B)"
    using I(4) n sB by (simp add: mod_if)
  have "unat (rb_size rb') = unat (rb_size rb) - unat n"
    using rb_size_of_nat [OF inv' rb_invD(4,5) [OF inv']] s n I(4,5) sB
    by (simp add: rb_size_eq h') (auto simp: rb'_def h'' t_def [symmetric] B_def [symmetric] split: if_splits)
  then have "rb_contents rb' = cyc_read (rb_buffer rb) B ((h + unat n) mod B + 1) (unat (rb_size rb) - unat n)"
    by (simp add: rb_contents_def h' B_def) (simp add: rb'_def)
  also have "\<dots> = cyc_read (rb_buffer rb) B (h + 1 + unat n) (unat (rb_size rb) - unat n)"
    by (subst (1 2) cyc_read_mod [symmetric]) (simp add: mod_simps ac_simps)
  also have "\<dots> = drop (unat n) (rb_contents rb)"
    using n by (simp add: rb_contents_def drop_cyc_read h_def B_def)
  finally show "rb_contents rb' = drop (unat n) (rb_contents rb)" .
qed

lemma rb_pop_spec:
  assumes inv: "rb_inv rb"
  shows "\<exists>rb'. rb_pop rb n = Some (rb', take (unat n) (rb_contents rb)) \<and> rb_inv rb' \<and>
           rb_contents rb' = drop (unat n) (rb_contents rb) \<and> rb_bufferSize rb' = rb_bufferSize rb"
proof -
  let ?s = "rb_size_of rb (rb_headPtr rb) (rb_tailPtr rb)"
  let ?n = "if n > ?s then ?s else n"
  let ?rb' = "rb\<lparr>rb_headPtr := (rb_headPtr rb + ?n) AND ucast (rb_maxSize rb)\<rparr>"
  have n: "unat ?n = min (unat n) (unat (rb_size rb))"
    by (simp add: unat_min_if rb_size_eq)
  then have le: "unat ?n \<le> unat (rb_size rb)" by simp
  have "take (unat ?n) (rb_contents rb) = take (unat n) (rb_contents rb)"
    "drop (unat ?n) (rb_contents rb) = drop (unat n) (rb_contents rb)"
    by (simp_all add: n length_rb_contents [symmetric] min_def)
  then have "rb_pop rb n = Some (?rb', take (unat n) (rb_contents rb))"
    using rb_read_part [OF inv le] by (simp only: rb_pop_def Let_def bind.bind_lunit)
  then show ?thesis
    using rb_advance_head [OF inv le] \<open>drop (unat ?n) _ = _\<close> by (intro exI [of _ ?rb']) simp
qed

lemma rb_tail_facts:
  assumes inv: "rb_inv rb"
  defines "B \<equiv> unat (rb_bufferSize rb)" and "i \<equiv> (unat (rb_tailPtr rb) + 1) mod unat (rb_bufferSize rb)"
  shows "unat (rb_tail rb) = i" and "i < B"
    and "unat (rb_DirectEnqueueSize rb) =
      (if i \<le> unat (rb_headPtr rb) then unat (rb_headPtr rb) - i else B - i)"
    and "rb_cap rb - unat (rb_size rb) =
      (if i \<le> unat (rb_headPtr rb) then unat (rb_headPtr rb) - i else B - i + unat (rb_headPtr rb))"
proof -
  note I = rb_invD [OF inv, folded B_def]
  have tl: "(rb_tailPtr rb + 1) AND ucast (rb_maxSize rb) = rb_tail rb"
    by (simp add: rb_tail_def)
  show ti: "unat (rb_tail rb) = i"
    using rb_tail_of_nat [OF inv rb_invD(5) [OF inv]] by (simp add: rb_tail_def rb_tail_of_def i_def)
  show i: "i < B" using I(1) by (simp add: i_def B_def)
  show "unat (rb_DirectEnqueueSize rb) =
      (if i \<le> unat (rb_headPtr rb) then unat (rb_headPtr rb) - i else B - i)"
    using i unfolding rb_DirectEnqueueSize_def Let_def tl word_le_nat_alt ti
    by (simp add: unat_sub word_le_nat_alt ti B_def)
  show "rb_cap rb - unat (rb_size rb) =
      (if i \<le> unat (rb_headPtr rb) then unat (rb_headPtr rb) - i else B - i + unat (rb_headPtr rb))"
    using rb_size_of_nat [OF inv rb_invD(4,5) [OF inv]] I(4,5)
      mod_Suc_less [OF I(5)]
    by (auto simp: rb_size_eq i_def B_def [symmetric])
qed

text \<open>
  Moving the tail by at most the free size makes the following bytes of the ring part of the
  stored ones, whatever was written to them.
\<close>

lemma rb_advance_tail:
  fixes n :: u64
  assumes inv: "rb_inv rb" and n: "unat n \<le> rb_cap rb - unat (rb_size rb)"
    and len: "length m' = unat (rb_bufferSize rb)"
    and upd: "\<And>q. q < unat (rb_bufferSize rb) \<Longrightarrow>
      m' ! ((unat (rb_tail rb) + q) mod unat (rb_bufferSize rb)) =
      (if q < unat n then data ! q
       else rb_buffer rb ! ((unat (rb_tail rb) + q) mod unat (rb_bufferSize rb)))"
    and dl: "unat n \<le> length data"
  defines "rb' \<equiv> rb\<lparr>rb_buffer := m', rb_tailPtr := (rb_tailPtr rb + n) AND ucast (rb_maxSize rb)\<rparr>"
  shows "rb_inv rb'" and "rb_contents rb' = rb_contents rb @ take (unat n) data"
proof -
  define B where "B = unat (rb_bufferSize rb)"
  define h where "h = unat (rb_headPtr rb)"
  define t where "t = unat (rb_tailPtr rb)"
  define s where "s = unat (rb_size rb)"
  note I = rb_invD [OF inv, folded B_def h_def t_def]
  show inv': "rb_inv rb'"
    using ring_offset_inv(2) [OF rb_inv_buffer [OF inv len], of "rb_tailPtr rb + n"]
    by (simp add: rb'_def)
  have s: "s = (if h \<le> t then t - h else t + B - h)"
    using rb_size_of_nat [OF inv rb_invD(4,5) [OF inv]] by (simp add: s_def rb_size_eq h_def t_def B_def)
  have sn: "s + unat n < B"
    using n rb_size_le [OF inv] I(1) by (simp add: s_def B_def)
  have t': "unat (rb_tailPtr rb') = (t + unat n) mod B"
  proof -
    have "unat (rb_tailPtr rb + n) = t + unat n"
      using sn I(2,5) unfolding t_def by (intro unat_add_small) simp
    then show ?thesis by (simp add: rb'_def unat_and_max [OF inv] B_def)
  qed
  have t'': "(t + unat n) mod B = (if t + unat n < B then t + unat n else t + unat n - B)"
    using I(5) sn by (simp add: mod_if)
  have hb: "rb_headPtr rb' = rb_headPtr rb" "rb_bufferSize rb' = rb_bufferSize rb" "rb_buffer rb' = m'"
    by (simp_all add: rb'_def)
  have s': "unat (rb_size rb') = s + unat n"
    using rb_size_of_nat [OF inv' rb_invD(4,5) [OF inv']] s sn I(4,5)
    by (simp add: rb_size_eq t' hb h_def [symmetric] B_def [symmetric] t'' split: if_splits)
  have tl: "unat (rb_tail rb) = (h + 1 + s) mod B"
    using rb_tail_facts(1) [OF inv] rb_tail_from_head [OF inv] by (simp add: h_def s_def B_def)
  have "cyc_read m' B (h + 1) (s + unat n) = cyc_read (rb_buffer rb) B (h + 1) s @ take (unat n) data"
    using upd [folded B_def] I(1) sn dl by (intro cyc_append [OF _ tl]) auto
  then show "rb_contents rb' = rb_contents rb @ take (unat n) data"
    by (simp add: rb_contents_def s' hb h_def B_def s_def)
qed

lemma rb_push_spec:
  assumes inv: "rb_inv rb" and dl: "unat n \<le> length data"
  defines "k \<equiv> min (unat n) (rb_cap rb - unat (rb_size rb))"
  shows "\<exists>rb'. rb_push rb data n = Some (rb', of_nat k) \<and> rb_inv rb' \<and>
           rb_contents rb' = rb_contents rb @ take k data \<and> rb_bufferSize rb' = rb_bufferSize rb"
proof -
  let ?h = "rb_headPtr rb" and ?t = "rb_tailPtr rb"
  let ?f = "rb_freeSize_of rb ?h ?t"
  let ?n = "if n > ?f then ?f else n"
  let ?d = "if rb_tail rb \<le> ?h then ?h - rb_tail rb else ucast (rb_bufferSize rb) - rb_tail rb"
  let ?B = "unat (rb_bufferSize rb)"
  note T = rb_tail_facts [OF inv] and D = rb_tail_facts(3,4) [OF inv, folded rb_tail_facts(1) [OF inv]]
  have tl: "rb_tail_of rb ?h ?t = rb_tail rb" by (simp add: rb_tail_of_def rb_tail_def)
  have k: "unat ?n = k"
    by (simp add: unat_min_if rb_freeSize_of_nat [OF inv] k_def rb_size_eq)
  then have nk: "?n = of_nat k" by (simp flip: k)
  have d: "unat ?d = unat (rb_DirectEnqueueSize rb)"
    by (simp add: rb_DirectEnqueueSize_def rb_tail_def)
  have tB: "unat (rb_tail rb) < ?B" using T(1,2) by simp
  have kf: "k \<le> rb_cap rb - unat (rb_size rb)" "k \<le> length data"
    using dl by (simp_all add: k_def)
  obtain m' where m': "(if unat ?n \<le> unat ?d then do { x \<leftarrow> mem_read data 0 (unat ?n);
        mem_write (rb_buffer rb) (unat (rb_tail rb)) x }
      else do { x \<leftarrow> mem_read data 0 (unat ?d);
                b1 \<leftarrow> mem_write (rb_buffer rb) (unat (rb_tail rb)) x;
                y \<leftarrow> mem_read data (unat ?d) (unat ?n - unat ?d); mem_write b1 0 y }) = Some m'"
    and len: "length m' = ?B"
    and upd: "\<And>q. q < ?B \<Longrightarrow> m' ! ((unat (rb_tail rb) + q) mod ?B) =
      (if q < unat ?n then data ! q else rb_buffer rb ! ((unat (rb_tail rb) + q) mod ?B))"
  proof (rule ring_write [of "rb_buffer rb" ?B "unat (rb_tail rb)" "unat ?n" data "unat ?d"])
    show "length (rb_buffer rb) = ?B" by (rule rb_invD(3) [OF inv])
    show "unat (rb_tail rb) < ?B" by (rule tB)
    show "unat ?n \<le> ?B" "unat ?n \<le> length data" unfolding k using kf by simp_all
    show "unat ?n \<le> unat ?d \<Longrightarrow> unat (rb_tail rb) + unat ?n \<le> ?B"
      unfolding k d using tB D rb_invD(4) [OF inv] by (simp split: if_splits)
    show "unat ?d < unat ?n \<Longrightarrow> unat ?d = ?B - unat (rb_tail rb)"
      unfolding k d using D kf by (simp split: if_splits)
  qed (rule that)
  let ?rb' = "rb\<lparr>rb_buffer := m', rb_tailPtr := (?t + ?n) AND ucast (rb_maxSize rb)\<rparr>"
  have "(if ?n \<le> ?d then do { x \<leftarrow> mem_read data 0 (unat ?n);
        mem_write (rb_buffer rb) (unat (rb_tail rb)) x }
      else do { x \<leftarrow> mem_read data 0 (unat ?d);
                b1 \<leftarrow> mem_write (rb_buffer rb) (unat (rb_tail rb)) x;
                y \<leftarrow> mem_read data (unat ?d) (unat (?n - ?d)); mem_write b1 0 y }) = Some m'"
  proof (cases "?n \<le> ?d")
    case True
    with m' show ?thesis by (simp only: word_le_nat_alt if_True)
  next
    case False
    then have "unat (?n - ?d) = unat ?n - unat ?d" by (intro unat_sub) simp
    with False m' show ?thesis by (simp only: word_le_nat_alt if_False)
  qed
  then have "rb_push rb data n = Some (?rb', ?n)"
    by (simp only: rb_push_def Let_def tl bind.bind_lunit)
  then show ?thesis
    using rb_advance_tail [OF inv _ len upd] kf k
    by (intro exI [of _ ?rb']) (simp add: nk)
qed

section \<open>MoveRear, MoveFront and the space offered to a receive\<close>

lemma unat_to_int_sat: "unat (to_int_sat x) = min (unat x) 0x7FFFFFFF"
proof -
  have "unat (min x 0x7FFFFFFF) = min (unat x) 0x7FFFFFFF"
    by (simp add: min_def word_le_nat_alt)
  then show ?thesis
    by (simp add: to_int_sat_def unsigned_ucast_eq take_bit_nat_eq_self_iff)
qed

lemma rb_move_clip:
  assumes s: "unat s < 2 ^ 31" and n: "unat (n::u32) < 2 ^ 31"
  defines "n1 \<equiv> (if sint n > sint (to_int_sat s) then to_int_sat s else n)"
  shows "unat n1 = min (unat n) (unat s)" and "unat (scast n1 :: u64) = min (unat n) (unat s)"
proof -
  have "unat (to_int_sat s) = unat s" using s by (simp add: unat_to_int_sat)
  then show "unat n1 = min (unat n) (unat s)"
    using s n by (simp add: n1_def sint_less_small min_def)
  then show "unat (scast n1 :: u64) = min (unat n) (unat s)"
    using n by (simp add: unat_scast_small)
qed

text \<open>
  \<open>recvIO\<close> hands the kernel the area that starts at \<open>tail()\<close> (\<open>DirectEnqueueSize()\<close> bytes) and,
  when more is free, the rest from \<open>bufferPtr()\<close>. \<open>rb_fill\<close> is what a completed receive of
  \<open>data\<close> leaves in the ring's block: the first area is filled before the second.
\<close>

definition rb_fill :: "ringBuffer \<Rightarrow> byte list \<Rightarrow> ringBuffer option" where
  "rb_fill rb data =
     (let d = unat (rb_DirectEnqueueSize rb) in
      map_option (\<lambda>m. rb\<lparr>rb_buffer := m\<rparr>)
        (if length data \<le> d then mem_write (rb_buffer rb) (unat (rb_tail rb)) data
         else do { b1 \<leftarrow> mem_write (rb_buffer rb) (unat (rb_tail rb)) (take d data);
                   mem_write b1 (unat (rb_bufferPtr rb)) (drop d data) }))"

lemma rb_fill_MoveRear:
  assumes inv: "rb_inv rb" and dl: "length data \<le> unat (rb_freeSize rb)"
  shows "\<exists>rb1. rb_fill rb data = Some rb1 \<and> rb_inv rb1 \<and> rb_size rb1 = rb_size rb \<and>
    rb_contents rb1 = rb_contents rb \<and>
    (\<exists>rb2. rb_MoveRear rb1 (of_nat (length data)) = (rb2, of_nat (length data)) \<and> rb_inv rb2 \<and>
           rb_contents rb2 = rb_contents rb @ data \<and> rb_bufferSize rb2 = rb_bufferSize rb)"
proof -
  let ?B = "unat (rb_bufferSize rb)" and ?d = "unat (rb_DirectEnqueueSize rb)"
  let ?n = "length data"
  note T = rb_tail_facts [OF inv] and D = rb_tail_facts(3,4) [OF inv, folded rb_tail_facts(1) [OF inv]]
  have tB: "unat (rb_tail rb) < ?B" using T(1,2) by simp
  have free: "unat (rb_freeSize rb) = rb_cap rb - unat (rb_size rb)"
    using rb_freeSize_of_nat [OF inv] by (simp add: rb_freeSize_eq [OF inv] rb_size_eq)
  have nB: "?n < ?B" using dl rb_invD(1) [OF inv] free by simp
  obtain m' where m': "(if ?n \<le> ?d then do { x \<leftarrow> mem_read data 0 ?n; mem_write (rb_buffer rb) (unat (rb_tail rb)) x }
      else do { x \<leftarrow> mem_read data 0 ?d; b1 \<leftarrow> mem_write (rb_buffer rb) (unat (rb_tail rb)) x;
                y \<leftarrow> mem_read data ?d (?n - ?d); mem_write b1 0 y }) = Some m'"
    and len: "length m' = ?B"
    and upd: "\<And>q. q < ?B \<Longrightarrow> m' ! ((unat (rb_tail rb) + q) mod ?B) =
      (if q < ?n then data ! q else rb_buffer rb ! ((unat (rb_tail rb) + q) mod ?B))"
  proof (rule ring_write [of "rb_buffer rb" ?B "unat (rb_tail rb)" ?n data ?d])
    show "length (rb_buffer rb) = ?B" by (rule rb_invD(3) [OF inv])
    show "unat (rb_tail rb) < ?B" by (rule tB)
    show "?n \<le> ?B" using nB by simp
    show "?n \<le> ?d \<Longrightarrow> unat (rb_tail rb) + ?n \<le> ?B"
      using tB D rb_invD(4) [OF inv] by (simp split: if_splits)
    show "?d < ?n \<Longrightarrow> ?d = ?B - unat (rb_tail rb)"
      using D dl free by (simp split: if_splits)
  qed (rule order.refl, rule that)
  let ?rb1 = "rb\<lparr>rb_buffer := m'\<rparr>"
  have fill: "rb_fill rb data = Some ?rb1"
    using m' by (auto simp: rb_fill_def Let_def rb_bufferPtr_def mem_read_def split: if_splits)
  have inv1: "rb_inv ?rb1" by (rule rb_inv_buffer [OF inv len])
  have sz1: "rb_size ?rb1 = rb_size rb" by (simp add: rb_size_def)
  have nw: "unat (of_nat ?n :: u64) = ?n" "unat (of_nat ?n :: u32) = ?n"
    using nB rb_invD(2) [OF inv] by (simp_all add: unat_of_nat)
  define n1 where "n1 = (of_nat ?n :: u32)"
  let ?f = "rb_freeSize_of ?rb1 (rb_headPtr ?rb1) (rb_tailPtr ?rb1)"
  have f: "unat ?f = rb_cap rb - unat (rb_size rb)"
    using rb_freeSize_of_nat [OF inv1] by (simp add: rb_size_eq rb_size_of_def)
  have clip: "(if sint n1 > sint (to_int_sat ?f) then to_int_sat ?f else n1) = n1"
    and sc: "(scast n1 :: u64) = of_nat ?n"
  proof -
    note C = rb_move_clip [of ?f n1]
    have le: "unat ?f < 2 ^ 31" "unat n1 < 2 ^ 31"
      using f nw nB rb_invD(2) [OF inv] by (simp_all add: n1_def)
    show "(if sint n1 > sint (to_int_sat ?f) then to_int_sat ?f else n1) = n1"
      using C(1) [OF le] dl free f nw by (intro word_unat_eq_iff [THEN iffD2]) (simp add: n1_def)
    show "(scast n1 :: u64) = of_nat ?n"
      using le nw by (intro word_unat_eq_iff [THEN iffD2]) (simp add: unat_scast_small n1_def)
  qed
  let ?rb2 = "rb\<lparr>rb_buffer := m', rb_tailPtr := (rb_tailPtr rb + of_nat ?n) AND ucast (rb_maxSize rb)\<rparr>"
  have mv: "rb_MoveRear ?rb1 n1 = (?rb2, n1)"
    unfolding rb_MoveRear_def Let_def clip sc by simp
  have upd': "m' ! ((unat (rb_tail rb) + q) mod ?B) =
      (if q < unat (of_nat ?n :: u64) then data ! q else rb_buffer rb ! ((unat (rb_tail rb) + q) mod ?B))"
    if "q < ?B" for q unfolding nw using that by (rule upd)
  have R: "rb_inv ?rb2" "rb_contents ?rb2 = rb_contents rb @ take ?n data"
    using rb_advance_tail [OF inv _ len upd'] dl free nw by simp_all
  have c1: "rb_contents ?rb1 = rb_contents rb"
  proof -
    have "unat (rb_tailPtr rb + 0) = unat (rb_tailPtr rb)" by simp
    have "take (length (rb_contents rb)) (rb_contents ?rb2) = rb_contents rb" using R(2) by simp
    moreover have "rb_contents ?rb2 = cyc_read m' ?B (unat (rb_headPtr rb) + 1) (length (rb_contents ?rb2))"
      by (simp add: rb_contents_def)
    ultimately have "cyc_read m' ?B (unat (rb_headPtr rb) + 1) (length (rb_contents rb)) = rb_contents rb"
      using R(2) by (metis take_cyc_read length_append le_add1)
    then show ?thesis
      using sz1 by (simp add: rb_contents_def [of ?rb1] length_rb_contents)
  qed
  show ?thesis
    using fill inv1 sz1 c1 mv R by (auto simp: n1_def)
qed

text \<open>\<open>MoveRear\<close> takes as many of the bytes behind the data as there is room for, whatever they are.\<close>

lemma rb_MoveRear_spec:
  assumes inv: "rb_inv rb" and n: "unat n < 2 ^ 31"
  defines "k \<equiv> min (unat n) (rb_cap rb - unat (rb_size rb))"
  shows "\<exists>rb'. rb_MoveRear rb n = (rb', of_nat k) \<and> rb_inv rb' \<and> rb_bufferSize rb' = rb_bufferSize rb \<and>
    rb_contents rb' = rb_contents rb @ cyc_read (rb_buffer rb) (unat (rb_bufferSize rb)) (unat (rb_tail rb)) k"
proof -
  let ?B = "unat (rb_bufferSize rb)"
  let ?f = "rb_freeSize_of rb (rb_headPtr rb) (rb_tailPtr rb)"
  let ?n1 = "if sint n > sint (to_int_sat ?f) then to_int_sat ?f else n"
  let ?rb' = "rb\<lparr>rb_tailPtr := (rb_tailPtr rb + scast ?n1) AND ucast (rb_maxSize rb)\<rparr>"
  let ?d = "cyc_read (rb_buffer rb) ?B (unat (rb_tail rb)) k"
  have f: "unat ?f = rb_cap rb - unat (rb_size rb)" using rb_freeSize_of_nat [OF inv] by (simp add: rb_size_eq)
  then have s: "unat ?f < 2 ^ 31" using rb_invD(2) [OF inv] by simp
  have k: "unat ?n1 = k" "unat (scast ?n1 :: u64) = k" using rb_move_clip [OF s n] by (simp_all only: k_def f)
  have nk: "?n1 = of_nat k" by (simp flip: k(1))
  have mv: "rb_MoveRear rb n = (?rb', ?n1)" by (simp only: rb_MoveRear_def Let_def)
  have le: "unat (scast ?n1 :: u64) \<le> rb_cap rb - unat (rb_size rb)" unfolding k by (simp add: k_def)
  have upd: "rb_buffer rb ! ((unat (rb_tail rb) + q) mod ?B) =
      (if q < unat (scast ?n1 :: u64) then ?d ! q else rb_buffer rb ! ((unat (rb_tail rb) + q) mod ?B))" if "q < ?B" for q
    unfolding k by simp
  have "rb_inv ?rb'" "rb_contents ?rb' = rb_contents rb @ ?d"
    using rb_advance_tail [OF inv le rb_invD(3) [OF inv] upd] k(2) by (simp_all del: unat_scast_small)
  then show ?thesis using mv by (intro exI [of _ ?rb']) (simp only: nk, simp)
qed

lemma rb_MoveFront_spec:
  assumes inv: "rb_inv rb" and n: "unat n < 2 ^ 31"
  defines "k \<equiv> min (unat n) (unat (rb_size rb))"
  shows "\<exists>rb'. rb_MoveFront rb n = (rb', of_nat k) \<and> rb_inv rb' \<and>
           rb_contents rb' = drop k (rb_contents rb) \<and> rb_bufferSize rb' = rb_bufferSize rb"
proof -
  let ?s = "rb_size_of rb (rb_headPtr rb) (rb_tailPtr rb)"
  let ?n1 = "if sint n > sint (to_int_sat ?s) then to_int_sat ?s else n"
  let ?rb' = "rb\<lparr>rb_headPtr := (rb_headPtr rb + scast ?n1) AND ucast (rb_maxSize rb)\<rparr>"
  have s: "unat ?s < 2 ^ 31"
    using rb_size_le [OF inv] rb_invD(2) [OF inv] by (simp add: rb_size_eq)
  have k: "unat ?n1 = k" "unat (scast ?n1 :: u64) = k"
    using rb_move_clip [OF s n] by (simp_all only: k_def rb_size_eq)
  have nk: "?n1 = of_nat k" by (simp flip: k(1))
  have "rb_MoveFront rb n = (?rb', ?n1)"
    by (simp only: rb_MoveFront_def Let_def)
  moreover have "rb_inv ?rb'" "rb_contents ?rb' = drop k (rb_contents rb)"
    using rb_advance_head [OF inv, of "scast ?n1"] k by (simp_all only: k_def min.cobounded2)
  ultimately show ?thesis by (intro exI [of _ ?rb']) (simp only: nk, simp)
qed

lemma rb_clear_spec:
  assumes "rb_inv rb"
  shows "rb_inv (rb_clear rb)" and "rb_contents (rb_clear rb) = []"
proof -
  show inv: "rb_inv (rb_clear rb)" using assms by (simp add: rb_inv_def rb_clear_def)
  have "unat (rb_size (rb_clear rb)) = 0"
    using rb_size_of_nat [OF inv rb_invD(4,5) [OF inv]] by (simp add: rb_size_eq) (simp add: rb_clear_def)
  then show "rb_contents (rb_clear rb) = []" using length_rb_contents by (metis length_0_conv)
qed

lemma rb_empty_iff:
  assumes inv: "rb_inv rb"
  shows "rb_empty rb \<longleftrightarrow> rb_contents rb = []"
proof -
  have "rb_contents rb = [] \<longleftrightarrow> unat (rb_size rb) = 0"
    by (simp only: length_rb_contents [symmetric] length_0_conv)
  also have "\<dots> \<longleftrightarrow> unat (rb_headPtr rb) = unat (rb_tailPtr rb)"
    using rb_size_of_nat [OF inv rb_invD(4,5) [OF inv]] rb_invD(4) [OF inv]
    unfolding rb_size_eq by (auto split: if_splits)
  finally show ?thesis by (simp only: rb_empty_def word_unat_eq_iff)
qed

lemma rb_full_iff:
  assumes inv: "rb_inv rb"
  shows "rb_full rb \<longleftrightarrow> length (rb_contents rb) = rb_cap rb"
proof -
  define B where "B = unat (rb_bufferSize rb)"
  note I = rb_invD [OF inv, folded B_def]
  have "rb_full rb \<longleftrightarrow> unat (rb_headPtr rb) = (unat (rb_tailPtr rb) + 1) mod B"
    using rb_tail_facts(1) [OF inv] by (simp add: rb_full_def rb_tail_def word_unat_eq_iff B_def)
  also have "\<dots> \<longleftrightarrow> unat (rb_size rb) = B - 1"
    using rb_size_of_nat [OF inv rb_invD(4,5) [OF inv]] I(4,5) mod_Suc_less [OF I(5)]
    unfolding rb_size_eq B_def [symmetric] by (auto split: if_splits)
  finally show ?thesis by (simp add: length_rb_contents B_def)
qed

lemma rb_copy_data_spec:
  assumes inv: "rb_inv b" and new: "rb_headPtr new = rb_headPtr b" "rb_tailPtr new = rb_tailPtr b"
    "rb_maxSize new = rb_maxSize b" "length (rb_buffer new) = unat (rb_bufferSize b)"
  obtains m where "rb_copy_data new b = Some m" and "length m = unat (rb_bufferSize b)"
    and "cyc_read m (unat (rb_bufferSize b)) (unat (rb_headPtr b) + 1) (unat (rb_size b)) = rb_contents b"
proof -
  define B where "B = unat (rb_bufferSize b)"
  define h where "h = unat (rb_headPtr b)"
  define t where "t = unat (rb_tailPtr b)"
  define s where "s = unat (rb_size b)"
  define i where "i = unat (rb_head b)"
  define D where "D = unat (rb_DirectDequeueSize b)"
  note I = rb_invD [OF inv, folded B_def h_def t_def]
  have i: "i = (h + 1) mod B" "i < B"
    using rb_head_of_nat [OF inv rb_invD(4) [OF inv]] I(1)
    by (simp_all add: i_def rb_head_def rb_head_of_def h_def B_def)
  have j: "unat (rb_tail b) = (t + 1) mod B"
    using rb_tail_facts(1) [OF inv] by (simp add: t_def B_def)
  have hn: "unat (rb_head new) = i" using new by (simp add: rb_head_def i_def)
  have C: "rb_contents b = cyc_read (rb_buffer b) B i s"
    by (simp add: rb_contents_def cyc_read_mod i B_def h_def s_def del: Suc_eq_plus1)
  have sB: "s < B" using rb_size_le [OF inv] I(1) by (simp add: s_def B_def)
  have s: "s = (if h \<le> t then t - h else t + B - h)"
    using rb_size_of_nat [OF inv rb_invD(4,5) [OF inv]] by (simp add: s_def rb_size_eq h_def t_def B_def)
  have D: "D = (if i \<le> (t + 1) mod B then (t + 1) mod B - i else B - i)"
  proof -
    have hd: "(rb_headPtr b + 1) AND ucast (rb_maxSize b) = rb_head b"
      and tl: "(rb_tailPtr b + 1) AND ucast (rb_maxSize b) = rb_tail b"
      by (simp_all add: rb_head_def rb_tail_def)
    show ?thesis using i unfolding D_def rb_DirectDequeueSize_def Let_def hd tl word_le_nat_alt j i_def [symmetric]
      by (simp add: unat_sub word_le_nat_alt j i_def [symmetric] B_def)
  qed
  define d where "d = (if h \<le> t then s else D)"
  have d: "s \<le> d \<Longrightarrow> i + s \<le> B" "d < s \<Longrightarrow> d = B - i" "d \<le> s"
    using s D i I(4,5) mod_Suc_less [OF I(4)] mod_Suc_less [OF I(5)]
    by (auto simp: d_def split: if_splits)
  have R: "mem_read (rb_buffer b) i d = Some (take d (rb_contents b))"
    "mem_read (rb_buffer b) 0 (s - d) = Some (drop d (rb_contents b))"
  proof -
    show "mem_read (rb_buffer b) i d = Some (take d (rb_contents b))"
      using d i I(3) unfolding C
      by (subst take_cyc_read) (auto simp: mem_simps cyc_read_straight le_less)
    show "mem_read (rb_buffer b) 0 (s - d) = Some (drop d (rb_contents b))"
    proof (cases "d = s")
      case False
      then have "cyc_read (rb_buffer b) B i s = drop i (rb_buffer b) @ take (s - d) (rb_buffer b)"
        using d i(2) I(3) sB by (subst cyc_read_wrap) auto
      then show ?thesis using False d i(2) I(3) sB unfolding C by (simp add: mem_simps)
    qed (simp add: mem_simps length_rb_contents s_def)
  qed
  obtain m where m: "(if s \<le> d then do { x \<leftarrow> mem_read (rb_contents b) 0 s; mem_write (rb_buffer new) i x }
      else do { x \<leftarrow> mem_read (rb_contents b) 0 d; b1 \<leftarrow> mem_write (rb_buffer new) i x;
                y \<leftarrow> mem_read (rb_contents b) d (s - d); mem_write b1 0 y }) = Some m"
    and len: "length m = B"
    and upd: "\<And>q. q < B \<Longrightarrow> m ! ((i + q) mod B) = (if q < s then rb_contents b ! q else rb_buffer new ! ((i + q) mod B))"
    using new(4) i(2) sB d
    by (elim ring_write [of "rb_buffer new" B i s "rb_contents b" d, rotated -1])
      (auto simp: B_def length_rb_contents s_def)
  have ls: "length (rb_contents b) = s" by (simp add: length_rb_contents s_def)
  have "rb_copy_data new b = Some m"
  proof (cases "h \<le> t")
    case True
    then have "d = s" by (simp add: d_def)
    then show ?thesis using m True R(1) new hn ls
      by (simp add: rb_copy_data_def word_le_nat_alt h_def t_def i_def [symmetric] s_def [symmetric] mem_read_def)
  next
    case False
    then have dD: "d = D" by (simp add: d_def)
    have sd: "unat (rb_size b - rb_DirectDequeueSize b) = s - D"
      using d(3) dD by (simp add: unat_sub word_le_nat_alt s_def D_def)
    show ?thesis using m False R new hn ls d(3)
      by (auto simp: rb_copy_data_def word_le_nat_alt h_def t_def i_def [symmetric] D_def [symmetric] sd dD
          mem_read_def mem_write_def split: if_splits bind_splits)
  qed
  moreover have "cyc_read m B (h + 1) s = rb_contents b"
  proof -
    have "cyc_read m B (h + 1) s = cyc_read m B i s" by (simp add: i cyc_read_mod del: Suc_eq_plus1)
    also have "\<dots> = rb_contents b" using upd sB ls by (intro nth_equalityI) auto
    finally show ?thesis .
  qed
  ultimately show thesis using that len by (simp add: B_def h_def s_def)
qed

lemma ringBuffer_copy_spec:
  assumes inv: "rb_inv b"
  shows "\<exists>c. ringBuffer_copy raw b = Some c \<and> rb_inv c \<and> rb_contents c = rb_contents b \<and>
           rb_bufferSize c = rb_bufferSize b"
proof -
  let ?new = "\<lparr> rb_bufferSize = rb_bufferSize b, rb_maxSize = rb_bufferSize b - 1,
                rb_buffer = map raw [0..<unat (rb_bufferSize b)],
                rb_headPtr = rb_headPtr b, rb_tailPtr = rb_tailPtr b \<rparr>"
  obtain m where m: "rb_copy_data ?new b = Some m" "length m = unat (rb_bufferSize b)"
    "cyc_read m (unat (rb_bufferSize b)) (unat (rb_headPtr b) + 1) (unat (rb_size b)) = rb_contents b"
    by (rule rb_copy_data_spec [OF inv, of ?new]) (use rb_invD(6) [OF inv] in simp_all)
  have "rb_inv (?new\<lparr>rb_buffer := m\<rparr>)" using inv m(2) by (simp add: rb_inv_def)
  moreover have "rb_size (?new\<lparr>rb_buffer := m\<rparr>) = rb_size b"
    using rb_invD(6) [OF inv] by (simp add: rb_size_def)
  ultimately show ?thesis
    using m by (simp add: ringBuffer_copy_def Let_def) (simp add: rb_contents_def)
qed

lemma ringBuffer_assign_spec:
  assumes inv: "rb_inv b"
  shows "\<exists>c. ringBuffer_assign raw False a b = Some c \<and> rb_inv c \<and> rb_contents c = rb_contents b \<and>
           rb_bufferSize c = rb_bufferSize b"
proof -
  let ?new = "a\<lparr> rb_bufferSize := rb_bufferSize b, rb_maxSize := rb_maxSize b,
                rb_buffer := map raw [0..<unat (rb_bufferSize b)],
                rb_headPtr := rb_headPtr b, rb_tailPtr := rb_tailPtr b \<rparr>"
  obtain m where m: "rb_copy_data ?new b = Some m" "length m = unat (rb_bufferSize b)"
    "cyc_read m (unat (rb_bufferSize b)) (unat (rb_headPtr b) + 1) (unat (rb_size b)) = rb_contents b"
    by (rule rb_copy_data_spec [OF inv, of ?new]) simp_all
  have "rb_inv (?new\<lparr>rb_buffer := m\<rparr>)" using inv m(2) by (simp add: rb_inv_def)
  moreover have "rb_size (?new\<lparr>rb_buffer := m\<rparr>) = rb_size b"
    by (simp add: rb_size_def)
  ultimately show ?thesis
    using m by (simp add: ringBuffer_assign_def Let_def) (simp add: rb_contents_def)
qed

lemma pow2_from_spec:
  assumes "p = 2 ^ j" "j \<le> e" "n \<le> 2 ^ e" 
  shows "\<exists>i \<le> e. pow2_from p n = 2 ^ i \<and> n \<le> 2 ^ i \<and> j \<le> i \<and> (i = j \<or> 2 ^ (i - 1) < n)"
  using assms
proof (induction p n arbitrary: j rule: pow2_from.induct)
  case (1 p n)
  show ?case
  proof (cases "n \<le> p")
    case True
    then show ?thesis using "1.prems" by (intro exI [of _ j]) (simp add: pow2_from.simps)
  next
    case False
    then have p: "\<not> (n \<le> p \<or> p = 0)" using "1.prems" by simp
    have "j \<noteq> e" using False "1.prems" by auto
    then have "Suc j \<le> e" using "1.prems" by simp
    then obtain i where i: "i \<le> e" "pow2_from (2 * p) n = 2 ^ i" "n \<le> 2 ^ i" "Suc j \<le> i"
      "i = Suc j \<or> 2 ^ (i - 1) < n"
      using "1.IH" [OF p, of "Suc j"] "1.prems" by auto
    then have "pow2_from p n = 2 ^ i" using p by (simp add: pow2_from.simps [of p])
    moreover have "i = j \<or> 2 ^ (i - 1) < n" using i False "1.prems" by auto
    ultimately show ?thesis using i by (intro exI [of _ i]) simp
  qed
qed

lemma ringBuffer_new_spec:
  assumes n: "0 < unat n" "unat n \<le> 2 ^ 30"
  shows "\<exists>rb. ringBuffer_new raw n = Some rb \<and> rb_inv rb \<and> rb_contents rb = [] \<and>
           unat n \<le> unat (rb_bufferSize rb) \<and> (unat n = 1 \<or> unat (rb_bufferSize rb) < 2 * unat n)"
proof -
  obtain i where i: "i \<le> 30" "pow2_from 1 (unat n) = 2 ^ i" "unat n \<le> 2 ^ i"
      "i = 0 \<or> 2 ^ (i - 1) < unat n"
    using pow2_from_spec [of 1 0 30 "unat n"] n by auto
  have le: "(2::nat) ^ i \<le> 2 ^ 30" using i by (intro power_increasing) auto
  let ?rb = "\<lparr> rb_bufferSize = of_nat (2 ^ i), rb_maxSize = of_nat (2 ^ i) - 1,
               rb_buffer = map raw [0..<2 ^ i], rb_headPtr = 0, rb_tailPtr = 0 \<rparr>"
  have u: "unat (of_nat (2 ^ i) :: u32) = 2 ^ i"
    using le by (simp only: unat_of_nat) simp
  have "ringBuffer_new raw n = Some ?rb"
    using i le n by (simp add: ringBuffer_new_def pow2_ceil_def Let_def)
  moreover have inv: "rb_inv ?rb"
    unfolding rb_inv_def using i u by (auto simp del: of_nat_power intro!: exI [of _ i])
  moreover have "rb_contents ?rb = []"
    using rb_empty_iff [OF inv] by (simp add: rb_empty_def)
  moreover have "unat n = 1 \<or> 2 ^ i < 2 * unat n"
    using i n by (cases i) auto
  ultimately show ?thesis using i u by (intro exI [of _ ?rb]) (simp del: of_nat_power)
qed

section \<open>The ring is a byte queue\<close>

interpretation ring: byte_fifo rb_inv rb_contents "\<lambda>rb. rb_cap rb" rb_push rb_pop rb_front
proof unfold_locales
  fix q :: ringBuffer and n :: u64 and d :: "byte list" and k :: nat
  assume inv: "rb_inv q"
  show "length (rb_contents q) \<le> rb_cap q"
    unfolding length_rb_contents by (rule rb_size_le [OF inv])
  show "rb_front q n = Some (take (unat n) (rb_contents q))"
    by (rule rb_front_spec [OF inv])
  show "\<exists>q'. rb_pop q n = Some (q', take (unat n) (rb_contents q)) \<and> rb_inv q' \<and>
      rb_contents q' = drop (unat n) (rb_contents q) \<and> rb_cap q' = rb_cap q"
    using rb_pop_spec [OF inv, of n] by auto
  assume "unat n \<le> length d" and "k = min (unat n) (rb_cap q - length (rb_contents q))"
  then show "\<exists>q'. rb_push q d n = Some (q', of_nat k) \<and> rb_inv q' \<and>
      rb_contents q' = rb_contents q @ take k d \<and> rb_cap q' = rb_cap q"
    using rb_push_spec [OF inv, of n d] by (auto simp: length_rb_contents)
qed

end
