(* ===== verification/Session.thy ===== *)
theory Session
  imports Packet Lock_Free_Queue Ring_Buffer
begin

text \<open>
  A connection: \<open>session.h\<close> and \<open>session.cpp\<close>. Every member function takes the session and the
  heap of serializers and returns both. Windows is a parameter: \<open>os_answers\<close> lists how its
  next calls of \<open>WSASend\<close> and \<open>WSARecv\<close> end (0 for success, otherwise the error that
  \<open>GetLastError\<close> reports), and \<open>os_calls\<close> records the calls made, the latest first. The
  result of \<open>CancelIoEx\<close> only decides what is logged. \<open>ss_inflight\<close> is not a field of the
  C++ class: it lists the completions that the completion port still owes this session. Where
  the code calls \<open>core->deleteSession(this)\<close> as its last action, the result \<^term>\<open>True\<close> says so
  and the network component continues.
\<close>

section \<open>The operating system\<close>

datatype io_op = Send_io | Recv_io | Post_io u64

datatype os_call =
    WSASend u64 "(u64 \<times> u32) list"
  | WSARecv u64 "(u64 \<times> u32) list"
  | CancelIoEx u64 io_op
  | CloseSocket u64
  | CloseHandle u64
  | PostStatus u64 u64
  | Log_error string

record os = pheap +
  os_answers :: "u32 list"
  os_calls :: "os_call list"

abbreviation WSA_IO_PENDING :: u32 where "WSA_IO_PENDING \<equiv> 997"

definition os_log :: "'a os_scheme \<Rightarrow> os_call \<Rightarrow> 'a os_scheme" where
  "os_log w c = w\<lparr>os_calls := c # os_calls w\<rparr>"

definition os_io :: "'a os_scheme \<Rightarrow> os_call \<Rightarrow> ('a os_scheme \<times> u32) option" where
  "os_io w c = (case os_answers w of [] \<Rightarrow> None | a # as \<Rightarrow> Some (os_log (w\<lparr>os_answers := as\<rparr>) c, a))"

section \<open>State\<close>

record session =
  ss_ID :: u64
  ss_core :: u64
  ss_socket :: u64
  ss_port :: u16
  ss_ip :: u32
  ss_sendFlag :: u16
  ss_IOcount :: u32
  ss_cancelIOFlag :: u16
  ss_sendBuffer :: lfq
  ss_sendOverlapped :: u64
  ss_recvOverlapped :: u64
  ss_sendedBuffer :: ringBuffer
  ss_recvBuffer :: ringBuffer
  ss_releaseFlag :: u64
  ss_inflight :: "io_op list"

text \<open>
  The constructors. \<open>junk\<close> holds what is in the fields that they do not initialise, \<open>raw\<close>,
  \<open>pc\<close> and \<open>malloc\<close> are the uninitialised memory and the allocator of the members.
\<close>

definition session_make :: "session \<Rightarrow> (nat \<Rightarrow> byte) \<Rightarrow> (u64 \<Rightarrow> node) \<Rightarrow> u64 \<Rightarrow> (nat \<Rightarrow> u64) \<Rightarrow>
    u64 \<Rightarrow> u64 \<Rightarrow> session option" where
  "session_make junk raw nraw pc malloc sid sock =
     do { q \<leftarrow> lfq_new nraw pc malloc 256;
          sd \<leftarrow> ringBuffer_new raw 2048;
          rc \<leftarrow> ringBuffer_new raw 256;
          Some (junk\<lparr>ss_ID := sid, ss_socket := sock, ss_IOcount := 0, ss_sendFlag := 0,
                     ss_sendBuffer := q, ss_sendedBuffer := sd, ss_recvBuffer := rc, ss_inflight := []\<rparr>) }"

definition session_new :: "session \<Rightarrow> (nat \<Rightarrow> byte) \<Rightarrow> (u64 \<Rightarrow> node) \<Rightarrow> u64 \<Rightarrow> (nat \<Rightarrow> u64) \<Rightarrow> session option" where
  "session_new junk raw nraw pc malloc = session_make junk raw nraw pc malloc 0 0"

definition session_new_id :: "session \<Rightarrow> (nat \<Rightarrow> byte) \<Rightarrow> (u64 \<Rightarrow> node) \<Rightarrow> u64 \<Rightarrow> (nat \<Rightarrow> u64) \<Rightarrow>
    u64 \<Rightarrow> u64 \<Rightarrow> session option" where
  "session_new_id junk raw nraw pc malloc sid sock = session_make junk raw nraw pc malloc sid sock"

section \<open>The I/O counter and the flags\<close>

definition decrementIO :: "session \<Rightarrow> session \<times> u32" where
  "decrementIO s = (let c = ss_IOcount s - 1 in (s\<lparr>ss_IOcount := c\<rparr>, c))"

definition incrementIO :: "session \<Rightarrow> session \<times> u32" where
  "incrementIO s = (let c = ss_IOcount s + 1 in (s\<lparr>ss_IOcount := c\<rparr>, c))"

definition session_init :: "session \<Rightarrow> u64 \<Rightarrow> u64 \<Rightarrow> u16 \<Rightarrow> u32 \<Rightarrow> session" where
  "session_init s sid sock port ip =
     (let s1 = fst (incrementIO (s\<lparr>ss_ID := sid, ss_socket := sock, ss_port := port, ss_ip := ip\<rparr>));
          s2 = s1\<lparr>ss_sendFlag := 0, ss_cancelIOFlag := 0\<rparr>
      in s2\<lparr>ss_IOcount := ss_IOcount s2 AND 0x7fffffff\<rparr>)"

definition cancelIORegist :: "session \<Rightarrow> session \<times> u32" where
  "cancelIORegist s = (s\<lparr>ss_cancelIOFlag := 1\<rparr>, 1)"

definition cancelIOUnregist :: "session \<Rightarrow> session \<times> u32" where
  "cancelIOUnregist s = (s\<lparr>ss_cancelIOFlag := 0\<rparr>, 0)"

definition hasCancelIOFlag :: "session \<Rightarrow> bool" where
  "hasCancelIOFlag s \<longleftrightarrow> ss_cancelIOFlag s = 1"

definition getSocket :: "session \<Rightarrow> u64" where "getSocket s = ss_socket s"

definition getPort :: "session \<Rightarrow> u16" where "getPort s = ss_port s"

definition getIp :: "session \<Rightarrow> u32" where "getIp s = ss_ip s"

definition sendOverlappedCheck :: "session \<Rightarrow> u64 \<Rightarrow> bool" where
  "sendOverlappedCheck s overlap \<longleftrightarrow> overlap = ss_sendOverlapped s"

definition recvOverlappedCheck :: "session \<Rightarrow> u64 \<Rightarrow> bool" where
  "recvOverlappedCheck s overlap \<longleftrightarrow> overlap = ss_recvOverlapped s"

section \<open>Sending\<close>

text \<open>
  One more completion is owed. A kernel that owed \<open>2 ^ 30\<close> completions for one socket would have no
  memory left; there the model has no outcome.
\<close>

definition iocp_owe :: "session \<Rightarrow> io_op \<Rightarrow> session option" where
  "iocp_owe s op = (if length (ss_inflight s) < 2 ^ 30 then Some (s\<lparr>ss_inflight := op # ss_inflight s\<rparr>) else None)"

text \<open>
  The loop that fills the local array \<open>WSABUF buffer[100]\<close>. A failing \<open>pop\<close> decrements the
  loop variable, and the increment of the loop takes that back. Storing into the array from
  index 100 on is outside it.
\<close>

partial_function (option) sendIO_gather :: "'a pheap_scheme \<Rightarrow> u64 \<Rightarrow> u64 \<Rightarrow> session \<Rightarrow> (u64 \<times> u32) list \<Rightarrow>
    (session \<times> (u64 \<times> u32) list) option" where
  "sendIO_gather h packetCount i s buffer =
     (if i < packetCount then
        Option.bind (lfq_pop (ss_sendBuffer s)) (\<lambda>r.
          let s1 = s\<lparr>ss_sendBuffer := fst r\<rparr> in
          if snd r = None then sendIO_gather h packetCount (i - 1 + 1) s1 buffer
          else if 100 \<le> i then None
          else Option.bind (snd r) (\<lambda>temp.
               Option.bind (ser_at h temp) (\<lambda>p.
               Option.bind (rb_push (ss_sendedBuffer s1) (le_bytes 8 temp) 8) (\<lambda>sd.
                 sendIO_gather h packetCount (i + 1) (s1\<lparr>ss_sendedBuffer := fst sd\<rparr>)
                   (buffer @ [(sz_getHeadPtr p, ucast (sz_size p))])))))
      else Some (s, buffer))"

definition sendIO :: "session \<Rightarrow> 'a os_scheme \<Rightarrow> (session \<times> 'a os_scheme \<times> bool) option" where
  "sendIO s w =
     (if hasCancelIOFlag s then Some (s, w, False)
      else
        let old = ss_sendFlag s; s0 = s\<lparr>ss_sendFlag := 1\<rparr> in
        if old = 1 then Some (s0, w, False)
        else
          let sendBufferSize :: u64 = scast (lfq_sizeFn (ss_sendBuffer s0)) in
          if sendBufferSize = 0 then Some (s0\<lparr>ss_sendFlag := 0\<rparr>, w, False)
          else do {
            (s1, buffer) \<leftarrow> sendIO_gather w sendBufferSize 0 (fst (incrementIO s0)) [];
            (w1, ret) \<leftarrow> os_io w (WSASend (ss_socket s1) buffer);
            (if ret \<noteq> 0 \<and> ret \<noteq> WSA_IO_PENDING then
               let s2 = (if ret \<noteq> 10054 \<and> ret \<noteq> 10053 then s1\<lparr>ss_sendFlag := 0\<rparr> else s1);
                   s3 = fst (cancelIORegist s2);
                   w2 = os_log w1 (CancelIoEx (ss_socket s3) Recv_io);
                   (s4, c) = decrementIO s3
               in Some (s4, w2, c = 0)
             else do {
               s2 \<leftarrow> iocp_owe s1 Send_io;
               (if ret = WSA_IO_PENDING \<and> hasCancelIOFlag s2
                then Some (s2, os_log w1 (CancelIoEx (ss_socket s2) Send_io), False)
                else Some (s2, w1, False)) })
          })"

text \<open>
  \<open>packetBuffer\<close> is not initialised (\<^term>\<open>None\<close>); a pop of fewer than eight bytes overwrites its
  first bytes only.
\<close>

definition ptr_pop :: "u64 option \<Rightarrow> ringBuffer \<Rightarrow> (ringBuffer \<times> u64 option) option" where
  "ptr_pop packetBuffer rb =
     do { (rb1, xs) \<leftarrow> rb_pop rb 8;
          Some (rb1, if length xs = 8 then Some (le_word xs)
                     else map_option (\<lambda>old. le_word (xs @ drop (length xs) (le_bytes 8 old))) packetBuffer) }"

partial_function (option) sended_loop :: "u32 \<Rightarrow> u32 \<Rightarrow> u64 option \<Rightarrow> ringBuffer \<Rightarrow> 'a pheap_scheme \<Rightarrow>
    (u32 \<times> u32 \<times> ringBuffer \<times> 'a pheap_scheme) option" where
  "sended_loop transfer sendedCount packetBuffer rb h =
     (if transfer > 0 then
        Option.bind (ptr_pop packetBuffer rb) (\<lambda>r.
        Option.bind (snd r) (\<lambda>p.
        Option.bind (ser_at h p) (\<lambda>ser.
        Option.bind (ser_release h p) (\<lambda>h1.
          sended_loop (transfer - ucast (sz_size ser)) (sendedCount + 1) (Some p) (fst r) h1))))
      else Some (transfer, sendedCount, rb, h))"

text \<open>The results are the new value of the reference \<open>transfer\<close> and the return value.\<close>

definition sended :: "session \<Rightarrow> 'a pheap_scheme \<Rightarrow> u32 \<Rightarrow> (session \<times> 'a pheap_scheme \<times> u32 \<times> u32) option" where
  "sended s h transfer =
     (if transfer \<le> 0 then Some (s, h, transfer, -1)
      else do {
        (transfer1, sendedCount, rb, h1) \<leftarrow> sended_loop transfer 0 None (ss_sendedBuffer s) h;
        (let s1 = s\<lparr>ss_sendedBuffer := rb\<rparr> in
         if transfer1 < 0 then Some (s1, h1, transfer1, -1)
         else Some (s1, h1, transfer1, sendedCount)) })"

definition collectSendPacket :: "session \<Rightarrow> u64 \<Rightarrow> (session \<times> bool) option" where
  "collectSendPacket s p =
     do { (q, b) \<leftarrow> lfq_push (ss_sendBuffer s) p;
          Some (s\<lparr>ss_sendBuffer := q\<rparr>, if b then True else False) }"

text \<open>The overload with a packet: the argument is a copy, destroyed on return.\<close>

definition collectSendPacket_packet :: "session \<Rightarrow> 'a pheap_scheme \<Rightarrow> packet \<Rightarrow> (session \<times> 'a pheap_scheme \<times> bool) option" where
  "collectSendPacket_packet s h k =
     do { (h1, p) \<leftarrow> packet_copy h k;
          (q, b) \<leftarrow> lfq_push (ss_sendBuffer s) (pk_buffer p);
          (h2, _) \<leftarrow> packet_delete h1 p;
          Some (s\<lparr>ss_sendBuffer := q\<rparr>, h2, if b then True else False) }"

section \<open>Receiving\<close>

definition recvIO_buffers :: "ringBuffer \<Rightarrow> (u64 \<times> u32) list" where
  "recvIO_buffers rb =
     (let freeSize = rb_freeSize rb;
          freeSize1 = freeSize - ucast (ucast (rb_DirectEnqueueSize rb) :: u32)
      in (rb_tail rb, ucast (rb_DirectEnqueueSize rb)) #
         (if freeSize1 > 0 then [(rb_bufferPtr rb, ucast freeSize1)] else []))"

definition recvIO :: "session \<Rightarrow> 'a os_scheme \<Rightarrow> (session \<times> 'a os_scheme \<times> bool) option" where
  "recvIO s w =
     (if hasCancelIOFlag s then Some (s, w, False)
      else
        let buffer = recvIO_buffers (ss_recvBuffer s);
            s1 = fst (incrementIO s)
        in do {
          (w1, ret) \<leftarrow> os_io w (WSARecv (ss_socket s1) buffer);
          (if ret \<noteq> 0 \<and> ret \<noteq> WSA_IO_PENDING then
             let s2 = fst (cancelIORegist s1);
                 w2 = os_log w1 (CancelIoEx (ss_socket s2) Send_io);
                 (s3, c) = decrementIO s2
             in Some (s3, w2, c = 0)
           else do {
             s2 \<leftarrow> iocp_owe s1 Recv_io;
             (if ret = WSA_IO_PENDING \<and> hasCancelIOFlag s2
              then Some (s2, os_log w1 (CancelIoEx (ss_socket s2) Recv_io), False)
              else Some (s2, w1, False)) })
        })"

text \<open>The bytes that Windows has put into the buffers of \<open>WSARecv\<close> before the completion.\<close>

definition recv_arrive :: "session \<Rightarrow> byte list \<Rightarrow> session option" where
  "recv_arrive s data = map_option (\<lambda>rb. s\<lparr>ss_recvBuffer := rb\<rparr>) (rb_fill (ss_recvBuffer s) data)"

definition recved :: "session \<Rightarrow> u32 \<Rightarrow> session \<times> bool" where
  "recved s transfer =
     (if rb_freeSize (ss_recvBuffer s) \<le> ucast transfer \<or> transfer = 0 then (s, False)
      else (s\<lparr>ss_recvBuffer := fst (rb_MoveRear (ss_recvBuffer s) transfer)\<rparr>, True))"

definition recvedPacket :: "session \<Rightarrow> 'a pheap_scheme \<Rightarrow> u64 \<Rightarrow> (session \<times> 'a pheap_scheme \<times> bool) option" where
  "recvedPacket s h p =
     (if 5 \<le> rb_size (ss_recvBuffer s) then do {
        xs \<leftarrow> rb_front (ss_recvBuffer s) 5;
        (if length xs \<noteq> 5 then Some (s, h, False)
         else
           let sz = nh_size (nh_of_bytes xs); n :: u64 = 5 + scast sz in
           if n \<le> rb_size (ss_recvBuffer s) then do {
             (rb, ys) \<leftarrow> rb_pop (ss_recvBuffer s) n;
             ser \<leftarrow> ser_at h p;
             ser1 \<leftarrow> sz_write ser (sz_getBufferPtr ser) ys;
             (let ser2 = fst (sz_moveRear ser1 (scast sz));
                  ser3 = fst (sz_moveFront ser2 (-5))
              in Some (s\<lparr>ss_recvBuffer := rb\<rparr>, ser_put h p ser3, True)) }
           else Some (s, h, False)) }
      else Some (s, h, False))"

section \<open>Clearing\<close>

partial_function (option) clear_send :: "lfq \<Rightarrow> 'a pheap_scheme \<Rightarrow> u64 option \<Rightarrow> (lfq \<times> 'a pheap_scheme \<times> u64 option) option" where
  "clear_send q h packetBuffer =
     Option.bind (lfq_pop q) (\<lambda>r.
       if snd r = None then Some (fst r, h, packetBuffer)
       else Option.bind (snd r) (\<lambda>p. Option.bind (ser_release h p) (\<lambda>h1. clear_send (fst r) h1 (Some p))))"

partial_function (option) clear_sended :: "ringBuffer \<Rightarrow> 'a pheap_scheme \<Rightarrow> u64 option \<Rightarrow> (ringBuffer \<times> 'a pheap_scheme) option" where
  "clear_sended rb h packetBuffer =
     (if \<not> rb_empty rb then
        Option.bind (ptr_pop packetBuffer rb) (\<lambda>r.
        Option.bind (snd r) (\<lambda>p.
        Option.bind (ser_release h p) (\<lambda>h1. clear_sended (fst r) h1 (Some p))))
      else Some (rb, h))"

definition bufferClear :: "session \<Rightarrow> 'a pheap_scheme \<Rightarrow> (session \<times> 'a pheap_scheme) option" where
  "bufferClear s h =
     do { (q, h1, packetBuffer) \<leftarrow> clear_send (ss_sendBuffer s) h None;
          (rb, h2) \<leftarrow> clear_sended (ss_sendedBuffer s) h1 packetBuffer;
          Some (s\<lparr>ss_sendBuffer := q, ss_sendedBuffer := rb, ss_recvBuffer := rb_clear (ss_recvBuffer s)\<rparr>, h2) }"

end
