(* ===== verification/Network.thy ===== *)
theory Network
  imports Session "HOL-Library.AList"
begin

text \<open>
  The server core: \<open>network.h\<close> and \<open>network.cpp\<close>. A \<open>session*\<close> is the index of the session in
  \<open>sessionArray\<close>; a use of an index outside the array has no outcome. One iteration of the
  accept thread, of a worker thread and of the statistics thread is one step on the whole
  state. The virtual functions of the class are the record \<open>callbacks\<close>, so that a derived
  class supplies them on its own extension of the state. The kernel's part (results of the
  socket calls, completions, ticks) is an argument of the step.
\<close>

section \<open>State\<close>

record network = os +
  nw_runningThreadCount :: byte
  nw_workerThreadCount :: byte
  nw_acceptTPSArr :: u32
  nw_recvMessageTPSArr :: "u32 list"
  nw_sendMessageTPSArr :: "u32 list"
  nw_acceptTotal :: u64
  nw_acceptTPS :: u32
  nw_recvMessageTPS :: u32
  nw_sendMessageTPS :: u32
  nw_sessionArray :: "session list"
  nw_indexStack :: "u16 list"
  nw_listen_socket :: u64
  nw_IOCP :: u64
  nw_hAcceptThread :: u64
  nw_hNetworkThread :: u64
  nw_threadIndexMap :: "(u64 \<times> u16) list"
  nw_sessionCount :: u32
  nw_maxSession :: u32
  nw_isRun :: bool

record 's callbacks =
  cb_OnNewConnect :: "u64 \<Rightarrow> 's \<Rightarrow> 's option"
  cb_OnDisconnect :: "u64 \<Rightarrow> 's \<Rightarrow> 's option"
  cb_OnConnectionRequest :: "u32 \<Rightarrow> u16 \<Rightarrow> 's \<Rightarrow> ('s \<times> bool) option"
  cb_OnRecv :: "u64 \<Rightarrow> u64 \<Rightarrow> 's \<Rightarrow> 's option"
  cb_OnSend :: "u64 \<Rightarrow> u32 \<Rightarrow> 's \<Rightarrow> 's option"
  cb_OnError :: "u32 \<Rightarrow> string \<Rightarrow> 's \<Rightarrow> 's option"

abbreviation INVALID_SOCKET :: u64 where "INVALID_SOCKET \<equiv> -1"

definition GET_INDEX :: "u64 \<Rightarrow> u16" where
  "GET_INDEX sessionID = ucast sessionID"

definition MAKE_SESSION_ID :: "u32 \<Rightarrow> u16 \<Rightarrow> u64" where
  "MAKE_SESSION_ID sessionCount index = ucast index OR push_bit 48 (ucast sessionCount)"

definition session_at :: "'a network_scheme \<Rightarrow> nat \<Rightarrow> session option" where
  "session_at st i = (if i < length (nw_sessionArray st) then Some (nw_sessionArray st ! i) else None)"

definition session_put :: "'a network_scheme \<Rightarrow> nat \<Rightarrow> session \<Rightarrow> 'a network_scheme" where
  "session_put st i s = st\<lparr>nw_sessionArray := (nw_sessionArray st)[i := s]\<rparr>"

section \<open>Releasing and finding sessions\<close>

text \<open>
  \<open>deleteSession\<close>: only the caller that swaps the counter from 0 to \<open>0x80000000\<close> goes on.
  \<open>od\<close> is the virtual function \<open>OnDisconnect\<close>.
\<close>

definition deleteSession :: "(u64 \<Rightarrow> 'a network_scheme \<Rightarrow> 'a network_scheme option) \<Rightarrow> nat \<Rightarrow>
    'a network_scheme \<Rightarrow> 'a network_scheme option" where
  "deleteSession od i st =
     do { s \<leftarrow> session_at st i;
          (let r = cas (ss_IOcount s) 0x80000000 0; s1 = s\<lparr>ss_IOcount := fst r\<rparr> in
           if snd r \<noteq> 0 then Some (session_put st i s1)
           else do {
             (let targetID = ss_ID s1; index :: u16 = ucast (ss_ID s1);
                  st1 = os_log st (CloseSocket (ss_socket s1))
              in do { (s2, st2) \<leftarrow> bufferClear s1 st1;
                      (let st3 = session_put st2 i s2;
                           st4 = st3\<lparr>nw_indexStack := index # nw_indexStack st3\<rparr>
                       in od targetID st4) }) }) }"

text \<open>\<open>if (s->decrementIO() == 0) deleteSession(s);\<close>\<close>

definition session_release :: "(u64 \<Rightarrow> 'a network_scheme \<Rightarrow> 'a network_scheme option) \<Rightarrow> nat \<Rightarrow>
    'a network_scheme \<Rightarrow> 'a network_scheme option" where
  "session_release od i st =
     do { s \<leftarrow> session_at st i;
          (let (s1, c) = decrementIO s; st1 = session_put st i s1
           in if c = 0 then deleteSession od i st1 else Some st1) }"

definition findSession :: "(u64 \<Rightarrow> 'a network_scheme \<Rightarrow> 'a network_scheme option) \<Rightarrow> u64 \<Rightarrow>
    'a network_scheme \<Rightarrow> ('a network_scheme \<times> nat option) option" where
  "findSession od sessionID st =
     (let i = unat (ucast sessionID :: u16) in
      do { s \<leftarrow> session_at st i;
           (let (s1, temp) = incrementIO s; st1 = session_put st i s1 in
            if temp AND 0x80000000 \<noteq> 0 then do { st2 \<leftarrow> session_release od i st1; Some (st2, None) }
            else if ss_ID s1 \<noteq> sessionID then do { st2 \<leftarrow> session_release od i st1; Some (st2, None) }
            else Some (st1, Some i)) })"

text \<open>\<open>sendIO\<close> and \<open>recvIO\<close> of a session, with the deletion that they may end in.\<close>

definition net_sendIO :: "(u64 \<Rightarrow> 'a network_scheme \<Rightarrow> 'a network_scheme option) \<Rightarrow> nat \<Rightarrow>
    'a network_scheme \<Rightarrow> 'a network_scheme option" where
  "net_sendIO od i st =
     do { s \<leftarrow> session_at st i;
          (s1, st1, del) \<leftarrow> sendIO s st;
          (let st2 = session_put st1 i s1 in if del then deleteSession od i st2 else Some st2) }"

definition net_recvIO :: "(u64 \<Rightarrow> 'a network_scheme \<Rightarrow> 'a network_scheme option) \<Rightarrow> nat \<Rightarrow>
    'a network_scheme \<Rightarrow> 'a network_scheme option" where
  "net_recvIO od i st =
     do { s \<leftarrow> session_at st i;
          (s1, st1, del) \<leftarrow> recvIO s st;
          (let st2 = session_put st1 i s1 in if del then deleteSession od i st2 else Some st2) }"

section \<open>Requests\<close>

datatype reqEvents = notDefine | sendReq_event | disconnectReq_event

fun reqEvents_value :: "reqEvents \<Rightarrow> u64" where
  "reqEvents_value notDefine = 0x0000000000000000"
| "reqEvents_value sendReq_event = 0x4000000000000000"
| "reqEvents_value disconnectReq_event = 0x8000000000000000"

definition reqFilter :: u64 where
  "reqFilter = 0xF000000000000000"

definition requestCheck :: "u64 \<Rightarrow> reqEvents" where
  "requestCheck overlappedPtr =
     (let reqStamp = reqFilter AND overlappedPtr in
      if reqStamp = reqEvents_value sendReq_event then sendReq_event
      else if reqStamp = reqEvents_value disconnectReq_event then disconnectReq_event
      else notDefine)"

text \<open>\<open>PostQueuedCompletionStatus(IOCP, 0, session, value)\<close>: one more completion is owed to the session.\<close>

definition postStatus :: "nat \<Rightarrow> u64 \<Rightarrow> 'a network_scheme \<Rightarrow> 'a network_scheme option" where
  "postStatus i v st =
     do { s \<leftarrow> session_at st i;
          s1 \<leftarrow> iocp_owe s (Post_io v);
          Some (os_log (session_put st i s1) (PostStatus (of_nat i) v)) }"

definition disconnectReq_session :: "nat \<Rightarrow> 'a network_scheme \<Rightarrow> 'a network_scheme option" where
  "disconnectReq_session i st =
     do { s \<leftarrow> session_at st i;
          (let s1 = fst (cancelIORegist s);
               st1 = os_log (session_put st i s1) (CancelIoEx (ss_socket s1) Recv_io)
           in Some (os_log st1 (CancelIoEx (ss_socket s1) Send_io))) }"

definition disconnectReq :: "(u64 \<Rightarrow> 'a network_scheme \<Rightarrow> 'a network_scheme option) \<Rightarrow> u64 \<Rightarrow>
    'a network_scheme \<Rightarrow> 'a network_scheme option" where
  "disconnectReq od sessionID st =
     do { (st1, r) \<leftarrow> findSession od sessionID st;
          (case r of None \<Rightarrow> Some st1
           | Some i \<Rightarrow> do {
               s \<leftarrow> session_at st1 i;
               (let s1 = fst (cancelIORegist s);
                    st2 = os_log (session_put st1 i s1) (CancelIoEx (ss_socket s1) Recv_io);
                    st3 = os_log st2 (CancelIoEx (ss_socket s1) Send_io)
                in session_release od i st3) }) }"

definition sendReq :: "(u64 \<Rightarrow> 'a network_scheme \<Rightarrow> 'a network_scheme option) \<Rightarrow> u64 \<Rightarrow> u64 \<Rightarrow>
    'a network_scheme \<Rightarrow> 'a network_scheme option" where
  "sendReq od sessionID p st =
     do { (st1, r) \<leftarrow> findSession od sessionID st;
          (case r of None \<Rightarrow> Some st1
           | Some i \<Rightarrow> do {
               (st2, _) \<leftarrow> ser_inc st1 p 1;
               s \<leftarrow> session_at st2 i;
               st3 \<leftarrow> postStatus i (p OR reqEvents_value sendReq_event) (session_put st2 i (fst (incrementIO s)));
               session_release od i st3 }) }"

text \<open>The overload that takes a packet by value: a copy for the call, destroyed on every return.\<close>

definition sendReq_packet :: "(u64 \<Rightarrow> 'a network_scheme \<Rightarrow> 'a network_scheme option) \<Rightarrow> u64 \<Rightarrow> packet \<Rightarrow>
    'a network_scheme \<Rightarrow> 'a network_scheme option" where
  "sendReq_packet od sessionID k st =
     do { (st0, p) \<leftarrow> packet_copy st k;
          (st1, r) \<leftarrow> findSession od sessionID st0;
          st5 \<leftarrow> (case r of None \<Rightarrow> Some st1
           | Some i \<Rightarrow> do {
               (st2, _) \<leftarrow> packet_incReferenceCounter st1 p 1;
               s \<leftarrow> session_at st2 i;
               st3 \<leftarrow> postStatus i (pk_buffer p OR reqEvents_value sendReq_event) (session_put st2 i (fst (incrementIO s)));
               session_release od i st3 });
          (st6, _) \<leftarrow> packet_delete st5 p;
          Some st6 }"

section \<open>The accept thread\<close>

text \<open>One iteration, for the results of \<open>accept\<close> and \<open>getpeername\<close>.\<close>

definition accept_step :: "'a network_scheme callbacks \<Rightarrow> u64 \<Rightarrow> u32 \<Rightarrow> u16 \<Rightarrow> 'a network_scheme \<Rightarrow>
    'a network_scheme option" where
  "accept_step cb client_sock ip port st =
     (let st0 = st\<lparr>nw_acceptTPSArr := nw_acceptTPSArr st + 1, nw_acceptTotal := nw_acceptTotal st + 1\<rparr> in
      if client_sock = INVALID_SOCKET then Some st0
      else do {
        (st1, ok) \<leftarrow> cb_OnConnectionRequest cb ip port st0;
        (if \<not> ok then Some (os_log st1 (CloseSocket client_sock))
         else case nw_indexStack st1 of
           [] \<Rightarrow> Some (os_log st1 (CloseSocket client_sock))
         | index # rest \<Rightarrow>
             let st2 = st1\<lparr>nw_indexStack := rest\<rparr>; i = unat index;
                 sessionID = MAKE_SESSION_ID (nw_sessionCount st2) index;
                 st3 = st2\<lparr>nw_sessionCount := nw_sessionCount st2 + 1\<rparr>
             in do {
               s \<leftarrow> session_at st3 i;
               st4 \<leftarrow> cb_OnNewConnect cb sessionID (session_put st3 i (session_init s sessionID client_sock port ip));
               st5 \<leftarrow> net_recvIO (cb_OnDisconnect cb) i st4;
               session_release (cb_OnDisconnect cb) i st5 }) })"

section \<open>The worker threads\<close>

text \<open>\<open>GetCurrentThread\<close> returns the same pseudo handle in every thread.\<close>

definition GetCurrentThread :: u64 where
  "GetCurrentThread = -2"

text \<open>\<open>threadIndexMap[h]\<close> inserts 0 for a handle that is not there.\<close>

definition worker_threadIndex :: "'a network_scheme \<Rightarrow> 'a network_scheme \<times> u16" where
  "worker_threadIndex st =
     (case map_of (nw_threadIndexMap st) GetCurrentThread of
        Some i \<Rightarrow> (st, i)
      | None \<Rightarrow> (st\<lparr>nw_threadIndexMap := AList.update GetCurrentThread 0 (nw_threadIndexMap st)\<rparr>, 0))"

definition tps_add :: "u32 list \<Rightarrow> u16 \<Rightarrow> u32 \<Rightarrow> u32 list option" where
  "tps_add a i n = (if 0 \<le> sint i \<and> unat i < length a then Some (a[unat i := a ! unat i + n]) else None)"

text \<open>What the completion port does before a worker gets a completion: the operation is no
  longer owed, and received bytes are in the buffer.\<close>

definition completion_op :: "session \<Rightarrow> u64 \<Rightarrow> io_op" where
  "completion_op s overlap =
     (if overlap = ss_sendOverlapped s then Send_io
      else if overlap = ss_recvOverlapped s then Recv_io else Post_io overlap)"

definition iocp_deliver :: "nat \<Rightarrow> u64 \<Rightarrow> byte list \<Rightarrow> 'a network_scheme \<Rightarrow> 'a network_scheme option" where
  "iocp_deliver i overlap data st =
     do { s \<leftarrow> session_at st i;
          s1 \<leftarrow> recv_arrive s data;
          Some (session_put st i (s1\<lparr>ss_inflight := remove1 (completion_op s overlap) (ss_inflight s)\<rparr>)) }"

partial_function (option) recv_loop :: "'a network_scheme callbacks \<Rightarrow> u16 \<Rightarrow> nat \<Rightarrow> 'a network_scheme \<Rightarrow>
    'a network_scheme option" where
  "recv_loop cb threadIndex i st =
     Option.bind (serializerAlloc st) (\<lambda>a.
     Option.bind (ser_inc (fst a) (snd a) 1) (\<lambda>b.
     Option.bind (ser_call (fst b) (snd a) (\<lambda>s. Some (sz_begin s, ()))) (\<lambda>c.
     Option.bind (session_at (fst c) i) (\<lambda>s.
     Option.bind (recvedPacket s (fst c) (snd a)) (\<lambda>r.
       let st1 = session_put (fst (snd r)) i (fst r) in
       if \<not> snd (snd r) then ser_release st1 (snd a)
       else
         Option.bind (tps_add (nw_recvMessageTPSArr st1) threadIndex 1) (\<lambda>arr.
         Option.bind (cb_OnRecv cb (ss_ID (fst r)) (snd a) (st1\<lparr>nw_recvMessageTPSArr := arr\<rparr>)) (\<lambda>st2.
         Option.bind (ser_release st2 (snd a)) (\<lambda>st3. recv_loop cb threadIndex i st3))))))))"

text \<open>One turn of that loop; the flag of the result is \<^term>\<open>False\<close> when the turn leaves it.\<close>

definition recv_turn :: "'a network_scheme callbacks \<Rightarrow> u16 \<Rightarrow> nat \<Rightarrow> 'a network_scheme \<Rightarrow>
    ('a network_scheme \<times> bool) option" where
  "recv_turn cb threadIndex i st =
     do { (h1, p) \<leftarrow> serializerAlloc st;
          (h2, _) \<leftarrow> ser_inc h1 p 1;
          (h3, _) \<leftarrow> ser_call h2 p (\<lambda>s. Some (sz_begin s, ()));
          s \<leftarrow> session_at h3 i;
          (s1, h4, ok) \<leftarrow> recvedPacket s h3 p;
          (let st1 = session_put h4 i s1 in
           if \<not> ok then do { st2 \<leftarrow> ser_release st1 p; Some (st2, False) }
           else do { arr \<leftarrow> tps_add (nw_recvMessageTPSArr st1) threadIndex 1;
                     st2 \<leftarrow> cb_OnRecv cb (ss_ID s1) p (st1\<lparr>nw_recvMessageTPSArr := arr\<rparr>);
                     st3 \<leftarrow> ser_release st2 p;
                     Some (st3, True) }) }"

text \<open>A number of turns, none of which leaves the loop.\<close>

fun recv_turns :: "'a network_scheme callbacks \<Rightarrow> u16 \<Rightarrow> nat \<Rightarrow> nat \<Rightarrow> 'a network_scheme \<Rightarrow> 'a network_scheme option" where
  "recv_turns cb threadIndex i 0 st = Some st"
| "recv_turns cb threadIndex i (Suc k) st =
     Option.bind (recv_turn cb threadIndex i st) (\<lambda>(st', go). if go then recv_turns cb threadIndex i k st' else None)"

text \<open>
  One iteration, for what \<open>GetQueuedCompletionStatus\<close> returned. The flag of the result is
  \<^term>\<open>False\<close> when the thread leaves its loop.
\<close>

definition worker_step :: "'a network_scheme callbacks \<Rightarrow> u16 \<Rightarrow> bool \<Rightarrow> u32 \<Rightarrow> nat option \<Rightarrow> u64 \<Rightarrow>
    'a network_scheme \<Rightarrow> ('a network_scheme \<times> bool) option" where
  "worker_step cb threadIndex GQCSresult transfer sessionPtr overlap st =
     (case sessionPtr of
        None \<Rightarrow> Some (st, False)
      | Some i \<Rightarrow>
        let release = (\<lambda>st. do { st' \<leftarrow> session_release (cb_OnDisconnect cb) i st; Some (st', True) }) in
        if \<not> GQCSresult then release st
        else do {
          s \<leftarrow> session_at st i;
          (if transfer = 0 then
             (if requestCheck overlap = sendReq_event then
                let p = overlap AND NOT reqFilter in do {
                  (s1, b) \<leftarrow> collectSendPacket s p;
                  (let st1 = session_put st i s1 in
                   if b then do { st2 \<leftarrow> net_sendIO (cb_OnDisconnect cb) i st1; release st2 }
                   else do { st2 \<leftarrow> ser_release st1 p; release st2 }) }
              else release st)
           else if sendOverlappedCheck s overlap then do {
             st1 \<leftarrow> cb_OnSend cb (ss_ID s) transfer st;
             s1 \<leftarrow> session_at st1 i;
             (s2, st2, transfer2, tp) \<leftarrow> sended s1 st1 transfer;
             (let st3 = session_put st2 i s2 in
              if tp \<noteq> -1 then do {
                arr \<leftarrow> tps_add (nw_sendMessageTPSArr st3) threadIndex tp;
                (let s4 = s2\<lparr>ss_sendFlag := 0\<rparr>;
                     st4 = session_put (st3\<lparr>nw_sendMessageTPSArr := arr\<rparr>) i s4
                 in if 0 < sint (lfq_sizeFn (ss_sendBuffer s4))
                    then do { st5 \<leftarrow> net_sendIO (cb_OnDisconnect cb) i st4; release st5 }
                    else release st4) }
              else Some (st3, True)) }
           else if recvOverlappedCheck s overlap then
             (let (s1, ok) = recved s transfer; st1 = session_put st i s1 in
              if \<not> ok then Some (st1, True)
              else do { st2 \<leftarrow> recv_loop cb threadIndex i st1;
                        st3 \<leftarrow> net_recvIO (cb_OnDisconnect cb) i st2;
                        release st3 })
           else release st) })"

section \<open>The statistics thread\<close>

text \<open>One iteration at tick \<open>nowTick\<close>; unsigned arithmetic, and a division by zero when the two
  ticks are equal.\<close>

definition networkThread_step :: "u32 \<Rightarrow> u32 \<Rightarrow> 'a network_scheme \<Rightarrow> ('a network_scheme \<times> u32) option" where
  "networkThread_step nowTick pastTick st =
     (let n = unat (nw_workerThreadCount st) in
      if length (nw_sendMessageTPSArr st) < n \<or> length (nw_recvMessageTPSArr st) < n \<or> nowTick = pastTick then None
      else
        let temp1 = sum_list (take n (nw_sendMessageTPSArr st));
            temp2 = sum_list (take n (nw_recvMessageTPSArr st))
        in Some (st\<lparr>nw_sendMessageTPSArr := replicate n 0 @ drop n (nw_sendMessageTPSArr st),
                    nw_recvMessageTPSArr := replicate n 0 @ drop n (nw_recvMessageTPSArr st),
                    nw_sendMessageTPS := temp1 * 1000 div (nowTick - pastTick),
                    nw_recvMessageTPS := temp2 * 1000 div (nowTick - pastTick),
                    nw_acceptTPS := nw_acceptTPSArr st * 1000 div (nowTick - pastTick),
                    nw_acceptTPSArr := 0\<rparr>, nowTick))"

section \<open>Queries\<close>

definition getSessionCount :: "'a network_scheme \<Rightarrow> u64" where
  "getSessionCount st = scast (nw_maxSession st) - of_nat (length (nw_indexStack st))"

definition getSessionPoolMemory :: "'a network_scheme \<Rightarrow> u64 \<times> u64" where
  "getSessionPoolMemory st = (0, 0)"

definition getAcceptTotal :: "'a network_scheme \<Rightarrow> u32" where
  "getAcceptTotal st = ucast (nw_acceptTotal st)"

definition getAcceptTPS :: "'a network_scheme \<Rightarrow> u32" where
  "getAcceptTPS st = nw_acceptTPS st"

definition getRecvMessageTPS :: "'a network_scheme \<Rightarrow> u32" where
  "getRecvMessageTPS st = nw_recvMessageTPS st"

definition getSendMessageTPS :: "'a network_scheme \<Rightarrow> u32" where
  "getSendMessageTPS st = nw_sendMessageTPS st"

end
