(* ===== verification/Session_Facts.thy ===== *)
theory Session_Facts
  imports Session
begin

text \<open>
  What the operations of a session do: the send path hands the queued packets to \<open>WSASend\<close> in
  order and releases exactly those when the completion arrives, the receive path appends what
  arrives and cuts complete packets off the front of the receive buffer. The proofs use the
  interfaces \<open>ptr_queue\<close> and \<open>byte_fifo\<close> of the two queues.
\<close>

section \<open>Releasing packets\<close>

fun release_all :: "'a pheap_scheme \<Rightarrow> u64 list \<Rightarrow> 'a pheap_scheme option" where
  "release_all h [] = Some h"
| "release_all h (p # ps) = Option.bind (ser_release h p) (\<lambda>h1. release_all h1 ps)"

definition ser_shape :: "'a pheap_scheme \<Rightarrow> u64 \<Rightarrow> serializer option" where
  "ser_shape h p = map_option (\<lambda>s. s\<lparr>sz_referenceCounter := 0\<rparr>) (ser_at h p)"

lemma ser_release_shape:
  assumes "ser_release h p = Some h'"
  shows "ser_shape h' = ser_shape h"
proof -
  obtain s where s: "ser_at h p = Some s"
    using assms by (cases "ser_at h p") (auto simp: ser_release_def ser_dec_def ser_call_def)
  have p: "p \<noteq> 0" using s by (rule ser_at_nonnull)
  have "ser_at h' q = (if q = p then Some (s\<lparr>sz_referenceCounter := sz_referenceCounter s - 1\<rparr>) else ser_at h q)" for q
    using assms ser_release_Some [OF s] p by (auto simp: Let_def ph_simps split: if_splits)
  then show ?thesis by (auto simp: ser_shape_def s)
qed

lemma ser_at_shape:
  "ser_shape h' = ser_shape h \<Longrightarrow> ser_at h p = Some s \<Longrightarrow>
     \<exists>s'. ser_at h' p = Some s' \<and> s'\<lparr>sz_referenceCounter := 0\<rparr> = s\<lparr>sz_referenceCounter := 0\<rparr>"
  by (auto simp: ser_shape_def fun_eq_iff dest: spec [of _ p])

lemma sz_size_shape: "s'\<lparr>sz_referenceCounter := 0\<rparr> = s\<lparr>sz_referenceCounter := 0\<rparr> \<Longrightarrow> sz_size s' = sz_size s"
  by (cases s; cases s') (simp add: sz_size_def)

definition valid_ptrs :: "'a pheap_scheme \<Rightarrow> u64 list \<Rightarrow> bool" where
  "valid_ptrs h ps \<longleftrightarrow> (\<forall>p \<in> set ps. ser_at h p \<noteq> None)"

definition ptr_size :: "'a pheap_scheme \<Rightarrow> u64 \<Rightarrow> u32" where
  "ptr_size h p = (case ser_at h p of None \<Rightarrow> 0 | Some s \<Rightarrow> ucast (sz_size s))"

definition wsabuf :: "'a pheap_scheme \<Rightarrow> u64 \<Rightarrow> u64 \<times> u32" where
  "wsabuf h p = (case ser_at h p of None \<Rightarrow> (0, 0) | Some s \<Rightarrow> (sz_getHeadPtr s, ucast (sz_size s)))"

lemma valid_ptrs_simps [simp]:
  "valid_ptrs h []" "valid_ptrs h (p # ps) \<longleftrightarrow> (\<exists>s. ser_at h p = Some s) \<and> valid_ptrs h ps"
  by (auto simp: valid_ptrs_def)

lemma shape_valid: "ser_shape h' = ser_shape h \<Longrightarrow> valid_ptrs h ps \<Longrightarrow> valid_ptrs h' ps"
  using ser_at_shape [of h' h] by (fastforce simp: valid_ptrs_def)

lemma shape_size:
  assumes "ser_shape h' = ser_shape h"
  shows "ptr_size h' p = ptr_size h p"
proof (cases "ser_at h p")
  case None
  moreover have "ser_shape h' p = ser_shape h p" using assms by simp
  ultimately show ?thesis by (simp add: ptr_size_def ser_shape_def)
next
  case (Some s)
  then obtain s' where s': "ser_at h' p = Some s'"
    "s'\<lparr>sz_referenceCounter := 0\<rparr> = s\<lparr>sz_referenceCounter := 0\<rparr>"
    using ser_at_shape [OF assms] by blast
  then show ?thesis using Some sz_size_shape [OF s'(2)] by (simp add: ptr_size_def)
qed

lemma ser_release_valid: "ser_at h p = Some s \<Longrightarrow> \<exists>h'. ser_release h p = Some h'"
  using ser_release_Some by blast

lemma release_all_valid:
  "valid_ptrs h ps \<Longrightarrow> \<exists>h'. release_all h ps = Some h' \<and> ser_shape h' = ser_shape h"
proof (induction ps arbitrary: h)
  case (Cons p ps)
  then obtain s where "ser_at h p = Some s" by auto
  then obtain h1 where h1: "ser_release h p = Some h1" using ser_release_valid by blast
  then have sh: "ser_shape h1 = ser_shape h" by (rule ser_release_shape)
  then have "valid_ptrs h1 ps" using Cons.prems shape_valid by auto
  from Cons.IH [OF this] show ?case using h1 sh by auto
qed simp

lemma release_all_append:
  "release_all h (ps @ qs) = Option.bind (release_all h ps) (\<lambda>h1. release_all h1 qs)"
  by (induction ps arbitrary: h) (auto split: bind_splits)

section \<open>Pointers in the ring of sent packets\<close>

lemma ptr_pop_cons:
  assumes "rb_inv rb" "rb_contents rb = ptr_bytes (p # ps)"
  obtains rb' where "ptr_pop pb rb = Some (rb', Some p)" "rb_inv rb'" "rb_contents rb' = ptr_bytes ps"
    "rb_cap rb' = rb_cap rb"
proof -
  obtain rb' where rb': "rb_pop rb 8 = Some (rb', le_bytes 8 p)" "rb_inv rb'"
    "rb_contents rb' = ptr_bytes ps" "rb_cap rb' = rb_cap rb"
    by (rule ring.pop_ptr [OF assms])
  then show thesis using that by (simp add: ptr_pop_def le_word_le_bytes_64)
qed

lemma clear_sended_spec:
  assumes "rb_inv rb" "rb_contents rb = ptr_bytes ps" "valid_ptrs h ps"
  shows "\<exists>rb' h'. clear_sended rb h pb = Some (rb', h') \<and> release_all h ps = Some h' \<and>
    rb_inv rb' \<and> rb_contents rb' = [] \<and> rb_cap rb' = rb_cap rb"
  using assms
proof (induction ps arbitrary: rb h pb)
  case Nil
  then show ?case by (subst clear_sended.simps) (simp add: rb_empty_iff)
next
  case (Cons p ps)
  obtain s where s: "ser_at h p = Some s" using Cons.prems by auto
  obtain h1 where h1: "ser_release h p = Some h1" using ser_release_valid [OF s] by blast
  obtain rb1 where r: "ptr_pop pb rb = Some (rb1, Some p)" "rb_inv rb1"
    "rb_contents rb1 = ptr_bytes ps" "rb_cap rb1 = rb_cap rb"
    by (rule ptr_pop_cons [OF Cons.prems(1,2)])
  have v: "valid_ptrs h1 ps"
    using shape_valid [OF ser_release_shape [OF h1]] Cons.prems(3) by simp
  obtain rb' h' where IH: "clear_sended rb1 h1 (Some p) = Some (rb', h')" "release_all h1 ps = Some h'"
    "rb_inv rb'" "rb_contents rb' = []" "rb_cap rb' = rb_cap rb1"
    using Cons.IH [OF r(2,3) v] by blast
  have ne: "\<not> rb_empty rb"
    using Cons.prems(1,2) ptr_bytes_eq_Nil [of "p # ps"] by (simp only: rb_empty_iff) simp
  have "clear_sended rb h pb = clear_sended rb1 h1 (Some p)"
    using ne r(1) h1 by (subst clear_sended.simps) simp
  then show ?case using IH h1 r(4) by simp
qed

lemma clear_send_spec:
  assumes "lfq_rep q ps c" "valid_ptrs h ps"
  shows "\<exists>q' h' pb'. clear_send q h pb = Some (q', h', pb') \<and> release_all h ps = Some h' \<and> lfq_rep q' [] c"
  using assms
proof (induction ps arbitrary: q h pb)
  case Nil
  then obtain q' where "lfq_pop q = Some (q', None)" "lfq_rep q' [] c" using lfq.pop_empty by blast
  then show ?case by (subst clear_send.simps) simp
next
  case (Cons p ps)
  obtain s where s: "ser_at h p = Some s" using Cons.prems by auto
  obtain h1 where h1: "ser_release h p = Some h1" using ser_release_valid [OF s] by blast
  obtain q1 where q1: "lfq_pop q = Some (q1, Some p)" "lfq_rep q1 ps c"
    using lfq.pop_law [OF Cons.prems(1)] by blast
  have v: "valid_ptrs h1 ps"
    using shape_valid [OF ser_release_shape [OF h1]] Cons.prems(2) by simp
  have "clear_send q h pb = clear_send q1 h1 (Some p)"
    using q1(1) h1 by (subst clear_send.simps) simp
  then show ?case using Cons.IH [OF q1(2) v, of "Some p"] h1 by auto
qed

text \<open>\<open>bufferClear\<close> releases every packet that waits and every packet that is being sent, and empties the three buffers.\<close>

lemma bufferClear_spec:
  assumes "lfq_rep (ss_sendBuffer s) ps c" "rb_inv (ss_sendedBuffer s)"
    "rb_contents (ss_sendedBuffer s) = ptr_bytes qs" "valid_ptrs h (ps @ qs)" "rb_inv (ss_recvBuffer s)"
  obtains s' h' where "bufferClear s h = Some (s', h')" "release_all h (ps @ qs) = Some h'"
    "lfq_rep (ss_sendBuffer s') [] c" "rb_inv (ss_sendedBuffer s')" "rb_contents (ss_sendedBuffer s') = []"
    "rb_cap (ss_sendedBuffer s') = rb_cap (ss_sendedBuffer s)"
    "rb_inv (ss_recvBuffer s')" "rb_contents (ss_recvBuffer s') = []"
    "s' = s\<lparr>ss_sendBuffer := ss_sendBuffer s', ss_sendedBuffer := ss_sendedBuffer s', ss_recvBuffer := ss_recvBuffer s'\<rparr>"
    "ss_recvBuffer s' = rb_clear (ss_recvBuffer s)"
proof -
  have v: "valid_ptrs h ps" "valid_ptrs h qs" using assms(4) by (auto simp: valid_ptrs_def)
  obtain q' h1 pb where 1: "clear_send (ss_sendBuffer s) h None = Some (q', h1, pb)"
    "release_all h ps = Some h1" "lfq_rep q' [] c"
    using clear_send_spec [OF assms(1) v(1)] by blast
  have "ser_shape h1 = ser_shape h" using release_all_valid [OF v(1)] 1(2) by auto
  then have "valid_ptrs h1 qs" using v(2) by (rule shape_valid)
  then obtain rb' h2 where 2: "clear_sended (ss_sendedBuffer s) h1 pb = Some (rb', h2)"
    "release_all h1 qs = Some h2" "rb_inv rb'" "rb_contents rb' = []" "rb_cap rb' = rb_cap (ss_sendedBuffer s)"
    using clear_sended_spec [OF assms(2,3)] by blast
  show thesis
  proof (rule that)
    show "bufferClear s h = Some (s\<lparr>ss_sendBuffer := q', ss_sendedBuffer := rb',
        ss_recvBuffer := rb_clear (ss_recvBuffer s)\<rparr>, h2)"
      by (simp add: bufferClear_def 1 2)
    show "release_all h (ps @ qs) = Some h2" by (simp add: release_all_append 1 2)
  qed (use 1 2 rb_clear_spec [OF assms(5)] in simp_all)
qed

section \<open>Sending\<close>

lemma of_nat_less_u64: "i < 2 ^ 64 \<Longrightarrow> j < 2 ^ 64 \<Longrightarrow> (of_nat i < (of_nat j :: u64)) = (i < j)"
  by (simp add: word_less_nat_alt unat_of_nat)

lemma gather_spec:
  assumes "lfq_rep (ss_sendBuffer s) (xs @ zs) c" "valid_ptrs h xs" "i + length xs \<le> 100"
    "rb_inv (ss_sendedBuffer s)" "rb_contents (ss_sendedBuffer s) = ptr_bytes ys"
    "8 * (length ys + length xs) \<le> rb_cap (ss_sendedBuffer s)"
  shows "\<exists>q sd. sendIO_gather h (of_nat (i + length xs)) (of_nat i) s buf =
      Some (s\<lparr>ss_sendBuffer := q, ss_sendedBuffer := sd\<rparr>, buf @ map (wsabuf h) xs) \<and>
    lfq_rep q zs c \<and> rb_inv sd \<and> rb_contents sd = ptr_bytes (ys @ xs) \<and> rb_cap sd = rb_cap (ss_sendedBuffer s)"
  using assms
proof (induction xs arbitrary: s i buf ys)
  case Nil
  have "sendIO_gather h (of_nat i) (of_nat i) s buf = Some (s, buf)"
    by (subst sendIO_gather.simps) simp
  then show ?case using Nil.prems
    by (intro exI [of _ "ss_sendBuffer s"] exI [of _ "ss_sendedBuffer s"]) simp
next
  case (Cons x xs)
  obtain p where p: "ser_at h x = Some p" using Cons.prems by auto
  obtain q1 where q1: "lfq_pop (ss_sendBuffer s) = Some (q1, Some x)" "lfq_rep q1 (xs @ zs) c"
    using Cons.prems(1) lfq.pop_law [of _ x "xs @ zs" c] by auto
  have room: "8 * length ys + 8 \<le> rb_cap (ss_sendedBuffer s)" using Cons.prems(6) by simp
  obtain sd1 where sd1: "rb_push (ss_sendedBuffer s) (le_bytes 8 x) 8 = Some (sd1, 8)" "rb_inv sd1"
    "rb_contents sd1 = ptr_bytes (ys @ [x])" "rb_cap sd1 = rb_cap (ss_sendedBuffer s)"
    by (rule ring.push_ptr [OF Cons.prems(4,5) room])
  let ?s1 = "s\<lparr>ss_sendBuffer := q1, ss_sendedBuffer := sd1\<rparr>"
  have i: "of_nat i < (of_nat (i + length (x # xs)) :: u64)" "\<not> (100 :: u64) \<le> of_nat i"
  proof -
    show "of_nat i < (of_nat (i + length (x # xs)) :: u64)"
      using Cons.prems(3) by (intro of_nat_less_u64 [THEN iffD2]) simp_all
    have "of_nat i < (of_nat 100 :: u64)" using Cons.prems(3) by (intro of_nat_less_u64 [THEN iffD2]) simp_all
    then show "\<not> (100 :: u64) \<le> of_nat i" by simp
  qed
  have step: "sendIO_gather h (of_nat (i + length (x # xs))) (of_nat i) s buf =
      sendIO_gather h (of_nat (Suc i + length xs)) (of_nat (Suc i)) ?s1 (buf @ [wsabuf h x])"
    using i q1(1) p sd1(1)
    by (subst sendIO_gather.simps) (simp add: Let_def wsabuf_def add.commute)
  have "\<exists>q sd. sendIO_gather h (of_nat (Suc i + length xs)) (of_nat (Suc i)) ?s1 (buf @ [wsabuf h x]) =
      Some (?s1\<lparr>ss_sendBuffer := q, ss_sendedBuffer := sd\<rparr>, (buf @ [wsabuf h x]) @ map (wsabuf h) xs) \<and>
    lfq_rep q zs c \<and> rb_inv sd \<and> rb_contents sd = ptr_bytes ((ys @ [x]) @ xs) \<and> rb_cap sd = rb_cap (ss_sendedBuffer ?s1)"
    using Cons.prems q1(2) sd1 by (intro Cons.IH) simp_all
  then show ?case using step sd1(4) by simp
qed

text \<open>More than a hundred queued packets: the store past the end of the local array.\<close>

lemma gather_overflow:
  assumes "lfq_rep (ss_sendBuffer s) xs c" "valid_ptrs h xs" "i \<le> 100" "100 < i + length xs"
    "rb_inv (ss_sendedBuffer s)" "rb_contents (ss_sendedBuffer s) = ptr_bytes ys"
    "8 * (length ys + (100 - i)) \<le> rb_cap (ss_sendedBuffer s)" "n = i + length xs" "n < 2 ^ 31"
  shows "sendIO_gather h (of_nat n) (of_nat i) s buf = None"
  using assms
proof (induction xs arbitrary: s i buf ys)
  case (Cons x xs)
  obtain p where p: "ser_at h x = Some p" using Cons.prems by auto
  obtain q1 where q1: "lfq_pop (ss_sendBuffer s) = Some (q1, Some x)" "lfq_rep q1 xs c"
    using Cons.prems(1) lfq.pop_law [of _ x xs c] by auto
  have i: "of_nat i < (of_nat n :: u64)"
    using Cons.prems(8,9) by (intro of_nat_less_u64 [THEN iffD2]) simp_all
  show ?case
  proof (cases "i = 100")
    case True
    then show ?thesis using i q1(1) by (subst sendIO_gather.simps) (simp add: Let_def)
  next
    case False
    then have i100: "i < 100" using Cons.prems(3) by simp
    then have n100: "\<not> (100 :: u64) \<le> of_nat i"
      using of_nat_less_u64 [of i 100] by simp
    have room: "8 * length ys + 8 \<le> rb_cap (ss_sendedBuffer s)" using Cons.prems(7) i100 by simp
    obtain sd1 where sd1: "rb_push (ss_sendedBuffer s) (le_bytes 8 x) 8 = Some (sd1, 8)" "rb_inv sd1"
      "rb_contents sd1 = ptr_bytes (ys @ [x])" "rb_cap sd1 = rb_cap (ss_sendedBuffer s)"
      by (rule ring.push_ptr [OF Cons.prems(5,6) room])
    let ?s1 = "s\<lparr>ss_sendBuffer := q1, ss_sendedBuffer := sd1\<rparr>"
    have "sendIO_gather h (of_nat n) (of_nat i) s buf =
        sendIO_gather h (of_nat n) (of_nat (Suc i)) ?s1 (buf @ [wsabuf h x])"
      using i n100 q1(1) p sd1(1)
      by (subst sendIO_gather.simps) (simp add: Let_def wsabuf_def add.commute)
    also have "\<dots> = None"
      using Cons.prems i100 q1(2) sd1 by (intro Cons.IH [where ys = "ys @ [x]"]) simp_all
    finally show ?thesis .
  qed
qed simp


text \<open>The send half of a session: what the code between two sends relies on.\<close>

definition send_rep :: "session \<Rightarrow> u64 list \<Rightarrow> u64 list \<Rightarrow> bool" where
  "send_rep s qs ds \<longleftrightarrow> lfq_rep (ss_sendBuffer s) qs 255 \<and> rb_inv (ss_sendedBuffer s) \<and>
     rb_contents (ss_sendedBuffer s) = ptr_bytes ds \<and> rb_cap (ss_sendedBuffer s) = 2047"

lemma send_rep_upd [simp]:
  "send_rep (s\<lparr>ss_sendFlag := f\<rparr>) = send_rep s" "send_rep (s\<lparr>ss_IOcount := n\<rparr>) = send_rep s"
  "send_rep (s\<lparr>ss_cancelIOFlag := f\<rparr>) = send_rep s" "send_rep (s\<lparr>ss_inflight := l\<rparr>) = send_rep s"
  "send_rep (s\<lparr>ss_recvBuffer := r\<rparr>) = send_rep s"
  by (simp_all add: send_rep_def fun_eq_iff)

lemma send_size:
  assumes "send_rep s qs ds"
  shows "(scast (lfq_sizeFn (ss_sendBuffer s)) :: u64) = of_nat (length qs)" "length qs \<le> 255"
proof -
  have r: "lfq_rep (ss_sendBuffer s) qs 255" using assms by (simp add: send_rep_def)
  show l: "length qs \<le> 255" using lfq.bound_law [OF r] by simp
  have u: "unat (lfq_sizeFn (ss_sendBuffer s)) = length qs" by (rule lfq.size_nat [OF r])
  have "unat (scast (lfq_sizeFn (ss_sendBuffer s)) :: u64) = length qs"
    using unat_scast_small [of "lfq_sizeFn (ss_sendBuffer s)"] l u by simp
  then show "(scast (lfq_sizeFn (ss_sendBuffer s)) :: u64) = of_nat (length qs)" by (rule word_eq_of_nat)
qed

lemma sendIO_idle:
  assumes "hasCancelIOFlag s \<or> ss_sendFlag s = 1"
  shows "sendIO s w = Some (s, w, False)"
proof -
  have "ss_sendFlag s = 1 \<Longrightarrow> s\<lparr>ss_sendFlag := 1\<rparr> = s" by (cases s) simp
  then show ?thesis using assms unfolding sendIO_def Let_def by auto
qed

lemma sendIO_empty:
  assumes "\<not> hasCancelIOFlag s" "ss_sendFlag s \<noteq> 1" "send_rep s [] ds"
  shows "sendIO s w = Some (s\<lparr>ss_sendFlag := 0\<rparr>, w, False)"
  using assms send_size [of s "[]" ds] by (simp add: sendIO_def Let_def)

lemma sendIO_gathered:
  assumes s: "\<not> hasCancelIOFlag s" "ss_sendFlag s \<noteq> 1" "send_rep s qs []"
    and qs: "qs \<noteq> []" "length qs \<le> 100" "valid_ptrs w qs"
  obtains q sd where
    "sendIO_gather w (scast (lfq_sizeFn (ss_sendBuffer s))) 0 (fst (incrementIO (s\<lparr>ss_sendFlag := 1\<rparr>))) [] =
       Some (fst (incrementIO (s\<lparr>ss_sendFlag := 1\<rparr>))\<lparr>ss_sendBuffer := q, ss_sendedBuffer := sd\<rparr>, map (wsabuf w) qs)"
    "lfq_rep q [] 255" "rb_inv sd" "rb_contents sd = ptr_bytes qs" "rb_cap sd = 2047"
proof -
  let ?s = "fst (incrementIO (s\<lparr>ss_sendFlag := 1\<rparr>))"
  have S: "ss_sendBuffer ?s = ss_sendBuffer s" "ss_sendedBuffer ?s = ss_sendedBuffer s"
    by (simp_all add: incrementIO_def Let_def)
  have "\<exists>q sd. sendIO_gather w (of_nat (0 + length qs)) (of_nat 0) ?s [] =
      Some (?s\<lparr>ss_sendBuffer := q, ss_sendedBuffer := sd\<rparr>, [] @ map (wsabuf w) qs) \<and>
    lfq_rep q [] 255 \<and> rb_inv sd \<and> rb_contents sd = ptr_bytes ([] @ qs) \<and> rb_cap sd = rb_cap (ss_sendedBuffer ?s)"
    by (rule gather_spec) (use s(3) qs in \<open>simp_all add: S send_rep_def\<close>)
  then show thesis using that s(3) by (auto simp: S send_size [OF s(3)] send_rep_def)
qed

text \<open>The successful call: all queued packets go out, in order, in one \<open>WSASend\<close>.\<close>

lemma sendIO_spec:
  assumes s: "\<not> hasCancelIOFlag s" "ss_sendFlag s \<noteq> 1" "send_rep s qs []"
    and qs: "qs \<noteq> []" "length qs \<le> 100" "valid_ptrs w qs"
    and ans: "os_answers w = a # as" "a = 0 \<or> a = WSA_IO_PENDING" and owe: "length (ss_inflight s) < 2 ^ 30"
  obtains s' where
    "sendIO s w = Some (s', os_log (w\<lparr>os_answers := as\<rparr>) (WSASend (ss_socket s) (map (wsabuf w) qs)), False)"
    "send_rep s' [] qs" "ss_sendFlag s' = 1" "ss_IOcount s' = ss_IOcount s + 1"
    "ss_inflight s' = Send_io # ss_inflight s" "ss_cancelIOFlag s' = ss_cancelIOFlag s"
    "ss_recvBuffer s' = ss_recvBuffer s" "ss_ID s' = ss_ID s" "ss_socket s' = ss_socket s"
proof -
  obtain q sd where G: "sendIO_gather w (scast (lfq_sizeFn (ss_sendBuffer s))) 0 (fst (incrementIO (s\<lparr>ss_sendFlag := 1\<rparr>))) [] =
       Some (fst (incrementIO (s\<lparr>ss_sendFlag := 1\<rparr>))\<lparr>ss_sendBuffer := q, ss_sendedBuffer := sd\<rparr>, map (wsabuf w) qs)"
    "lfq_rep q [] 255" "rb_inv sd" "rb_contents sd = ptr_bytes qs" "rb_cap sd = 2047"
    by (rule sendIO_gathered [OF s qs])
  have z: "(scast (lfq_sizeFn (ss_sendBuffer s)) :: u64) \<noteq> 0"
  proof -
    have "unat (of_nat (length qs) :: u64) = length qs" using send_size(2) [OF s(3)] by (simp add: unat_of_nat)
    then show ?thesis using qs(1) by (auto simp: send_size(1) [OF s(3)])
  qed
  let ?s' = "fst (incrementIO (s\<lparr>ss_sendFlag := 1\<rparr>))\<lparr>ss_sendBuffer := q, ss_sendedBuffer := sd,
     ss_inflight := Send_io # ss_inflight s\<rparr>"
  have "sendIO s w = Some (?s', os_log (w\<lparr>os_answers := as\<rparr>) (WSASend (ss_socket s) (map (wsabuf w) qs)), False)"
    using s(1,2) z G(1) ans owe
    by (auto simp: sendIO_def Let_def os_io_def incrementIO_def hasCancelIOFlag_def iocp_owe_def)
  then show thesis
    by (rule that) (use G in \<open>simp_all add: send_rep_def incrementIO_def Let_def\<close>)
qed

text \<open>The failing call: the session is marked for cancellation, and deleted when this was the last user.\<close>

lemma sendIO_error:
  assumes s: "\<not> hasCancelIOFlag s" "ss_sendFlag s \<noteq> 1" "send_rep s qs []"
    and qs: "qs \<noteq> []" "length qs \<le> 100" "valid_ptrs w qs"
    and ans: "os_answers w = a # as" "a \<noteq> 0" "a \<noteq> WSA_IO_PENDING"
  obtains s' where
    "sendIO s w = Some (s', os_log (os_log (w\<lparr>os_answers := as\<rparr>) (WSASend (ss_socket s) (map (wsabuf w) qs)))
       (CancelIoEx (ss_socket s) Recv_io), ss_IOcount s = 0)"
    "send_rep s' [] qs" "ss_IOcount s' = ss_IOcount s" "ss_inflight s' = ss_inflight s" "hasCancelIOFlag s'"
    "ss_sendFlag s' = (if a = 10054 \<or> a = 10053 then 1 else 0)"
    "ss_recvBuffer s' = ss_recvBuffer s" "ss_ID s' = ss_ID s" "ss_socket s' = ss_socket s"
proof -
  obtain q sd where G: "sendIO_gather w (scast (lfq_sizeFn (ss_sendBuffer s))) 0 (fst (incrementIO (s\<lparr>ss_sendFlag := 1\<rparr>))) [] =
       Some (fst (incrementIO (s\<lparr>ss_sendFlag := 1\<rparr>))\<lparr>ss_sendBuffer := q, ss_sendedBuffer := sd\<rparr>, map (wsabuf w) qs)"
    "lfq_rep q [] 255" "rb_inv sd" "rb_contents sd = ptr_bytes qs" "rb_cap sd = 2047"
    by (rule sendIO_gathered [OF s qs])
  have z: "(scast (lfq_sizeFn (ss_sendBuffer s)) :: u64) \<noteq> 0"
  proof -
    have "unat (of_nat (length qs) :: u64) = length qs" using send_size(2) [OF s(3)] by (simp add: unat_of_nat)
    then show ?thesis using qs(1) by (auto simp: send_size(1) [OF s(3)])
  qed
  let ?s' = "s\<lparr>ss_sendFlag := if a = 10054 \<or> a = 10053 then 1 else 0, ss_cancelIOFlag := 1,
     ss_sendBuffer := q, ss_sendedBuffer := sd\<rparr>"
  have "sendIO s w = Some (?s', os_log (os_log (w\<lparr>os_answers := as\<rparr>) (WSASend (ss_socket s) (map (wsabuf w) qs)))
       (CancelIoEx (ss_socket s) Recv_io), ss_IOcount s = 0)"
    using s(1,2) z G(1) ans
    by (auto simp: sendIO_def Let_def os_io_def incrementIO_def decrementIO_def cancelIORegist_def)
  then show thesis
    by (rule that) (use G in \<open>simp_all add: send_rep_def hasCancelIOFlag_def\<close>)
qed

lemma sendIO_overflow:
  assumes s: "\<not> hasCancelIOFlag s" "ss_sendFlag s \<noteq> 1" "send_rep s qs []"
    and qs: "100 < length qs" "valid_ptrs w qs"
  shows "sendIO s w = None"
proof -
  let ?s = "fst (incrementIO (s\<lparr>ss_sendFlag := 1\<rparr>))"
  have S: "ss_sendBuffer ?s = ss_sendBuffer s" "ss_sendedBuffer ?s = ss_sendedBuffer s"
    by (simp_all add: incrementIO_def Let_def)
  have "sendIO_gather w (of_nat (length qs)) (of_nat 0) ?s [] = None"
    by (rule gather_overflow [where c = 255 and ys = "[]"])
       (use s(3) qs send_size(2) [OF s(3)] in \<open>simp_all add: S send_rep_def\<close>)
  moreover have "(of_nat (length qs) :: u64) \<noteq> 0"
  proof -
    have "unat (of_nat (length qs) :: u64) = length qs" using send_size(2) [OF s(3)] by (simp add: unat_of_nat)
    then show ?thesis using qs(1) by auto
  qed
  ultimately show ?thesis
    using s(1,2) by (simp add: sendIO_def Let_def send_size(1) [OF s(3)])
qed

text \<open>The completion: as many packets are released as the transferred bytes account for.\<close>

fun sum_sizes :: "'a pheap_scheme \<Rightarrow> u64 list \<Rightarrow> nat" where
  "sum_sizes h [] = 0"
| "sum_sizes h (p # ps) = unat (ptr_size h p) + sum_sizes h ps"

lemma sum_sizes_shape:
  assumes "ser_shape h' = ser_shape h"
  shows "sum_sizes h' ps = sum_sizes h ps"
  by (induction ps) (simp_all add: shape_size [OF assms])

lemma sended_loop_spec:
  assumes "rb_inv rb" "rb_contents rb = ptr_bytes ps" "valid_ptrs h ps"
    "unat t = sum_sizes h ps" "\<And>p. p \<in> set ps \<Longrightarrow> ptr_size h p \<noteq> 0"
  shows "\<exists>rb' h'. sended_loop t k pb rb h = Some (0, k + of_nat (length ps), rb', h') \<and>
    release_all h ps = Some h' \<and> rb_inv rb' \<and> rb_contents rb' = [] \<and> rb_cap rb' = rb_cap rb"
  using assms
proof (induction ps arbitrary: rb h pb t k)
  case Nil
  then have "t = 0" by (simp add: unat_eq_zero)
  then show ?case using Nil.prems by (subst sended_loop.simps) simp
next
  case (Cons p ps)
  obtain s where s: "ser_at h p = Some s" using Cons.prems by auto
  obtain h1 where h1: "ser_release h p = Some h1" using ser_release_valid [OF s] by blast
  note sh = ser_release_shape [OF h1]
  obtain rb1 where r: "ptr_pop pb rb = Some (rb1, Some p)" "rb_inv rb1"
    "rb_contents rb1 = ptr_bytes ps" "rb_cap rb1 = rb_cap rb"
    by (rule ptr_pop_cons [OF Cons.prems(1,2)])
  have ps: "ptr_size h p = ucast (sz_size s)" using s by (simp add: ptr_size_def)
  have nz: "ptr_size h p \<noteq> 0" using Cons.prems(5) by simp
  have t: "unat t = unat (ptr_size h p) + sum_sizes h ps" using Cons.prems(4) by simp
  have t0: "t > 0" using t nz by (auto simp: word_greater_zero_iff unat_eq_zero)
  have "ptr_size h p \<le> t" using t by (simp add: word_le_nat_alt)
  then have "unat (t - ptr_size h p) = sum_sizes h ps" using t by (simp add: unat_sub)
  then have t1: "unat (t - ptr_size h p) = sum_sizes h1 ps" by (simp only: sum_sizes_shape [OF sh])
  have v: "valid_ptrs h1 ps" using shape_valid [OF sh] Cons.prems(3) by simp
  have nz1: "ptr_size h1 q \<noteq> 0" if "q \<in> set ps" for q
    using Cons.prems(5) that by (simp add: shape_size [OF sh])
  have "sended_loop t k pb rb h = sended_loop (t - ptr_size h p) (k + 1) (Some p) rb1 h1"
    using t0 r(1) s h1 ps by (subst sended_loop.simps) simp
  moreover obtain rb' h' where "sended_loop (t - ptr_size h p) (k + 1) (Some p) rb1 h1 =
      Some (0, k + 1 + of_nat (length ps), rb', h')" "release_all h1 ps = Some h'" "rb_inv rb'"
      "rb_contents rb' = []" "rb_cap rb' = rb_cap rb1"
    using Cons.IH [OF r(2,3) v t1 nz1] by blast
  ultimately show ?case using h1 r(4) by (simp add: add.assoc add.commute)
qed

lemma sended_spec:
  assumes "send_rep s qs ps" "valid_ptrs h ps" "ps \<noteq> []"
    "unat t = sum_sizes h ps" "\<And>p. p \<in> set ps \<Longrightarrow> ptr_size h p \<noteq> 0"
  obtains s' h' where "sended s h t = Some (s', h', 0, of_nat (length ps))" "release_all h ps = Some h'"
    "send_rep s' qs []" "s' = s\<lparr>ss_sendedBuffer := ss_sendedBuffer s'\<rparr>"
proof -
  note R = assms(1) [unfolded send_rep_def]
  obtain rb' h' where L: "sended_loop t 0 None (ss_sendedBuffer s) h = Some (0, 0 + of_nat (length ps), rb', h')"
    "release_all h ps = Some h'" "rb_inv rb'" "rb_contents rb' = []" "rb_cap rb' = rb_cap (ss_sendedBuffer s)"
    using sended_loop_spec [of "ss_sendedBuffer s" ps h t 0 None] R assms(2,4,5) by blast
  obtain p ps' where "ps = p # ps'" using assms(3) by (cases ps) auto
  then have "unat t \<noteq> 0" using assms(4,5) by (auto simp: unat_eq_zero)
  then have t: "\<not> t \<le> 0" by (auto simp: unat_eq_zero)
  show thesis
    by (rule that [of "s\<lparr>ss_sendedBuffer := rb'\<rparr>" h']) (use t L R in \<open>simp_all add: sended_def Let_def send_rep_def\<close>)
qed

lemma sended_zero: "sended s h 0 = Some (s, h, 0, -1)"
  by (simp add: sended_def)

text \<open>A completion for more bytes than the recorded packets hold reads the pointer variable
  without a value when nothing is recorded.\<close>

lemma sended_nothing:
  assumes "send_rep s qs []" "t \<noteq> 0"
  shows "sended s h t = None"
proof -
  have "ptr_pop None (ss_sendedBuffer s) = None \<or> (\<exists>rb. ptr_pop None (ss_sendedBuffer s) = Some (rb, None))"
    using ring.pop_law [of "ss_sendedBuffer s" 8] assms(1) by (auto simp: ptr_pop_def send_rep_def)
  then have "sended_loop t 0 None (ss_sendedBuffer s) h = None"
    using assms(2) by (subst sended_loop.simps) (auto simp: word_greater_zero_iff)
  then show ?thesis using assms(2) by (simp add: sended_def)
qed

end
