(* ===== verification/Session_Recv.thy ===== *)
theory Session_Recv
  imports Session_Facts
begin

text \<open>
  The receive path. \<open>parse_frames\<close> is the abstract specification of the framing: what packets
  a byte stream holds, however it was cut into pieces on the way. \<open>recvedPacket\<close> implements
  one step of it on the receive buffer.
\<close>

section \<open>The framing of a byte stream\<close>

definition frame_size :: "byte list \<Rightarrow> u16" where
  "frame_size bs = nh_size (nh_of_bytes (take 5 bs))"

text \<open>The packets at the front of \<open>bs\<close> and the bytes left over; no result when a header
  announces a negative size.\<close>

function parse_frames :: "byte list \<Rightarrow> (byte list list \<times> byte list) option" where
  "parse_frames bs =
     (if length bs < 5 then Some ([], bs)
      else if 2 ^ 15 \<le> unat (frame_size bs) then None
      else let n = 5 + unat (frame_size bs) in
        if length bs < n then Some ([], bs)
        else map_option (\<lambda>(fs, r). (take n bs # fs, r)) (parse_frames (drop n bs)))"
  by pat_completeness auto

termination by (relation "measure length") auto

declare parse_frames.simps [simp del]

lemma parse_short: "length bs < 5 \<Longrightarrow> parse_frames bs = Some ([], bs)"
  by (simp add: parse_frames.simps)

lemma frame_size_append: "5 \<le> length bs \<Longrightarrow> frame_size (bs @ cs) = frame_size bs"
  by (simp add: frame_size_def)

text \<open>The packets do not depend on how the stream is cut.\<close>

lemma parse_append:
  "parse_frames (bs @ cs) =
     (case parse_frames bs of None \<Rightarrow> None
      | Some (fs, r) \<Rightarrow> map_option (\<lambda>(gs, r'). (fs @ gs, r')) (parse_frames (r @ cs)))"
proof (induction bs rule: parse_frames.induct)
  case (1 bs)
  let ?n = "5 + unat (frame_size bs)"
  show ?case
  proof (cases "length bs < 5 \<or> 2 ^ 15 \<le> unat (frame_size bs) \<or> length bs < ?n")
    case True
    then consider "length bs < 5" | "5 \<le> length bs" "2 ^ 15 \<le> unat (frame_size bs)"
      | "5 \<le> length bs" "unat (frame_size bs) < 2 ^ 15" "length bs < ?n" by linarith
    then show ?thesis
    proof cases
      case 1
      then have "parse_frames bs = Some ([], bs)" by (rule parse_short)
      then show ?thesis by (simp add: case_prod_unfold option.map_ident)
    next
      case 2
      then show ?thesis by (simp add: parse_frames.simps [of bs] parse_frames.simps [of "bs @ cs"] frame_size_append)
    next
      case 3
      then have "parse_frames bs = Some ([], bs)" by (simp add: parse_frames.simps [of bs] Let_def)
      then show ?thesis by (simp add: case_prod_unfold option.map_ident)
    qed
  next
    case False
    then have f: "5 \<le> length bs" "unat (frame_size bs) < 2 ^ 15" "?n \<le> length bs" by simp_all
    have IH: "parse_frames (drop ?n bs @ cs) =
     (case parse_frames (drop ?n bs) of None \<Rightarrow> None
      | Some (fs, r) \<Rightarrow> map_option (\<lambda>(gs, r'). (fs @ gs, r')) (parse_frames (r @ cs)))"
      by (rule 1 [OF _ _ refl]) (use f in auto)
    have l: "parse_frames (bs @ cs) = map_option (\<lambda>(fs, r). (take ?n bs # fs, r)) (parse_frames (drop ?n bs @ cs))"
      using f by (simp add: parse_frames.simps [of "bs @ cs"] frame_size_append Let_def)
    have r: "parse_frames bs = map_option (\<lambda>(fs, r). (take ?n bs # fs, r)) (parse_frames (drop ?n bs))"
      using f by (simp add: parse_frames.simps [of bs] Let_def)
    show ?thesis
      unfolding l r IH by (auto simp: option.map_comp o_def case_prod_unfold split: option.split)
  qed
qed

text \<open>A packet as the sender builds it, followed by anything, is one frame.\<close>

lemma parse_cons:
  assumes "length bs = 5 + n" "n < 2 ^ 15" "frame_size bs = of_nat n"
  shows "parse_frames (bs @ cs) = map_option (\<lambda>(fs, r). (bs # fs, r)) (parse_frames cs)"
proof -
  have u: "unat (of_nat n :: u16) = n" using assms(2) by (simp add: unat_of_nat)
  have "frame_size (bs @ cs) = of_nat n" using assms by (simp add: frame_size_append)
  then show ?thesis using assms u by (simp add: parse_frames.simps [of "bs @ cs"] Let_def)
qed

section \<open>\<open>recvIO\<close> and \<open>recved\<close>\<close>

text \<open>The receive buffer holds \<open>bs\<close>.\<close>

definition recv_rep :: "session \<Rightarrow> byte list \<Rightarrow> bool" where
  "recv_rep s bs \<longleftrightarrow> rb_inv (ss_recvBuffer s) \<and> rb_contents (ss_recvBuffer s) = bs \<and>
     rb_cap (ss_recvBuffer s) = 255"

lemma recv_rep_upd [simp]:
  "recv_rep (s\<lparr>ss_sendFlag := f\<rparr>) = recv_rep s" "recv_rep (s\<lparr>ss_IOcount := n\<rparr>) = recv_rep s"
  "recv_rep (s\<lparr>ss_cancelIOFlag := f\<rparr>) = recv_rep s" "recv_rep (s\<lparr>ss_inflight := l\<rparr>) = recv_rep s"
  by (simp_all add: recv_rep_def fun_eq_iff)

lemma recv_repD:
  assumes "recv_rep s bs"
  shows "rb_inv (ss_recvBuffer s)" "unat (rb_size (ss_recvBuffer s)) = length bs" "length bs \<le> 255"
    "unat (rb_freeSize (ss_recvBuffer s)) = 255 - length bs"
proof -
  note R = assms [unfolded recv_rep_def]
  show i: "rb_inv (ss_recvBuffer s)" using R by simp
  show l: "unat (rb_size (ss_recvBuffer s)) = length bs" using R length_rb_contents [of "ss_recvBuffer s"] by simp
  show "length bs \<le> 255" using rb_size_le [OF i] R l by simp
  have "rb_cap (ss_recvBuffer s) = 255" using R by simp
  then show "unat (rb_freeSize (ss_recvBuffer s)) = 255 - length bs"
    using rb_freeSize_of_nat [OF i] l by (simp only: rb_freeSize_eq [OF i] rb_size_eq)
qed

text \<open>The buffers given to \<open>WSARecv\<close> are the free space of the ring.\<close>

lemma recvIO_buffers_total:
  assumes "recv_rep s bs"
  shows "sum_list (map (\<lambda>(a, n). unat n) (recvIO_buffers (ss_recvBuffer s))) = 255 - length bs"
    and "\<forall>(a, n) \<in> set (recvIO_buffers (ss_recvBuffer s)). unat a + unat n \<le> 256"
proof -
  let ?rb = "ss_recvBuffer s" let ?d = "rb_DirectEnqueueSize ?rb" and ?f = "rb_freeSize ?rb"
  note R = assms [unfolded recv_rep_def] and D = recv_repD [OF assms]
  have c: "rb_cap ?rb = 255" using R by simp
  have b: "unat (rb_bufferSize ?rb) = 256" using c rb_invD(1) [OF D(1)] by linarith
  define i where "i = (unat (rb_tailPtr ?rb) + 1) mod unat (rb_bufferSize ?rb)"
  note T = rb_tail_facts [OF D(1), folded i_def, unfolded b D(2)]
  have hd: "unat (rb_headPtr ?rb) < 256" using rb_invD(4) [OF D(1)] b by simp
  have df: "unat ?d \<le> unat ?f" "unat (rb_tail ?rb) + unat ?d \<le> 256"
    "unat ?d < unat ?f \<Longrightarrow> unat ?f - unat ?d \<le> 256"
    using T D(4) hd by (auto split: if_splits)
  have ud: "unat (ucast ?d :: u32) = unat ?d" "(ucast (ucast ?d :: u32) :: u64) = ?d"
  proof -
    show u: "unat (ucast ?d :: u32) = unat ?d"
      using df(2) by (simp add: unsigned_ucast_eq take_bit_nat_eq_self)
    then show "(ucast (ucast ?d :: u32) :: u64) = ?d"
      by (simp add: word_unat_eq_iff unat_ucast_32_64)
  qed
  have uf: "unat (?f - ?d) = unat ?f - unat ?d" using df(1) by (simp add: unat_sub word_le_nat_alt)
  have uf32: "unat (ucast (?f - ?d) :: u32) = unat ?f - unat ?d"
    using D(4) uf by (simp add: unsigned_ucast_eq take_bit_nat_eq_self)
  show "sum_list (map (\<lambda>(a, n). unat n) (recvIO_buffers ?rb)) = 255 - length bs"
    using df(1) uf uf32 ud D(4)
    by (auto simp: recvIO_buffers_def Let_def word_greater_zero_iff unat_eq_zero word_le_nat_alt)
  show "\<forall>(a, n) \<in> set (recvIO_buffers ?rb). unat a + unat n \<le> 256"
    using df uf uf32 ud D(4) by (auto simp: recvIO_buffers_def Let_def rb_bufferPtr_def)
qed

lemma recvIO_cancelled: "hasCancelIOFlag s \<Longrightarrow> recvIO s w = Some (s, w, False)"
  by (simp add: recvIO_def)

lemma recvIO_spec:
  assumes "\<not> hasCancelIOFlag s" "os_answers w = a # as" "length (ss_inflight s) < 2 ^ 30"
  defines "call \<equiv> WSARecv (ss_socket s) (recvIO_buffers (ss_recvBuffer s))"
  shows "recvIO s w =
    Some (if a = 0 \<or> a = WSA_IO_PENDING
          then (s\<lparr>ss_IOcount := ss_IOcount s + 1, ss_inflight := Recv_io # ss_inflight s\<rparr>,
                os_log (w\<lparr>os_answers := as\<rparr>) call, False)
          else (s\<lparr>ss_cancelIOFlag := 1\<rparr>,
                os_log (os_log (w\<lparr>os_answers := as\<rparr>) call) (CancelIoEx (ss_socket s) Send_io), ss_IOcount s = 0))"
  using assms
  by (auto simp: recvIO_def Let_def os_io_def incrementIO_def decrementIO_def cancelIORegist_def hasCancelIOFlag_def iocp_owe_def)

lemma ucast_32_64_nat: "n < 2 ^ 32 \<Longrightarrow> unat (ucast (of_nat n :: u32) :: u64) = n"
  by (simp add: unat_ucast_32_64 unat_of_nat)

lemma recv_arrive_recved:
  assumes "recv_rep s bs" "data \<noteq> []" "length bs + length data < 255"
  obtains s1 s2 where "recv_arrive s data = Some s1" "recved s1 (of_nat (length data)) = (s2, True)"
    "recv_rep s2 (bs @ data)" "s2 = s\<lparr>ss_recvBuffer := ss_recvBuffer s2\<rparr>"
proof -
  note R = assms(1) [unfolded recv_rep_def] and D = recv_repD [OF assms(1)]
  have "length data \<le> unat (rb_freeSize (ss_recvBuffer s))" using assms(3) D(4) by simp
  from rb_fill_MoveRear [OF D(1) this] obtain rb1 rb2 where
    1: "rb_fill (ss_recvBuffer s) data = Some rb1" "rb_inv rb1" "rb_contents rb1 = rb_contents (ss_recvBuffer s)" and
    2: "rb_MoveRear rb1 (of_nat (length data)) = (rb2, of_nat (length data))" "rb_inv rb2"
      "rb_contents rb2 = rb_contents (ss_recvBuffer s) @ data" "rb_bufferSize rb2 = rb_bufferSize (ss_recvBuffer s)"
    and sz: "rb_size rb1 = rb_size (ss_recvBuffer s)"
    by blast
  have bs: "rb_bufferSize rb1 = rb_bufferSize (ss_recvBuffer s)"
    using 1(1) by (auto simp: rb_fill_def Let_def)
  have "recv_rep (s\<lparr>ss_recvBuffer := rb1\<rparr>) bs" using R 1 bs by (simp add: recv_rep_def)
  from recv_repD(4) [OF this] have f: "unat (rb_freeSize rb1) = 255 - length bs" by simp
  have "\<not> rb_freeSize rb1 \<le> ucast (of_nat (length data) :: u32)"
    using f assms(3) ucast_32_64_nat [of "length data"] by (simp add: word_le_nat_alt)
  moreover have "(of_nat (length data) :: u32) \<noteq> 0"
  proof
    assume "(of_nat (length data) :: u32) = 0"
    then have "unat (of_nat (length data) :: u32) = 0" by simp
    then show False using assms(2,3) by (simp add: unat_of_nat)
  qed
  ultimately have rd: "recved (s\<lparr>ss_recvBuffer := rb1\<rparr>) (of_nat (length data)) = (s\<lparr>ss_recvBuffer := rb2\<rparr>, True)"
    using 2(1) by (simp add: recved_def)
  show thesis
  proof (rule that)
    show "recv_arrive s data = Some (s\<lparr>ss_recvBuffer := rb1\<rparr>)" by (simp add: recv_arrive_def 1)
    show "recv_rep (s\<lparr>ss_recvBuffer := rb2\<rparr>) (bs @ data)" using R 2 by (simp add: recv_rep_def)
  qed (use rd in simp_all)
qed

text \<open>A receive that fills the buffer is refused, with the bytes that arrived.\<close>

lemma recved_full:
  assumes "recv_rep s bs" "unat t = 255 - length bs"
  shows "recved s t = (s, False)"
  using recv_repD(4) [OF assms(1)] assms(2)
  by (simp add: recved_def word_le_nat_alt unat_ucast_32_64)

section \<open>\<open>recvedPacket\<close>\<close>

lemma scast_16_64: "unat (x::u16) < 2 ^ 15 \<Longrightarrow> unat (scast x :: u64) = unat x"
  using sint_small_16 [of x] by (simp add: scast_eq unsigned_ucast_eq take_bit_nat_eq_self_iff)

lemma scast_16_32: "unat (x::u16) < 2 ^ 15 \<Longrightarrow> unat (scast x :: u32) = unat x"
  using sint_small_16 [of x] by (simp add: scast_eq unsigned_ucast_eq take_bit_nat_eq_self_iff)

lemma frame_words:
  assumes "unat (x::u16) < 2 ^ 15"
  shows "unat (5 + scast x :: u64) = 5 + unat x" "(scast x :: u32) = of_nat (unat x)"
proof -
  show "unat (5 + scast x :: u64) = 5 + unat x"
    using scast_16_64 [OF assms] assms by (subst unat_add_small) simp_all
  show "(scast x :: u32) = of_nat (unat x)"
    by (rule word_eq_of_nat) (rule scast_16_32 [OF assms])
qed

lemma take_contents_frame:
  assumes "recv_rep s bs" "5 \<le> length bs"
  shows "rb_front (ss_recvBuffer s) 5 = Some (take 5 bs)" "5 \<le> rb_size (ss_recvBuffer s)"
    "length (take 5 bs) = 5"
  using assms rb_front_spec [of "ss_recvBuffer s" 5] recv_repD(2) [OF assms(1)]
  by (simp_all add: recv_rep_def word_le_nat_alt)

lemma recvedPacket_short:
  assumes "recv_rep s bs" "length bs < 5"
  shows "recvedPacket s h p = Some (s, h, False)"
proof -
  have "\<not> 5 \<le> rb_size (ss_recvBuffer s)"
    using recv_repD(2) [OF assms(1)] assms(2) by (simp add: word_le_nat_alt)
  then show ?thesis by (simp add: recvedPacket_def)
qed

lemma recvedPacket_incomplete:
  assumes "recv_rep s bs" "5 \<le> length bs" "unat (frame_size bs) < 2 ^ 15" "length bs < 5 + unat (frame_size bs)"
  shows "recvedPacket s h p = Some (s, h, False)"
proof -
  have "\<not> 5 + scast (frame_size bs) \<le> rb_size (ss_recvBuffer s)"
    using recv_repD(2) [OF assms(1)] assms(4) frame_words(1) [OF assms(3)] by (simp add: word_le_nat_alt)
  then show ?thesis
    using take_contents_frame [OF assms(1,2)] by (simp add: recvedPacket_def Let_def frame_size_def)
qed

text \<open>A block as \<open>packet\<close> and the worker prepare it for a packet of \<open>n\<close> bytes.\<close>

definition fresh_for :: "serializer \<Rightarrow> nat \<Rightarrow> bool" where
  "fresh_for ser n \<longleftrightarrow> sz_inv ser \<and> sz_ho ser = 5 \<and> sz_to ser = 5 \<and> n \<le> unat (sz_bufferSize ser)"

lemma receive_into:
  assumes f: "fresh_for ser (5 + n)" and ys: "length ys = 5 + n" and n: "n < 2 ^ 15"
  obtains ser' where
    "do { ser1 \<leftarrow> sz_write ser (sz_getBufferPtr ser) ys;
          Some (fst (sz_moveFront (fst (sz_moveRear ser1 (of_nat n))) (-5))) } = Some ser'"
    "sz_inv ser'" "sz_ho ser' = 0" "sz_to ser' = 5 + n" "sz_data ser' = ys"
    "sz_referenceCounter ser' = sz_referenceCounter ser" "sz_bufferSize ser' = sz_bufferSize ser"
    "take (5 + n) (sz_mem ser') = ys" "sz_bufferPtr ser' = sz_bufferPtr ser"
proof -
  note F = f [unfolded fresh_for_def]
  note I = sz_invD [of ser]
  let ?s1 = "ser\<lparr>sz_mem := ys @ drop (5 + n) (sz_mem ser)\<rparr>"
  have len: "5 + n \<le> length (sz_mem ser)" using F I(3) by simp
  have w: "sz_write ser (sz_getBufferPtr ser) ys = Some ?s1"
    using ys len by (simp add: sz_write_def sz_getBufferPtr_def sz_off_def mem_simps)
  have i1: "sz_inv ?s1" using F len ys by (simp add: sz_inv_def)
  have "5 + n \<le> unat (sz_bufferSize ser)" "sz_to ser = 5" using F by blast+
  then have room: "n \<le> sz_room ?s1" by simp
  note M = sz_moveRear_exact [OF i1 room]
  let ?s2 = "?s1\<lparr>sz_tailPtr := sz_tailPtr ser + of_nat n\<rparr>"
  have un: "unat (of_nat n :: u64) = n" using n by (simp add: unat_of_nat)
  have t2: "sz_to ?s2 = 5 + n" "sz_ho ?s2 = 5"
    using sz_off_add [of ser "sz_tailPtr ser" "of_nat n"] F n un by simp_all
  have i2: "sz_inv ?s2" using i1 F t2 by (simp add: sz_inv_def)
  have h2: "5 \<le> sz_ho ?s2" using t2 by simp
  note B = sz_moveFront_back [OF i2 h2]
  let ?s3 = "?s2\<lparr>sz_headPtr := sz_headPtr ser - 5\<rparr>"
  have o3: "sz_ho ?s3 = 0" "sz_to ?s3 = 5 + n" using B(2) t2 by simp_all
  have i3: "sz_inv ?s3" using i2 o3 by (simp add: sz_inv_def)
  show thesis
  proof (rule that)
    show "do { ser1 \<leftarrow> sz_write ser (sz_getBufferPtr ser) ys;
          Some (fst (sz_moveFront (fst (sz_moveRear ser1 (of_nat n))) (-5))) } = Some ?s3"
      using M B(1) by (simp add: w)
    show "sz_data ?s3 = ys" unfolding sz_data_def o3 using ys by simp
  qed (use i3 o3 ys in simp_all)
qed

lemma recvedPacket_frame:
  assumes r: "recv_rep s bs" and f: "5 \<le> length bs" "unat (frame_size bs) < 2 ^ 15"
    and c: "5 + unat (frame_size bs) \<le> length bs" (is "?n \<le> _")
    and ser: "ser_at h p = Some ser" "fresh_for ser (5 + unat (frame_size bs))"
  obtains rb ser' where "recvedPacket s h p = Some (s\<lparr>ss_recvBuffer := rb\<rparr>, ser_put h p ser', True)"
    "recv_rep (s\<lparr>ss_recvBuffer := rb\<rparr>) (drop ?n bs)"
    "sz_inv ser'" "sz_ho ser' = 0" "sz_to ser' = ?n" "sz_data ser' = take ?n bs"
    "sz_referenceCounter ser' = sz_referenceCounter ser" "sz_bufferSize ser' = sz_bufferSize ser"
    "take ?n (sz_mem ser') = take ?n bs"
proof -
  let ?k = "unat (frame_size bs)"
  note D = recv_repD [OF r] and T = take_contents_frame [OF r f(1)] and W = frame_words [OF f(2)]
  have le: "5 + scast (frame_size bs) \<le> rb_size (ss_recvBuffer s)"
    using c D(2) W(1) by (simp add: word_le_nat_alt)
  obtain rb where rb: "rb_pop (ss_recvBuffer s) (5 + scast (frame_size bs)) = Some (rb, take ?n bs)"
    "rb_inv rb" "rb_contents rb = drop ?n bs" "rb_cap rb = rb_cap (ss_recvBuffer s)"
    using ring.pop_law [OF D(1), of "5 + scast (frame_size bs)"] r W(1) by (auto simp: recv_rep_def)
  have l: "length (take ?n bs) = 5 + ?k" using c by simp
  obtain ser' where ser':
    "do { ser1 \<leftarrow> sz_write ser (sz_getBufferPtr ser) (take ?n bs);
          Some (fst (sz_moveFront (fst (sz_moveRear ser1 (of_nat ?k))) (-5))) } = Some ser'"
    "sz_inv ser'" "sz_ho ser' = 0" "sz_to ser' = 5 + ?k" "sz_data ser' = take ?n bs"
    "sz_referenceCounter ser' = sz_referenceCounter ser" "sz_bufferSize ser' = sz_bufferSize ser"
    "take (5 + ?k) (sz_mem ser') = take ?n bs"
    by (rule receive_into [OF ser(2) l f(2)])
  from ser'(1) obtain ser1 where w: "sz_write ser (sz_getBufferPtr ser) (take ?n bs) = Some ser1"
    "fst (sz_moveFront (fst (sz_moveRear ser1 (of_nat ?k))) (-5)) = ser'"
    by (auto split: bind_splits)
  have "recvedPacket s h p = Some (s\<lparr>ss_recvBuffer := rb\<rparr>, ser_put h p ser', True)"
    using T le rb(1) ser(1) w W(2) by (simp add: recvedPacket_def Let_def frame_size_def [symmetric])
  moreover have "recv_rep (s\<lparr>ss_recvBuffer := rb\<rparr>) (drop ?n bs)" using rb r by (simp add: recv_rep_def)
  ultimately show thesis using that ser' by blast
qed

end
