(* ===== verification/Network_Facts.thy ===== *)
theory Network_Facts
  imports Network Session_Recv
begin

text \<open>
  The life of a session slot. The invariant \<open>net_inv refs\<close> ties the I/O counter of every
  slot to the completions that the kernel owes it, to the references \<open>refs\<close> that running code
  holds, and to the stack of free slots: as long as a completion is owed or a reference is
  held, the slot is not on the stack and its socket is not closed. The counter may be larger by one for a
  receive and by one for a send, because two error paths of the worker leave the loop without
  giving their reference back.
\<close>

section \<open>What the session operations leave alone\<close>

lemma ser_release_more: "ser_release h p = Some h' \<Longrightarrow> pheap.more h' = pheap.more h"
  by (auto simp: ser_release_def ser_dec_def ser_call_def ser_put_def serializerFree_def pool_Free_def
      sz_decRef_def Let_def split: bind_splits if_splits)

lemma clear_send_more:
  assumes "clear_send q h pb = Some r"
  shows "pheap.more (fst (snd r)) = pheap.more h"
  by (rule clear_send.raw_induct [OF _ assms, where P = "\<lambda>q h pb r. pheap.more (fst (snd r)) = pheap.more h"])
     (auto split: bind_splits if_splits dest!: ser_release_more)

lemma clear_sended_more:
  assumes "clear_sended rb h pb = Some r"
  shows "pheap.more (snd r) = pheap.more h"
  by (rule clear_sended.raw_induct [OF _ assms, where P = "\<lambda>rb h pb r. pheap.more (snd r) = pheap.more h"])
     (auto split: bind_splits if_splits dest!: ser_release_more)

lemma bufferClear_frame:
  assumes "bufferClear s h = Some (s', h')"
  shows "pheap.more h' = pheap.more h"
    "s' = s\<lparr>ss_sendBuffer := ss_sendBuffer s', ss_sendedBuffer := ss_sendedBuffer s', ss_recvBuffer := ss_recvBuffer s'\<rparr>"
  using assms
  by (auto simp: bufferClear_def split: bind_splits dest!: clear_send_more clear_sended_more)

lemma sended_loop_more:
  assumes "sended_loop t k pb rb h = Some r"
  shows "pheap.more (snd (snd (snd r))) = pheap.more h"
  by (rule sended_loop.raw_induct [OF _ assms, where P = "\<lambda>t k pb rb h r. pheap.more (snd (snd (snd r))) = pheap.more h"])
     (auto split: bind_splits if_splits dest!: ser_release_more)

lemma sended_frame:
  assumes "sended s h t = Some (s', h', t', n)"
  shows "pheap.more h' = pheap.more h" "s' = s\<lparr>ss_sendedBuffer := ss_sendedBuffer s'\<rparr>"
  using assms
  by (auto simp: sended_def Let_def split: bind_splits if_splits dest!: sended_loop_more)

lemma gather_frame:
  assumes "sendIO_gather h n i s b = Some r"
  shows "fst r = s\<lparr>ss_sendBuffer := ss_sendBuffer (fst r), ss_sendedBuffer := ss_sendedBuffer (fst r)\<rparr>"
proof -
  have "\<forall>q d. (fst r)\<lparr>ss_sendBuffer := q, ss_sendedBuffer := d\<rparr> = s\<lparr>ss_sendBuffer := q, ss_sendedBuffer := d\<rparr>"
    by (rule sendIO_gather.raw_induct [OF _ assms, where P = "\<lambda>h n i s b r. \<forall>q d.
        (fst r)\<lparr>ss_sendBuffer := q, ss_sendedBuffer := d\<rparr> = s\<lparr>ss_sendBuffer := q, ss_sendedBuffer := d\<rparr>"])
       (auto simp: Let_def split: bind_splits if_splits)
  then have "(fst r)\<lparr>ss_sendBuffer := ss_sendBuffer (fst r), ss_sendedBuffer := ss_sendedBuffer (fst r)\<rparr> =
      s\<lparr>ss_sendBuffer := ss_sendBuffer (fst r), ss_sendedBuffer := ss_sendedBuffer (fst r)\<rparr>" by blast
  then show ?thesis by simp
qed

text \<open>What a session looks like from outside: its counter, what is owed, its flag, its identity.\<close>

lemma sendIO_profile:
  assumes "sendIO s w = Some (s', w', del)"
  shows "os.more w' = os.more w" "ss_ID s' = ss_ID s" "ss_recvBuffer s' = ss_recvBuffer s"
    and "ss_IOcount s' = ss_IOcount s \<and> ss_inflight s' = ss_inflight s \<and> (del \<longrightarrow> ss_IOcount s = 0) \<and>
        (ss_sendFlag s = 1 \<longrightarrow> ss_sendFlag s' = 1) \<or>
      ss_IOcount s' = ss_IOcount s + 1 \<and> ss_inflight s' = Send_io # ss_inflight s \<and> \<not> del \<and>
        ss_sendFlag s \<noteq> 1 \<and> ss_sendFlag s' = 1 \<and> length (ss_inflight s) < 2 ^ 30"
proof -
  have "os.more w' = os.more w \<and> ss_ID s' = ss_ID s \<and> ss_recvBuffer s' = ss_recvBuffer s \<and>
     (ss_IOcount s' = ss_IOcount s \<and> ss_inflight s' = ss_inflight s \<and> (del \<longrightarrow> ss_IOcount s = 0) \<and>
        (ss_sendFlag s = 1 \<longrightarrow> ss_sendFlag s' = 1) \<or>
      ss_IOcount s' = ss_IOcount s + 1 \<and> ss_inflight s' = Send_io # ss_inflight s \<and> \<not> del \<and>
        ss_sendFlag s \<noteq> 1 \<and> ss_sendFlag s' = 1 \<and> length (ss_inflight s) < 2 ^ 30)"
  proof (cases "hasCancelIOFlag s \<or> ss_sendFlag s = 1")
    case True
    then show ?thesis using sendIO_idle [OF True, of w] assms by auto
  next
    case False
    let ?s0 = "s\<lparr>ss_sendFlag := 1\<rparr>"
    let ?n = "scast (lfq_sizeFn (ss_sendBuffer s)) :: u64"
    show ?thesis
    proof (cases "?n = 0")
      case True
      then show ?thesis using False assms by (auto simp: sendIO_def Let_def)
    next
      case n: False
      obtain g where g: "sendIO_gather w ?n 0 (fst (incrementIO ?s0)) [] = Some g"
        using False n assms by (auto simp: sendIO_def Let_def split: bind_splits)
      obtain s1 b where gs: "g = (s1, b)" by (cases g)
      have s1: "s1 = (fst (incrementIO ?s0))\<lparr>ss_sendBuffer := ss_sendBuffer s1, ss_sendedBuffer := ss_sendedBuffer s1\<rparr>"
        using gather_frame [OF g] by (simp add: gs)
      have f: "ss_IOcount s1 = ss_IOcount s + 1" "ss_inflight s1 = ss_inflight s" "ss_sendFlag s1 = 1"
        "ss_ID s1 = ss_ID s" "ss_recvBuffer s1 = ss_recvBuffer s" "ss_cancelIOFlag s1 = ss_cancelIOFlag s"
        by (subst s1, simp add: incrementIO_def Let_def)+
      show ?thesis
        using False n assms f g gs
        by (auto simp: sendIO_def Let_def os_io_def os_log_def decrementIO_def cancelIORegist_def iocp_owe_def
            split: bind_splits if_splits list.splits)
    qed
  qed
  then show "os.more w' = os.more w" "ss_ID s' = ss_ID s" "ss_recvBuffer s' = ss_recvBuffer s"
    "ss_IOcount s' = ss_IOcount s \<and> ss_inflight s' = ss_inflight s \<and> (del \<longrightarrow> ss_IOcount s = 0) \<and>
        (ss_sendFlag s = 1 \<longrightarrow> ss_sendFlag s' = 1) \<or>
      ss_IOcount s' = ss_IOcount s + 1 \<and> ss_inflight s' = Send_io # ss_inflight s \<and> \<not> del \<and>
        ss_sendFlag s \<noteq> 1 \<and> ss_sendFlag s' = 1 \<and> length (ss_inflight s) < 2 ^ 30"
    by blast+
qed

lemma recvIO_profile:
  assumes "recvIO s w = Some (s', w', del)"
  shows "os.more w' = os.more w \<and> ss_ID s' = ss_ID s \<and> ss_sendFlag s' = ss_sendFlag s \<and>
     (ss_IOcount s' = ss_IOcount s \<and> ss_inflight s' = ss_inflight s \<and> (del \<longrightarrow> ss_IOcount s = 0) \<or>
      ss_IOcount s' = ss_IOcount s + 1 \<and> ss_inflight s' = Recv_io # ss_inflight s \<and> \<not> del \<and>
        length (ss_inflight s) < 2 ^ 30)"
  using assms
  by (auto simp: recvIO_def Let_def os_io_def os_log_def incrementIO_def decrementIO_def cancelIORegist_def iocp_owe_def
      split: bind_splits if_splits list.splits)

lemma recvedPacket_frame_session:
  assumes "recvedPacket s h p = Some (s', h', b)"
  shows "pheap.more h' = pheap.more h" "s' = s\<lparr>ss_recvBuffer := ss_recvBuffer s'\<rparr>"
  using assms
  by (auto simp: recvedPacket_def Let_def ser_put_def split: bind_splits if_splits)

end
