(* ===== verification/Network_Inv.thy ===== *)
theory Network_Inv
  imports Network_Facts
begin

text \<open>
  The invariant of the session table and the effect of the requests on it. A slot is free
  (its index is on the stack) or active. The counter of an active slot is the number of completions owed, plus
  the references held by running code, plus at most one lost reference per direction; there is
  at most one send under way, and then \<open>sendFlag\<close> is set.
\<close>

section \<open>The invariant\<close>

text \<open>A slot with its numbers of references and of lost references per direction.\<close>

definition slot_prof :: "nat \<Rightarrow> nat \<Rightarrow> nat \<Rightarrow> nat \<Rightarrow> session \<Rightarrow> bool" where
  "slot_prof i r lr ls s \<longleftrightarrow>
     unat (ss_IOcount s) = length (ss_inflight s) + r + lr + ls \<and>
     lr + count_list (ss_inflight s) Recv_io \<le> 1 \<and> ls + count_list (ss_inflight s) Send_io \<le> 1 \<and>
     (0 < ls + count_list (ss_inflight s) Send_io \<longrightarrow> ss_sendFlag s = 1) \<and>
     ss_IOcount s \<noteq> 0 \<and> length (ss_inflight s) \<le> 2 ^ 30 \<and> unat (GET_INDEX (ss_ID s)) = i"

definition slot_active :: "nat \<Rightarrow> nat \<Rightarrow> session \<Rightarrow> bool" where
  "slot_active i r s \<longleftrightarrow> (\<exists>lr ls. slot_prof i r lr ls s)"

definition slot_free :: "nat \<Rightarrow> session \<Rightarrow> bool" where
  "slot_free r s \<longleftrightarrow> ss_inflight s = [] \<and> r = 0 \<and> (ss_IOcount s = 0x80000000 \<or> ss_IOcount s = 0)"

definition on_stack :: "'a network_scheme \<Rightarrow> nat \<Rightarrow> bool" where
  "on_stack st i \<longleftrightarrow> i \<in> unat ` set (nw_indexStack st)"

definition net_inv :: "(nat \<Rightarrow> nat) \<Rightarrow> 'a network_scheme \<Rightarrow> bool" where
  "net_inv refs st \<longleftrightarrow>
     length (nw_sessionArray st) \<le> 2 ^ 16 \<and> distinct (nw_indexStack st) \<and>
     (\<forall>i. on_stack st i \<longrightarrow> i < length (nw_sessionArray st)) \<and>
     (\<forall>i < length (nw_sessionArray st).
        if on_stack st i then slot_free (refs i) (nw_sessionArray st ! i)
        else slot_active i (refs i) (nw_sessionArray st ! i)) \<and>
     (\<forall>i. refs i < 2 ^ 20)"

text \<open>A session identifier that was handed out at some time: its slot has been used.\<close>

definition slot_used :: "'a network_scheme \<Rightarrow> u64 \<Rightarrow> bool" where
  "slot_used st sid \<longleftrightarrow> unat (GET_INDEX sid) < length (nw_sessionArray st) \<and>
     ss_IOcount (nw_sessionArray st ! unat (GET_INDEX sid)) \<noteq> 0"

definition connected :: "'a network_scheme \<Rightarrow> u64 \<Rightarrow> bool" where
  "connected st sid \<longleftrightarrow> unat (GET_INDEX sid) < length (nw_sessionArray st) \<and>
     \<not> on_stack st (unat (GET_INDEX sid)) \<and> ss_ID (nw_sessionArray st ! unat (GET_INDEX sid)) = sid"

lemma session_at_put [simp]:
  "i < length (nw_sessionArray st) \<Longrightarrow> session_at (session_put st i s) i = Some s"
  by (simp add: session_at_def session_put_def)

lemma session_put_put [simp]: "session_put (session_put st i s) i t = session_put st i t"
  by (simp add: session_put_def)

lemma session_put_same: "session_at st i = Some s \<Longrightarrow> session_put st i s = st"
  by (auto simp: session_put_def session_at_def split: if_splits)

lemma array_put [simp]:
  "length (nw_sessionArray (session_put st i s)) = length (nw_sessionArray st)"
  "nw_indexStack (session_put st i s) = nw_indexStack st"
  "on_stack (session_put st i s) j = on_stack st j"
  "nw_sessionArray (os_log st c) = nw_sessionArray st" "nw_indexStack (os_log st c) = nw_indexStack st"
  "on_stack (os_log st c) j = on_stack st j"
  by (simp_all add: session_put_def os_log_def on_stack_def)

lemma session_put_log [simp]: "session_put (os_log st c) i s = os_log (session_put st i s) c"
  by (simp add: session_put_def os_log_def)

lemma array_put_nth:
  "j < length (nw_sessionArray st) \<Longrightarrow> nw_sessionArray (session_put st i s) ! j = (if j = i then s else nw_sessionArray st ! j)"
  by (simp add: session_put_def nth_list_update)

lemma session_atD: "session_at st i = Some s \<Longrightarrow> i < length (nw_sessionArray st) \<and> nw_sessionArray st ! i = s"
  by (auto simp: session_at_def split: if_splits)

lemma session_atI: "i < length (nw_sessionArray st) \<Longrightarrow> session_at st i = Some (nw_sessionArray st ! i)"
  by (simp add: session_at_def)

lemma session_at_log [simp]: "session_at (os_log st c) i = session_at st i"
  by (simp add: session_at_def)

lemma slot_active_count:
  assumes "slot_active i r s" "r < 2 ^ 20"
  shows "0 < unat (ss_IOcount s)" "unat (ss_IOcount s) < 2 ^ 30 + 2 ^ 21" "r \<le> unat (ss_IOcount s)"
  using assms by (auto simp: slot_active_def slot_prof_def unat_gt_0)

lemma net_inv_slot:
  assumes "net_inv refs st" "i < length (nw_sessionArray st)"
  shows "on_stack st i \<Longrightarrow> slot_free (refs i) (nw_sessionArray st ! i)"
    "\<not> on_stack st i \<Longrightarrow> slot_active i (refs i) (nw_sessionArray st ! i)" "refs i < 2 ^ 20"
proof -
  have "if on_stack st i then slot_free (refs i) (nw_sessionArray st ! i)
        else slot_active i (refs i) (nw_sessionArray st ! i)"
    using assms unfolding net_inv_def by blast
  then show "on_stack st i \<Longrightarrow> slot_free (refs i) (nw_sessionArray st ! i)"
    "\<not> on_stack st i \<Longrightarrow> slot_active i (refs i) (nw_sessionArray st ! i)" by (simp_all split: if_splits)
  show "refs i < 2 ^ 20" using assms unfolding net_inv_def by blast
qed

text \<open>One active slot is replaced by a state that is still active, with another number of references.\<close>

lemma net_inv_put:
  assumes inv: "net_inv refs st" and i: "i < length (nw_sessionArray st)" "\<not> on_stack st i"
    and a: "slot_active i r s" "r < 2 ^ 20"
  shows "net_inv (refs(i := r)) (session_put st i s)"
  using assms unfolding net_inv_def by (auto simp: array_put_nth)

lemma net_inv_log [simp]: "net_inv refs (os_log st c) = net_inv refs st"
  by (simp add: net_inv_def)

section \<open>Counting and deleting\<close>

lemma no_flag:
  assumes "unat (c::u32) < 2 ^ 31"
  shows "c AND 0x80000000 = 0"
proof -
  have "\<not> bit (c AND mask 31) 31" by (simp add: bit_simps)
  moreover have "c AND mask 31 = c"
    using assms by (simp add: word_unat_eq_iff unat_and_mask)
  ultimately have "\<not> bit c 31" by simp
  then have "c AND 2 ^ 31 = 0" by (simp only: and_exp_eq_0_iff_not_bit not_False_eq_True)
  then show ?thesis by simp
qed

lemma release_more:
  assumes "session_at st i = Some s" "2 \<le> unat (ss_IOcount s)"
  shows "session_release od i st = Some (session_put st i (s\<lparr>ss_IOcount := ss_IOcount s - 1\<rparr>))"
proof -
  have "ss_IOcount s - 1 \<noteq> 0" using assms(2) by auto
  then show ?thesis using assms(1) by (simp add: session_release_def decrementIO_def Let_def)
qed

text \<open>A use of a released slot: the flag sends the caller away and nothing changes.\<close>

lemma find_spec:
  assumes inv: "net_inv refs st" and used: "slot_used st sid"
  defines "i \<equiv> unat (GET_INDEX sid)"
  defines "s \<equiv> nw_sessionArray st ! i"
  shows "findSession od sid st = Some (if connected st sid
           then (session_put st i (s\<lparr>ss_IOcount := ss_IOcount s + 1\<rparr>), Some i) else (st, None))"
proof -
  have i: "i < length (nw_sessionArray st)" "ss_IOcount s \<noteq> 0"
    using used by (simp_all add: slot_used_def i_def s_def)
  have at_i: "session_at st i = Some s" using i by (simp add: session_at_def s_def)
  let ?s1 = "s\<lparr>ss_IOcount := ss_IOcount s + 1\<rparr>"
  have ix: "unat (ucast sid :: u16) = i" by (simp add: i_def GET_INDEX_def)
  show ?thesis
  proof (cases "on_stack st i")
    case True
    then have fl: "ss_IOcount s = 0x80000000"
      using net_inv_slot(1) [OF inv i(1)] i(2) by (auto simp: slot_free_def s_def)
    have same: "s\<lparr>ss_IOcount := 0x80000000\<rparr> = s" using fl by (cases s) simp
    then have r: "session_release od i (session_put st i ?s1) = Some st"
      using release_more [of "session_put st i ?s1" i ?s1 od] i(1) fl
      by (simp add: same session_put_same [OF at_i])
    have "\<not> connected st sid" using True by (simp add: connected_def i_def)
    moreover have "findSession od sid st = Some (st, None)"
      using at_i r by (simp add: findSession_def ix incrementIO_def Let_def fl)
    ultimately show ?thesis by simp
  next
    case False
    note A = slot_active_count [OF net_inv_slot(2,3) [OF inv i(1)], OF False, folded s_def]
    have u: "unat (ss_IOcount s + 1) = unat (ss_IOcount s) + 1"
      using A(2) by (subst unat_add_no_wrap) simp_all
    have nf: "(ss_IOcount s + 1) AND 0x80000000 = 0" using A(2) u by (intro no_flag) simp
    show ?thesis
    proof (cases "ss_ID s = sid")
      case True
      then have "connected st sid" using i(1) False by (simp add: connected_def i_def s_def)
      then show ?thesis using at_i nf True by (simp add: findSession_def ix incrementIO_def Let_def)
    next
      case ne: False
      have "\<not> connected st sid" using ne by (simp add: connected_def i_def s_def)
      moreover have "session_release od i (session_put st i ?s1) = Some st"
        using release_more [of "session_put st i ?s1" i ?s1 od] i(1) u A(1)
        by (simp add: session_put_same [OF at_i])
      ultimately show ?thesis using at_i nf ne by (simp add: findSession_def ix incrementIO_def Let_def)
    qed
  qed
qed

lemma disconnectReq_spec:
  assumes inv: "net_inv refs st" and used: "slot_used st sid"
  defines "i \<equiv> unat (GET_INDEX sid)"
  defines "s \<equiv> nw_sessionArray st ! i"
  shows "disconnectReq od sid st = Some (if connected st sid
     then os_log (os_log (session_put st i (s\<lparr>ss_cancelIOFlag := 1\<rparr>)) (CancelIoEx (ss_socket s) Recv_io))
       (CancelIoEx (ss_socket s) Send_io)
     else st)"
proof (cases "connected st sid")
  case False
  then show ?thesis using find_spec [OF inv used, of od] by (simp add: disconnectReq_def)
next
  case True
  have i: "i < length (nw_sessionArray st)" "\<not> on_stack st i" using True by (simp_all add: connected_def i_def)
  note A = slot_active_count [OF net_inv_slot(2,3) [OF inv i(1)], OF i(2), folded s_def]
  have u: "unat (ss_IOcount s + 1) = unat (ss_IOcount s) + 1"
    using A(2) by (subst unat_add_no_wrap) simp_all
  let ?s1 = "s\<lparr>ss_IOcount := ss_IOcount s + 1, ss_cancelIOFlag := 1\<rparr>"
  let ?st = "os_log (os_log (session_put st i ?s1) (CancelIoEx (ss_socket s) Recv_io)) (CancelIoEx (ss_socket s) Send_io)"
  have at1: "session_at ?st i = Some ?s1" using i(1) by simp
  have "session_release od i ?st =
      Some (os_log (os_log (session_put st i (s\<lparr>ss_cancelIOFlag := 1\<rparr>)) (CancelIoEx (ss_socket s) Recv_io))
       (CancelIoEx (ss_socket s) Send_io))"
    using release_more [OF at1, of od] u A(1) by (simp add: session_put_put)
  then show ?thesis
    using True find_spec [OF inv used, of od] i(1)
    by (simp add: disconnectReq_def cancelIORegist_def Let_def i_def [symmetric] s_def [symmetric])
qed

lemma network_of_more:
  assumes "pheap.more st' = pheap.more st"
  shows "nw_sessionArray st' = nw_sessionArray st" "nw_indexStack st' = nw_indexStack st"
  using assms by (cases st, cases st', simp)+

lemma session_ops_heap [simp]:
  "session_at (ser_put st p x) i = session_at st i" "nw_sessionArray (ser_put st p x) = nw_sessionArray st"
  "nw_indexStack (ser_put st p x) = nw_indexStack st" "on_stack (ser_put st p x) i = on_stack st i"
  "session_put (ser_put st p x) i s = ser_put (session_put st i s) p x"
  by (simp_all add: session_at_def ser_put_def on_stack_def session_put_def)

lemma sendReq_spec:
  assumes inv: "net_inv refs st" and used: "slot_used st sid"
    and p: "ser_at st p = Some ser"
  defines "i \<equiv> unat (GET_INDEX sid)"
  defines "s \<equiv> nw_sessionArray st ! i" and "v \<equiv> p OR 0x4000000000000000"
  assumes room: "connected st sid \<Longrightarrow> length (ss_inflight s) < 2 ^ 30"
  shows "sendReq od sid p st = Some (if connected st sid
     then os_log (session_put (ser_put st p (ser\<lparr>sz_referenceCounter := sz_referenceCounter ser + 1\<rparr>)) i
            (s\<lparr>ss_IOcount := ss_IOcount s + 1, ss_inflight := Post_io v # ss_inflight s\<rparr>)) (PostStatus (of_nat i) v)
     else st)"
proof (cases "connected st sid")
  case False
  then show ?thesis using find_spec [OF inv used, of od] by (simp add: sendReq_def)
next
  case True
  have i: "i < length (nw_sessionArray st)" "\<not> on_stack st i" using True by (simp_all add: connected_def i_def)
  note A = slot_active_count [OF net_inv_slot(2,3) [OF inv i(1)], OF i(2), folded s_def]
  let ?s1 = "s\<lparr>ss_IOcount := ss_IOcount s + 1\<rparr>"
  let ?ser = "ser\<lparr>sz_referenceCounter := sz_referenceCounter ser + 1\<rparr>"
  have p1: "ser_at (session_put st i ?s1) p = Some ser" using p by (auto simp: ser_at_def session_put_def split: if_splits)
  have inc: "ser_inc (session_put st i ?s1) p 1 =
      Some (ser_put (session_put st i ?s1) p ?ser, sz_referenceCounter ser + 1)"
    by (rule ser_inc_Some [OF p1])
  let ?s3 = "s\<lparr>ss_IOcount := ss_IOcount s + 1 + 1, ss_inflight := Post_io v # ss_inflight s\<rparr>"
  let ?st3 = "os_log (session_put (ser_put st p ?ser) i ?s3) (PostStatus (of_nat i) v)"
  have u: "unat (ss_IOcount s + 1 + 1) = unat (ss_IOcount s) + 2"
    using A(2) by (subst unat_add_no_wrap; (subst unat_add_no_wrap)?) simp_all
  have at3: "session_at ?st3 i = Some ?s3" using i(1) by simp
  have rel: "session_release od i ?st3 =
      Some (os_log (session_put (ser_put st p ?ser) i
            (s\<lparr>ss_IOcount := ss_IOcount s + 1, ss_inflight := Post_io v # ss_inflight s\<rparr>)) (PostStatus (of_nat i) v))"
  proof -
    have "?s3\<lparr>ss_IOcount := ss_IOcount ?s3 - 1\<rparr> =
        s\<lparr>ss_IOcount := ss_IOcount s + 1, ss_inflight := Post_io v # ss_inflight s\<rparr>" by (cases s) simp
    then show ?thesis using release_more [OF at3, of od] u by (simp only:) simp
  qed
  have post: "postStatus i (p OR reqEvents_value sendReq_event)
      (session_put (ser_put (session_put st i ?s1) p ?ser) i (fst (incrementIO ?s1))) = Some ?st3"
    using i(1) room True by (simp add: postStatus_def iocp_owe_def incrementIO_def Let_def v_def)
  show ?thesis
    using True find_spec [OF inv used, of od] i(1) inc post rel
    by (simp add: sendReq_def i_def [symmetric] s_def [symmetric])
qed

end
