(* ===== verification/Network_Handlers.thy ===== *)
theory Network_Handlers
  imports Network_Inv
begin

text \<open>
  Every handler of the server core keeps the invariant, whatever the derived class does in its virtual
  functions as long as that is what the locale \<open>net_callbacks\<close> asks for. Requests of the derived class only add
  posted completions, each with its unit of the counter; that is the relation \<open>neutral\<close>.
\<close>

section \<open>Steps that only post requests\<close>

definition grow :: "session \<Rightarrow> session \<Rightarrow> bool" where
  "grow s s' \<longleftrightarrow>
     (\<exists>ps. ss_inflight s' = map Post_io ps @ ss_inflight s \<and> ss_IOcount s' = ss_IOcount s + of_nat (length ps) \<and>
        (ps \<noteq> [] \<longrightarrow> length (ss_inflight s') \<le> 2 ^ 30)) \<and>
     ss_sendFlag s' = ss_sendFlag s \<and> ss_ID s' = ss_ID s"

definition neutral :: "'a network_scheme \<Rightarrow> 'a network_scheme \<Rightarrow> bool" where
  "neutral st st' \<longleftrightarrow>
     length (nw_sessionArray st') = length (nw_sessionArray st) \<and> nw_indexStack st' = nw_indexStack st \<and>
     (\<forall>i < length (nw_sessionArray st). grow (nw_sessionArray st ! i) (nw_sessionArray st' ! i) \<and>
        (on_stack st i \<longrightarrow> ss_inflight (nw_sessionArray st' ! i) = ss_inflight (nw_sessionArray st ! i)))"

lemma grow_refl: "grow s s"
  by (auto simp: grow_def intro: exI [of _ "[]"])

lemma grow_same:
  "ss_inflight s' = ss_inflight s \<Longrightarrow> ss_IOcount s' = ss_IOcount s \<Longrightarrow> ss_sendFlag s' = ss_sendFlag s \<Longrightarrow>
     ss_ID s' = ss_ID s \<Longrightarrow> grow s s'"
  by (auto simp: grow_def intro: exI [of _ "[]"])

lemma grow_trans:
  assumes "grow s1 s2" "grow s2 s3"
  shows "grow s1 s3"
proof -
  obtain ps where ps: "ss_inflight s2 = map Post_io ps @ ss_inflight s1"
    "ss_IOcount s2 = ss_IOcount s1 + of_nat (length ps)" "ps \<noteq> [] \<longrightarrow> length (ss_inflight s2) \<le> 2 ^ 30"
    using assms(1) by (auto simp: grow_def)
  obtain qs where qs: "ss_inflight s3 = map Post_io qs @ ss_inflight s2"
    "ss_IOcount s3 = ss_IOcount s2 + of_nat (length qs)" "qs \<noteq> [] \<longrightarrow> length (ss_inflight s3) \<le> 2 ^ 30"
    using assms(2) by (auto simp: grow_def)
  have "ss_inflight s3 = map Post_io (qs @ ps) @ ss_inflight s1 \<and>
      ss_IOcount s3 = ss_IOcount s1 + of_nat (length (qs @ ps)) \<and> (qs @ ps \<noteq> [] \<longrightarrow> length (ss_inflight s3) \<le> 2 ^ 30)"
    using ps qs by (cases "qs = []") (simp_all add: add.commute add.left_commute)
  then show ?thesis using assms unfolding grow_def by metis
qed

lemma neutral_refl: "neutral st st"
  by (simp add: neutral_def grow_refl)

lemma neutral_on_stack: "neutral st st' \<Longrightarrow> on_stack st' = on_stack st"
  by (simp add: neutral_def on_stack_def fun_eq_iff)

lemma neutral_trans:
  assumes "neutral s1 s2" "neutral s2 s3"
  shows "neutral s1 s3"
  using assms neutral_on_stack [OF assms(1)] grow_trans unfolding neutral_def by auto

lemma neutral_same_array:
  "nw_sessionArray st' = nw_sessionArray st \<Longrightarrow> nw_indexStack st' = nw_indexStack st \<Longrightarrow> neutral st st'"
  by (simp add: neutral_def grow_refl)

lemma neutral_put:
  assumes "i < length (nw_sessionArray st)" "grow (nw_sessionArray st ! i) s" "\<not> on_stack st i \<or> ss_inflight s = ss_inflight (nw_sessionArray st ! i)"
  shows "neutral st (session_put st i s)"
  using assms by (auto simp: neutral_def array_put_nth grow_refl)

lemma count_posts [simp]: "count_list (map Post_io ps) Recv_io = 0" "count_list (map Post_io ps) Send_io = 0"
  by (induction ps) auto

lemma prof_grow:
  assumes "slot_prof i r lr ls s" "grow s s'" "r < 2 ^ 20"
  shows "slot_prof i r lr ls s'"
    "count_list (ss_inflight s') Recv_io = count_list (ss_inflight s) Recv_io"
    "count_list (ss_inflight s') Send_io = count_list (ss_inflight s) Send_io"
proof -
  obtain ps where ps: "ss_inflight s' = map Post_io ps @ ss_inflight s"
    "ss_IOcount s' = ss_IOcount s + of_nat (length ps)" "ps \<noteq> [] \<longrightarrow> length (ss_inflight s') \<le> 2 ^ 30"
    and f: "ss_sendFlag s' = ss_sendFlag s" "ss_ID s' = ss_ID s"
    using assms(2) by (auto simp: grow_def)
  note P = assms(1) [unfolded slot_prof_def]
  have l: "length (ss_inflight s') \<le> 2 ^ 30" using ps P by (cases "ps = []") auto
  then have lp: "length ps \<le> 2 ^ 30" using ps(1) by simp
  have c: "unat (ss_IOcount s) < 2 ^ 30 + 2 ^ 21" using P assms(3) by simp
  have "unat (of_nat (length ps) :: u32) = length ps" using lp by (simp add: unat_of_nat)
  then have u: "unat (ss_IOcount s') = unat (ss_IOcount s) + length ps"
    using c lp by (simp only: ps(2)) (subst unat_add_no_wrap; simp)
  have "ss_IOcount s \<noteq> 0" using P by blast
  then have "0 < unat (ss_IOcount s)" by (simp add: unat_gt_0)
  then have nz: "ss_IOcount s' \<noteq> 0" using u by (metis add_is_0 less_numeral_extra(3) unat_0)
  show k: "count_list (ss_inflight s') Recv_io = count_list (ss_inflight s) Recv_io"
    "count_list (ss_inflight s') Send_io = count_list (ss_inflight s) Send_io" by (simp_all add: ps(1))
  show "slot_prof i r lr ls s'"
    using P l u nz f k by (simp add: slot_prof_def ps(1))
qed

lemma neutral_inv:
  assumes inv: "net_inv refs st" and n: "neutral st st'"
  shows "net_inv refs st'"
proof -
  have os: "on_stack st' = on_stack st" by (rule neutral_on_stack [OF n])
  have slots: "if on_stack st i then slot_free (refs i) (nw_sessionArray st' ! i)
      else slot_active i (refs i) (nw_sessionArray st' ! i)" if i: "i < length (nw_sessionArray st)" for i
  proof -
    have g: "grow (nw_sessionArray st ! i) (nw_sessionArray st' ! i)" using n i by (simp add: neutral_def)
    show ?thesis
    proof (cases "on_stack st i")
      case True
      then have sf: "slot_free (refs i) (nw_sessionArray st ! i)" using net_inv_slot(1) [OF inv i] by simp
      have "ss_inflight (nw_sessionArray st' ! i) = ss_inflight (nw_sessionArray st ! i)"
        using n i True by (simp add: neutral_def)
      then have "ss_IOcount (nw_sessionArray st' ! i) = ss_IOcount (nw_sessionArray st ! i)"
        using g by (auto simp: grow_def)
      then show ?thesis using sf True \<open>ss_inflight (nw_sessionArray st' ! i) = _\<close> by (simp add: slot_free_def)
    next
      case False
      then obtain lr ls where "slot_prof i (refs i) lr ls (nw_sessionArray st ! i)"
        using net_inv_slot(2) [OF inv i] by (auto simp: slot_active_def)
      then have "slot_prof i (refs i) lr ls (nw_sessionArray st' ! i)"
        using prof_grow(1) [OF _ g net_inv_slot(3) [OF inv i]] by blast
      then show ?thesis using False by (auto simp: slot_active_def)
    qed
  qed
  show ?thesis
    using inv n slots unfolding net_inv_def os by (simp add: neutral_def)
qed

lemma neutral_used:
  assumes inv: "net_inv refs st" and n: "neutral st st'" and u: "slot_used st sid"
  shows "slot_used st' sid"
proof -
  let ?i = "unat (GET_INDEX sid)"
  have i: "?i < length (nw_sessionArray st)" "ss_IOcount (nw_sessionArray st ! ?i) \<noteq> 0"
    using u by (simp_all add: slot_used_def)
  have g: "grow (nw_sessionArray st ! ?i) (nw_sessionArray st' ! ?i)" using n i(1) by (simp add: neutral_def)
  have "ss_IOcount (nw_sessionArray st' ! ?i) \<noteq> 0"
  proof (cases "on_stack st ?i")
    case True
    then have "ss_inflight (nw_sessionArray st' ! ?i) = ss_inflight (nw_sessionArray st ! ?i)"
      using n i(1) by (simp add: neutral_def)
    then show ?thesis using g i(2) by (auto simp: grow_def)
  next
    case False
    then obtain lr ls where "slot_prof ?i (refs ?i) lr ls (nw_sessionArray st ! ?i)"
      using net_inv_slot(2) [OF inv i(1)] by (auto simp: slot_active_def)
    from prof_grow(1) [OF this g net_inv_slot(3) [OF inv i(1)]] show ?thesis by (simp add: slot_prof_def)
  qed
  then show ?thesis using i(1) n by (simp add: slot_used_def neutral_def)
qed

lemma connected_used:
  assumes inv: "net_inv refs st" and c: "connected st sid"
  shows "slot_used st sid"
proof -
  let ?i = "unat (GET_INDEX sid)"
  have i: "?i < length (nw_sessionArray st)" "\<not> on_stack st ?i" using c by (simp_all add: connected_def)
  have "slot_active ?i (refs ?i) (nw_sessionArray st ! ?i)" by (rule net_inv_slot(2) [OF inv i])
  then show ?thesis using i(1) by (auto simp: slot_used_def slot_active_def slot_prof_def)
qed

section \<open>The requests are neutral\<close>

lemma neutral_heap: "pheap.more st' = pheap.more st \<Longrightarrow> neutral st st'"
  using network_of_more [of st' st] by (intro neutral_same_array) simp_all

lemma neutral_log: "neutral st (os_log st' c) = neutral st st'"
  by (simp add: neutral_def)

lemma disconnectReq_neutral:
  assumes inv: "net_inv refs st" and used: "slot_used st sid" and r: "disconnectReq od sid st = Some st'"
  shows "neutral st st'"
proof (cases "connected st sid")
  case True
  let ?i = "unat (GET_INDEX sid)"
  have i: "?i < length (nw_sessionArray st)" using True by (simp add: connected_def)
  let ?s = "nw_sessionArray st ! ?i"
  have "neutral st (session_put st ?i (?s\<lparr>ss_cancelIOFlag := 1\<rparr>))"
    by (rule neutral_put [OF i]) (simp_all add: grow_same)
  then show ?thesis
    using disconnectReq_spec [OF inv used, of od] r True by (auto simp: neutral_log)
next
  case False
  then show ?thesis using disconnectReq_spec [OF inv used, of od] r by (simp add: neutral_refl)
qed

lemma post_neutral:
  assumes inv: "net_inv refs st" and c: "connected st sid"
  defines "i \<equiv> unat (GET_INDEX sid)"
  defines "s \<equiv> nw_sessionArray st ! i"
  assumes room: "length (ss_inflight s) < 2 ^ 30"
  shows "neutral st (session_put st i (s\<lparr>ss_IOcount := ss_IOcount s + 1, ss_inflight := Post_io v # ss_inflight s\<rparr>))"
proof -
  have i: "i < length (nw_sessionArray st)" "\<not> on_stack st i" using c by (simp_all add: connected_def i_def)
  have "grow s (s\<lparr>ss_IOcount := ss_IOcount s + 1, ss_inflight := Post_io v # ss_inflight s\<rparr>)"
    unfolding grow_def using room by (auto intro!: exI [of _ "[v]"])
  then show ?thesis using i by (intro neutral_put) (simp_all add: s_def)
qed

lemma sendReq_needs:
  assumes inv: "net_inv refs st" and used: "slot_used st sid" and c: "connected st sid"
    and r: "sendReq od sid p st = Some st'"
  shows "\<exists>ser. ser_at st p = Some ser" "length (ss_inflight (nw_sessionArray st ! unat (GET_INDEX sid))) < 2 ^ 30"
proof -
  let ?i = "unat (GET_INDEX sid)" let ?s = "nw_sessionArray st ! ?i"
  have i: "?i < length (nw_sessionArray st)" using c by (simp add: connected_def)
  let ?st1 = "session_put st ?i (?s\<lparr>ss_IOcount := ss_IOcount ?s + 1\<rparr>)"
  have f: "findSession od sid st = Some (?st1, Some ?i)" using find_spec [OF inv used, of od] c by simp
  obtain st2 n where inc: "ser_inc ?st1 p 1 = Some (st2, n)"
    using r f by (auto simp: sendReq_def split: bind_splits)
  then obtain ser where ser: "ser_at ?st1 p = Some ser"
    by (cases "ser_at ?st1 p") (simp_all add: ser_inc_def ser_call_def)
  then show "\<exists>ser. ser_at st p = Some ser" by (auto simp: ser_at_def session_put_def split: if_splits)
  show "length (ss_inflight ?s) < 2 ^ 30"
  proof (rule ccontr)
    assume "\<not> ?thesis"
    then have "sendReq od sid p st = None"
      using f ser_inc_Some [OF ser, of 1] i
      by (simp add: sendReq_def postStatus_def iocp_owe_def incrementIO_def Let_def)
    then show False using r by simp
  qed
qed

lemma sendReq_neutral:
  assumes inv: "net_inv refs st" and used: "slot_used st sid" and r: "sendReq od sid p st = Some st'"
  shows "neutral st st'"
proof (cases "connected st sid")
  case True
  note N = sendReq_needs [OF inv used True r]
  then obtain ser where ser: "ser_at st p = Some ser" by blast
  let ?i = "unat (GET_INDEX sid)" let ?s = "nw_sessionArray st ! ?i"
  let ?v = "p OR 0x4000000000000000"
  have "neutral st (session_put st ?i (?s\<lparr>ss_IOcount := ss_IOcount ?s + 1, ss_inflight := Post_io ?v # ss_inflight ?s\<rparr>))"
    by (rule post_neutral [OF inv True N(2)])
  moreover have "neutral x (ser_put y p z) = neutral x y" for x y z
    by (simp add: neutral_def)
  ultimately show ?thesis
    using sendReq_spec [OF inv used ser N(2), of od] r True by (auto simp: neutral_log)
next
  case False
  have "findSession od sid st = Some (st, None)" using find_spec [OF inv used, of od] False by simp
  then show ?thesis using r by (simp add: sendReq_def neutral_refl)
qed


section \<open>The interface of the derived class\<close>

locale net_callbacks =
  fixes cb :: "'a network_scheme callbacks"
  assumes connect_law: "net_inv refs st \<Longrightarrow> connected st sid \<Longrightarrow> cb_OnNewConnect cb sid st = Some st' \<Longrightarrow> neutral st st'"
    and disconnect_law: "cb_OnDisconnect cb sid st = Some st' \<Longrightarrow>
      nw_sessionArray st' = nw_sessionArray st \<and> nw_indexStack st' = nw_indexStack st"
    and request_law: "cb_OnConnectionRequest cb ip port st = Some (st', ok) \<Longrightarrow>
      nw_sessionArray st' = nw_sessionArray st \<and> nw_indexStack st' = nw_indexStack st"
    and recv_law: "net_inv refs st \<Longrightarrow> slot_used st sid \<Longrightarrow> cb_OnRecv cb sid p st = Some st' \<Longrightarrow> neutral st st'"
    and send_law: "net_inv refs st \<Longrightarrow> slot_used st sid \<Longrightarrow> cb_OnSend cb sid n st = Some st' \<Longrightarrow> neutral st st'"
begin

text \<open>Deleting: the slot was idle, its index goes onto the stack, no other slot changes.\<close>

lemma delete_zero:
  assumes at: "session_at st i = Some s" and z: "ss_IOcount s = 0"
    and d: "deleteSession (cb_OnDisconnect cb) i st = Some st'"
  obtains s' where "nw_sessionArray st' = (nw_sessionArray st)[i := s']" "nw_indexStack st' = GET_INDEX (ss_ID s) # nw_indexStack st"
    "ss_IOcount s' = 0x80000000" "ss_inflight s' = ss_inflight s"
proof -
  let ?s1 = "s\<lparr>ss_IOcount := 0x80000000\<rparr>"
  let ?st1 = "os_log st (CloseSocket (ss_socket ?s1))"
  obtain s2 st2 where b: "bufferClear ?s1 ?st1 = Some (s2, st2)"
    and od: "cb_OnDisconnect cb (ss_ID s)
      (session_put st2 i s2\<lparr>nw_indexStack := GET_INDEX (ss_ID s) # nw_indexStack (session_put st2 i s2)\<rparr>) = Some st'"
    using d at z by (auto simp: deleteSession_def cas_def Let_def GET_INDEX_def split: bind_splits)
  note F = bufferClear_frame [OF b]
  have A: "nw_sessionArray st2 = nw_sessionArray st" "nw_indexStack st2 = nw_indexStack st"
    using network_of_more [OF F(1)] by simp_all
  have s2: "ss_IOcount s2 = 0x80000000" "ss_inflight s2 = ss_inflight s" by (subst F(2), simp)+
  show thesis
    by (rule that [of s2]) (use disconnect_law [OF od] A s2 in \<open>simp_all add: session_put_def\<close>)
qed

lemma GET_INDEX_of: "unat (GET_INDEX x) = i \<Longrightarrow> GET_INDEX x = of_nat i"
  by auto

lemma release_inv:
  assumes inv: "net_inv refs st" and i: "i < length (nw_sessionArray st)" "\<not> on_stack st i" and r: "0 < refs i"
    and rel: "session_release (cb_OnDisconnect cb) i st = Some st'"
  shows "net_inv (refs(i := refs i - 1)) st'"
proof -
  let ?s = "nw_sessionArray st ! i"
  obtain lr ls where P: "slot_prof i (refs i) lr ls ?s"
    using net_inv_slot(2) [OF inv i] by (auto simp: slot_active_def)
  note P' = P [unfolded slot_prof_def]
  have nz: "ss_IOcount ?s \<noteq> 0" using P' by blast
  let ?s1 = "?s\<lparr>ss_IOcount := ss_IOcount ?s - 1\<rparr>"
  have u: "unat (ss_IOcount ?s - 1) = unat (ss_IOcount ?s) - 1"
    using nz by (simp add: unat_minus_one)
  have at1: "session_at (session_put st i ?s1) i = Some ?s1" using i(1) by simp
  have small: "refs i - 1 < 2 ^ 20" using net_inv_slot(3) [OF inv i(1)] by simp
  show ?thesis
  proof (cases "ss_IOcount ?s - 1 = 0")
    case False
    then have "st' = session_put st i ?s1"
      using rel i(1) by (simp add: session_release_def session_atI decrementIO_def Let_def)
    moreover have "slot_prof i (refs i - 1) lr ls ?s1"
      using P' u r False by (simp add: slot_prof_def)
    then have "slot_active i (refs i - 1) ?s1" by (auto simp: slot_active_def)
    ultimately show ?thesis using net_inv_put [OF inv i _ small] by simp
  next
    case True
    then have c1: "unat (ss_IOcount ?s) = 1" using u nz by (metis One_nat_def Suc_pred unat_0 unat_gt_0)
    have "unat (ss_IOcount ?s) = length (ss_inflight ?s) + refs i + lr + ls" using P' by blast
    then have "refs i = 1 \<and> length (ss_inflight ?s) = 0" using r c1 by linarith
    then have e: "refs i = 1" "ss_inflight ?s = []" by simp_all
    have d: "deleteSession (cb_OnDisconnect cb) i (session_put st i ?s1) = Some st'"
      using rel i(1) True by (simp add: session_release_def session_atI decrementIO_def Let_def)
    have z: "ss_IOcount ?s1 = 0" using True by simp
    obtain s' where s': "nw_sessionArray st' = (nw_sessionArray (session_put st i ?s1))[i := s']"
      "nw_indexStack st' = GET_INDEX (ss_ID ?s1) # nw_indexStack (session_put st i ?s1)"
      "ss_IOcount s' = 0x80000000" "ss_inflight s' = ss_inflight ?s1"
      by (rule delete_zero [OF at1 z d])
    have arr: "nw_sessionArray st' = (nw_sessionArray st)[i := s']" using s'(1) by (simp add: session_put_def)
    have gi: "unat (GET_INDEX (ss_ID ?s)) = i" using P' by blast
    have stk: "nw_indexStack st' = GET_INDEX (ss_ID ?s) # nw_indexStack st" using s'(2) by simp
    have os: "on_stack st' j \<longleftrightarrow> j = i \<or> on_stack st j" for j using stk gi by (auto simp: on_stack_def)
    have fresh: "GET_INDEX (ss_ID ?s) \<notin> set (nw_indexStack st)" 
    proof
      assume "GET_INDEX (ss_ID ?s) \<in> set (nw_indexStack st)"
      then have "on_stack st (unat (GET_INDEX (ss_ID ?s)))" unfolding on_stack_def by (rule imageI)
      then show False using i(2) by (simp only: gi)
    qed
    have sf: "slot_free 0 s'" using s'(3,4) e(2) by (simp add: slot_free_def)
    show ?thesis
      using inv i stk arr os fresh sf e(1) unfolding net_inv_def by (auto simp: nth_list_update)
  qed
qed

text \<open>Sending keeps the invariant; at most one send is under way because of \<open>sendFlag\<close>.\<close>

lemma net_sendIO_inv:
  assumes inv: "net_inv refs st" and i: "i < length (nw_sessionArray st)" "\<not> on_stack st i"
    and s: "net_sendIO od i st = Some st'"
  shows "net_inv refs st' \<and> length (nw_sessionArray st') = length (nw_sessionArray st) \<and> on_stack st' = on_stack st"
proof -
  let ?s = "nw_sessionArray st ! i"
  obtain lr ls where P: "slot_prof i (refs i) lr ls ?s"
    using net_inv_slot(2) [OF inv i] by (auto simp: slot_active_def)
  note P' = P [unfolded slot_prof_def]
  have nz: "ss_IOcount ?s \<noteq> 0" using P' by blast
  note small = net_inv_slot(3) [OF inv i(1)]
  obtain s1 st1 del where io: "sendIO ?s st = Some (s1, st1, del)"
    and st': "(if del then deleteSession od i (session_put st1 i s1) else Some (session_put st1 i s1)) = Some st'"
    using s i(1) by (auto simp: net_sendIO_def session_atI Let_def split: bind_splits)
  note F = sendIO_profile [OF io]
  have del: "\<not> del" using F(4) nz by auto
  have A: "nw_sessionArray st1 = nw_sessionArray st" "nw_indexStack st1 = nw_indexStack st"
    using F(1) by (cases st, cases st1, simp)+
  have os: "on_stack st1 = on_stack st" by (simp add: on_stack_def A fun_eq_iff)
  have inv1: "net_inv refs st1" using inv unfolding net_inv_def A os .
  have "slot_active i (refs i) s1"
  proof (cases "ss_inflight s1 = ss_inflight ?s")
    case True
    then have "ss_IOcount s1 = ss_IOcount ?s" "ss_sendFlag ?s = 1 \<longrightarrow> ss_sendFlag s1 = 1" using F(4) by auto
    then have "slot_prof i (refs i) lr ls s1" using P' True F(2) unfolding slot_prof_def by auto
    then show ?thesis by (auto simp: slot_active_def)
  next
    case False
    then have G: "ss_IOcount s1 = ss_IOcount ?s + 1" "ss_inflight s1 = Send_io # ss_inflight ?s"
      "ss_sendFlag ?s \<noteq> 1" "ss_sendFlag s1 = 1" "length (ss_inflight ?s) < 2 ^ 30" using F(4) by auto
    have z: "ls = 0" "count_list (ss_inflight ?s) Send_io = 0" using P' G(3) by auto
    have c: "unat (ss_IOcount ?s) < 2 ^ 30 + 2 ^ 21"
      by (rule slot_active_count(2) [OF net_inv_slot(2) [OF inv i] small])
    then have u: "unat (ss_IOcount s1) = unat (ss_IOcount ?s) + 1"
      unfolding G(1) by (subst unat_add_no_wrap) simp_all
    then have nz1: "ss_IOcount s1 \<noteq> 0" by auto
    have "slot_prof i (refs i) lr 0 s1"
      using P' G u z nz1 F(2) unfolding slot_prof_def by simp
    then show ?thesis by (auto simp: slot_active_def)
  qed
  then have "net_inv (refs(i := refs i)) (session_put st1 i s1)"
    using i A os small by (intro net_inv_put [OF inv1]) simp_all
  then show ?thesis using st' del A os by (auto simp: fun_upd_idem)
qed

text \<open>Receiving is started when no receive is under way and none was lost.\<close>

lemma net_recvIO_inv:
  assumes inv: "net_inv refs st" and i: "i < length (nw_sessionArray st)" "\<not> on_stack st i"
    and p: "slot_prof i (refs i) 0 ls (nw_sessionArray st ! i)" "count_list (ss_inflight (nw_sessionArray st ! i)) Recv_io = 0"
    and s: "net_recvIO od i st = Some st'"
  shows "net_inv refs st' \<and> length (nw_sessionArray st') = length (nw_sessionArray st) \<and> on_stack st' = on_stack st"
proof -
  let ?s = "nw_sessionArray st ! i"
  note P' = p(1) [unfolded slot_prof_def]
  have nz: "ss_IOcount ?s \<noteq> 0" using P' by blast
  note small = net_inv_slot(3) [OF inv i(1)]
  obtain s1 st1 del where io: "recvIO ?s st = Some (s1, st1, del)"
    and st': "(if del then deleteSession od i (session_put st1 i s1) else Some (session_put st1 i s1)) = Some st'"
    using s i(1) by (auto simp: net_recvIO_def session_atI Let_def split: bind_splits)
  note F = recvIO_profile [OF io]
  have del: "\<not> del" using F nz by auto
  have A: "nw_sessionArray st1 = nw_sessionArray st" "nw_indexStack st1 = nw_indexStack st"
    using F by (cases st, cases st1, simp)+
  have os: "on_stack st1 = on_stack st" by (simp add: on_stack_def A fun_eq_iff)
  have inv1: "net_inv refs st1" using inv unfolding net_inv_def A os .
  have "slot_active i (refs i) s1"
  proof (cases "ss_inflight s1 = ss_inflight ?s")
    case True
    then have "ss_IOcount s1 = ss_IOcount ?s" "ss_sendFlag s1 = ss_sendFlag ?s" "ss_ID s1 = ss_ID ?s" using F by auto
    then have "slot_prof i (refs i) 0 ls s1" using P' True unfolding slot_prof_def by auto
    then show ?thesis by (auto simp: slot_active_def)
  next
    case False
    then have G: "ss_IOcount s1 = ss_IOcount ?s + 1" "ss_inflight s1 = Recv_io # ss_inflight ?s"
      "ss_sendFlag s1 = ss_sendFlag ?s" "ss_ID s1 = ss_ID ?s" "length (ss_inflight ?s) < 2 ^ 30" using F by auto
    have c: "unat (ss_IOcount ?s) < 2 ^ 30 + 2 ^ 21"
      by (rule slot_active_count(2) [OF net_inv_slot(2) [OF inv i] small])
    then have u: "unat (ss_IOcount s1) = unat (ss_IOcount ?s) + 1"
      unfolding G(1) by (subst unat_add_no_wrap) simp_all
    then have nz1: "ss_IOcount s1 \<noteq> 0" by auto
    have "slot_prof i (refs i) 0 ls s1"
      using P' G u p(2) nz1 unfolding slot_prof_def by simp
    then show ?thesis by (auto simp: slot_active_def)
  qed
  then have "net_inv (refs(i := refs i)) (session_put st1 i s1)"
    using i A os small by (intro net_inv_put [OF inv1]) simp_all
  then show ?thesis using st' del A os by (auto simp: fun_upd_idem)
qed

end

end
