(* ===== verification/Frame_Loop.thy ===== *)
theory Frame_Loop
  imports Network_Inv
begin

text \<open>
  The loop of \<open>workerThread\<close> over the received frames, turn by turn: \<open>recv_loop\<close> is the repetition of \<open>recv_turn\<close>, what every turn
  keeps holds at the end, and a turn is a call of \<open>recvedPacket\<close> on a new block, of \<open>OnRecv\<close>, and the release of the block.
\<close>

section \<open>The loop over the frames, turn by turn\<close>

lemma recv_turn_body:
  "Option.bind (serializerAlloc st) (\<lambda>a.
     Option.bind (ser_inc (fst a) (snd a) 1) (\<lambda>b.
     Option.bind (ser_call (fst b) (snd a) (\<lambda>s. Some (sz_begin s, ()))) (\<lambda>c.
     Option.bind (session_at (fst c) i) (\<lambda>s.
     Option.bind (recvedPacket s (fst c) (snd a)) (\<lambda>r.
       let st1 = session_put (fst (snd r)) i (fst r) in
       if \<not> snd (snd r) then ser_release st1 (snd a)
       else
         Option.bind (tps_add (nw_recvMessageTPSArr st1) ti 1) (\<lambda>arr.
         Option.bind (cb_OnRecv cb (ss_ID (fst r)) (snd a) (st1\<lparr>nw_recvMessageTPSArr := arr\<rparr>)) (\<lambda>st2.
         Option.bind (ser_release st2 (snd a)) (\<lambda>st3. f st3)))))))) =
   Option.bind (recv_turn cb ti i st) (\<lambda>(st', go). if go then f st' else Some st')"
  by (simp add: recv_turn_def Let_def bind_assoc case_prod_unfold if_distrib [of "\<lambda>x. Option.bind x _"] cong: if_cong)

lemma recv_loop_turn:
  "recv_loop cb ti i st = Option.bind (recv_turn cb ti i st) (\<lambda>(st', go). if go then recv_loop cb ti i st' else Some st')"
  by (subst recv_loop.simps) (rule recv_turn_body)

text \<open>The rule for the loop: what every turn keeps, and what the last one gives.\<close>

lemma recv_loop_rule:
  assumes "recv_loop cb ti i st = Some r" "I st"
    and step: "\<And>st st' go. I st \<Longrightarrow> recv_turn cb ti i st = Some (st', go) \<Longrightarrow> if go then I st' else Q st'"
  shows "Q r"
proof -
  have "c = cb \<and> ti' = ti \<and> i' = i \<and> I st \<longrightarrow> Q r" if "recv_loop c ti' i' st = Some r" for c ti' i' st r
    using that
  proof (rule recv_loop.raw_induct [rotated])
    fix rec :: "'a network_scheme callbacks \<Rightarrow> u16 \<Rightarrow> nat \<Rightarrow> 'a network_scheme \<Rightarrow> 'a network_scheme option"
    fix c ti' i' st r
    assume IH: "\<And>c ti' i' st r. rec c ti' i' st = Some r \<Longrightarrow> c = cb \<and> ti' = ti \<and> i' = i \<and> I st \<longrightarrow> Q r"
      and body: "Option.bind (serializerAlloc st) (\<lambda>a.
     Option.bind (ser_inc (fst a) (snd a) 1) (\<lambda>b.
     Option.bind (ser_call (fst b) (snd a) (\<lambda>s. Some (sz_begin s, ()))) (\<lambda>d.
     Option.bind (session_at (fst d) i') (\<lambda>s.
     Option.bind (recvedPacket s (fst d) (snd a)) (\<lambda>r.
       let st1 = session_put (fst (snd r)) i' (fst r) in
       if \<not> snd (snd r) then ser_release st1 (snd a)
       else
         Option.bind (tps_add (nw_recvMessageTPSArr st1) ti' 1) (\<lambda>arr.
         Option.bind (cb_OnRecv c (ss_ID (fst r)) (snd a) (st1\<lparr>nw_recvMessageTPSArr := arr\<rparr>)) (\<lambda>st2.
         Option.bind (ser_release st2 (snd a)) (\<lambda>st3. rec c ti' i' st3)))))))) = Some r"
    show "c = cb \<and> ti' = ti \<and> i' = i \<and> I st \<longrightarrow> Q r"
    proof (intro impI, elim conjE)
      assume e: "c = cb" "ti' = ti" "i' = i" and I: "I st"
      obtain st' go where t: "recv_turn cb ti i st = Some (st', go)" "(if go then rec cb ti i st' else Some st') = Some r"
        using body unfolding recv_turn_body e by (auto simp: bind_eq_Some_conv)
      show "Q r" using step [OF I t(1)] t(2) IH [of cb ti i st' r] by (auto split: if_splits)
    qed
  qed
  then show ?thesis using assms(1,2) by blast
qed

lemma recv_turn_cases:
  assumes "recv_turn cb ti i st = Some (st', go)"
  obtains s p h s1 h1 where "session_at st i = Some s" "recvedPacket s h p = Some (s1, h1, go)"
    "pheap.more h1 = pheap.more st" "s1 = s\<lparr>ss_recvBuffer := ss_recvBuffer s1\<rparr>"
    "\<not> go \<longrightarrow> ser_release (session_put h1 i s1) p = Some st'"
    "go \<longrightarrow> (\<exists>arr st2. cb_OnRecv cb (ss_ID s1) p ((session_put h1 i s1)\<lparr>nw_recvMessageTPSArr := arr\<rparr>) = Some st2 \<and>
       ser_release st2 p = Some st')"
proof -
  obtain h1 p where a: "serializerAlloc st = Some (h1, p)" using assms by (auto simp: recv_turn_def split: bind_splits)
  obtain h2 n where b: "ser_inc h1 p 1 = Some (h2, n)" using assms a by (auto simp: recv_turn_def split: bind_splits)
  obtain h3 u where c: "ser_call h2 p (\<lambda>s. Some (sz_begin s, ())) = Some (h3, u)"
    using assms a b by (auto simp: recv_turn_def split: bind_splits)
  obtain s where s: "session_at h3 i = Some s" using assms a b c by (auto simp: recv_turn_def split: bind_splits)
  obtain s1 h4 ok where r: "recvedPacket s h3 p = Some (s1, h4, ok)"
    using assms a b c s by (auto simp: recv_turn_def split: bind_splits)
  note F = recvedPacket_frame_session [OF r]
  have m: "pheap.more h1 = pheap.more st" "pheap.more h2 = pheap.more h1" "pheap.more h3 = pheap.more h2"
    using a b c
    by (auto simp: serializerAlloc_def pool_Alloc_def ser_inc_def ser_call_def ser_put_def split: bind_splits list.splits prod.splits)
  then have m3: "pheap.more h3 = pheap.more st" by simp
  have at: "session_at st i = Some s" using s by (simp add: session_at_def network_of_more [OF m3] split: if_splits)
  have e: "(if \<not> ok then do { st2 \<leftarrow> ser_release (session_put h4 i s1) p; Some (st2, False) }
     else do { arr \<leftarrow> tps_add (nw_recvMessageTPSArr (session_put h4 i s1)) ti 1;
               st2 \<leftarrow> cb_OnRecv cb (ss_ID s1) p ((session_put h4 i s1)\<lparr>nw_recvMessageTPSArr := arr\<rparr>);
               st3 \<leftarrow> ser_release st2 p; Some (st3, True) }) = Some (st', go)"
    using assms by (simp add: recv_turn_def a b c s r Let_def)
  then have ok: "ok = go" by (auto split: if_splits bind_splits)
  show thesis
    by (rule that [OF at r [unfolded ok]]) (use e ok F m3 in \<open>auto split: if_splits bind_splits\<close>)
qed

end
