(* ===== verification/Network_Safety.thy ===== *)
theory Network_Safety
  imports Network_Handlers Frame_Loop
begin

text \<open>
  The server as a transition system. A step is an accepted connection, a completion that the
  kernel owes and a worker takes, or a request of the application from outside a handler; the
  invariant of \<open>Network_Inv\<close> holds in every reachable state.
\<close>

section \<open>Session identifiers\<close>

lemma GET_INDEX_MAKE [simp]: "GET_INDEX (MAKE_SESSION_ID c idx) = idx"
  unfolding GET_INDEX_def MAKE_SESSION_ID_def
  by (rule bit_word_eqI) (auto simp: bit_simps)

lemma MAKE_SESSION_ID_eq:
  "MAKE_SESSION_ID c i = MAKE_SESSION_ID d j \<longleftrightarrow> i = j \<and> take_bit 16 c = take_bit 16 d"
proof
  assume e: "MAKE_SESSION_ID c i = MAKE_SESSION_ID d j"
  then have ij: "i = j" using GET_INDEX_MAKE by metis
  have "bit c n = bit d n" if n: "n < 16" for n
  proof -
    have "\<not> bit (ucast i :: u64) (48 + n)" by (auto simp: bit_simps dest: bit_imp_le_length)
    moreover have "bit (MAKE_SESSION_ID c i) (48 + n) = bit (MAKE_SESSION_ID d j) (48 + n)" by (simp add: e)
    ultimately show ?thesis using n by (simp add: MAKE_SESSION_ID_def ij bit_simps)
  qed
  then have "take_bit 16 c = take_bit 16 d" by (intro bit_word_eqI) (auto simp: bit_simps)
  with ij show "i = j \<and> take_bit 16 c = take_bit 16 d" ..
next
  assume e: "i = j \<and> take_bit 16 c = take_bit 16 d"
  then have b: "bit c n = bit d n" if "n < 16" for n
    using that by (metis bit_take_bit_iff)
  show "MAKE_SESSION_ID c i = MAKE_SESSION_ID d j"
    unfolding MAKE_SESSION_ID_def using e b
    by (intro bit_word_eqI) (auto simp: bit_simps)
qed

section \<open>The handlers\<close>

context net_callbacks
begin

lemma init_prof:
  assumes "slot_free 0 s" "unat (GET_INDEX sid) = i"
  shows "slot_prof i 1 0 0 (session_init s sid sock port ip)"
    "ss_inflight (session_init s sid sock port ip) = []"
proof -
  have "ss_IOcount (session_init s sid sock port ip) = (ss_IOcount s + 1) AND 0x7fffffff"
    by (simp add: session_init_def incrementIO_def Let_def)
  then have c: "ss_IOcount (session_init s sid sock port ip) = 1"
    using assms(1) by (auto simp: slot_free_def)
  have f: "ss_inflight (session_init s sid sock port ip) = ss_inflight s" "ss_ID (session_init s sid sock port ip) = sid"
    by (simp_all add: session_init_def incrementIO_def Let_def)
  show "ss_inflight (session_init s sid sock port ip) = []" using f assms(1) by (simp add: slot_free_def)
  show "slot_prof i 1 0 0 (session_init s sid sock port ip)"
    using assms by (simp add: slot_prof_def c f slot_free_def)
qed

lemma accept_inv:
  assumes inv: "net_inv (\<lambda>_. 0) st" and a: "accept_step cb sock ip port st = Some st'"
  shows "net_inv (\<lambda>_. 0) st'"
proof -
  let ?st0 = "st\<lparr>nw_acceptTPSArr := nw_acceptTPSArr st + 1, nw_acceptTotal := nw_acceptTotal st + 1\<rparr>"
  have inv0: "net_inv (\<lambda>_. 0) ?st0" by (rule neutral_inv [OF inv]) (rule neutral_same_array; simp)
  show ?thesis
  proof (cases "sock = INVALID_SOCKET")
    case True
    then show ?thesis using a inv0 by (simp add: accept_step_def Let_def)
  next
    case sock: False
    obtain st1 ok where rq: "cb_OnConnectionRequest cb ip port ?st0 = Some (st1, ok)"
      using a sock by (auto simp: accept_step_def Let_def split: bind_splits)
    have inv1: "net_inv (\<lambda>_. 0) st1"
      by (rule neutral_inv [OF inv0]) (rule neutral_same_array; use request_law [OF rq] in simp)
    show ?thesis
    proof (cases "\<not> ok \<or> nw_indexStack st1 = []")
      case True
      then have "st' = os_log st1 (CloseSocket sock)"
        using a sock rq by (cases ok) (simp_all add: accept_step_def Let_def)
      then show ?thesis using inv1 by simp
    next
      case False
      then obtain index rest where ok: "ok" and stk: "nw_indexStack st1 = index # rest"
        by (cases "nw_indexStack st1") auto
      define i where "i = unat index"
      define sid where "sid = MAKE_SESSION_ID (nw_sessionCount st1) index"
      define st3 where "st3 = st1\<lparr>nw_indexStack := rest, nw_sessionCount := nw_sessionCount st1 + 1\<rparr>"
      have os1: "on_stack st1 i" by (simp add: on_stack_def stk i_def)
      have i: "i < length (nw_sessionArray st1)" using inv1 os1 unfolding net_inv_def by blast
      have arr3: "nw_sessionArray st3 = nw_sessionArray st1" by (simp add: st3_def)
      let ?s = "nw_sessionArray st1 ! i"
      let ?s' = "session_init ?s sid sock port ip"
      let ?st3' = "session_put st3 i ?s'"
      obtain st4 st5 where st4: "cb_OnNewConnect cb sid ?st3' = Some st4"
        and st5: "net_recvIO (cb_OnDisconnect cb) i st4 = Some st5"
        and st': "session_release (cb_OnDisconnect cb) i st5 = Some st'"
        using a sock rq ok i
        by (auto simp: accept_step_def Let_def stk session_at_def arr3 i_def [symmetric] sid_def [symmetric]
            st3_def [symmetric] split: bind_splits)
      have nd: "index \<notin> set rest" using inv1 unfolding net_inv_def stk by simp
      have os3: "on_stack st3 j \<longleftrightarrow> on_stack st1 j \<and> j \<noteq> i" for j
        using nd by (auto simp: on_stack_def st3_def stk i_def simp flip: word_unat_eq_iff)
      have sf: "slot_free 0 ?s" using net_inv_slot(1) [OF inv1 i os1] .
      have gi: "unat (GET_INDEX sid) = i" by (simp add: sid_def i_def)
      note P = init_prof [OF sf gi, of sock port ip]
      let ?refs = "(\<lambda>_. 0)(i := 1) :: nat \<Rightarrow> nat"
      have sa: "slot_active i 1 ?s'" using P(1) by (auto simp: slot_active_def)
      have inv3: "net_inv ?refs ?st3'"
        using inv1 i os3 sa unfolding net_inv_def by (auto simp: array_put_nth arr3 st3_def stk)
      have id': "ss_ID ?s' = sid" by (simp add: session_init_def incrementIO_def Let_def)
      have len3: "i < length (nw_sessionArray ?st3')" "\<not> on_stack ?st3' i" using i os3 by (simp_all add: arr3)
      have con: "connected ?st3' sid" using len3 id' i by (simp add: connected_def gi array_put_nth arr3)
      note n4 = connect_law [OF inv3 con st4]
      have inv4: "net_inv ?refs st4" by (rule neutral_inv [OF inv3 n4])
      have len4: "i < length (nw_sessionArray st4)" "\<not> on_stack st4 i"
        using len3 n4 neutral_on_stack [OF n4] by (simp_all add: neutral_def)
      have g: "grow ?s' (nw_sessionArray st4 ! i)" 
      proof -
        have "grow (nw_sessionArray ?st3' ! i) (nw_sessionArray st4 ! i)"
          using n4 len3(1) unfolding neutral_def by blast
        then show ?thesis using i by (simp add: array_put_nth arr3)
      qed
      have P4: "slot_prof i (?refs i) 0 0 (nw_sessionArray st4 ! i)"
        "count_list (ss_inflight (nw_sessionArray st4 ! i)) Recv_io = 0"
        using prof_grow [OF P(1) g] P(2) by simp_all
      have R: "net_inv ?refs st5" "length (nw_sessionArray st5) = length (nw_sessionArray st4)" "on_stack st5 = on_stack st4"
        using net_recvIO_inv [OF inv4 len4 P4 st5] by blast+
      have "net_inv (?refs(i := ?refs i - 1)) st'"
        by (rule release_inv [OF R(1) _ _ _ st']) (use R len4 in simp_all)
      then show ?thesis by (simp add: fun_upd_idem)
    qed
  qed
qed

lemma recv_turn_neutral:
  assumes t: "recv_turn cb ti i st = Some (st', go)"
    and inv: "net_inv refs st" and i: "i < length (nw_sessionArray st)" "\<not> on_stack st i"
  shows "neutral st st'"
proof -
  obtain s p h s1 h1 where s: "session_at st i = Some s" and "recvedPacket s h p = Some (s1, h1, go)"
    and m: "pheap.more h1 = pheap.more st" and e: "s1 = s\<lparr>ss_recvBuffer := ss_recvBuffer s1\<rparr>"
    and f: "\<not> go \<longrightarrow> ser_release (session_put h1 i s1) p = Some st'"
    and g: "go \<longrightarrow> (\<exists>arr st2. cb_OnRecv cb (ss_ID s1) p ((session_put h1 i s1)\<lparr>nw_recvMessageTPSArr := arr\<rparr>) = Some st2 \<and> ser_release st2 p = Some st')"
    by (rule recv_turn_cases [OF t])
  let ?st1 = "session_put h1 i s1"
  have s': "nw_sessionArray st ! i = s" using s by (auto simp: session_at_def split: if_splits)
  have A: "nw_sessionArray h1 = nw_sessionArray st" "nw_indexStack h1 = nw_indexStack st" using network_of_more [OF m] by simp_all
  have n1: "neutral st ?st1"
  proof -
    have "neutral st h1" by (rule neutral_same_array) (simp_all add: A)
    moreover have "grow s s1" by (rule grow_same) (subst e, simp)+
    then have "neutral h1 ?st1" using i(1) by (intro neutral_put) (simp_all add: A s', subst e, simp)
    ultimately show ?thesis by (rule neutral_trans)
  qed
  show ?thesis
  proof (cases go)
    case False
    then show ?thesis using neutral_trans [OF n1 neutral_heap] ser_release_more f by blast
  next
    case True
    then obtain arr st2 where st2: "cb_OnRecv cb (ss_ID s1) p (?st1\<lparr>nw_recvMessageTPSArr := arr\<rparr>) = Some st2" "ser_release st2 p = Some st'"
      using g by blast
    let ?st1' = "?st1\<lparr>nw_recvMessageTPSArr := arr\<rparr>"
    have n1': "neutral st ?st1'" by (rule neutral_trans [OF n1 neutral_same_array]) simp_all
    have inv1: "net_inv refs ?st1'" by (rule neutral_inv [OF inv n1'])
    have len1: "i < length (nw_sessionArray ?st1')" "\<not> on_stack ?st1' i"
      using i neutral_on_stack [OF n1'] by (simp_all add: A)
    have s1at: "nw_sessionArray ?st1' ! i = s1" using i(1) by (simp add: array_put_nth A)
    have "slot_active i (refs i) s1" using net_inv_slot(2) [OF inv1 len1] s1at by simp
    then have "unat (GET_INDEX (ss_ID s1)) = i" "ss_IOcount s1 \<noteq> 0" by (auto simp: slot_active_def slot_prof_def)
    then have used: "slot_used ?st1' (ss_ID s1)" using len1(1) s1at by (simp add: slot_used_def)
    have "neutral ?st1' st2" by (rule recv_law [OF inv1 used st2(1)])
    moreover have "neutral st2 st'" by (rule neutral_heap) (rule ser_release_more [OF st2(2)])
    ultimately show ?thesis using n1' by (meson neutral_trans)
  qed
qed

lemma recv_loop_neutral:
  assumes r: "recv_loop cb ti i st = Some st'"
    and inv: "net_inv refs st" and i: "i < length (nw_sessionArray st)" "\<not> on_stack st i"
  shows "neutral st st'"
proof (rule recv_loop_rule [OF r, of "neutral st"])
  fix x x' go
  assume n: "neutral st x" and t: "recv_turn cb ti i x = Some (x', go)"
  have "neutral x x'"
    by (rule recv_turn_neutral [OF t neutral_inv [OF inv n]]) (use i n neutral_on_stack [OF n] in \<open>simp_all add: neutral_def\<close>)
  then show "if go then neutral st x' else neutral st x'" using neutral_trans [OF n] by simp
qed (rule neutral_refl)


lemma deliver_facts:
  assumes inv: "net_inv (\<lambda>_. 0) st" and at: "session_at st i = Some s"
    and op: "completion_op s overlap \<in> set (ss_inflight s)"
    and d: "iocp_deliver i overlap data st = Some st1"
  obtains s1 lr ls where "session_at st1 i = Some s1" "i < length (nw_sessionArray st)" "\<not> on_stack st i"
    "net_inv ((\<lambda>_. 0)(i := 1)) st1" "\<not> on_stack st1 i" "i < length (nw_sessionArray st1)"
    "slot_prof i 1 lr ls s1"
    "completion_op s overlap = Recv_io \<longrightarrow> lr = 0 \<and> count_list (ss_inflight s1) Recv_io = 0"
    "completion_op s overlap = Send_io \<longrightarrow> ls = 0 \<and> count_list (ss_inflight s1) Send_io = 0 \<and> ss_sendFlag s1 = 1"
    "ss_sendOverlapped s1 = ss_sendOverlapped s" "ss_recvOverlapped s1 = ss_recvOverlapped s"
proof -
  have i: "i < length (nw_sessionArray st)" "nw_sessionArray st ! i = s" using session_atD [OF at] by simp_all
  have ns: "\<not> on_stack st i"
    using net_inv_slot(1) [OF inv i(1)] op by (auto simp: i(2) slot_free_def)
  obtain lr ls where P: "slot_prof i 0 lr ls s"
    using net_inv_slot(2) [OF inv i(1) ns] by (auto simp: slot_active_def i(2))
  note P' = P [unfolded slot_prof_def]
  let ?op = "completion_op s overlap"
  obtain rb where ra: "recv_arrive s data = Some (s\<lparr>ss_recvBuffer := rb\<rparr>)"
    using d at by (auto simp: iocp_deliver_def recv_arrive_def split: bind_splits)
  let ?s1 = "s\<lparr>ss_recvBuffer := rb, ss_inflight := remove1 ?op (ss_inflight s)\<rparr>"
  have st1: "st1 = session_put st i ?s1" using d at ra by (simp add: iocp_deliver_def)
  have len: "length (ss_inflight s) = Suc (length (remove1 ?op (ss_inflight s)))"
    using op by (simp add: length_remove1) (metis Suc_pred length_pos_if_in_set)
  have cnt: "count_list (remove1 ?op xs) x = count_list xs x - (if x = ?op \<and> ?op \<in> set xs then 1 else 0)" for xs x
    by (induction xs) (auto simp: count_list_0_iff)
  have c1: "?op \<in> set xs \<Longrightarrow> 1 \<le> count_list xs ?op" for xs
    by (induction xs) auto
  have k: "1 \<le> count_list (ss_inflight s) ?op" using c1 op by blast
  have P1: "slot_prof i 1 lr ls ?s1"
    using P' len cnt [of "ss_inflight s"] unfolding slot_prof_def by auto
  have inv1: "net_inv ((\<lambda>_. 0)(i := 1)) st1"
    unfolding st1 using P1 by (intro net_inv_put [OF inv i(1) ns]) (auto simp: slot_active_def)
  show thesis
  proof (rule that)
    show "session_at st1 i = Some ?s1" using i(1) by (simp add: st1)
    show "?op = Recv_io \<longrightarrow> lr = 0 \<and> count_list (ss_inflight ?s1) Recv_io = 0"
      using P' k cnt [of "ss_inflight s" Recv_io] op by auto
    show "?op = Send_io \<longrightarrow> ls = 0 \<and> count_list (ss_inflight ?s1) Send_io = 0 \<and> ss_sendFlag ?s1 = 1"
      using P' k cnt [of "ss_inflight s" Send_io] op by auto
  qed (use i ns P1 inv1 in \<open>simp_all add: st1\<close>)
qed

text \<open>A reference that is not given back is a lost one: what the two \<open>continue\<close> branches do.\<close>

lemma lose_inv:
  assumes inv: "net_inv ((\<lambda>_. 0)(i := 1)) st" and i: "i < length (nw_sessionArray st)" "\<not> on_stack st i"
    and p: "slot_prof i 1 lr ls (nw_sessionArray st ! i)"
    and q: "slot_prof i 1 lr ls (nw_sessionArray st ! i) \<Longrightarrow> slot_prof i 0 lr' ls' (nw_sessionArray st ! i)"
  shows "net_inv (\<lambda>_. 0) st"
proof -
  have "session_put st i (nw_sessionArray st ! i) = st" by (rule session_put_same) (simp add: session_atI i)
  moreover have "slot_active i 0 (nw_sessionArray st ! i)" using q [OF p] by (auto simp: slot_active_def)
  then have "net_inv (((\<lambda>_. 0)(i := 1))(i := 0)) (session_put st i (nw_sessionArray st ! i))"
    by (intro net_inv_put [OF inv i]) simp_all
  ultimately show ?thesis by (simp add: fun_upd_idem)
qed

lemma worker_release:
  assumes "net_inv ((\<lambda>_. 0)(i := 1)) st" "i < length (nw_sessionArray st)" "\<not> on_stack st i"
    and "session_release (cb_OnDisconnect cb) i st = Some st'"
  shows "net_inv (\<lambda>_. 0) st'"
  using release_inv [OF assms(1-3) _ assms(4)] by (simp add: fun_upd_idem)

lemma worker_send_release:
  assumes inv: "net_inv ((\<lambda>_. 0)(i := 1)) st" and i: "i < length (nw_sessionArray st)" "\<not> on_stack st i"
    and s: "net_sendIO (cb_OnDisconnect cb) i st = Some st1" and r: "session_release (cb_OnDisconnect cb) i st1 = Some st'"
  shows "net_inv (\<lambda>_. 0) st'"
proof -
  have R: "net_inv ((\<lambda>_. 0)(i := 1)) st1" "length (nw_sessionArray st1) = length (nw_sessionArray st)" "on_stack st1 = on_stack st"
    using net_sendIO_inv [OF inv i s] by blast+
  show ?thesis by (rule worker_release [OF R(1) _ _ r]) (use R i in simp_all)
qed

lemma worker_inv:
  assumes inv: "net_inv (\<lambda>_. 0) st" and at: "session_at st i = Some s"
    and op: "completion_op s overlap \<in> set (ss_inflight s)"
    and d: "iocp_deliver i overlap data st = Some st1"
    and w: "worker_step cb ti ok transfer (Some i) overlap st1 = Some (st', b)"
  shows "net_inv (\<lambda>_. 0) st'"
proof -
  let ?refs = "(\<lambda>_. 0)(i := 1) :: nat \<Rightarrow> nat"
  obtain s1 lr ls where D: "session_at st1 i = Some s1" "i < length (nw_sessionArray st)" "\<not> on_stack st i"
    "net_inv ?refs st1" "\<not> on_stack st1 i" "i < length (nw_sessionArray st1)" "slot_prof i 1 lr ls s1"
    and Dr: "completion_op s overlap = Recv_io \<longrightarrow> lr = 0 \<and> count_list (ss_inflight s1) Recv_io = 0"
    and Ds: "completion_op s overlap = Send_io \<longrightarrow> ls = 0 \<and> count_list (ss_inflight s1) Send_io = 0 \<and> ss_sendFlag s1 = 1"
    and Do: "ss_sendOverlapped s1 = ss_sendOverlapped s" "ss_recvOverlapped s1 = ss_recvOverlapped s"
    by (rule deliver_facts [OF inv at op d])
  note inv1 = D(4) and i = D(6,5)
  have s1: "nw_sessionArray st1 ! i = s1" using session_atD [OF D(1)] by simp
  let ?od = "cb_OnDisconnect cb"
  consider (plain) "session_release ?od i st1 = Some st'"
    | (post) "ok" "transfer = 0" "requestCheck overlap = sendReq_event"
    | (send) "ok" "transfer \<noteq> 0" "sendOverlappedCheck s1 overlap"
    | (recv) "ok" "transfer \<noteq> 0" "\<not> sendOverlappedCheck s1 overlap" "recvOverlappedCheck s1 overlap"
    using w D(1)
    by (cases ok; cases "transfer = 0"; cases "requestCheck overlap = sendReq_event";
        cases "sendOverlappedCheck s1 overlap"; cases "recvOverlappedCheck s1 overlap")
       (auto simp: worker_step_def Let_def split: bind_splits)
  then show ?thesis
  proof cases
    case plain
    then show ?thesis by (rule worker_release [OF inv1 i])
  next
    case post
    let ?p = "overlap AND NOT reqFilter"
    obtain s2 ok2 where cs: "collectSendPacket s1 ?p = Some (s2, ok2)"
      using w D(1) post by (auto simp: worker_step_def Let_def split: bind_splits)
    have s2: "s2 = s1\<lparr>ss_sendBuffer := ss_sendBuffer s2\<rparr>"
      using cs by (auto simp: collectSendPacket_def split: bind_splits)
    have g: "grow s1 s2" "ss_inflight s2 = ss_inflight s1" by (rule grow_same) (subst s2, simp)+
    let ?st2 = "session_put st1 i s2"
    have n: "neutral st1 ?st2" using i g by (intro neutral_put) (simp_all add: s1)
    have inv2: "net_inv ?refs ?st2" by (rule neutral_inv [OF inv1 n])
    have i2: "i < length (nw_sessionArray ?st2)" "\<not> on_stack ?st2 i" using i by simp_all
    show ?thesis
    proof (cases ok2)
      case True
      obtain st3 where "net_sendIO ?od i ?st2 = Some st3" "session_release ?od i st3 = Some st'"
        using w D(1) post cs True by (auto simp: worker_step_def Let_def split: bind_splits)
      then show ?thesis by (rule worker_send_release [OF inv2 i2])
    next
      case False
      obtain st3 where r3: "ser_release ?st2 ?p = Some st3" and rel: "session_release ?od i st3 = Some st'"
        using w D(1) post cs False by (auto simp: worker_step_def Let_def split: bind_splits)
      have n3: "neutral ?st2 st3" by (rule neutral_heap) (rule ser_release_more [OF r3])
      have "i < length (nw_sessionArray st3)" "\<not> on_stack st3 i"
        using i2 n3 neutral_on_stack [OF n3] by (simp_all add: neutral_def)
      then show ?thesis by (rule worker_release [OF neutral_inv [OF inv2 n3] _ _ rel])
    qed
  next
    case send
    have opS: "completion_op s overlap = Send_io"
      using send(3) Do by (simp add: completion_op_def sendOverlappedCheck_def)
    note S = mp [OF Ds opS]
    have used: "slot_used st1 (ss_ID s1)"
      using D(7) i s1 by (auto simp: slot_used_def slot_prof_def)
    obtain st2 where st2: "cb_OnSend cb (ss_ID s1) transfer st1 = Some st2"
      using w D(1) send by (auto simp: worker_step_def Let_def split: bind_splits)
    have n2: "neutral st1 st2" by (rule send_law [OF inv1 used st2])
    have i2: "i < length (nw_sessionArray st2)" "\<not> on_stack st2 i"
      using i n2 neutral_on_stack [OF n2] by (simp_all add: neutral_def)
    let ?s2 = "nw_sessionArray st2 ! i"
    have at2: "session_at st2 i = Some ?s2" using i2 by (simp add: session_atI)
    have g2: "grow s1 ?s2" using n2 i(1) s1 unfolding neutral_def by blast
    note P2 = prof_grow [OF D(7) g2]
    have sf2: "ss_sendFlag ?s2 = 1" using g2 S by (simp add: grow_def)
    obtain s3 st3 t3 tp where sd: "sended ?s2 st2 transfer = Some (s3, st3, t3, tp)"
      using w D(1) send st2 at2 by (auto simp: worker_step_def Let_def split: bind_splits)
    note F = sended_frame [OF sd]
    have A3: "nw_sessionArray st3 = nw_sessionArray st2" "nw_indexStack st3 = nw_indexStack st2"
      using network_of_more [OF F(1)] by simp_all
    have f3: "ss_inflight s3 = ss_inflight ?s2" "ss_IOcount s3 = ss_IOcount ?s2" "ss_sendFlag s3 = ss_sendFlag ?s2"
      "ss_ID s3 = ss_ID ?s2"
      by (subst F(2), simp)+
    let ?st3 = "session_put st3 i s3"
    have n3: "neutral st2 ?st3"
    proof -
      have "neutral st2 st3" by (rule neutral_same_array) (simp_all add: A3)
      moreover have "neutral st3 ?st3"
        using i2 f3 by (intro neutral_put) (simp_all add: A3 grow_same)
      ultimately show ?thesis by (rule neutral_trans)
    qed
    have inv3: "net_inv ?refs ?st3" by (rule neutral_inv [OF neutral_inv [OF inv1 n2] n3])
    have i3: "i < length (nw_sessionArray ?st3)" "\<not> on_stack ?st3 i"
      using i2 by (simp_all add: A3 on_stack_def)
    have P3: "slot_prof i 1 lr ls s3" "count_list (ss_inflight s3) Send_io = 0"
      using P2 S f3 by (simp_all add: slot_prof_def)
    have at3: "nw_sessionArray ?st3 ! i = s3" using i3 by (simp add: array_put_nth A3)
    show ?thesis
    proof (cases "tp = -1")
      case True
      have "st' = ?st3" using w D(1) send st2 at2 sd True by (auto simp: worker_step_def Let_def split: bind_splits)
      moreover have "net_inv (\<lambda>_. 0) ?st3"
      proof (rule lose_inv [OF inv3 i3])
        show "slot_prof i 1 lr ls (nw_sessionArray ?st3 ! i)" using P3 at3 by simp
        show "slot_prof i 0 lr 1 (nw_sessionArray ?st3 ! i)"
          using P3 S sf2 f3(3) by (simp add: at3 slot_prof_def)
      qed
      ultimately show ?thesis by simp
    next
      case False
      let ?s4 = "s3\<lparr>ss_sendFlag := 0\<rparr>"
      obtain arr where arr: "tps_add (nw_sendMessageTPSArr ?st3) ti tp = Some arr"
        using w D(1) send st2 at2 sd False by (auto simp: worker_step_def Let_def split: bind_splits)
      let ?st4 = "session_put (?st3\<lparr>nw_sendMessageTPSArr := arr\<rparr>) i ?s4"
      have P4: "slot_prof i 1 lr 0 ?s4" using P3 S by (simp add: slot_prof_def)
      have inv4: "net_inv ?refs ?st4"
      proof -
        have "net_inv ?refs (?st3\<lparr>nw_sendMessageTPSArr := arr\<rparr>)"
          by (rule neutral_inv [OF inv3]) (rule neutral_same_array; simp)
        moreover have "on_stack (?st3\<lparr>nw_sendMessageTPSArr := arr\<rparr>) i = on_stack ?st3 i" by (simp add: on_stack_def)
        ultimately have "net_inv (?refs(i := 1)) ?st4"
          using i3 P4 by (intro net_inv_put) (auto simp: slot_active_def)
        then show ?thesis by simp
      qed
      have i4: "i < length (nw_sessionArray ?st4)" "\<not> on_stack ?st4 i"
        using i3 by (simp_all add: on_stack_def)
      show ?thesis
      proof (cases "0 < sint (lfq_sizeFn (ss_sendBuffer ?s4))")
        case True
        obtain st5 where "net_sendIO ?od i ?st4 = Some st5" "session_release ?od i st5 = Some st'"
          using w D(1) send st2 at2 sd False arr True
          by (auto simp: worker_step_def Let_def split: bind_splits)
        then show ?thesis by (rule worker_send_release [OF inv4 i4])
      next
        case nosend: False
        have "session_release ?od i ?st4 = Some st'"
          using w D(1) send st2 at2 sd False arr nosend
          by (auto simp: worker_step_def Let_def split: bind_splits)
        then show ?thesis by (rule worker_release [OF inv4 i4])
      qed
    qed
  next
    case recv
    have opR: "completion_op s overlap = Recv_io"
      using recv(3,4) Do by (simp add: completion_op_def sendOverlappedCheck_def recvOverlappedCheck_def)
    note R = mp [OF Dr opR]
    obtain s2 ok2 where rv: "recved s1 transfer = (s2, ok2)" by (cases "recved s1 transfer")
    have f2: "ss_inflight s2 = ss_inflight s1" "ss_IOcount s2 = ss_IOcount s1" "ss_sendFlag s2 = ss_sendFlag s1"
      "ss_ID s2 = ss_ID s1"
      using rv by (auto simp: recved_def split: if_splits)
    let ?st2 = "session_put st1 i s2"
    have n2: "neutral st1 ?st2" using i f2 by (intro neutral_put) (simp_all add: s1 grow_same)
    have inv2: "net_inv ?refs ?st2" by (rule neutral_inv [OF inv1 n2])
    have i2: "i < length (nw_sessionArray ?st2)" "\<not> on_stack ?st2 i" using i by simp_all
    have at2: "nw_sessionArray ?st2 ! i = s2" using i by (simp add: array_put_nth)
    have P2: "slot_prof i 1 lr ls s2" "count_list (ss_inflight s2) Recv_io = 0" "lr = 0"
      using D(7) R f2 by (simp_all add: slot_prof_def)
    show ?thesis
    proof (cases ok2)
      case False
      have "st' = ?st2" using w D(1) recv rv False by (simp add: worker_step_def Let_def)
      moreover have "net_inv (\<lambda>_. 0) ?st2"
      proof (rule lose_inv [OF inv2 i2])
        show "slot_prof i 1 lr ls (nw_sessionArray ?st2 ! i)" using P2 at2 by simp
        show "slot_prof i 0 1 ls (nw_sessionArray ?st2 ! i)" using P2 by (simp add: at2 slot_prof_def)
      qed
      ultimately show ?thesis by simp
    next
      case True
      obtain st3 st4 where lp: "recv_loop cb ti i ?st2 = Some st3" and io: "net_recvIO ?od i st3 = Some st4"
        and rel: "session_release ?od i st4 = Some st'"
        using w D(1) recv rv True by (auto simp: worker_step_def Let_def split: bind_splits)
      have n3: "neutral ?st2 st3" by (rule recv_loop_neutral [OF lp inv2 i2])
      have inv3: "net_inv ?refs st3" by (rule neutral_inv [OF inv2 n3])
      have i3: "i < length (nw_sessionArray st3)" "\<not> on_stack st3 i"
        using i2 n3 neutral_on_stack [OF n3] by (simp_all add: neutral_def)
      have g3: "grow s2 (nw_sessionArray st3 ! i)" using n3 i2(1) at2 unfolding neutral_def by metis
      have P3: "slot_prof i (?refs i) 0 ls (nw_sessionArray st3 ! i)"
        "count_list (ss_inflight (nw_sessionArray st3 ! i)) Recv_io = 0"
        using prof_grow [OF P2(1) g3] P2(2,3) by simp_all
      have Q: "net_inv ?refs st4" "length (nw_sessionArray st4) = length (nw_sessionArray st3)" "on_stack st4 = on_stack st3"
        using net_recvIO_inv [OF inv3 i3 P3 io] by blast+
      show ?thesis by (rule worker_release [OF Q(1) _ _ rel]) (use Q i3 in simp_all)
    qed
  qed
qed

end


section \<open>Reachable states\<close>

lemma sendReq_packet_eq:
  assumes "packet_copy st k = Some (st0, p)"
  shows "sendReq_packet od sid k st =
    do { st5 \<leftarrow> sendReq od sid (pk_buffer k) st0; (st6, _) \<leftarrow> packet_delete st5 p; Some st6 }"
    "pheap.more st0 = pheap.more st" "pk_buffer p = pk_buffer k"
proof -
  have nz: "pk_buffer k \<noteq> 0" and p: "pk_buffer p = pk_buffer k"
    using assms by (auto simp: packet_copy_def ser_inc_def ser_call_def ser_at_def split: bind_splits if_splits)
  then show "sendReq_packet od sid k st =
    do { st5 \<leftarrow> sendReq od sid (pk_buffer k) st0; (st6, _) \<leftarrow> packet_delete st5 p; Some st6 }"
    using assms
    by (simp add: sendReq_packet_def sendReq_def packet_incReferenceCounter_def bind_assoc case_prod_unfold
        cong: option.case_cong)
  show "pk_buffer p = pk_buffer k" by (rule p)
  show "pheap.more st0 = pheap.more st"
    using assms by (auto simp: packet_copy_def ser_inc_def ser_call_def ser_put_def split: bind_splits prod.splits)
qed

lemma packet_delete_more: "packet_delete st p = Some (st', out) \<Longrightarrow> pheap.more st' = pheap.more st"
  by (auto simp: packet_delete_def ser_dec_def ser_call_def ser_put_def serializerFree_def pool_Free_def Let_def
      split: bind_splits if_splits prod.splits)

lemma used_more:
  assumes "pheap.more st' = pheap.more st"
  shows "slot_used st' sid = slot_used st sid" "connected st' sid = connected st sid"
  using network_of_more [OF assms] by (simp_all add: slot_used_def connected_def on_stack_def)

lemma sendReq_packet_neutral:
  assumes inv: "net_inv refs st" and used: "slot_used st sid" and r: "sendReq_packet od sid k st = Some st'"
  shows "neutral st st'"
proof -
  obtain st0 p where c: "packet_copy st k = Some (st0, p)"
    using r by (auto simp: sendReq_packet_def split: bind_splits)
  note E = sendReq_packet_eq [OF c]
  obtain st5 out where s5: "sendReq od sid (pk_buffer k) st0 = Some st5" and d: "packet_delete st5 p = Some (st', out)"
    using r by (auto simp: E(1) split: bind_splits)
  have n0: "neutral st st0" by (rule neutral_heap [OF E(2)])
  have "neutral st0 st5"
    by (rule sendReq_neutral [OF neutral_inv [OF inv n0] _ s5]) (simp add: used used_more [OF E(2)])
  moreover have "neutral st5 st'" by (rule neutral_heap) (rule packet_delete_more [OF d])
  ultimately show ?thesis using n0 by (meson neutral_trans)
qed

inductive net_step :: "'a network_scheme callbacks \<Rightarrow> 'a network_scheme \<Rightarrow> 'a network_scheme \<Rightarrow> bool"
  for cb where
  step_accept: "accept_step cb sock ip port st = Some st' \<Longrightarrow> net_step cb st st'"
| step_complete: "session_at st i = Some s \<Longrightarrow> completion_op s overlap \<in> set (ss_inflight s) \<Longrightarrow>
    iocp_deliver i overlap data st = Some st1 \<Longrightarrow>
    worker_step cb ti ok transfer (Some i) overlap st1 = Some (st', b) \<Longrightarrow> net_step cb st st'"
| step_disconnect: "slot_used st sid \<Longrightarrow> disconnectReq (cb_OnDisconnect cb) sid st = Some st' \<Longrightarrow> net_step cb st st'"
| step_send: "slot_used st sid \<Longrightarrow> sendReq (cb_OnDisconnect cb) sid p st = Some st' \<Longrightarrow> net_step cb st st'"
| step_send_packet: "slot_used st sid \<Longrightarrow> sendReq_packet (cb_OnDisconnect cb) sid k st = Some st' \<Longrightarrow> net_step cb st st'"
| step_statistics: "networkThread_step now past st = Some (st', t) \<Longrightarrow> net_step cb st st'"

inductive_cases net_stepE: "net_step cb st st'"

inductive net_reach :: "'a network_scheme callbacks \<Rightarrow> 'a network_scheme \<Rightarrow> 'a network_scheme \<Rightarrow> bool"
  for cb st0 where
  reach_start: "net_reach cb st0 st0"
| reach_step: "net_reach cb st0 st \<Longrightarrow> net_step cb st st' \<Longrightarrow> net_reach cb st0 st'"

context net_callbacks
begin

lemma step_inv:
  assumes "net_step cb st st'" "net_inv (\<lambda>_. 0) st"
  shows "net_inv (\<lambda>_. 0) st'"
  using assms
proof (cases rule: net_step.cases)
  case (step_accept sock ip port)
  then show ?thesis using accept_inv assms(2) by blast
next
  case (step_complete i s overlap data st1 ti ok transfer b)
  then show ?thesis using worker_inv assms(2) by blast
next
  case (step_disconnect sid)
  then show ?thesis using neutral_inv disconnectReq_neutral assms(2) by blast
next
  case (step_send sid p)
  then show ?thesis using neutral_inv sendReq_neutral assms(2) by blast
next
  case (step_send_packet sid k)
  then show ?thesis using neutral_inv sendReq_packet_neutral assms(2) by blast
next
  case (step_statistics now past t)
  have "neutral st st'"
    using step_statistics by (intro neutral_same_array) (auto simp: networkThread_step_def Let_def split: if_splits)
  then show ?thesis by (rule neutral_inv [OF assms(2)])
qed

lemma reach_inv:
  assumes "net_reach cb st0 st" "net_inv (\<lambda>_. 0) st0"
  shows "net_inv (\<lambda>_. 0) st"
  using assms by (induction rule: net_reach.induct) (auto intro: step_inv)

end

text \<open>What the invariant says about slots.\<close>

lemma net_inv_safe:
  assumes "net_inv refs st"
  shows "distinct (nw_indexStack st)"
    "on_stack st i \<Longrightarrow> session_at st i = Some s \<Longrightarrow> ss_inflight s = []"
    "session_at st i = Some s \<Longrightarrow> ss_inflight s \<noteq> [] \<Longrightarrow>
       length (ss_inflight s) \<le> unat (ss_IOcount s) \<and> count_list (ss_inflight s) Send_io \<le> 1 \<and>
       count_list (ss_inflight s) Recv_io \<le> 1"
proof -
  show "distinct (nw_indexStack st)" using assms unfolding net_inv_def by blast
  show "on_stack st i \<Longrightarrow> session_at st i = Some s \<Longrightarrow> ss_inflight s = []"
    using net_inv_slot(1) [OF assms] by (auto dest!: session_atD simp: slot_free_def)
  show "length (ss_inflight s) \<le> unat (ss_IOcount s) \<and> count_list (ss_inflight s) Send_io \<le> 1 \<and>
       count_list (ss_inflight s) Recv_io \<le> 1" if s: "session_at st i = Some s" "ss_inflight s \<noteq> []"
  proof -
    have i: "i < length (nw_sessionArray st)" "nw_sessionArray st ! i = s" using session_atD [OF s(1)] by simp_all
    have "\<not> on_stack st i" using net_inv_slot(1) [OF assms i(1)] s(2) i(2) by (auto simp: slot_free_def)
    then obtain lr ls where "slot_prof i (refs i) lr ls s"
      using net_inv_slot(2) [OF assms i(1)] i(2) by (auto simp: slot_active_def)
    then show ?thesis by (simp add: slot_prof_def)
  qed
qed

lemma session_count:
  assumes inv: "net_inv refs st" and m: "nw_maxSession st = of_nat (length (nw_sessionArray st))"
  shows "unat (getSessionCount st) = card {i. i < length (nw_sessionArray st) \<and> \<not> on_stack st i}"
proof -
  let ?n = "length (nw_sessionArray st)" let ?F = "unat ` set (nw_indexStack st)"
  have n: "?n \<le> 2 ^ 16" using inv unfolding net_inv_def by blast
  have F: "?F \<subseteq> {..<?n}" using inv unfolding net_inv_def on_stack_def by auto
  have cF: "card ?F = length (nw_indexStack st)"
    using inv unfolding net_inv_def
    by (subst card_image) (auto simp: inj_on_def distinct_card simp flip: word_unat_eq_iff)
  have le: "length (nw_indexStack st) \<le> ?n" using card_mono [OF _ F] cF by simp
  have um: "unat (scast (of_nat ?n :: u32) :: u64) = ?n"
    using unat_scast_small [of "of_nat ?n"] n by (simp add: unat_of_nat)
  have "unat (getSessionCount st) = ?n - length (nw_indexStack st)"
    unfolding getSessionCount_def m
    using le um n by (subst unat_sub) (simp_all add: word_le_nat_alt unat_of_nat)
  moreover have "{i. i < ?n \<and> \<not> on_stack st i} = {..<?n} - ?F" by (auto simp: on_stack_def)
  moreover have "card ({..<?n} - ?F) = ?n - length (nw_indexStack st)"
    using F cF by (simp add: card_Diff_subset)
  ultimately show ?thesis by simp
qed

end
