(* ===== verification/Error_Define.thy ===== *)
theory Error_Define
  imports Prelude
begin

text \<open>The error codes of \<open>errorDefine.h\<close> and the texts of \<open>errorDefine.cpp\<close>.\<close>

definition ERRORCODE_WSASTARTUP :: u32 where "ERRORCODE_WSASTARTUP = 1"
definition ERRORCODE_SOCKET :: u32 where "ERRORCODE_SOCKET = 2"
definition ERRORCODE_BIND :: u32 where "ERRORCODE_BIND = 3"
definition ERRORCODE_LISTEN :: u32 where "ERRORCODE_LISTEN = 4"
definition ERRORCODE_ACCEPT :: u32 where "ERRORCODE_ACCEPT = 5"
definition ERRORCODE_CREATEKERNELOBJECT :: u32 where "ERRORCODE_CREATEKERNELOBJECT = 6"
definition ERRORCODE_CONNECT :: u32 where "ERRORCODE_CONNECT = 7"
definition ERRORCODE_WSASEND :: u32 where "ERRORCODE_WSASEND = 101"
definition ERRORCODE_WSARECV :: u32 where "ERRORCODE_WSARECV = 102"
definition ERRORCODE_SENDBUFFER :: u32 where "ERRORCODE_SENDBUFFER = 1000"
definition ERRORCODE_RECVBUFFER :: u32 where "ERRORCODE_RECVBUFFER = 1001"
definition ERRORCODE_SESSIONARRAY :: u32 where "ERRORCODE_SESSIONARRAY = 1010"
definition ERRORCODE_OBJECTPOOL :: u32 where "ERRORCODE_OBJECTPOOL = 2000"
definition ERRORCODE_NOTDEFINE :: u32 where "ERRORCODE_NOTDEFINE = NOT 0"

named_theorems error_codes "the numeric error codes"

lemmas [error_codes] = ERRORCODE_WSASTARTUP_def ERRORCODE_SOCKET_def ERRORCODE_BIND_def
  ERRORCODE_LISTEN_def ERRORCODE_ACCEPT_def ERRORCODE_CREATEKERNELOBJECT_def ERRORCODE_CONNECT_def
  ERRORCODE_WSASEND_def ERRORCODE_WSARECV_def ERRORCODE_SENDBUFFER_def ERRORCODE_RECVBUFFER_def
  ERRORCODE_SESSIONARRAY_def ERRORCODE_OBJECTPOOL_def ERRORCODE_NOTDEFINE_def

definition errorCodeComment :: "(u32 \<times> string) list" where
  "errorCodeComment =
    [(ERRORCODE_WSASTARTUP, ''WSAStartup Error ''),
     (ERRORCODE_SOCKET, ''Create socket Error ''),
     (ERRORCODE_BIND, ''Socket bind Error ''),
     (ERRORCODE_LISTEN, ''Socket listen Error ''),
     (ERRORCODE_ACCEPT, ''Accept Error ''),
     (ERRORCODE_CREATEKERNELOBJECT, ''Create kernel object Error ''),
     (ERRORCODE_CONNECT, ''Socket Connect Error ''),
     (ERRORCODE_WSASEND, ''WSAsend API Error ''),
     (ERRORCODE_WSARECV, ''WSArecv API Error ''),
     (ERRORCODE_SENDBUFFER, ''Send buffer Error ''),
     (ERRORCODE_RECVBUFFER, ''Recv buffer Error ''),
     (ERRORCODE_SESSIONARRAY, ''Session array Error ''),
     (ERRORCODE_OBJECTPOOL, ''ObjectPool Error''),
     (ERRORCODE_NOTDEFINE, [])]"

text \<open>The codes are pairwise different, so the table is a map from codes to texts.\<close>

lemma error_codes_distinct: "distinct (map fst errorCodeComment)"
  by (simp add: errorCodeComment_def error_codes)

end
