(* ===== verification/Text.thy ===== *)
theory Text
  imports Prelude
begin

text \<open>
  Decimal text: \<open>std::to_string\<close> of an \<open>unsigned long long\<close>, with which the server builds the
  SQL text and the keys of the key-value store. Different numbers have different texts, and
  the text of a number holds digits only.
\<close>

fun dec_of_nat :: "nat \<Rightarrow> string" where
  "dec_of_nat n = (if n < 10 then [char_of (48 + n)] else dec_of_nat (n div 10) @ [char_of (48 + n mod 10)])"

declare dec_of_nat.simps [simp del]

definition to_string :: "u64 \<Rightarrow> string" where
  "to_string n = dec_of_nat (unat n)"

text \<open>\<open>%d\<close> of an \<open>int\<close>.\<close>

definition dec_of_int :: "u32 \<Rightarrow> string" where
  "dec_of_int n = (if sint n < 0 then CHR ''-'' # dec_of_nat (nat (- sint n)) else dec_of_nat (nat (sint n)))"

definition is_digit :: "char \<Rightarrow> bool" where
  "is_digit c \<longleftrightarrow> 48 \<le> (of_char c :: nat) \<and> (of_char c :: nat) \<le> 57"

definition nat_of_dec :: "string \<Rightarrow> nat" where
  "nat_of_dec s = foldl (\<lambda>n c. 10 * n + (of_char c - 48)) 0 s"

lemma of_char_digit: "n < 10 \<Longrightarrow> (of_char (char_of (48 + n :: nat)) :: nat) = 48 + n"
  by simp

lemma dec_digits: "\<forall>c \<in> set (dec_of_nat n). is_digit c"
proof (induction n rule: dec_of_nat.induct)
  case (1 n)
  then show ?case
    by (subst dec_of_nat.simps) (auto simp: is_digit_def)
qed

lemma dec_roundtrip: "nat_of_dec (dec_of_nat n) = n"
proof (induction n rule: dec_of_nat.induct)
  case (1 n)
  show ?case
  proof (cases "n < 10")
    case True
    then show ?thesis by (subst dec_of_nat.simps) (simp add: nat_of_dec_def)
  next
    case False
    then have "nat_of_dec (dec_of_nat (n div 10)) = n div 10" by (rule 1)
    then show ?thesis using False
      by (subst dec_of_nat.simps) (simp add: nat_of_dec_def)
  qed
qed

lemma dec_inj: "dec_of_nat m = dec_of_nat n \<longleftrightarrow> m = n"
  using dec_roundtrip by metis

lemma to_string_inj: "to_string a = to_string b \<longleftrightarrow> a = b"
  by (simp add: to_string_def dec_inj word_unat_eq_iff)

end
