(* ===== verification/Network_Start.thy ===== *)
theory Network_Start
  imports Network Error_Define Text
begin

text \<open>
  Starting and stopping the server: \<open>Network::start\<close>, \<open>Network::stop\<close> and the destructor of
  \<open>network.cpp\<close>. \<open>start_env\<close> holds what the calls to Windows return, the sessions that
  the constructors of the array elements build and the uninitialised counters.
\<close>

record start_env =
  se_WSAStartup :: u32
  se_socket :: u64
  se_bind :: u32
  se_listen :: u32
  se_IOCP :: u64
  se_GetLastError :: u32
  se_session :: "nat \<Rightarrow> session option"
  se_counter :: "nat \<Rightarrow> u32"
  se_acceptThread :: u64
  se_workerThread :: "nat \<Rightarrow> u64"
  se_networkThread :: u64

abbreviation SOCKET_ERROR :: u32 where "SOCKET_ERROR \<equiv> -1"

definition start_fail :: "'a network_scheme callbacks \<Rightarrow> u32 \<Rightarrow> string \<Rightarrow> 'a network_scheme \<Rightarrow>
    ('a network_scheme \<times> bool) option" where
  "start_fail cb code msg st = do { st1 \<leftarrow> cb_OnError cb code msg st; Some (st1, False) }"

text \<open>The loop that creates the worker threads from number \<open>i\<close> on, \<open>n\<close> of them; the result
  is \<^term>\<open>False\<close> when one fails.\<close>

fun start_workers :: "'a network_scheme callbacks \<Rightarrow> start_env \<Rightarrow> nat \<Rightarrow> nat \<Rightarrow> 'a network_scheme \<Rightarrow>
    ('a network_scheme \<times> bool) option" where
  "start_workers cb env i 0 st = Some (st, True)"
| "start_workers cb env i (Suc n) st =
     (let hThread = se_workerThread env i in
      if hThread = 0 then
        start_fail cb ERRORCODE_CREATEKERNELOBJECT
          (''CreateThread, GetLastError '' @ dec_of_int (se_GetLastError env) @ '', workerThread'')
          (st\<lparr>nw_isRun := False\<rparr>)
      else start_workers cb env (Suc i) n
        (st\<lparr>nw_threadIndexMap := AList.update hThread (of_nat i) (nw_threadIndexMap st)\<rparr>))"

text \<open>The block that sets up the session slots.\<close>

definition start_slots :: "start_env \<Rightarrow> u64 \<Rightarrow> u16 \<Rightarrow> byte \<Rightarrow> byte \<Rightarrow> 'a network_scheme \<Rightarrow> 'a network_scheme option" where
  "start_slots env self maxSessionSize workerThreadSize runningThreadSize st =
     do { ss \<leftarrow> those (map (se_session env) [0..<unat maxSessionSize]);
          Some (st\<lparr>nw_sessionCount := 0, nw_maxSession := ucast maxSessionSize,
                   nw_workerThreadCount := workerThreadSize, nw_runningThreadCount := runningThreadSize,
                   nw_indexStack := map of_nat [0..<unat maxSessionSize] @ nw_indexStack st,
                   nw_sessionArray := map (\<lambda>s. s\<lparr>ss_core := self\<rparr>) ss,
                   nw_recvMessageTPSArr := map (se_counter env) [0..<unat workerThreadSize],
                   nw_sendMessageTPSArr := map (\<lambda>i. se_counter env (unat workerThreadSize + i)) [0..<unat workerThreadSize],
                   nw_isRun := True\<rparr>) }"

definition start :: "'a network_scheme callbacks \<Rightarrow> start_env \<Rightarrow> u64 \<Rightarrow> u16 \<Rightarrow> byte \<Rightarrow> byte \<Rightarrow>
    'a network_scheme \<Rightarrow> ('a network_scheme \<times> bool) option" where
  "start cb env self maxSessionSize workerThreadSize runningThreadSize st =
     (let st1 = st\<lparr>nw_workerThreadCount := workerThreadSize\<rparr> in
      if se_WSAStartup env \<noteq> 0 then start_fail cb ERRORCODE_WSASTARTUP [] st1
      else let st2 = st1\<lparr>nw_listen_socket := se_socket env\<rparr> in
      if nw_listen_socket st2 = INVALID_SOCKET then start_fail cb ERRORCODE_SOCKET ''listen socket'' st2
      else if se_bind env = SOCKET_ERROR then start_fail cb ERRORCODE_BIND [] st2
      else if se_listen env = SOCKET_ERROR then start_fail cb ERRORCODE_LISTEN [] st2
      else let st3 = st2\<lparr>nw_IOCP := se_IOCP env\<rparr> in
      if nw_IOCP st3 = 0 then
        start_fail cb ERRORCODE_CREATEKERNELOBJECT
          (''CreateIoCompletionPort, GetLastError '' @ dec_of_int (se_GetLastError env)) st3
      else do {
        st4 \<leftarrow> start_slots env self maxSessionSize workerThreadSize runningThreadSize st3;
        (let st5 = st4\<lparr>nw_hAcceptThread := se_acceptThread env\<rparr> in
         if nw_hAcceptThread st5 = 0 then
           start_fail cb ERRORCODE_CREATEKERNELOBJECT
             (''CreateThread, GetLastError '' @ dec_of_int (se_GetLastError env) @ '', acceptThread'')
             (st5\<lparr>nw_isRun := False\<rparr>)
         else do {
           (st6, ok) \<leftarrow> start_workers cb env 0 (unat workerThreadSize) st5;
           (if \<not> ok then Some (st6, False)
            else let st7 = st6\<lparr>nw_hNetworkThread := se_networkThread env\<rparr> in
              if nw_hNetworkThread st7 = 0 then
                start_fail cb ERRORCODE_CREATEKERNELOBJECT
                  (''CreateThread, GetLastError '' @ dec_of_int (se_GetLastError env) @ '', networkThread'')
                  (st7\<lparr>nw_isRun := False\<rparr>)
              else Some (st7, True)) }) })"

definition stop :: "'a network_scheme \<Rightarrow> 'a network_scheme" where
  "stop st =
     (let st1 = st\<lparr>nw_isRun := False\<rparr>;
          st2 = (if nw_listen_socket st1 \<noteq> INVALID_SOCKET then os_log st1 (CloseSocket (nw_listen_socket st1)) else st1)
      in if nw_IOCP st2 \<noteq> 0
         then os_log (foldl (\<lambda>s _. os_log s (PostStatus 0 0)) st2 (nw_threadIndexMap st2)) (CloseHandle (nw_IOCP st2))
         else st2)"

text \<open>The destructor; destroying the sessions destroys their queues.\<close>

definition network_delete :: "'a network_scheme \<Rightarrow> 'a network_scheme option" where
  "network_delete st =
     (let st1 = (if nw_isRun st then stop st else st);
          hs = nw_hAcceptThread st1 # nw_hNetworkThread st1 # map fst (nw_threadIndexMap st1);
          st2 = foldl (\<lambda>s h. os_log s (CloseHandle h)) st1 hs
      in do { _ \<leftarrow> those (map (\<lambda>s. lfq_delete (ss_sendBuffer s)) (rev (nw_sessionArray st2)));
              Some (st2\<lparr>nw_sessionArray := [], nw_recvMessageTPSArr := [], nw_sendMessageTPSArr := []\<rparr>) })"

section \<open>The state after a successful start\<close>

lemma start_workers_fields:
  assumes "start_workers cb env i n st = Some (st', True)"
  shows "nw_sessionArray st' = nw_sessionArray st" "nw_indexStack st' = nw_indexStack st"
    "nw_maxSession st' = nw_maxSession st" "nw_isRun st' = nw_isRun st"
    "nw_workerThreadCount st' = nw_workerThreadCount st"
    "nw_recvMessageTPSArr st' = nw_recvMessageTPSArr st" "nw_sendMessageTPSArr st' = nw_sendMessageTPSArr st"
    "map_of (nw_threadIndexMap st') h =
       (if h \<in> se_workerThread env ` {i..<i + n}
        then Some (of_nat (Max {j \<in> {i..<i + n}. se_workerThread env j = h})) else map_of (nw_threadIndexMap st) h)"
proof -
  have *: "nw_sessionArray st' = nw_sessionArray st \<and> nw_indexStack st' = nw_indexStack st \<and>
    nw_maxSession st' = nw_maxSession st \<and> nw_isRun st' = nw_isRun st \<and>
    nw_workerThreadCount st' = nw_workerThreadCount st \<and>
    nw_recvMessageTPSArr st' = nw_recvMessageTPSArr st \<and> nw_sendMessageTPSArr st' = nw_sendMessageTPSArr st"
    using assms
    by (induction cb env i n st rule: start_workers.induct)
       (auto simp: Let_def start_fail_def split: if_splits bind_splits)
  then show "nw_sessionArray st' = nw_sessionArray st" "nw_indexStack st' = nw_indexStack st"
    "nw_maxSession st' = nw_maxSession st" "nw_isRun st' = nw_isRun st"
    "nw_workerThreadCount st' = nw_workerThreadCount st"
    "nw_recvMessageTPSArr st' = nw_recvMessageTPSArr st" "nw_sendMessageTPSArr st' = nw_sendMessageTPSArr st"
    by blast+
  show "map_of (nw_threadIndexMap st') h =
       (if h \<in> se_workerThread env ` {i..<i + n}
        then Some (of_nat (Max {j \<in> {i..<i + n}. se_workerThread env j = h})) else map_of (nw_threadIndexMap st) h)"
    using assms
  proof (induction cb env i n st rule: start_workers.induct)
    case (2 cb env i n st)
    let ?h = "se_workerThread env i"
    have nz: "?h \<noteq> 0" using 2(2) by (auto simp: Let_def start_fail_def split: if_splits bind_splits)
    have IH: "map_of (nw_threadIndexMap st') h =
       (if h \<in> se_workerThread env ` {Suc i..<Suc i + n}
        then Some (of_nat (Max {j \<in> {Suc i..<Suc i + n}. se_workerThread env j = h}))
        else map_of (AList.update ?h (of_nat i) (nw_threadIndexMap st)) h)"
      using 2(1) [OF refl nz] 2(2) nz by simp
    have iv: "{i..<i + Suc n} = insert i {Suc i..<Suc i + n}" by auto
    show ?case
    proof (cases "h \<in> se_workerThread env ` {Suc i..<Suc i + n}")
      case True
      let ?A = "{j \<in> {Suc i..<Suc i + n}. se_workerThread env j = h}"
      have A: "?A \<noteq> {}" "finite ?A" using True by auto
      have "{j \<in> {i..<i + Suc n}. se_workerThread env j = h} = (if ?h = h then insert i ?A else ?A)"
        unfolding iv by auto
      moreover have "Max (insert i ?A) = Max ?A"
      proof -
        have "i \<le> Max ?A" using Max_in [OF A(2,1)] by auto
        then show ?thesis using A by (simp add: Max_insert)
      qed
      ultimately have "Max {j \<in> {i..<i + Suc n}. se_workerThread env j = h} = Max ?A" by simp
      then show ?thesis using IH True unfolding iv by auto
    next
      case False
      have "{j \<in> {i..<i + Suc n}. se_workerThread env j = h} = (if ?h = h then {i} else {})"
      proof -
        have "\<forall>j \<in> {Suc i..<Suc i + n}. se_workerThread env j \<noteq> h" using False by blast
        then show ?thesis unfolding iv by auto
      qed
      then show ?thesis using IH False
        unfolding iv image_insert by (cases "?h = h") (simp_all add: update_conv)
    qed
  qed simp
qed

end
