(* ===== verification/Mysql_Connector.thy ===== *)
theory Mysql_Connector
  imports Text "HOL-Library.AList"
begin

text \<open>
  The database access of \<open>mysqlConnector.h\<close>, \<open>mysqlConnector.cpp\<close> and \<open>dbQuery.cpp\<close>. The
  MySQL client library is a parameter: the lists of \<open>mysql\<close> hold what its next calls
  return, \<open>my_calls\<close> records the calls, the latest first, and \<open>my_closed\<close> the handles that were
  given to \<open>mysql_close\<close> and not initialised again. Using a closed handle, or reading a column that a
  row does not have, has no outcome; neither has a loop that goes on for ever.
\<close>

section \<open>The client library\<close>

datatype mysql_call =
    Mysql_init u64
  | Mysql_real_connect u64
  | Mysql_query u64 string
  | Mysql_close u64
  | Mysql_store_result u64
  | Mysql_free_result

type_synonym mysql_row = "string option list"

text \<open>\<open>my_conn\<close> and \<open>my_mysqlConnect\<close> are the two pointers of the running thread, 0 when null.\<close>

record mysql =
  my_conn :: u64
  my_mysqlConnect :: u64
  my_new :: "u64 list"
  my_connects :: "u64 list"
  my_queries :: "u32 list"
  my_results :: "mysql_row list list"
  my_closed :: "u64 list"
  my_calls :: "mysql_call list"

definition my_log :: "mysql \<Rightarrow> mysql_call \<Rightarrow> mysql" where
  "my_log m c = m\<lparr>my_calls := c # my_calls m\<rparr>"

definition mysql_close :: "mysql \<Rightarrow> u64 \<Rightarrow> mysql option" where
  "mysql_close m h =
     (if h \<in> set (my_closed m) then None
      else Some ((my_log m (Mysql_close h))\<lparr>my_closed := h # my_closed m\<rparr>))"

definition mysql_init :: "mysql \<Rightarrow> u64 \<Rightarrow> mysql" where
  "mysql_init m h = (my_log m (Mysql_init h))\<lparr>my_closed := removeAll h (my_closed m)\<rparr>"

definition mysql_real_connect :: "mysql \<Rightarrow> u64 \<Rightarrow> (mysql \<times> u64) option" where
  "mysql_real_connect m h =
     (if h = 0 \<or> h \<in> set (my_closed m) then None
      else case my_connects m of [] \<Rightarrow> None
           | r # rs \<Rightarrow> Some ((my_log m (Mysql_real_connect h))\<lparr>my_connects := rs\<rparr>, r))"

definition mysql_query :: "mysql \<Rightarrow> u64 \<Rightarrow> string \<Rightarrow> (mysql \<times> u32) option" where
  "mysql_query m h q =
     (if h = 0 \<or> h \<in> set (my_closed m) then None
      else case my_queries m of [] \<Rightarrow> None
           | r # rs \<Rightarrow> Some ((my_log m (Mysql_query h q))\<lparr>my_queries := rs\<rparr>, r))"

definition mysql_store_result :: "mysql \<Rightarrow> u64 \<Rightarrow> (mysql \<times> mysql_row list) option" where
  "mysql_store_result m h =
     (if h = 0 \<or> h \<in> set (my_closed m) then None
      else case my_results m of [] \<Rightarrow> None
           | r # rs \<Rightarrow> Some ((my_log m (Mysql_store_result h))\<lparr>my_results := rs\<rparr>, r))"

section \<open>Results\<close>

text \<open>
  \<open>dbResult\<close>: a map from field names to values, as the list of its entries in the order in which
  the range-based loops visit them. That order is not specified; \<open>ord\<close> stands for it.
\<close>

type_synonym dbResult = "(string \<times> string) list"

definition dbResult_new :: "(string list \<Rightarrow> string list) \<Rightarrow> string list \<Rightarrow> dbResult" where
  "dbResult_new ord fildNames = map (\<lambda>name. (name, [])) (ord (remdups fildNames))"

text \<open>The loop over the fields for one row: a null column leaves \<open>index\<close> where it is.\<close>

fun fetch_fields :: "mysql_row \<Rightarrow> nat \<Rightarrow> dbResult \<Rightarrow> (nat \<times> dbResult) option" where
  "fetch_fields row index [] = Some (index, [])"
| "fetch_fields row index ((name, v) # fs) =
     (if index < length row then
        case row ! index of
          None \<Rightarrow> map_option (\<lambda>(i, r). (i, (name, []) # r)) (fetch_fields row index fs)
        | Some x \<Rightarrow> map_option (\<lambda>(i, r). (i, (name, x) # r)) (fetch_fields row (index + 1) fs)
      else None)"

text \<open>\<open>mysqlConnector::query\<close> declares \<open>index\<close> before its loop over the rows.\<close>

fun fetch_rows :: "mysql_row list \<Rightarrow> nat \<Rightarrow> dbResult \<Rightarrow> dbResult option" where
  "fetch_rows [] index res = Some res"
| "fetch_rows (row # rows) index res =
     Option.bind (fetch_fields row index res) (\<lambda>(index', res'). fetch_rows rows index' res')"

text \<open>\<open>testFunc\<close> of \<open>dbQuery.cpp\<close> declares it inside.\<close>

fun fetch_rows_reset :: "mysql_row list \<Rightarrow> dbResult \<Rightarrow> dbResult option" where
  "fetch_rows_reset [] res = Some res"
| "fetch_rows_reset (row # rows) res =
     Option.bind (fetch_fields row 0 res) (\<lambda>(_, res'). fetch_rows_reset rows res')"

section \<open>\<open>mysqlConnector\<close>\<close>

definition mysqlConnector_init :: "mysql \<Rightarrow> mysql option" where
  "mysqlConnector_init m =
     do { m1 \<leftarrow> (if my_conn m = 0 then
                  (case my_new m of [] \<Rightarrow> None | a # as \<Rightarrow> Some (m\<lparr>my_conn := a, my_new := as\<rparr>))
                else mysql_close m (my_conn m));
          Some (mysql_init m1 (my_conn m1)) }"

partial_function (option) connect_loop :: "mysql \<Rightarrow> mysql option" where
  "connect_loop m =
     (if my_mysqlConnect m = 0 then
        Option.bind (mysqlConnector_init m) (\<lambda>m1.
        Option.bind (mysql_real_connect m1 (my_conn m1)) (\<lambda>r.
          connect_loop ((fst r)\<lparr>my_mysqlConnect := snd r\<rparr>)))
      else Some m)"

partial_function (option) query_loop :: "string \<Rightarrow> mysql \<Rightarrow> mysql option" where
  "query_loop q m =
     Option.bind (connect_loop m) (\<lambda>m1.
     Option.bind (mysql_query m1 (my_mysqlConnect m1) q) (\<lambda>r.
       if snd r = 0 then Some (fst r)
       else Option.bind (mysql_close (fst r) (my_mysqlConnect (fst r))) (\<lambda>m2. query_loop q m2)))"

definition mysqlConnector_query :: "mysql \<Rightarrow> string \<Rightarrow> dbResult \<Rightarrow> (mysql \<times> dbResult) option" where
  "mysqlConnector_query m queryStr result =
     do { m1 \<leftarrow> query_loop queryStr m;
          (m2, rows) \<leftarrow> mysql_store_result m1 (my_mysqlConnect m1);
          res \<leftarrow> fetch_rows rows 0 result;
          Some (my_log m2 Mysql_free_result, res) }"

text \<open>\<open>testFunc\<close>: its own connection object \<open>c\<close>, closed only at the end.\<close>

definition testFunc :: "u64 \<Rightarrow> mysql \<Rightarrow> u64 \<Rightarrow> dbResult \<Rightarrow> (mysql \<times> dbResult) option" where
  "testFunc c m accountNo result =
     do { (m1, connection) \<leftarrow> mysql_real_connect (mysql_init m c) c;
          (if connection = 0 then Some (m1, result)
           else do {
             (m2, query_stat) \<leftarrow> mysql_query m1 connection
                (''SELECT * FROM sessionKey where accountNo = '' @ to_string accountNo);
             (if query_stat \<noteq> 0 then Some (m2, result)
              else do {
                (m3, rows) \<leftarrow> mysql_store_result m2 connection;
                res \<leftarrow> fetch_rows_reset rows result;
                m4 \<leftarrow> mysql_close (my_log m3 Mysql_free_result) connection;
                Some (m4, res) }) }) }"

section \<open>What the queries return\<close>

lemma fetch_fields_full:
  assumes "index + length res \<le> length row" "\<forall>j < length res. row ! (index + j) \<noteq> None"
  shows "fetch_fields row index res =
    Some (index + length res, zip (map fst res) (map the (take (length res) (drop index row))))"
  using assms
proof (induction res arbitrary: index)
  case (Cons nv res)
  obtain n v where nv: "nv = (n, v)" by (cases nv)
  obtain x where x: "row ! index = Some x" using Cons.prems(2) by force
  have l: "index < length row" using Cons.prems(1) by simp
  have IH: "fetch_fields row (Suc index) res =
      Some (Suc index + length res, zip (map fst res) (map the (take (length res) (drop (Suc index) row))))"
  proof (rule Cons.IH)
    show "Suc index + length res \<le> length row" using Cons.prems(1) by simp
    show "\<forall>j < length res. row ! (Suc index + j) \<noteq> None" using Cons.prems(2) by force
  qed
  have "drop index row = Some x # drop (Suc index) row" using l x by (metis Cons_nth_drop_Suc)
  then show ?case using l x IH by (simp add: nv)
qed simp

text \<open>One row with a value in every column: the values in order.\<close>

lemma fetch_rows_one:
  assumes "length row = length res" "None \<notin> set row"
  shows "fetch_rows [row] 0 res = Some (zip (map fst res) (map the row))"
proof -
  have "\<forall>j < length res. row ! (0 + j) \<noteq> None"
    using assms by (metis add_0 nth_mem)
  then show ?thesis using fetch_fields_full [of 0 res row] assms(1) by simp
qed

text \<open>A second row is read past its end.\<close>

lemma fetch_rows_two:
  assumes "length row = length res" "None \<notin> set row" "res \<noteq> []" "length row2 = length res"
  shows "fetch_rows (row # row2 # rows) 0 res = None"
proof -
  have "\<forall>j < length res. row ! (0 + j) \<noteq> None"
    using assms by (metis add_0 nth_mem)
  then have "fetch_fields row 0 res = Some (length res, zip (map fst res) (map the row))"
    using fetch_fields_full [of 0 res row] assms(1) by simp
  moreover obtain n v rs where "zip (map fst res) (map the row) = (n, v) # rs"
    using assms(1,3) by (cases res; cases row) auto
  ultimately show ?thesis using assms(4) by simp
qed

lemma fetch_rows_reset_last:
  assumes "\<forall>r \<in> set (rows @ [row]). length r = length res \<and> None \<notin> set r"
  shows "fetch_rows_reset (rows @ [row]) res = Some (zip (map fst res) (map the row))"
  using assms
proof (induction rows arbitrary: res)
  case Nil
  then have "\<forall>j < length res. row ! (0 + j) \<noteq> None" by (metis add_0 nth_mem append_Nil list.set_intros(1))
  then show ?case using fetch_fields_full [of 0 res row] Nil by simp
next
  case (Cons r rows)
  have r: "length r = length res" "None \<notin> set r" using Cons.prems by auto
  then have "\<forall>j < length res. r ! (0 + j) \<noteq> None" by (metis add_0 nth_mem)
  then have f: "fetch_fields r 0 res = Some (length res, zip (map fst res) (map the r))"
    using fetch_fields_full [of 0 res r] r by simp
  have "fetch_rows_reset (rows @ [row]) (zip (map fst res) (map the r)) =
      Some (zip (map fst (zip (map fst res) (map the r))) (map the row))"
    using Cons.prems r by (intro Cons.IH) auto
  then show ?case using f r(1) by simp
qed

text \<open>
  A thread that is connected: a successful query touches nothing else; after a failed one the
  pointer to the closed connection is used again.
\<close>

lemma query_loop_ok:
  assumes "my_mysqlConnect m \<noteq> 0" "my_mysqlConnect m \<notin> set (my_closed m)" "my_queries m = 0 # qs"
  shows "query_loop q m = Some ((my_log m (Mysql_query (my_mysqlConnect m) q))\<lparr>my_queries := qs\<rparr>)"
  using assms
  by (subst query_loop.simps, subst connect_loop.simps) (simp add: mysql_query_def)

lemma query_loop_fail:
  assumes "my_mysqlConnect m \<noteq> 0" "my_mysqlConnect m \<notin> set (my_closed m)" "my_queries m = e # qs" "e \<noteq> 0"
  shows "query_loop q m = None"
proof -
  let ?h = "my_mysqlConnect m"
  let ?m1 = "(my_log m (Mysql_query ?h q))\<lparr>my_queries := qs\<rparr>"
  let ?m2 = "(my_log ?m1 (Mysql_close ?h))\<lparr>my_closed := ?h # my_closed m\<rparr>"
  have h: "my_mysqlConnect ?m1 = ?h" "my_mysqlConnect ?m2 = ?h" "my_closed ?m1 = my_closed m"
    by (simp_all add: my_log_def)
  have c: "connect_loop m = Some m" using assms(1) by (subst connect_loop.simps) simp
  have q: "mysql_query m ?h q = Some (?m1, e)" using assms by (simp add: mysql_query_def)
  have cl: "mysql_close ?m1 ?h = Some ?m2" using assms(2) h(3) by (simp add: mysql_close_def)
  have "query_loop q m = query_loop q ?m2"
    by (subst query_loop.simps) (simp add: c q assms(4) h(1) cl del: Option.bind_eq_Some_conv)
  also have "\<dots> = None"
  proof -
    have "connect_loop ?m2 = Some ?m2" using assms(1) h(2) by (subst connect_loop.simps) simp
    moreover have "mysql_query ?m2 (my_mysqlConnect ?m2) q = None" by (simp add: mysql_query_def h(2))
    ultimately show ?thesis by (subst query_loop.simps) simp
  qed
  finally show ?thesis .
qed

text \<open>A first use: the thread connects and then asks.\<close>

lemma query_loop_first:
  assumes "my_conn m = 0" "my_mysqlConnect m = 0" "my_new m = a # as" "a \<noteq> 0" "a \<notin> set (my_closed m)"
    "my_connects m = a # cs" "my_queries m = 0 # qs"
  shows "\<exists>m'. query_loop q m = Some m' \<and> my_conn m' = a \<and> my_mysqlConnect m' = a \<and> my_queries m' = qs \<and>
    my_calls m' = Mysql_query a q # Mysql_real_connect a # Mysql_init a # my_calls m \<and> my_results m' = my_results m \<and>
    a \<notin> set (my_closed m')"
proof -
  let ?m1 = "mysql_init (m\<lparr>my_conn := a, my_new := as\<rparr>) a"
  let ?m2 = "(my_log ?m1 (Mysql_real_connect a))\<lparr>my_connects := cs, my_mysqlConnect := a\<rparr>"
  have i: "mysqlConnector_init m = Some ?m1" using assms by (simp add: mysqlConnector_init_def)
  have c: "mysql_real_connect ?m1 (my_conn ?m1) = Some ((my_log ?m1 (Mysql_real_connect a))\<lparr>my_connects := cs\<rparr>, a)"
    using assms by (simp add: mysql_real_connect_def mysql_init_def my_log_def)
  have l: "connect_loop m = Some ?m2"
  proof -
    have "connect_loop ?m2 = Some ?m2" using assms(4) by (subst connect_loop.simps) simp
    moreover have "connect_loop m = connect_loop ?m2"
      using assms(2) by (subst connect_loop.simps) (simp add: i c del: Option.bind_eq_Some_conv)
    ultimately show ?thesis by simp
  qed
  have f: "my_mysqlConnect ?m2 = a" "my_closed ?m2 = removeAll a (my_closed m)" "my_queries ?m2 = 0 # qs"
    using assms(7) by (simp_all add: mysql_init_def my_log_def)
  have "query_loop q m = Some ((my_log ?m2 (Mysql_query a q))\<lparr>my_queries := qs\<rparr>)"
    by (subst query_loop.simps) (simp add: l mysql_query_def f assms(4))
  then show ?thesis by (simp add: mysql_init_def my_log_def)
qed

end
