(* ===== verification/Redis_Connector.thy ===== *)
theory Redis_Connector
  imports Text
begin

text \<open>
  The key-value store access of \<open>redisConnector.h\<close> and \<open>redisConnector.cpp\<close>. The client class is a
  library: its object is an address, \<open>rd_calls\<close> records the calls made on it, the
  latest first, and \<open>rd_replies\<close> holds the replies to the next \<open>get\<close> commands, as
  \<open>sync_commit\<close> passes them to the callback (\<^term>\<open>None\<close>: the reply is not a string, and
  \<open>as_string\<close> throws).
\<close>

datatype redis_call =
    Redis_connect
  | Redis_get string
  | Redis_set string "byte list"
  | Redis_expire string u32
  | Redis_sync_commit
  | Redis_disconnect

record redis =
  rd_TLSRedisClient :: u64
  rd_new :: u64
  rd_replies :: "byte list option list"
  rd_calls :: "redis_call list"

definition rd_log :: "redis \<Rightarrow> redis_call \<Rightarrow> redis" where
  "rd_log r c = r\<lparr>rd_calls := c # rd_calls r\<rparr>"

text \<open>The two statements at the start of \<open>get\<close> and of \<open>set\<close>.\<close>

definition redis_ensure :: "redis \<Rightarrow> redis" where
  "redis_ensure r =
     (if rd_TLSRedisClient r = 0 then rd_log (r\<lparr>rd_TLSRedisClient := rd_new r\<rparr>) Redis_connect else r)"

definition redisConnector_get :: "redis \<Rightarrow> string \<Rightarrow> (redis \<times> byte list) option" where
  "redisConnector_get r fild =
     (let r1 = rd_log (rd_log (redis_ensure r) (Redis_get fild)) Redis_sync_commit in
      case rd_replies r1 of
        [] \<Rightarrow> None
      | a # as \<Rightarrow> map_option (\<lambda>v. (r1\<lparr>rd_replies := as\<rparr>, v)) a)"

definition redisConnector_set :: "redis \<Rightarrow> string \<Rightarrow> byte list \<Rightarrow> u32 \<Rightarrow> redis" where
  "redisConnector_set r fild v expire =
     (let r1 = rd_log (redis_ensure r) (Redis_set fild v);
          r2 = (if expire \<noteq> 0 then rd_log r1 (Redis_expire fild expire) else r1)
      in rd_log r2 Redis_sync_commit)"

definition redisConnector_disconnect :: "redis \<Rightarrow> redis" where
  "redisConnector_disconnect r = (if rd_TLSRedisClient r \<noteq> 0 then rd_log r Redis_disconnect else r)"

section \<open>A sequence of uses\<close>

datatype redis_use =
    Use_get string
  | Use_set string "byte list" u32
  | Use_disconnect

fun do_redis :: "redis_use \<Rightarrow> redis \<Rightarrow> redis option" where
  "do_redis (Use_get k) r = map_option fst (redisConnector_get r k)"
| "do_redis (Use_set k v n) r = Some (redisConnector_set r k v n)"
| "do_redis Use_disconnect r = Some (redisConnector_disconnect r)"

fun redis_uses :: "redis_use list \<Rightarrow> redis \<Rightarrow> redis option" where
  "redis_uses [] r = Some r"
| "redis_uses (u # us) r = Option.bind (do_redis u r) (redis_uses us)"

text \<open>The data commands that a sequence of uses asks for, in order.\<close>

fun asked :: "redis_use \<Rightarrow> redis_call list" where
  "asked (Use_get k) = [Redis_get k]"
| "asked (Use_set k v n) = Redis_set k v # (if n = 0 then [] else [Redis_expire k n])"
| "asked Use_disconnect = []"

fun data_command :: "redis_call \<Rightarrow> bool" where
  "data_command (Redis_get _) = True"
| "data_command (Redis_set _ _) = True"
| "data_command (Redis_expire _ _) = True"
| "data_command _ = False"

text \<open>
  The library sends buffered commands only with \<open>sync_commit\<close>. \<open>uncommitted\<close> of a log, the latest call first, lists the data commands that
  were buffered after the last one.
\<close>

fun uncommitted :: "redis_call list \<Rightarrow> redis_call list" where
  "uncommitted [] = []"
| "uncommitted (Redis_sync_commit # cs) = []"
| "uncommitted (c # cs) = (if data_command c then c # uncommitted cs else uncommitted cs)"

text \<open>
  What holds between two uses: nothing is left uncommitted, and when there is a client it was connected once, by the first call of all.
\<close>

definition redis_inv :: "redis \<Rightarrow> bool" where
  "redis_inv r \<longleftrightarrow> rd_new r \<noteq> 0 \<and> uncommitted (rd_calls r) = [] \<and>
     (if rd_TLSRedisClient r = 0 then rd_calls r = []
      else (\<exists>cs. rd_calls r = cs @ [Redis_connect] \<and> Redis_connect \<notin> set cs))"

lemma redis_use_step:
  assumes "redis_inv r" "do_redis u r = Some r'"
  shows "redis_inv r'" "filter data_command (rev (rd_calls r')) = filter data_command (rev (rd_calls r)) @ asked u"
    "u \<noteq> Use_disconnect \<Longrightarrow> rd_TLSRedisClient r' \<noteq> 0" "rd_TLSRedisClient r \<noteq> 0 \<Longrightarrow> rd_TLSRedisClient r' = rd_TLSRedisClient r"
proof -
  note D = redisConnector_set_def redisConnector_get_def redisConnector_disconnect_def redis_ensure_def rd_log_def Let_def
  have i: "rd_new r \<noteq> 0" "uncommitted (rd_calls r) = []"
    "rd_TLSRedisClient r = 0 \<Longrightarrow> rd_calls r = []"
    "rd_TLSRedisClient r \<noteq> 0 \<Longrightarrow> \<exists>cs. rd_calls r = cs @ [Redis_connect] \<and> Redis_connect \<notin> set cs"
    using assms(1) by (auto simp: redis_inv_def split: if_splits)
  have "redis_inv r' \<and> filter data_command (rev (rd_calls r')) = filter data_command (rev (rd_calls r)) @ asked u \<and>
    (u \<noteq> Use_disconnect \<longrightarrow> rd_TLSRedisClient r' \<noteq> 0) \<and> (rd_TLSRedisClient r \<noteq> 0 \<longrightarrow> rd_TLSRedisClient r' = rd_TLSRedisClient r)"
  proof (cases "rd_TLSRedisClient r = 0")
    case True
    then show ?thesis using assms(2) i
      by (cases u) (auto simp: D redis_inv_def split: list.splits if_splits intro: exI [of _ "_ # _"])
  next
    case False
    then obtain cs where "rd_calls r = cs @ [Redis_connect]" "Redis_connect \<notin> set cs" using i(4) by blast
    then show ?thesis using assms(2) i(1,2) False
      by (cases u) (auto simp: D redis_inv_def split: list.splits if_splits)
  qed
  then show "redis_inv r'" "filter data_command (rev (rd_calls r')) = filter data_command (rev (rd_calls r)) @ asked u"
    "u \<noteq> Use_disconnect \<Longrightarrow> rd_TLSRedisClient r' \<noteq> 0" "rd_TLSRedisClient r \<noteq> 0 \<Longrightarrow> rd_TLSRedisClient r' = rd_TLSRedisClient r"
    by blast+
qed

lemma redis_uses_inv:
  assumes "redis_inv r" "redis_uses us r = Some r'"
  shows "redis_inv r' \<and> filter data_command (rev (rd_calls r')) = filter data_command (rev (rd_calls r)) @ concat (map asked us) \<and>
    (rd_TLSRedisClient r' \<noteq> 0 \<longleftrightarrow> rd_TLSRedisClient r \<noteq> 0 \<or> \<not> set us \<subseteq> {Use_disconnect})"
  using assms
proof (induction us arbitrary: r)
  case (Cons u us)
  obtain r1 where r1: "do_redis u r = Some r1" "redis_uses us r1 = Some r'" using Cons.prems(2) by (auto split: bind_splits)
  note S = redis_use_step [OF Cons.prems(1) r1(1)]
  have "rd_TLSRedisClient r1 \<noteq> 0 \<longleftrightarrow> rd_TLSRedisClient r \<noteq> 0 \<or> u \<noteq> Use_disconnect"
    using S(3,4) r1(1) by (cases u) (auto simp: redisConnector_disconnect_def rd_log_def split: if_splits)
  then show ?case using Cons.IH [OF S(1) r1(2)] S(2) by auto
qed simp

text \<open>Uses end as long as every \<open>get\<close> finds a reply that is a string.\<close>

abbreviation redis_gets :: "redis_use list \<Rightarrow> nat" where
  "redis_gets us \<equiv> length (filter (\<lambda>u. \<exists>k. u = Use_get k) us)"

lemma redis_uses_end:
  assumes "None \<notin> set (rd_replies r)" "redis_gets us \<le> length (rd_replies r)"
  shows "\<exists>r'. redis_uses us r = Some r'"
  using assms
proof (induction us arbitrary: r)
  case (Cons u us)
  note D = redisConnector_set_def redisConnector_get_def redisConnector_disconnect_def redis_ensure_def rd_log_def Let_def
  have "\<exists>r1. do_redis u r = Some r1 \<and> None \<notin> set (rd_replies r1) \<and> redis_gets us \<le> length (rd_replies r1)"
    using Cons.prems by (cases u; cases "rd_replies r"; cases "hd (rd_replies r)") (auto simp: D)
  then show ?case using Cons.IH by force
qed simp

end
