(* ===== verification/Login_Server.thy ===== *)
theory Login_Server
  imports Network_Safety Network_Start Mysql_Connector Redis_Connector
begin

text \<open>
  The application: \<open>loginServer.h\<close>, \<open>loginServer.cpp\<close> and \<open>testMain.cpp\<close>. The state extends that of the
  network core by the table of connections and by the parameters of the run: the database
  client and the store client of the running thread, the tick counter, the results of
  \<open>rand\<close>, the words that lie on the stack where the code leaves an array uninitialised, and the
  allocator of the packet buffers. The connection objects come from an \<open>ObjectPool\<close> that is not
  part of the repository (\<open>ls_connSupply\<close>).
\<close>

section \<open>Connections\<close>

record connectionData =
  cd_ip :: string
  cd_timeOutTick :: u64

definition htonl :: "u32 \<Rightarrow> u32" where
  "htonl x = le_word (rev (le_bytes 4 x))"

text \<open>\<open>inet_ntop(AF_INET, &a, ...)\<close>: the four bytes of the address in memory order.\<close>

definition inet_ntop :: "u32 \<Rightarrow> string" where
  "inet_ntop a =
     (case le_bytes 4 a of
        [b0, b1, b2, b3] \<Rightarrow> dec_of_nat (unat b0) @ ''.'' @ dec_of_nat (unat b1) @ ''.'' @
                            dec_of_nat (unat b2) @ ''.'' @ dec_of_nat (unat b3)
      | _ \<Rightarrow> [])"

text \<open>\<open>ip\<close> has \<open>INET_ADDRSTRLEN\<close>, that is 22, bytes; \<open>strcpy_s\<close> is told the length of the source.\<close>

definition connectionData_new_str :: "u64 \<Rightarrow> string \<Rightarrow> connectionData option" where
  "connectionData_new_str tick ip =
     (if length ip + 1 \<le> 22 then Some \<lparr>cd_ip = ip, cd_timeOutTick = tick\<rparr> else None)"

definition connectionData_new :: "u64 \<Rightarrow> u32 \<Rightarrow> connectionData" where
  "connectionData_new tick ip = \<lparr>cd_ip = inet_ntop (htonl ip), cd_timeOutTick = tick\<rparr>"

datatype jobID = newConnection | deleteConnection | packetProcess | dataBaseResult

record JobStruct =
  js_id :: jobID
  js_targetID :: u64
  js_serializer :: u64

definition JobStruct_new :: JobStruct where
  "JobStruct_new = \<lparr>js_id = newConnection, js_targetID = 0, js_serializer = 0\<rparr>"

definition JobStruct_new_id :: "jobID \<Rightarrow> u64 \<Rightarrow> JobStruct" where
  "JobStruct_new_id j t = \<lparr>js_id = j, js_targetID = t, js_serializer = 0\<rparr>"

definition JobStruct_new_packet :: "jobID \<Rightarrow> u64 \<Rightarrow> u64 \<Rightarrow> JobStruct" where
  "JobStruct_new_packet j t p = \<lparr>js_id = j, js_targetID = t, js_serializer = p\<rparr>"

section \<open>The server\<close>

record loginServer = network +
  ls_timeoutThreshold :: u64
  ls_IOThreadSize :: u32
  ls_run :: bool
  ls_connectionMap :: "(u64 \<times> u64) list"
  ls_conns :: "u64 \<rightharpoonup> connectionData"
  ls_connSupply :: "u64 list"
  ls_mysql :: mysql
  ls_redis :: redis
  ls_tick :: u64
  ls_rand :: "u32 list"
  ls_stack :: "nat \<Rightarrow> u16"
  ls_env :: mem_env

definition loginServer_new :: "loginServer \<Rightarrow> u64 \<Rightarrow> loginServer option" where
  "loginServer_new st timeoutThreshold =
     do { m \<leftarrow> mysqlConnector_init (ls_mysql st);
          Some (st\<lparr>ls_timeoutThreshold := timeoutThreshold, ls_mysql := m, ls_run := True\<rparr>) }"

definition loginServer_delete :: "loginServer \<Rightarrow> loginServer" where
  "loginServer_delete st = st\<lparr>ls_run := False\<rparr>"

definition OnDisconnect :: "u64 \<Rightarrow> loginServer \<Rightarrow> loginServer option" where
  "OnDisconnect sessionID st =
     Some (st\<lparr>ls_connectionMap := AList.delete sessionID (ls_connectionMap st)\<rparr>)"

definition connectionPool_New :: "loginServer \<Rightarrow> connectionData \<Rightarrow> (loginServer \<times> u64) option" where
  "connectionPool_New st c =
     (case ls_connSupply st of
        [] \<Rightarrow> None
      | p # ps \<Rightarrow> Some (st\<lparr>ls_connSupply := ps, ls_conns := (ls_conns st)(p \<mapsto> c)\<rparr>, p))"

definition OnNewConnect :: "u64 \<Rightarrow> loginServer \<Rightarrow> loginServer option" where
  "OnNewConnect sessionID st =
     do { (st1, r) \<leftarrow> findSession OnDisconnect sessionID st;
          (case r of
             None \<Rightarrow> Some st1
           | Some i \<Rightarrow> do {
               s \<leftarrow> session_at st1 i;
               (st2, connection) \<leftarrow> connectionPool_New st1 (connectionData_new (ls_tick st1) (getIp s));
               session_release OnDisconnect i
                 (st2\<lparr>ls_connectionMap := AList.update sessionID connection (ls_connectionMap st2)\<rparr>) }) }"

definition OnConnectionRequest :: "u32 \<Rightarrow> u16 \<Rightarrow> loginServer \<Rightarrow> (loginServer \<times> bool) option" where
  "OnConnectionRequest ip port st = Some (st, True)"

definition OnSend :: "u64 \<Rightarrow> u32 \<Rightarrow> loginServer \<Rightarrow> loginServer option" where
  "OnSend sessionID sendsize st = Some st"

definition OnError :: "u32 \<Rightarrow> string \<Rightarrow> loginServer \<Rightarrow> loginServer option" where
  "OnError errorcode msg st = Some st"

definition getRandKey :: "loginServer \<Rightarrow> (loginServer \<times> byte) option" where
  "getRandKey st =
     (case ls_rand st of [] \<Rightarrow> None | r # rs \<Rightarrow> Some (st\<lparr>ls_rand := rs\<rparr>, ucast (r AND 0x000000FF)))"

definition getStatickey :: byte where
  "getStatickey = 0x32"

text \<open>The answer of the database is stored in a local variable and not looked at.\<close>

definition sessionKeyCheckByDatabase :: "u64 \<Rightarrow> loginServer \<Rightarrow> (loginServer \<times> bool) option" where
  "sessionKeyCheckByDatabase accountNo st =
     do { (m, result) \<leftarrow> mysqlConnector_query (ls_mysql st)
            (''select sessionkey from sessionkey where accountno = '' @ to_string accountNo @ '';'')
            (dbResult_new (\<lambda>ns. ns) [''sessionKey'']);
          Some (st\<lparr>ls_mysql := m\<rparr>, True) }"

text \<open>\<open>string(_sessionKey, 64)\<close> for an address in the block of the packet \<open>p\<close>.\<close>

definition redisUpdate :: "u64 \<Rightarrow> u64 \<Rightarrow> u64 \<Rightarrow> loginServer \<Rightarrow> loginServer option" where
  "redisUpdate accountNo p sessionKey st =
     do { ser \<leftarrow> ser_at st p;
          bs \<leftarrow> sz_read ser sessionKey 64;
          Some (st\<lparr>ls_redis := redisConnector_set (ls_redis st) (to_string accountNo) bs 1\<rparr>) }"

definition wtext :: "string \<Rightarrow> u16 list" where
  "wtext s = map (\<lambda>c. of_nat (of_char c)) s"

definition chattingServerIp :: "u16 list" where
  "chattingServerIp = wtext ''10.0.1.1'' @ replicate 8 0"

text \<open>\<open>temp\<close> is the array \<open>WCHAR temp[20]\<close>, which the code does not initialise.\<close>

definition write_response :: "mem_env \<Rightarrow> u64 \<Rightarrow> u16 list \<Rightarrow> 'a pheap_scheme \<Rightarrow> packet \<Rightarrow> 'a pheap_scheme option" where
  "write_response env accountNo temp h k =
     do { h \<leftarrow> packet_out (shl_ushort env) h k 102;
          h \<leftarrow> packet_out (shl_ulonglong env) h k accountNo;
          h \<leftarrow> packet_out (shl_uchar env) h k 1;
          h \<leftarrow> packet_setWstring h k temp 20;
          h \<leftarrow> packet_setWstring h k temp 20;
          h \<leftarrow> packet_setWstring h k temp 16;
          h \<leftarrow> packet_out (shl_ushort env) h k 0;
          h \<leftarrow> packet_setWstring h k chattingServerIp 16;
          packet_out (shl_ushort env) h k 12001 }"

definition send_response :: "u64 \<Rightarrow> u64 \<Rightarrow> loginServer \<Rightarrow> loginServer option" where
  "send_response sessionID accountNo st =
     do { (st1, response) \<leftarrow> packet_new st;
          st2 \<leftarrow> write_response (ls_env st1) accountNo (map (ls_stack st1) [0..<20]) st1 response;
          (st3, key) \<leftarrow> getRandKey st2;
          st4 \<leftarrow> packet_setHeader st3 response key;
          st5 \<leftarrow> packet_encryption st4 response getStatickey;
          st6 \<leftarrow> sendReq_packet OnDisconnect sessionID response st5;
          (st7, _) \<leftarrow> packet_delete st6 response;
          Some st7 }"

definition OnRecv :: "u64 \<Rightarrow> u64 \<Rightarrow> loginServer \<Rightarrow> loginServer option" where
  "OnRecv sessionID p st =
     do { (st1, code) \<leftarrow> ser_call st p shr_char;
          (st2, payloadSize) \<leftarrow> ser_call st1 p shr_short;
          (st3, key) \<leftarrow> ser_call st2 p shr_char;
          (st4, accepted) \<leftarrow> ser_call st3 p (\<lambda>s. decryption s getStatickey);
          (if \<not> accepted then disconnectReq OnDisconnect sessionID st4
           else do {
             (st5, checkSum) \<leftarrow> ser_call st4 p shr_char;
             (st6, type) \<leftarrow> ser_call st5 p shr_ushort;
             (if type \<noteq> 101 then disconnectReq OnDisconnect sessionID st6
              else do {
                (st7, accountNo) \<leftarrow> ser_call st6 p shr_ulonglong;
                ser \<leftarrow> ser_at st7 p;
                (let sessionKey = sz_getHeadPtr ser in do {
                   (st8, ok) \<leftarrow> sessionKeyCheckByDatabase accountNo st7;
                   (if \<not> ok then disconnectReq OnDisconnect sessionID st8
                    else do {
                      st9 \<leftarrow> redisUpdate accountNo p sessionKey st8;
                      send_response sessionID accountNo st9 }) }) }) }) }"

definition login_callbacks :: "loginServer callbacks" where
  "login_callbacks =
     \<lparr>cb_OnNewConnect = OnNewConnect, cb_OnDisconnect = OnDisconnect,
      cb_OnConnectionRequest = OnConnectionRequest, cb_OnRecv = OnRecv, cb_OnSend = OnSend, cb_OnError = OnError\<rparr>"

text \<open>
  One pass of the timeout thread. It holds \<open>containorLock\<close> in shared mode, which \<open>OnDisconnect\<close>
  acquires in exclusive mode: a deletion from inside the loop does not return.
\<close>

fun update_sweep :: "(u64 \<times> u64) list \<Rightarrow> u64 \<Rightarrow> loginServer \<Rightarrow> loginServer option" where
  "update_sweep [] currentTick st = Some st"
| "update_sweep ((sid, c) # cs) currentTick st =
     do { d \<leftarrow> ls_conns st c;
          st1 \<leftarrow> (if ls_timeoutThreshold st < currentTick - cd_timeOutTick d
                  then disconnectReq (\<lambda>_ _. None) sid st else Some st);
          update_sweep cs currentTick st1 }"

definition update_step :: "loginServer \<Rightarrow> loginServer option" where
  "update_step st = (if ls_run st then update_sweep (ls_connectionMap st) (ls_tick st) st else Some st)"

section \<open>\<open>testMain.cpp\<close>\<close>

definition main_start :: "start_env \<Rightarrow> u64 \<Rightarrow> loginServer \<Rightarrow> (loginServer \<times> bool) option" where
  "main_start env self st =
     do { st1 \<leftarrow> loginServer_new st 10000;
          (st2, ok) \<leftarrow> start login_callbacks env self 10000 10 3 st1;
          Some (st2, False) }"

text \<open>One turn of the loop of \<open>main\<close>: the new value of \<open>flag\<close> and what is printed.\<close>

definition main_step :: "bool \<Rightarrow> loginServer \<Rightarrow> bool \<Rightarrow> bool \<times> string" where
  "main_step space st flag =
     (let nl = [CHR 0x0A]; tab = [CHR 0x09];
          out1 = (if space then (if flag then ''OFF'' else ''ON'') @ nl else []);
          flag1 = (if space then \<not> flag else flag);
          out2 = (if flag1
                  then tab @ ''accept TPS'' @ tab @ '': '' @ dec_of_nat (unat (getAcceptTPS st)) @
                         ''(total '' @ dec_of_nat (unat (getAcceptTotal st)) @ '')'' @ nl @
                       tab @ ''sessionCount'' @ tab @ '': '' @
                         (let n = sint (getSessionCount st) in
                          if n < 0 then ''-'' @ dec_of_nat (nat (- n)) else dec_of_nat (nat n)) @ nl @ nl
                  else [])
      in (flag1, out1 @ out2))"

end
