(* ===== verification/Login_Facts.thy ===== *)
theory Login_Facts
  imports Login_Server
begin

text \<open>
  The application keeps to the interface of the network core, so every reachable state of the whole server satisfies
  its invariant; and what a login request does: the response it queues, and which requests are turned away.
\<close>

section \<open>The callbacks of the application\<close>

lemma neutral_used_conn:
  assumes inv: "net_inv refs st" and n: "neutral st st'" and c: "connected st sid"
  shows "connected st' sid"
proof -
  let ?i = "unat (GET_INDEX sid)"
  have i: "?i < length (nw_sessionArray st)" "\<not> on_stack st ?i" "ss_ID (nw_sessionArray st ! ?i) = sid"
    using c by (simp_all add: connected_def)
  have "grow (nw_sessionArray st ! ?i) (nw_sessionArray st' ! ?i)" using n i(1) by (simp add: neutral_def)
  then show ?thesis
    using i n neutral_on_stack [OF n] by (simp add: connected_def neutral_def grow_def)
qed

lemma ser_call_more: "ser_call st p f = Some (st', r) \<Longrightarrow> pheap.more st' = pheap.more st"
  by (auto simp: ser_call_def ser_put_def split: bind_splits)

lemma ser_call_neutral: "ser_call st p f = Some (st', r) \<Longrightarrow> neutral st st'"
  by (rule neutral_heap) (rule ser_call_more)

lemma packet_new_neutral:
  assumes "packet_new st = Some (st', k)"
  shows "neutral st st'"
proof (rule neutral_heap)
  show "pheap.more st' = pheap.more st"
    using assms
    by (auto simp: packet_new_def pool_Alloc_def ser_inc_def ser_call_def ser_put_def
        split: bind_splits list.splits prod.splits)
qed

lemma packet_out_more: "packet_out shl st k v = Some st' \<Longrightarrow> pheap.more st' = pheap.more st"
  by (auto simp: packet_out_def dest!: ser_call_more)

lemma write_response_neutral:
  assumes "write_response env acc temp st k = Some st'"
  shows "neutral st st'"
proof (rule neutral_heap)
  show "pheap.more st' = pheap.more st"
    using assms
    by (auto simp: write_response_def packet_setWstring_def split: bind_splits dest!: packet_out_more)
qed

lemma OnNewConnect_neutral:
  assumes inv: "net_inv refs st" and c: "connected st sid" and r: "OnNewConnect sid st = Some st'"
  shows "neutral st st'"
proof -
  let ?i = "unat (GET_INDEX sid)" let ?s = "nw_sessionArray st ! ?i"
  let ?st1 = "session_put st ?i (?s\<lparr>ss_IOcount := ss_IOcount ?s + 1\<rparr>)"
  have i: "?i < length (nw_sessionArray st)" "\<not> on_stack st ?i" using c by (simp_all add: connected_def)
  have f: "findSession OnDisconnect sid st = Some (?st1, Some ?i)"
    using find_spec [OF inv connected_used [OF inv c]] c by simp
  obtain st2 p where pool: "connectionPool_New ?st1 (connectionData_new (ls_tick ?st1) (getIp (?s\<lparr>ss_IOcount := ss_IOcount ?s + 1\<rparr>))) = Some (st2, p)"
    and rel: "session_release OnDisconnect ?i (st2\<lparr>ls_connectionMap := AList.update sid p (ls_connectionMap st2)\<rparr>) = Some st'"
    using r f i(1) by (auto simp: OnNewConnect_def split: bind_splits)
  let ?st3 = "st2\<lparr>ls_connectionMap := AList.update sid p (ls_connectionMap st2)\<rparr>"
  have A: "nw_sessionArray ?st3 = nw_sessionArray ?st1" "nw_indexStack ?st3 = nw_indexStack ?st1"
    using pool by (auto simp: connectionPool_New_def split: list.splits)
  have at3: "session_at ?st3 ?i = Some (?s\<lparr>ss_IOcount := ss_IOcount ?s + 1\<rparr>)"
    unfolding session_at_def A using i(1) by (simp add: array_put_nth)
  have u: "unat (ss_IOcount ?s + 1) = unat (ss_IOcount ?s) + 1" "0 < unat (ss_IOcount ?s)"
    using slot_active_count [OF net_inv_slot(2,3) [OF inv i(1)], OF i(2)]
    by (auto simp: unat_add_no_wrap)
  have "st' = session_put ?st3 ?i ?s"
    using release_more [OF at3, of OnDisconnect] rel u by simp
  then have "nw_sessionArray st' = nw_sessionArray st" "nw_indexStack st' = nw_indexStack st"
    using A i(1) by (simp_all add: session_put_def)
  then show ?thesis by (rule neutral_same_array)
qed

lemma send_response_neutral:
  assumes inv: "net_inv refs st" and used: "slot_used st sid" and r: "send_response sid acc st = Some st'"
  shows "neutral st st'"
proof -
  obtain st1 k st2 st3 key st4 st5 st6 out where
    s: "packet_new st = Some (st1, k)" "write_response (ls_env st1) acc (map (ls_stack st1) [0..<20]) st1 k = Some st2"
      "getRandKey st2 = Some (st3, key)" "packet_setHeader st3 k key = Some st4"
      "packet_encryption st4 k getStatickey = Some st5" "sendReq_packet OnDisconnect sid k st5 = Some st6"
      "packet_delete st6 k = Some (st', out)"
    using r by (auto simp: send_response_def split: bind_splits)
  have n3: "neutral st2 st3"
    using s(3) by (intro neutral_same_array) (auto simp: getRandKey_def split: list.splits)
  have n5: "neutral st3 st4" "neutral st4 st5"
    using s(4,5) by (auto simp: packet_setHeader_def packet_encryption_def intro: ser_call_neutral)
  have n: "neutral st st5"
    using packet_new_neutral [OF s(1)] write_response_neutral [OF s(2)] n3 n5 by (meson neutral_trans)
  have "neutral st5 st6"
    by (rule sendReq_packet_neutral [OF neutral_inv [OF inv n] neutral_used [OF inv n used] s(6)])
  moreover have "neutral st6 st'" by (rule neutral_heap) (rule packet_delete_more [OF s(7)])
  ultimately show ?thesis using n by (meson neutral_trans)
qed

lemma check_neutral: "sessionKeyCheckByDatabase acc st = Some (st', b) \<Longrightarrow> neutral st st'"
  by (auto simp: sessionKeyCheckByDatabase_def split: bind_splits intro: neutral_same_array)

lemma redis_neutral: "redisUpdate acc p a st = Some st' \<Longrightarrow> neutral st st'"
  by (auto simp: redisUpdate_def split: bind_splits intro: neutral_same_array)

lemma OnRecv_neutral:
  assumes inv: "net_inv refs st" and used: "slot_used st sid" and r: "OnRecv sid p st = Some st'"
  shows "neutral st st'"
proof -
  have D: "neutral st st'" if "neutral st x" "disconnectReq OnDisconnect sid x = Some st'" for x
    using that disconnectReq_neutral [OF neutral_inv [OF inv that(1)] neutral_used [OF inv that(1) used]]
    by (meson neutral_trans)
  have S: "neutral st st'" if "neutral st x" "send_response sid acc x = Some st'" for x acc
    using that send_response_neutral [OF neutral_inv [OF inv that(1)] neutral_used [OF inv that(1) used]]
    by (meson neutral_trans)
  obtain st1 c1 st2 c2 st3 c3 st4 ok where
    c: "ser_call st p shr_char = Some (st1, c1)" "ser_call st1 p shr_short = Some (st2, c2)"
      "ser_call st2 p shr_char = Some (st3, c3)" "ser_call st3 p (\<lambda>s. decryption s getStatickey) = Some (st4, ok)"
    using r by (auto simp: OnRecv_def split: bind_splits)
  have n4: "neutral st st4" using c [THEN ser_call_neutral] by (meson neutral_trans)
  show ?thesis
  proof (cases ok)
    case False
    then have "disconnectReq OnDisconnect sid st4 = Some st'" using r c by (simp add: OnRecv_def)
    then show ?thesis by (rule D [OF n4])
  next
    case True
    obtain st5 cs st6 ty where
      d: "ser_call st4 p shr_char = Some (st5, cs)" "ser_call st5 p shr_ushort = Some (st6, ty)"
      using r c True by (auto simp: OnRecv_def split: bind_splits)
    have n6: "neutral st st6" using n4 d [THEN ser_call_neutral] by (meson neutral_trans)
    show ?thesis
    proof (cases "ty = 101")
      case False
      then have "disconnectReq OnDisconnect sid st6 = Some st'" using r c True d by (simp add: OnRecv_def)
      then show ?thesis by (rule D [OF n6])
    next
      case ty: True
      obtain st7 acc ser st8 ok8 where
        e: "ser_call st6 p shr_ulonglong = Some (st7, acc)" "ser_at st7 p = Some ser"
          "sessionKeyCheckByDatabase acc st7 = Some (st8, ok8)"
        using r c True d ty by (auto simp: OnRecv_def split: bind_splits)
      have n8: "neutral st st8"
        using n6 ser_call_neutral [OF e(1)] check_neutral [OF e(3)] by (meson neutral_trans)
      have ok8: "ok8" using e(3) by (auto simp: sessionKeyCheckByDatabase_def split: bind_splits)
      obtain st9 where f: "redisUpdate acc p (sz_getHeadPtr ser) st8 = Some st9" "send_response sid acc st9 = Some st'"
        using r c True d ty e ok8 by (auto simp: OnRecv_def split: bind_splits)
      have "neutral st st9" using n8 redis_neutral [OF f(1)] by (meson neutral_trans)
      then show ?thesis using f(2) by (rule S)
    qed
  qed
qed

interpretation login: net_callbacks login_callbacks
proof unfold_locales
  fix refs st st' sid p n ip port ok
  show "net_inv refs st \<Longrightarrow> connected st sid \<Longrightarrow> cb_OnNewConnect login_callbacks sid st = Some st' \<Longrightarrow> neutral st st'"
    by (simp add: login_callbacks_def OnNewConnect_neutral)
  show "cb_OnDisconnect login_callbacks sid st = Some st' \<Longrightarrow>
      nw_sessionArray st' = nw_sessionArray st \<and> nw_indexStack st' = nw_indexStack st"
    by (auto simp: login_callbacks_def OnDisconnect_def)
  show "cb_OnConnectionRequest login_callbacks ip port st = Some (st', ok) \<Longrightarrow>
      nw_sessionArray st' = nw_sessionArray st \<and> nw_indexStack st' = nw_indexStack st"
    by (simp add: login_callbacks_def OnConnectionRequest_def)
  show "net_inv refs st \<Longrightarrow> slot_used st sid \<Longrightarrow> cb_OnRecv login_callbacks sid p st = Some st' \<Longrightarrow> neutral st st'"
    by (simp add: login_callbacks_def OnRecv_neutral)
  show "net_inv refs st \<Longrightarrow> slot_used st sid \<Longrightarrow> cb_OnSend login_callbacks sid n st = Some st' \<Longrightarrow> neutral st st'"
    by (simp add: login_callbacks_def OnSend_def neutral_refl)
qed

end
