(* ===== verification/Login_Response.thy ===== *)
theory Login_Response
  imports Login_Facts
begin

text \<open>
  What a login request does, from the bytes of the received block to the packet that is queued for the client, and
  which requests are turned away.
\<close>

section \<open>Filling a packet\<close>

text \<open>A block that a packet is being written into: the header space is skipped and \<open>d\<close> is the payload so far.\<close>

definition filled :: "serializer \<Rightarrow> byte list \<Rightarrow> bool" where
  "filled s d \<longleftrightarrow> sz_inv s \<and> sz_ho s = 5 \<and> sz_to s = 5 + length d \<and> sz_data s = d"

lemma filled_put:
  assumes f: "filled s d" and n: "5 + length d + length bs \<le> unat (sz_bufferSize s)"
  obtains s' where "sz_put env s bs = Some s'" "filled s' (d @ bs)" "sz_bufferSize s' = sz_bufferSize s"
    "sz_referenceCounter s' = sz_referenceCounter s"
proof -
  have F: "sz_inv s" "sz_ho s = 5" "sz_to s = 5 + length d" "sz_data s = d" using f by (simp_all add: filled_def)
  have r: "length bs \<le> sz_room s" using n F(3) by simp
  obtain s' where s': "sz_put env s bs = Some s'" "sz_inv s'" "sz_data s' = sz_data s @ bs"
    "sz_ho s' = sz_ho s" "sz_to s' = sz_to s + length bs" "sz_bufferSize s' = sz_bufferSize s"
    "sz_referenceCounter s' = sz_referenceCounter s"
    by (rule sz_put_spec [OF F(1) r])
  show thesis by (rule that [OF s'(1)]) (use s' F in \<open>simp_all add: filled_def\<close>)
qed

lemma length_wchar_bytes [simp]: "length (wchar_bytes ws) = 2 * length ws"
  by (induction ws) (simp_all add: wchar_bytes_def)

lemma wchar_bytes_append: "wchar_bytes (us @ ws) = wchar_bytes us @ wchar_bytes ws"
  by (simp add: wchar_bytes_def)

lemma take_wchar_bytes: "take (2 * n) (wchar_bytes ws) = wchar_bytes (take n ws)"
proof (induction ws arbitrary: n)
  case (Cons w ws)
  then show ?case by (cases n) (simp_all add: wchar_bytes_def)
qed (simp add: wchar_bytes_def)

text \<open>\<open>setWstring\<close> of the first characters of an array.\<close>

lemma filled_setWstring:
  assumes f: "filled s d" and n: "5 + length d + 2 * n \<le> unat (sz_bufferSize s)"
    and len: "len = of_nat n" "n \<le> length ws"
  obtains s' where "sz_setWstring s ws len = Some s'" "filled s' (d @ wchar_bytes (take n ws))"
    "sz_bufferSize s' = sz_bufferSize s" "sz_referenceCounter s' = sz_referenceCounter s"
proof -
  have F: "sz_inv s" "sz_ho s = 5" "sz_to s = 5 + length d" "sz_data s = d" using f by (simp_all add: filled_def)
  let ?bs = "wchar_bytes (take n ws)"
  have lb: "length ?bs = 2 * n" using len(2) by simp
  have l31: "2 * n < 2 ^ 31" using n sz_invD(4) [OF F(1)] by simp
  have ul: "unat len = n" using l31 by (simp add: len unat_of_nat)
  have sc: "(scast len :: u64) = of_nat n"
    using unat_scast_small [of len] l31 by (intro word_eq_of_nat) (simp add: ul)
  have w2: "(2 * scast len :: u64) = of_nat (2 * n)" by (simp add: sc)
  have u2: "unat (2 * scast len :: u64) = 2 * n"
    using l31 by (simp only: w2 unat_of_nat) simp
  have "unat (2 * scast len :: u64) < 2 ^ 32" unfolding u2 using l31 by simp
  then have uc: "(ucast (2 * scast len :: u64) :: u32) = of_nat (length ?bs)"
    by (intro word_eq_of_nat) (simp only: unat_ucast_64_32 u2 lb)
  have r: "length ?bs \<le> sz_room s" using n F(3) lb by simp
  note W = sz_write_tail_spec [OF F(1) r]
  have cap: "length ?bs \<le> unat (sz_useableSize s)" using r unat_sz_useableSize [OF F(1)] by simp
  have rd: "mem_read (wchar_bytes ws) 0 (2 * n) = Some ?bs"
    using len(2) by (simp add: mem_read_def take_wchar_bytes)
  obtain s' where s': "do { s2 \<leftarrow> sz_write s (sz_tailPtr s) ?bs; Some (fst (sz_moveRear s2 (of_nat (length ?bs)))) } = Some s'"
    "sz_inv s'" "sz_data s' = sz_data s @ ?bs" "sz_ho s' = sz_ho s" "sz_to s' = sz_to s + length ?bs"
    "sz_bufferSize s' = sz_bufferSize s" "sz_referenceCounter s' = sz_referenceCounter s"
    by (rule that [OF W(1-5)]) simp_all
  have "sz_setWstring s ws len = Some s'"
    using s'(1) cap unfolding sz_setWstring_def u2 uc rd by (simp add: memcpy_s_def)
  then show thesis by (rule that) (use s' F in \<open>simp_all add: filled_def\<close>)
qed

lemma packet_out_Some:
  "ser_at h (pk_buffer k) = Some s \<Longrightarrow> shl s v = Some s' \<Longrightarrow> packet_out shl h k v = Some (ser_put h (pk_buffer k) s')"
  by (simp add: packet_out_def ser_call_def)

definition response_payload :: "u64 \<Rightarrow> u16 list \<Rightarrow> byte list" where
  "response_payload accountNo temp =
     le_bytes 2 (102 :: u16) @ le_bytes 8 accountNo @ le_bytes 1 (1 :: byte) @
     wchar_bytes (take 20 temp) @ wchar_bytes (take 20 temp) @ wchar_bytes (take 16 temp) @ le_bytes 2 (0 :: u16) @
     wchar_bytes (take 16 chattingServerIp) @ le_bytes 2 (12001 :: u16)"

lemma length_chattingServerIp [simp]: "length chattingServerIp = 16"
  by (simp add: chattingServerIp_def wtext_def)

lemma length_response [simp]: "length temp = 20 \<Longrightarrow> length (response_payload a temp) = 159"
  by (simp add: response_payload_def)

text \<open>One stream operation of a packet under construction, in the heap.\<close>

definition pk_filled :: "'a pheap_scheme \<Rightarrow> 'a pheap_scheme \<Rightarrow> packet \<Rightarrow> serializer \<Rightarrow> byte list \<Rightarrow> bool" where
  "pk_filled h0 h k s d \<longleftrightarrow>
     (\<exists>s'. h = ser_put h0 (pk_buffer k) s' \<and> filled s' d \<and> sz_bufferSize s' = sz_bufferSize s \<and>
        sz_referenceCounter s' = sz_referenceCounter s)"

text \<open>A step that appends \<open>bs\<close> to the payload of the packet \<open>k\<close>, whatever it holds, if there is room.\<close>

definition appends :: "'a pheap_scheme \<Rightarrow> packet \<Rightarrow> serializer \<Rightarrow> ('a pheap_scheme \<Rightarrow> 'a pheap_scheme option) \<Rightarrow>
    byte list \<Rightarrow> bool" where
  "appends h0 k s f bs \<longleftrightarrow>
     (\<forall>h d. pk_filled h0 h k s d \<and> 5 + length d + length bs \<le> unat (sz_bufferSize s) \<longrightarrow>
        (\<exists>h'. f h = Some h' \<and> pk_filled h0 h' k s (d @ bs)))"

lemma appendsD:
  "appends h0 k s f bs \<Longrightarrow> pk_filled h0 h k s d \<Longrightarrow> 5 + length d + length bs \<le> unat (sz_bufferSize s) \<Longrightarrow>
     \<exists>h'. f h = Some h' \<and> pk_filled h0 h' k s (d @ bs)"
  by (simp add: appends_def)

lemma appends_bind:
  assumes "appends h0 k s f bs" "appends h0 k s g cs"
  shows "appends h0 k s (\<lambda>h. Option.bind (f h) g) (bs @ cs)"
  unfolding appends_def
proof (intro allI impI)
  fix h d
  assume h: "pk_filled h0 h k s d \<and> 5 + length d + length (bs @ cs) \<le> unat (sz_bufferSize s)"
  then obtain h1 where h1: "f h = Some h1" "pk_filled h0 h1 k s (d @ bs)"
    using appendsD [OF assms(1)] by force
  then obtain h2 where "g h1 = Some h2" "pk_filled h0 h2 k s ((d @ bs) @ cs)"
    using appendsD [OF assms(2)] h by force
  with h1 show "\<exists>h'. Option.bind (f h) g = Some h' \<and> pk_filled h0 h' k s (d @ bs @ cs)" by simp
qed

lemma appends_put:
  assumes p: "pk_buffer k \<noteq> 0" and shl: "\<And>s. shl s v = sz_put env s (bs v)"
  shows "appends h0 k s (\<lambda>h. packet_out shl h k v) (bs v)"
  unfolding appends_def
proof (intro allI impI)
  fix h d
  assume h: "pk_filled h0 h k s d \<and> 5 + length d + length (bs v) \<le> unat (sz_bufferSize s)"
  then obtain s1 where s1: "h = ser_put h0 (pk_buffer k) s1" "filled s1 d" "sz_bufferSize s1 = sz_bufferSize s"
    "sz_referenceCounter s1 = sz_referenceCounter s" by (auto simp: pk_filled_def)
  obtain s2 where s2: "sz_put env s1 (bs v) = Some s2" "filled s2 (d @ bs v)" "sz_bufferSize s2 = sz_bufferSize s1"
    "sz_referenceCounter s2 = sz_referenceCounter s1"
    using filled_put [OF s1(2), of "bs v" env] h s1(3) by auto
  have "packet_out shl h k v = Some (ser_put h (pk_buffer k) s2)"
    by (rule packet_out_Some [of _ _ s1]) (simp_all add: s1(1) ser_at_put p shl s2(1))
  then show "\<exists>h'. packet_out shl h k v = Some h' \<and> pk_filled h0 h' k s (d @ bs v)"
    using s1 s2 by (auto simp: pk_filled_def ph_simps)
qed

lemma appends_wstring:
  assumes p: "pk_buffer k \<noteq> 0" and n: "len = of_nat n" "n \<le> length ws"
  shows "appends h0 k s (\<lambda>h. packet_setWstring h k ws len) (wchar_bytes (take n ws))"
  unfolding appends_def
proof (intro allI impI)
  fix h d
  assume h: "pk_filled h0 h k s d \<and> 5 + length d + length (wchar_bytes (take n ws)) \<le> unat (sz_bufferSize s)"
  then obtain s1 where s1: "h = ser_put h0 (pk_buffer k) s1" "filled s1 d" "sz_bufferSize s1 = sz_bufferSize s"
    "sz_referenceCounter s1 = sz_referenceCounter s" by (auto simp: pk_filled_def)
  obtain s2 where s2: "sz_setWstring s1 ws len = Some s2" "filled s2 (d @ wchar_bytes (take n ws))"
    "sz_bufferSize s2 = sz_bufferSize s1" "sz_referenceCounter s2 = sz_referenceCounter s1"
    using filled_setWstring [OF s1(2) _ n] n(2) h s1(3) by auto
  have "packet_setWstring h k ws len = Some (ser_put h (pk_buffer k) s2)"
    unfolding packet_setWstring_def
    by (rule packet_out_Some [of _ _ s1]) (simp_all add: s1(1) ser_at_put p s2(1))
  then show "\<exists>h'. packet_setWstring h k ws len = Some h' \<and> pk_filled h0 h' k s (d @ wchar_bytes (take n ws))"
    using s1 s2 by (auto simp: pk_filled_def ph_simps)
qed

lemma write_response_appends:
  assumes p: "pk_buffer k \<noteq> 0" and temp: "length temp = 20"
  shows "appends h0 k s (\<lambda>h. write_response env accountNo temp h k) (response_payload accountNo temp)"
  unfolding write_response_def response_payload_def
  by (intro appends_bind appends_put [OF p, where env = env] appends_wstring [OF p])
    (simp_all add: temp shl_ushort_def shl_ulonglong_def shl_uchar_def)

lemma write_response_spec:
  assumes s: "ser_at h (pk_buffer k) = Some s" "filled s []" and b: "164 \<le> unat (sz_bufferSize s)"
    and temp: "length temp = 20"
  obtains s' where "write_response env accountNo temp h k = Some (ser_put h (pk_buffer k) s')"
    "filled s' (response_payload accountNo temp)" "sz_bufferSize s' = sz_bufferSize s"
    "sz_referenceCounter s' = sz_referenceCounter s"
proof -
  have "pk_filled h h k s []"
    using s(2) by (auto simp: pk_filled_def intro!: exI [of _ s] ser_put_same [OF s(1), symmetric])
  then have "\<exists>h'. write_response env accountNo temp h k = Some h' \<and> pk_filled h h' k s ([] @ response_payload accountNo temp)"
    by (rule appendsD [OF write_response_appends [OF ser_at_nonnull [OF s(1)] temp]]) (use b temp in simp)
  then show thesis using that by (auto simp: pk_filled_def)
qed

section \<open>The response\<close>

lemma filled_payload: "filled s d \<Longrightarrow> sz_payload s = d"
  by (auto simp: filled_def sz_payload_def sz_data_def)

lemma response_begin:
  assumes "sz_inv s" "5 \<le> unat (sz_bufferSize s)"
  shows "filled ((sz_begin s)\<lparr>sz_referenceCounter := n\<rparr>) []" "sz_bufferSize (sz_begin s) = sz_bufferSize s"
proof -
  note B = sz_begin_spec [OF assms]
  show "filled ((sz_begin s)\<lparr>sz_referenceCounter := n\<rparr>) []"
    using B(1-4) by (simp add: filled_def sz_inv_def sz_data_def sz_off_def)
  show "sz_bufferSize (sz_begin s) = sz_bufferSize s" by (simp add: B(5))
qed

text \<open>The block is on its way to the client: any receiver that gets its bytes accepts them and finds the payload.\<close>

definition wire_block :: "serializer \<Rightarrow> byte \<Rightarrow> byte list \<Rightarrow> bool" where
  "wire_block ser sk d \<longleftrightarrow> sz_inv ser \<and> sz_ho ser = 0 \<and> length (sz_data ser) = 5 + length d \<and>
     length d < 2 ^ 15 \<and> frame_size (sz_data ser) = of_nat (length d) \<and>
     (\<forall>r. sz_inv r \<longrightarrow> sz_to r = 5 + length d \<longrightarrow> take (5 + length d) (sz_mem r) = sz_data ser \<longrightarrow>
        decryption r sk = Some (crypt_put r (0 # d), True))"

lemma wire_block_ref [simp]: "wire_block (s\<lparr>sz_referenceCounter := n\<rparr>) sk d = wire_block s sk d"
  by (simp add: wire_block_def sz_inv_def sz_data_def sz_off_def)

lemma filled_wire:
  fixes key sk :: byte
  assumes f: "filled s d" and n: "length d < 2 ^ 15" and p: "p \<noteq> 0"
  obtains s1 s2 where "packet_setHeader (ser_put h p s) \<lparr>pk_buffer = p\<rparr> key = Some (ser_put h p s1)"
    "packet_encryption (ser_put h p s1) \<lparr>pk_buffer = p\<rparr> sk = Some (ser_put h p s2)"
    "wire_block s2 sk d" "sz_referenceCounter s2 = sz_referenceCounter s"
proof -
  have F: "sz_inv s" "sz_ho s = 5" "sz_to s = 5 + length d" using f by (simp_all add: filled_def)
  obtain s1 s2 where W: "setHeader s key = Some s1" "encryption s1 sk = Some s2" "sz_inv s2"
    "sz_ho s2 = 0" "length (sz_data s2) = 5 + length d" "sz_referenceCounter s2 = sz_referenceCounter s"
    "\<And>r. sz_inv r \<Longrightarrow> sz_to r = 5 + length d \<Longrightarrow> take (5 + length d) (sz_mem r) = sz_data s2 \<Longrightarrow>
       decryption r sk = Some (crypt_put r (0 # sz_payload s), True)"
    "nh_size (nh_of_bytes (take 5 (sz_data s2))) = of_nat (length d)"
    by (rule wire_accepted [OF F n, of key sk]) (rule that; assumption)
  show thesis
    by (rule that [of s1 s2])
      (use W p n filled_payload [OF f] in \<open>simp_all add: packet_setHeader_def packet_encryption_def ser_call_def ph_simps
        wire_block_def frame_size_def\<close>)
qed

lemma ls_ser_put [simp]:
  "ls_env (ser_put st p s) = ls_env st" "ls_stack (ser_put st p s) = ls_stack st" "ls_rand (ser_put st p s) = ls_rand st"
  "(ser_put st p s)\<lparr>ls_rand := rs\<rparr> = ser_put (st\<lparr>ls_rand := rs\<rparr>) p s"
  by (simp_all add: ser_put_def)

lemma send_response_spec:
  assumes inv: "net_inv refs st" and c: "connected st sid"
    and q: "ph_supply st = q # qs" "ser_at st q = Some s0" "sz_inv s0" "sz_referenceCounter s0 = 0"
      "164 \<le> unat (sz_bufferSize s0)"
    and r: "ls_rand st = rk # rs"
  defines "i \<equiv> unat (GET_INDEX sid)"
  defines "s \<equiv> nw_sessionArray st ! i" and "v \<equiv> q OR 0x4000000000000000"
  assumes room: "length (ss_inflight s) < 2 ^ 30"
  obtains ser where
    "send_response sid accountNo st =
       Some (os_log (session_put (ser_put (st\<lparr>ph_supply := qs, ls_rand := rs\<rparr>) q ser) i
              (s\<lparr>ss_IOcount := ss_IOcount s + 1, ss_inflight := Post_io v # ss_inflight s\<rparr>)) (PostStatus (of_nat i) v))"
    "wire_block ser 0x32 (response_payload accountNo (map (ls_stack st) [0..<20]))"
    "sz_referenceCounter ser = 1"
proof -
  let ?k = "\<lparr>pk_buffer = q\<rparr>" and ?h = "st\<lparr>ph_supply := qs\<rparr>" and ?h' = "st\<lparr>ph_supply := qs, ls_rand := rs\<rparr>"
  let ?temp = "map (ls_stack st) [0..<20]"
  have q0: "q \<noteq> 0" by (rule ser_at_nonnull [OF q(2)])
  let ?s1 = "(sz_begin s0)\<lparr>sz_referenceCounter := sz_referenceCounter (sz_begin s0) + 1\<rparr>"
  have B: "5 \<le> unat (sz_bufferSize s0)" using q(5) by simp
  have r1: "sz_referenceCounter ?s1 = 1" using sz_begin_spec(5) [OF q(3) B] q(4) by simp
  note f1 = response_begin [OF q(3) B]
  have new: "packet_new st = Some (ser_put ?h q ?s1, ?k)" by (rule packet_new_spec [OF q(1,2)])
  have at1: "ser_at (ser_put ?h q ?s1) (pk_buffer ?k) = Some ?s1" by (simp add: ser_at_put q0)
  obtain s2 where s2: "write_response (ls_env st) accountNo ?temp (ser_put ?h q ?s1) ?k = Some (ser_put (ser_put ?h q ?s1) q s2)"
    "filled s2 (response_payload accountNo ?temp)" "sz_referenceCounter s2 = 1"
    by (rule write_response_spec [OF at1 f1(1), of ?temp "ls_env st" accountNo]) (use q(5) f1(2) r1 in simp_all)
  obtain s3 s4 where s4: "packet_setHeader (ser_put ?h' q s2) ?k (ucast (rk AND 0x000000FF)) = Some (ser_put ?h' q s3)"
    "packet_encryption (ser_put ?h' q s3) ?k 0x32 = Some (ser_put ?h' q s4)"
    "wire_block s4 0x32 (response_payload accountNo ?temp)" "sz_referenceCounter s4 = 1"
    using filled_wire [OF s2(2) _ q0, of ?h' "ucast (rk AND 0x000000FF)" "0x32"] s2(3) by auto
  have rand: "getRandKey (ser_put ?h q s2) = Some (ser_put ?h' q s2, ucast (rk AND 0x000000FF))"
    using r by (simp add: getRandKey_def)
  let ?st5 = "ser_put ?h' q s4" and ?s5 = "s4\<lparr>sz_referenceCounter := 2\<rparr>"
  have at5: "ser_at ?st5 q = Some s4" by (simp add: ser_at_put q0)
  have copy: "packet_copy ?st5 ?k = Some (ser_put ?h' q ?s5, ?k)"
    using ser_inc_Some [OF at5, of 1] s4(4) by (simp add: packet_copy_def ser_put_put)
  let ?st6 = "ser_put ?h' q ?s5"
  let ?post = "\<lambda>x. os_log (session_put (ser_put ?h' q x) i
              (s\<lparr>ss_IOcount := ss_IOcount s + 1, ss_inflight := Post_io v # ss_inflight s\<rparr>)) (PostStatus (of_nat i) v)"
  have more: "nw_sessionArray ?st6 = nw_sessionArray st" "nw_indexStack ?st6 = nw_indexStack st" by simp_all
  have n6: "neutral st ?st6" by (rule neutral_same_array) simp_all
  have inv6: "net_inv refs ?st6" by (rule neutral_inv [OF inv n6])
  have used6: "slot_used ?st6 sid" by (rule neutral_used [OF inv n6 connected_used [OF inv c]])
  have c6: "connected ?st6 sid" by (rule neutral_used_conn [OF inv n6 c])
  have at6: "ser_at ?st6 q = Some ?s5" by (simp add: ser_at_put q0)
  have send: "sendReq OnDisconnect sid q ?st6 = Some (?post (s4\<lparr>sz_referenceCounter := 3\<rparr>))"
    using sendReq_spec [OF inv6 used6 at6, of OnDisconnect] c6 room
    by (simp add: ser_put_put i_def s_def v_def)
  have dec: "packet_delete (?post x) ?k = Some (?post (x\<lparr>sz_referenceCounter := n\<rparr>), [])"
    if "sz_referenceCounter x = n + 1" "n = 2 \<or> n = 1" for x n
  proof -
    have "ser_at (?post x) q = Some x" by (simp add: ser_at_def q0 os_log_def session_put_def ser_put_def)
    moreover have "ser_put (?post x) q y = ?post y" for y
      by (simp add: os_log_def session_put_def ser_put_def)
    ultimately show ?thesis using that q0 by (auto simp: packet_delete_def ser_dec_Some)
  qed
  have req: "sendReq_packet OnDisconnect sid ?k ?st5 = Some (?post ?s5)"
    using sendReq_packet_eq(1) [OF copy] send dec [of "s4\<lparr>sz_referenceCounter := 3\<rparr>" 2] by simp
  show thesis
  proof (rule that [of "s4\<lparr>sz_referenceCounter := 1\<rparr>"])
    show "send_response sid accountNo st = Some (?post (s4\<lparr>sz_referenceCounter := 1\<rparr>))"
      using s2(1) rand s4(1,2) req dec [of ?s5 1]
      by (simp add: send_response_def new ser_put_put getStatickey_def)
    show "wire_block (s4\<lparr>sz_referenceCounter := 1\<rparr>) 0x32 (response_payload accountNo ?temp)" using s4(3) by simp
  qed simp
qed

section \<open>Reading a received block\<close>

text \<open>The block \<open>s\<close> after a handler has read the first \<open>k\<close> bytes of the block \<open>s0\<close>.\<close>

definition reading :: "serializer \<Rightarrow> serializer \<Rightarrow> nat \<Rightarrow> bool" where
  "reading s0 s k \<longleftrightarrow> sz_inv s \<and> sz_ho s = k \<and> sz_to s = sz_to s0 \<and> sz_mem s = sz_mem s0 \<and>
     sz_bufferSize s = sz_bufferSize s0 \<and> sz_referenceCounter s = sz_referenceCounter s0"

lemma reading_get:
  assumes r: "reading s0 s k" and e: "k' = k + n" and n: "k' \<le> sz_to s0"
  obtains s' where "sz_get s n = Some (s', take n (drop k (sz_mem s0)))" "reading s0 s' k'"
proof -
  have R: "sz_inv s" "n \<le> sz_to s - sz_ho s" using r e n by (auto simp: reading_def)
  obtain s' where s': "sz_get s n = Some (s', take n (sz_data s))" "sz_inv s'" "sz_ho s' = sz_ho s + n"
    "sz_to s' = sz_to s" "sz_bufferSize s' = sz_bufferSize s" "sz_mem s' = sz_mem s"
    "sz_referenceCounter s' = sz_referenceCounter s"
    by (rule sz_get_spec [OF R])
  have "take n (sz_data s) = take n (drop k (sz_mem s0))"
    using r e n by (simp add: sz_data_def reading_def min_def)
  then show thesis using that [of s'] s' r e by (simp add: reading_def)
qed

lemma reading_crypt:
  assumes r: "reading s0 s k" and n: "4 + length bs \<le> length (sz_mem s0)"
  shows "reading (crypt_put s0 bs) (crypt_put s bs) k"
proof -
  have "length (take 4 (sz_mem s) @ bs @ drop (4 + length bs) (sz_mem s)) = length (sz_mem s)"
    using r n by (simp add: reading_def)
  then show ?thesis using r by (auto simp: reading_def crypt_put_def sz_inv_def sz_off_def)
qed

text \<open>The three reads before \<open>decryption\<close>, and those after it.\<close>

lemma reads_header:
  assumes "sz_inv ser" "sz_ho ser = 0" "5 \<le> sz_to ser" and p: "ser_at st p = Some ser"
  obtains c2 c3 r where
    "do { (st1, code) \<leftarrow> ser_call st p shr_char; (st2, payloadSize) \<leftarrow> ser_call st1 p shr_short; ser_call st2 p shr_char } =
       Some (ser_put st p r, c3)"
    "reading ser r 4"
proof -
  have nz: "p \<noteq> 0" by (rule ser_at_nonnull [OF p])
  have r0: "reading ser ser 0" using assms by (simp add: reading_def)
  obtain r1 where r1: "sz_get ser 1 = Some (r1, take 1 (drop 0 (sz_mem ser)))" "reading ser r1 1"
    by (rule reading_get [OF r0, of 1 1]) (use assms in simp_all)
  obtain r2 where r2: "sz_get r1 2 = Some (r2, take 2 (drop 1 (sz_mem ser)))" "reading ser r2 3"
    by (rule reading_get [OF r1(2), of 3 2]) (use assms in simp_all)
  obtain r3 where r3: "sz_get r2 1 = Some (r3, take 1 (drop 3 (sz_mem ser)))" "reading ser r3 4"
    by (rule reading_get [OF r2(2), of 4 1]) (use assms in simp_all)
  show thesis
    by (rule that [OF _ r3(2)]) (simp add: ser_call_def p shr_char_def shr_short_def r1(1) r2(1) r3(1) ph_simps nz del: One_nat_def)
qed

text \<open>The fields of a login request: its type, the account number and 64 bytes of session key.\<close>

definition login_request :: "u64 \<Rightarrow> byte list \<Rightarrow> byte list \<Rightarrow> byte list" where
  "login_request accountNo sessionKey rest =
     le_bytes 2 (101 :: u16) @ le_bytes 8 accountNo @ sessionKey @ rest"

lemma reads_request:
  assumes r: "reading s0 r 4" and m: "drop 5 (sz_mem s0) = login_request acc key rest @ junk"
    and t: "sz_to s0 = 5 + length (login_request acc key rest)" and k: "length key = 64"
    and p: "ser_at st p = Some r"
  obtains r' cs where
    "ser_call st p shr_char = Some (ser_put st p (fst cs), snd cs)"
    "reading s0 (fst cs) 5"
    "do { (st6, type) \<leftarrow> ser_call (ser_put st p (fst cs)) p shr_ushort;
          (st7, accountNo) \<leftarrow> ser_call st6 p shr_ulonglong; Some (st7, type, accountNo) } = Some (ser_put st p r', 101, acc)"
    "reading s0 r' 15" "sz_read r' (sz_getHeadPtr r') 64 = Some key"
proof -
  have nz: "p \<noteq> 0" by (rule ser_at_nonnull [OF p])
  have l: "74 \<le> length (login_request acc key rest)" using k by (simp add: login_request_def)
  obtain r1 where r1: "sz_get r 1 = Some (r1, take 1 (drop 4 (sz_mem s0)))" "reading s0 r1 5"
    by (rule reading_get [OF r, of 5 1]) (use t in simp_all)
  obtain r2 where r2: "sz_get r1 2 = Some (r2, take 2 (drop 5 (sz_mem s0)))" "reading s0 r2 7"
    by (rule reading_get [OF r1(2), of 7 2]) (use t l in simp_all)
  obtain r3 where r3: "sz_get r2 8 = Some (r3, take 8 (drop 7 (sz_mem s0)))" "reading s0 r3 15"
    by (rule reading_get [OF r2(2), of 15 8]) (use t l in simp_all)
  have ty: "take 2 (drop 5 (sz_mem s0)) = le_bytes 2 (101 :: u16)" by (simp add: m login_request_def)
  have "drop 7 (sz_mem s0) = drop 2 (drop 5 (sz_mem s0))" by simp
  then have ac: "take 8 (drop 7 (sz_mem s0)) = le_bytes 8 acc" by (simp only: m) (simp add: login_request_def)
  have "drop 15 (sz_mem s0) = drop 10 (drop 5 (sz_mem s0))" by simp
  then have ky: "take 64 (drop 15 (sz_mem s0)) = key" using k by (simp only: m) (simp add: login_request_def)
  have "79 \<le> length (sz_mem s0)"
    using r3(2) t l by (auto simp: reading_def sz_inv_def)
  then have rd: "sz_read r3 (sz_getHeadPtr r3) 64 = Some key"
    using r3(2) ky by (simp add: sz_read_def sz_getHeadPtr_def reading_def mem_read_def)
  show thesis
    by (rule that [of "(r1, le_word (take 1 (drop 4 (sz_mem s0))))" r3])
      (simp_all add: ser_call_def p nz ph_simps shr_char_def shr_ushort_def shr_ulonglong_def r1 r2(1) r3 ty ac rd del: One_nat_def)
qed

section \<open>A login request\<close>

definition login_query :: "u64 \<Rightarrow> string" where
  "login_query accountNo = ''select sessionkey from sessionkey where accountno = '' @ to_string accountNo @ '';''"

lemma crypt_put_facts:
  assumes "sz_inv ser" "5 + length d \<le> sz_to ser"
  shows "drop 5 (sz_mem (crypt_put ser (0 # d))) = d @ drop (5 + length d) (sz_mem ser)"
    "sz_to (crypt_put ser bs) = sz_to ser"
  using sz_invD [OF assms(1)] assms(2) by (simp_all add: crypt_put_def)

lemma OnRecv_login:
  assumes inv: "net_inv refs st" and c: "connected st sid"
    and p: "ser_at st p = Some ser" "sz_inv ser" "sz_ho ser = 0" "sz_to ser = 5 + length d"
    and d: "d = login_request acc key rest" "length key = 64"
    and w: "wire_block w 0x32 d" "take (5 + length d) (sz_mem ser) = sz_data w"
    and db: "mysqlConnector_query (ls_mysql st) (login_query acc) (dbResult_new (\<lambda>ns. ns) [''sessionKey'']) = Some (m, res)"
    and q: "ph_supply st = q # qs" "q \<noteq> p" "ser_at st q = Some s0" "sz_inv s0" "sz_referenceCounter s0 = 0"
      "164 \<le> unat (sz_bufferSize s0)"
    and r: "ls_rand st = rk # rs"
  defines "i \<equiv> unat (GET_INDEX sid)"
  defines "s \<equiv> nw_sessionArray st ! i" and "v \<equiv> q OR 0x4000000000000000"
  assumes room: "length (ss_inflight s) < 2 ^ 30"
  obtains ser' resp where
    "OnRecv sid p st =
       Some (os_log (session_put (ser_put (ser_put
                (st\<lparr>ph_supply := qs, ls_rand := rs, ls_mysql := m,
                    ls_redis := redisConnector_set (ls_redis st) (to_string acc) key 1\<rparr>) p ser') q resp) i
              (s\<lparr>ss_IOcount := ss_IOcount s + 1, ss_inflight := Post_io v # ss_inflight s\<rparr>)) (PostStatus (of_nat i) v))"
    "wire_block resp 0x32 (response_payload acc (map (ls_stack st) [0..<20]))"
    "sz_referenceCounter resp = 1" "sz_referenceCounter ser' = sz_referenceCounter ser"
proof -
  have nz: "p \<noteq> 0" by (rule ser_at_nonnull [OF p(1)])
  have h5: "5 \<le> sz_to ser" using p(4) by simp
  obtain c3 r where h: "do { (st1, code) \<leftarrow> ser_call st p shr_char; (st2, payloadSize) \<leftarrow> ser_call st1 p shr_short; ser_call st2 p shr_char } =
       Some (ser_put st p r, c3)" and r4: "reading ser r 4"
    by (rule reads_header [OF p(2,3) h5 p(1)])
  then obtain st1 c1 st2 c2 where h': "ser_call st p shr_char = Some (st1, c1)" "ser_call st1 p shr_short = Some (st2, c2)"
    "ser_call st2 p shr_char = Some (ser_put st p r, c3)"
    by (auto split: bind_splits)
  let ?r = "crypt_put r (0 # d)" and ?ser = "crypt_put ser (0 # d)"
  have "decryption r 0x32 = Some (?r, True)"
    using w r4 p(4) unfolding wire_block_def reading_def by simp
  then have dec: "ser_call (ser_put st p r) p (\<lambda>s. decryption s 0x32) = Some (ser_put st p ?r, True)"
    by (simp add: ser_call_def ph_simps nz)
  have "4 + length (0 # d) \<le> length (sz_mem ser)" using sz_invD(2,3) [OF p(2)] p(4) by simp
  then have r4': "reading ?ser ?r 4" by (rule reading_crypt [OF r4])
  note C = crypt_put_facts [OF p(2), of d]
  have m5: "drop 5 (sz_mem ?ser) = login_request acc key rest @ drop (5 + length d) (sz_mem ser)"
    using C(1) p(4) by (simp add: d(1))
  have t5: "sz_to ?ser = 5 + length (login_request acc key rest)" using C(2) p(4) d(1) by simp
  have p': "ser_at (ser_put st p ?r) p = Some ?r" by (simp add: ph_simps nz)
  obtain r' cs where R: "ser_call (ser_put st p ?r) p shr_char = Some (ser_put (ser_put st p ?r) p (fst cs), snd cs)"
    "do { (st6, type) \<leftarrow> ser_call (ser_put (ser_put st p ?r) p (fst cs)) p shr_ushort;
          (st7, accountNo) \<leftarrow> ser_call st6 p shr_ulonglong; Some (st7, type, accountNo) } =
       Some (ser_put (ser_put st p ?r) p r', 101, acc)"
    "reading ?ser r' 15" "sz_read r' (sz_getHeadPtr r') 64 = Some key"
    by (rule reads_request [OF r4' m5 t5 d(2) p'])
  then obtain st6 where R': "ser_call (ser_put st p (fst cs)) p shr_ushort = Some (st6, 101)"
    "ser_call st6 p shr_ulonglong = Some (ser_put st p r', acc)"
    by (auto simp: ph_simps split: bind_splits)
  let ?st8 = "(ser_put st p r')\<lparr>ls_mysql := m\<rparr>"
  let ?redis = "redisConnector_set (ls_redis st) (to_string acc) key 1"
  let ?st9 = "ser_put (st\<lparr>ls_mysql := m, ls_redis := ?redis\<rparr>) p r'"
  have chk: "sessionKeyCheckByDatabase acc (ser_put st p r') = Some (?st8, True)"
    using db by (simp add: sessionKeyCheckByDatabase_def login_query_def ser_put_def)
  have upd: "redisUpdate acc p (sz_getHeadPtr r') ?st8 = Some ?st9"
    using R(4) nz by (simp add: redisUpdate_def ser_at_def ser_put_def)
  have n9: "neutral st ?st9" by (rule neutral_same_array) simp_all
  have q9: "ph_supply ?st9 = q # qs" "ser_at ?st9 q = Some s0" "ls_rand ?st9 = rk # rs"
    using q r nz by (auto simp: ser_at_def ser_put_def split: if_splits)
  have s9: "nw_sessionArray ?st9 ! i = s" "ls_stack ?st9 = ls_stack st" by (simp_all add: s_def)
  obtain resp where S: "send_response sid acc ?st9 =
       Some (os_log (session_put (ser_put (?st9\<lparr>ph_supply := qs, ls_rand := rs\<rparr>) q resp) i
              (s\<lparr>ss_IOcount := ss_IOcount s + 1, ss_inflight := Post_io v # ss_inflight s\<rparr>)) (PostStatus (of_nat i) v))"
    "wire_block resp 0x32 (response_payload acc (map (ls_stack st) [0..<20]))" "sz_referenceCounter resp = 1"
    by (rule send_response_spec [OF neutral_inv [OF inv n9] neutral_used_conn [OF inv n9 c] q9(1,2) q(4-6) q9(3),
          of acc, folded i_def v_def, unfolded s9]) (use room in simp_all)
  have e: "?st9\<lparr>ph_supply := qs, ls_rand := rs\<rparr> =
      ser_put (st\<lparr>ph_supply := qs, ls_rand := rs, ls_mysql := m, ls_redis := ?redis\<rparr>) p r'"
    by (simp add: ser_put_def)
  have at7: "ser_at (ser_put st p r') p = Some r'" by (simp add: ph_simps nz)
  have "OnRecv sid p st = send_response sid acc ?st9"
    using R(1)
    by (simp add: OnRecv_def getStatickey_def h'(1) h'(2) h'(3) dec R' chk upd at7 Let_def ph_simps)
  moreover have "sz_referenceCounter r' = sz_referenceCounter ser"
    using R(3) by (simp add: reading_def crypt_put_def)
  ultimately show thesis using that S unfolding e by simp
qed

section \<open>Requests that are turned away\<close>

lemma reading_crypt_ok:
  assumes "reading ser r k" "crypt_ok ser h n"
  shows "crypt_ok r h n" "crypt_span r n = crypt_span ser n" "sz_to r = sz_to ser"
  using assms by (auto simp: reading_def crypt_ok_def crypt_span_def)

text \<open>A checksum that does not match, or a type other than 101.\<close>

lemma OnRecv_reject:
  assumes p: "ser_at st p = Some ser" "sz_inv ser" "sz_ho ser = 0" "sz_to ser = 5 + n" "crypt_ok ser h n"
    and d: "dec_loop 0x32 (nh_randKey h) 0 0 0 (crypt_span ser n) = cs # d"
    and bad: "cs \<noteq> sum_list d \<or> 2 \<le> n \<and> (le_word (take 2 d) :: u16) \<noteq> 101"
  obtains ser' where "OnRecv sid p st = disconnectReq OnDisconnect sid (ser_put st p ser')"
    "sz_referenceCounter ser' = sz_referenceCounter ser"
proof -
  have nz: "p \<noteq> 0" by (rule ser_at_nonnull [OF p(1)])
  have h5: "5 \<le> sz_to ser" using p(4) by simp
  obtain c3 r where h: "do { (st1, code) \<leftarrow> ser_call st p shr_char; (st2, payloadSize) \<leftarrow> ser_call st1 p shr_short; ser_call st2 p shr_char } =
       Some (ser_put st p r, c3)" and r4: "reading ser r 4"
    by (rule reads_header [OF p(2,3) h5 p(1)])
  then obtain st1 c1 st2 c2 where h': "ser_call st p shr_char = Some (st1, c1)" "ser_call st1 p shr_short = Some (st2, c2)"
    "ser_call st2 p shr_char = Some (ser_put st p r, c3)"
    by (auto split: bind_splits)
  note rc = reading_crypt_ok [OF r4 p(5)]
  have dr: "dec_loop 0x32 (nh_randKey h) 0 0 0 (crypt_span r n) = cs # d" using d rc(2) by simp
  let ?bs = "(cs - sum_list d) # d"
  let ?r = "crypt_put r ?bs" and ?ser = "crypt_put ser ?bs"
  have len: "length ?bs = n + 1"
  proof -
    have "length (cs # d) = length (crypt_span ser n)" by (simp only: d [symmetric] length_dec_loop)
    then show ?thesis using crypt_okD(5) [OF p(5)] by simp
  qed
  have "decryption r 0x32 = Some (?r, cs = sum_list d)"
    by (rule decryption_spec [OF rc(1) _ dr]) (use rc(3) p(4) in simp)
  then have dec: "ser_call (ser_put st p r) p (\<lambda>s. decryption s 0x32) = Some (ser_put st p ?r, cs = sum_list d)"
    by (simp add: ser_call_def ph_simps nz)
  have refc: "sz_referenceCounter ?r = sz_referenceCounter ser" using r4 by (simp add: reading_def crypt_put_def)
  show thesis
  proof (cases "cs = sum_list d")
    case False
    then show thesis
      using that [of ?r] refc by (simp add: OnRecv_def getStatickey_def h' dec)
  next
    case True
    then have n2: "2 \<le> n" and ty: "(le_word (take 2 d) :: u16) \<noteq> 101" using bad by blast+
    have m: "5 + n \<le> length (sz_mem ser)" by (rule crypt_okD(7) [OF p(5)])
    have r4': "reading ?ser ?r 4" by (rule reading_crypt [OF r4]) (use len m in simp)
    have t: "sz_to ?ser = 5 + n" using p(4) by (simp add: crypt_put_def)
    have m5: "take 2 (drop 5 (sz_mem ?ser)) = take 2 d" using m len n2 by (simp add: crypt_put_def)
    obtain r5 where r5: "sz_get ?r 1 = Some (r5, take 1 (drop 4 (sz_mem ?ser)))" "reading ?ser r5 5"
      by (rule reading_get [OF r4', of 5 1]) (use t in simp_all)
    obtain r7 where r7: "sz_get r5 2 = Some (r7, take 2 (drop 5 (sz_mem ?ser)))" "reading ?ser r7 7"
      by (rule reading_get [OF r5(2), of 7 2]) (use t n2 in simp_all)
    have "ser_call (ser_put st p ?r) p shr_char = Some (ser_put st p r5, le_word (take 1 (drop 4 (sz_mem ?ser))))"
      "ser_call (ser_put st p r5) p shr_ushort = Some (ser_put st p r7, le_word (take 2 d))"
      by (simp_all add: ser_call_def nz ph_simps shr_char_def shr_ushort_def r5(1) r7(1) m5 del: One_nat_def)
    then have "OnRecv sid p st = disconnectReq OnDisconnect sid (ser_put st p r7)"
      using True ty by (simp add: OnRecv_def getStatickey_def h' dec)
    moreover have "sz_referenceCounter r7 = sz_referenceCounter ser" using r7(2) by (simp add: reading_def crypt_put_def)
    ultimately show thesis by (rule that)
  qed
qed

text \<open>A rejected request is closed: both directions are cancelled and nothing is sent or stored.\<close>

lemma OnRecv_reject_closes:
  assumes inv: "net_inv refs st" and c: "connected st sid"
    and p: "ser_at st p = Some ser" "sz_inv ser" "sz_ho ser = 0" "sz_to ser = 5 + n" "crypt_ok ser h n"
    and d: "dec_loop 0x32 (nh_randKey h) 0 0 0 (crypt_span ser n) = cs # d"
    and bad: "cs \<noteq> sum_list d \<or> 2 \<le> n \<and> (le_word (take 2 d) :: u16) \<noteq> 101"
  defines "i \<equiv> unat (GET_INDEX sid)"
  defines "s \<equiv> nw_sessionArray st ! i"
  obtains ser' where
    "OnRecv sid p st = Some (os_log (os_log (session_put (ser_put st p ser') i (s\<lparr>ss_cancelIOFlag := 1\<rparr>))
       (CancelIoEx (ss_socket s) Recv_io)) (CancelIoEx (ss_socket s) Send_io))"
    "sz_referenceCounter ser' = sz_referenceCounter ser"
proof -
  obtain ser' where o: "OnRecv sid p st = disconnectReq OnDisconnect sid (ser_put st p ser')"
    "sz_referenceCounter ser' = sz_referenceCounter ser"
    by (rule OnRecv_reject [OF p d bad])
  have n: "neutral st (ser_put st p ser')" by (rule neutral_same_array) simp_all
  note D = disconnectReq_spec [OF neutral_inv [OF inv n] neutral_used [OF inv n connected_used [OF inv c]], of OnDisconnect]
  show thesis
    by (rule that [OF _ o(2)]) (simp add: o(1) D neutral_used_conn [OF inv n c] i_def s_def)
qed

end
