(* ===== verification/Worker_Loop.thy ===== *)
theory Worker_Loop
  imports Login_Response
begin

text \<open>
  What a worker thread does with the completions of a session: the loop over the frames of the received bytes, a
  posted packet that is sent, and a send that has ended. Each result is given as the exact state that the
  iteration leaves.
\<close>

section \<open>The loop over the received frames\<close>

lemma serializerAlloc_spec:
  assumes "ph_supply st = p # ps" "ser_at st p = Some ser"
  shows "serializerAlloc st = Some (ser_put (st\<lparr>ph_supply := ps\<rparr>) p (sz_clear ser), p)"
proof -
  have "ser_at (st\<lparr>ph_supply := ps\<rparr>) p = Some ser" using assms(2) by (simp add: ser_at_def split: if_splits)
  then show ?thesis using assms(1) by (simp add: serializerAlloc_def pool_Alloc_def ser_call_def)
qed

text \<open>The block that one turn of the loop hands to \<open>recvedPacket\<close>.\<close>

definition recv_block :: "serializer \<Rightarrow> serializer" where
  "recv_block ser = sz_begin ((sz_clear ser)\<lparr>sz_referenceCounter := sz_referenceCounter ser + 1\<rparr>)"

lemma recv_block_spec:
  assumes "sz_inv ser" "5 \<le> unat (sz_bufferSize ser)" "n \<le> unat (sz_bufferSize ser)"
  shows "fresh_for (recv_block ser) n" "sz_referenceCounter (recv_block ser) = sz_referenceCounter ser + 1"
    "sz_bufferSize (recv_block ser) = sz_bufferSize ser" "sz_mem (recv_block ser) = sz_mem ser"
proof -
  let ?c = "(sz_clear ser)\<lparr>sz_referenceCounter := sz_referenceCounter ser + 1\<rparr>"
  have b: "sz_bufferSize ?c = sz_bufferSize ser" by (simp add: sz_clear_def)
  have i: "sz_inv ?c" using sz_clear_spec(1) [OF assms(1)] by (simp add: sz_inv_def sz_off_def)
  have "5 \<le> unat (sz_bufferSize ?c)" using assms(2) by (simp add: b)
  note B = sz_begin_spec [OF i this]
  show *: "sz_referenceCounter (recv_block ser) = sz_referenceCounter ser + 1"
    "sz_bufferSize (recv_block ser) = sz_bufferSize ser" "sz_mem (recv_block ser) = sz_mem ser"
    by (simp_all add: recv_block_def B(5)) (simp_all add: sz_clear_def)
  show "fresh_for (recv_block ser) n"
    using B(1-3) assms(3) unfolding fresh_for_def *(2) by (simp add: recv_block_def)
qed

lemma recv_loop_block:
  assumes "ph_supply st = p # ps" "ser_at st p = Some ser" "session_at st i = Some s"
  shows "recv_loop cb ti i st =
    Option.bind (recvedPacket s (ser_put (st\<lparr>ph_supply := ps\<rparr>) p (recv_block ser)) p) (\<lambda>r.
      let st1 = session_put (fst (snd r)) i (fst r) in
      if \<not> snd (snd r) then ser_release st1 p
      else
        Option.bind (tps_add (nw_recvMessageTPSArr st1) ti 1) (\<lambda>arr.
        Option.bind (cb_OnRecv cb (ss_ID (fst r)) p (st1\<lparr>nw_recvMessageTPSArr := arr\<rparr>)) (\<lambda>st2.
        Option.bind (ser_release st2 p) (\<lambda>st3. recv_loop cb ti i st3))))"
proof -
  have nz: "p \<noteq> 0" by (rule ser_at_nonnull [OF assms(2)])
  let ?h = "st\<lparr>ph_supply := ps\<rparr>"
  let ?c = "(sz_clear ser)\<lparr>sz_referenceCounter := sz_referenceCounter ser + 1\<rparr>"
  have at1: "ser_at (ser_put ?h p (sz_clear ser)) p = Some (sz_clear ser)" by (simp add: ph_simps nz)
  have inc: "ser_inc (ser_put ?h p (sz_clear ser)) p 1 = Some (ser_put ?h p ?c, sz_referenceCounter ser + 1)"
    using ser_inc_Some [OF at1, of 1] by (simp add: ph_simps sz_clear_def)
  have beg: "ser_call (ser_put ?h p ?c) p (\<lambda>s. Some (sz_begin s, ())) = Some (ser_put ?h p (recv_block ser), ())"
    by (simp add: ser_call_def ph_simps nz recv_block_def)
  have s: "session_at ?h i = Some s"
    using assms(3) by (auto simp: session_at_def split: if_splits)
  show ?thesis
    by (subst recv_loop.simps)
      (simp add: serializerAlloc_spec [OF assms(1,2)] inc beg s bind_assoc cong: if_cong)
qed

text \<open>One complete frame at the front: it becomes a block, which the callback gets, and the block is released.\<close>

lemma recv_loop_frame:
  assumes s: "session_at st i = Some s" "recv_rep s bs"
    and f: "5 \<le> length bs" "unat (frame_size bs) < 2 ^ 15" "5 + unat (frame_size bs) \<le> length bs"
    and n: "n = 5 + unat (frame_size bs)"
    and p: "ph_supply st = p # ps" "ser_at st p = Some ser" "sz_inv ser" "n \<le> unat (sz_bufferSize ser)"
    and ti: "0 \<le> sint ti" "unat ti < length (nw_recvMessageTPSArr st)"
  defines "arr \<equiv> nw_recvMessageTPSArr st"
  obtains s' ser' where
    "recv_loop cb ti i st =
       do { st2 \<leftarrow> cb_OnRecv cb (ss_ID s) p ((ser_put (session_put (st\<lparr>ph_supply := ps\<rparr>) i s') p ser')
                     \<lparr>nw_recvMessageTPSArr := arr[unat ti := arr ! unat ti + 1]\<rparr>);
            st3 \<leftarrow> ser_release st2 p; recv_loop cb ti i st3 }"
    "s' = s\<lparr>ss_recvBuffer := ss_recvBuffer s'\<rparr>" "recv_rep s' (drop n bs)"
    "sz_inv ser'" "sz_ho ser' = 0" "sz_to ser' = n" "sz_data ser' = take n bs" "take n (sz_mem ser') = take n bs"
    "sz_referenceCounter ser' = sz_referenceCounter ser + 1" "sz_bufferSize ser' = sz_bufferSize ser"
proof -
  let ?h = "ser_put (st\<lparr>ph_supply := ps\<rparr>) p (recv_block ser)"
  have nz: "p \<noteq> 0" by (rule ser_at_nonnull [OF p(2)])
  have b5: "5 \<le> unat (sz_bufferSize ser)" using p(4) n by simp
  note B = recv_block_spec [OF p(3) b5 p(4)]
  have at: "ser_at ?h p = Some (recv_block ser)" by (simp add: ph_simps nz)
  obtain rb ser' where R: "recvedPacket s ?h p = Some (s\<lparr>ss_recvBuffer := rb\<rparr>, ser_put ?h p ser', True)"
    "recv_rep (s\<lparr>ss_recvBuffer := rb\<rparr>) (drop n bs)"
    "sz_inv ser'" "sz_ho ser' = 0" "sz_to ser' = n" "sz_data ser' = take n bs"
    "sz_referenceCounter ser' = sz_referenceCounter (recv_block ser)" "sz_bufferSize ser' = sz_bufferSize (recv_block ser)"
    "take n (sz_mem ser') = take n bs"
    by (rule recvedPacket_frame [OF s(2) f at B(1) [unfolded n], folded n])
  have tps: "tps_add arr ti 1 = Some (arr[unat ti := arr ! unat ti + 1])"
    using ti by (simp add: tps_add_def arr_def)
  have a: "nw_recvMessageTPSArr (ser_put (session_put (st\<lparr>ph_supply := ps\<rparr>) i s1) p x) = arr" for s1 x
    by (simp add: session_put_def ser_put_def arr_def)
  show thesis
  proof (rule that [of "s\<lparr>ss_recvBuffer := rb\<rparr>" ser'])
    show "recv_loop cb ti i st =
       do { st2 \<leftarrow> cb_OnRecv cb (ss_ID s) p ((ser_put (session_put (st\<lparr>ph_supply := ps\<rparr>) i (s\<lparr>ss_recvBuffer := rb\<rparr>)) p ser')
                     \<lparr>nw_recvMessageTPSArr := arr[unat ti := arr ! unat ti + 1]\<rparr>);
            st3 \<leftarrow> ser_release st2 p; recv_loop cb ti i st3 }"
      unfolding recv_loop_block [OF p(1,2) s(1)] R(1)
      by (simp add: ph_simps a tps)
  qed (use R B in simp_all)
qed

text \<open>No complete frame: the loop gives its block back and stops; the bytes stay in the buffer.\<close>

lemma recv_loop_stop:
  assumes s: "session_at st i = Some s" "recv_rep s bs"
    and f: "length bs < 5 \<or> unat (frame_size bs) < 2 ^ 15 \<and> length bs < 5 + unat (frame_size bs)"
    and p: "ph_supply st = p # ps" "ser_at st p = Some ser" "sz_inv ser" "5 \<le> unat (sz_bufferSize ser)"
      "sz_referenceCounter ser = 0"
  shows "recv_loop cb ti i st = Some (serializerFree (ser_put (st\<lparr>ph_supply := ps\<rparr>) p
    ((recv_block ser)\<lparr>sz_referenceCounter := 0\<rparr>)) p)"
proof -
  let ?h = "ser_put (st\<lparr>ph_supply := ps\<rparr>) p (recv_block ser)"
  have nz: "p \<noteq> 0" by (rule ser_at_nonnull [OF p(2)])
  have b: "n \<le> unat (sz_bufferSize ser) \<Longrightarrow> sz_referenceCounter (recv_block ser) = 1" for n
    using recv_block_spec(2) [OF p(3,4)] p(5) by simp
  have r: "recvedPacket s ?h p = Some (s, ?h, False)"
  proof (cases "length bs < 5")
    case True
    then show ?thesis by (rule recvedPacket_short [OF s(2)])
  next
    case False
    then show ?thesis using f by (intro recvedPacket_incomplete [OF s(2)]) auto
  qed
  have "session_at (st\<lparr>ph_supply := ps\<rparr>) i = Some s" using s(1) by (auto simp: session_at_def split: if_splits)
  then have same: "session_put (st\<lparr>ph_supply := ps\<rparr>) i s = st\<lparr>ph_supply := ps\<rparr>" by (rule session_put_same)
  have at: "ser_at ?h p = Some (recv_block ser)" by (simp add: ph_simps nz)
  have "ser_release ?h p = Some (serializerFree (ser_put (st\<lparr>ph_supply := ps\<rparr>) p
    ((recv_block ser)\<lparr>sz_referenceCounter := 0\<rparr>)) p)"
    using ser_release_Some [OF at] b [of 0] by (simp add: ph_simps)
  then show ?thesis
    unfolding recv_loop_block [OF p(1,2) s(1)] r by (simp add: same)
qed

end
