(* ===== verification/Login_Lifecycle.thy ===== *)
theory Login_Lifecycle
  imports Login_Response
begin

text \<open>
  The life of a connection, from the start of the server to the return of its slot: the state that \<open>start\<close> leaves,
  what accepting a client does, and what the last completion of a closed connection does.
\<close>

section \<open>The constructor of a session\<close>

text \<open>The \<open>malloc\<close> of the constructor hands out distinct addresses of user space.\<close>

definition good_malloc :: "(nat \<Rightarrow> u64) \<Rightarrow> nat \<Rightarrow> bool" where
  "good_malloc malloc n \<longleftrightarrow> inj_on malloc {0..<n} \<and> (\<forall>i < n. malloc i \<noteq> 0 \<and> unat (malloc i) < 2 ^ 48)"

lemma pow2_between:
  assumes "(2::nat) ^ k \<le> 2 ^ j" "(2::nat) ^ j < 2 * 2 ^ k"
  shows "j = k"
proof -
  have "k \<le> j" using assms(1) by simp
  moreover have "(2::nat) ^ j < 2 ^ Suc k" using assms(2) by simp
  then have "j < Suc k" by (simp only: power_strict_increasing_iff one_less_numeral_iff semiring_norm)
  ultimately show ?thesis by simp
qed

lemma ring_new_pow2:
  assumes n: "unat n = 2 ^ k" "1 \<le> k" "k < 30"
  obtains rb where "ringBuffer_new raw n = Some rb" "rb_inv rb" "rb_contents rb = []" "unat (rb_bufferSize rb) = 2 ^ k"
proof -
  have "(2::nat) ^ k \<le> 2 ^ 30" using n(3) by (intro power_increasing) simp_all
  then have "0 < unat n" "unat n \<le> 2 ^ 30" using n(1) by simp_all
  then obtain rb where rb: "ringBuffer_new raw n = Some rb" "rb_inv rb" "rb_contents rb = []"
    "unat n \<le> unat (rb_bufferSize rb)" "unat n = 1 \<or> unat (rb_bufferSize rb) < 2 * unat n"
    using ringBuffer_new_spec [of n raw] by blast
  obtain j where j: "unat (rb_bufferSize rb) = 2 ^ j" using maxSize_mask [OF rb(2)] by metis
  have "unat n \<noteq> 1" using n(1,2) by simp
  then have "j = k" using rb(4,5) j n(1) by (intro pow2_between) simp_all
  then show thesis using that [OF rb(1-3)] j by simp
qed

text \<open>A constructed session: empty queues of the sizes that the code asks for, and no reference.\<close>

lemma session_make_spec:
  assumes m: "good_malloc malloc 256"
  obtains s where "session_make junk raw nraw pc malloc sid sock = Some s" "send_rep s [] []" "recv_rep s []"
    "ss_IOcount s = 0" "ss_inflight s = []" "ss_sendFlag s = 0" "ss_ID s = sid" "ss_socket s = sock"
proof -
  obtain q where q: "lfq_new nraw pc malloc 256 = Some q" "lfq_rep q [] 255"
    using lfq_new_spec [of 256 malloc nraw pc] m by (auto simp: good_malloc_def)
  obtain sd where sd: "ringBuffer_new raw 2048 = Some sd" "rb_inv sd" "rb_contents sd = []" "unat (rb_bufferSize sd) = 2 ^ 11"
    by (rule ring_new_pow2 [of 2048 11 raw]) simp_all
  obtain rc where rc: "ringBuffer_new raw 256 = Some rc" "rb_inv rc" "rb_contents rc = []" "unat (rb_bufferSize rc) = 2 ^ 8"
    by (rule ring_new_pow2 [of 256 8 raw]) simp_all
  let ?s = "junk\<lparr>ss_ID := sid, ss_socket := sock, ss_IOcount := 0, ss_sendFlag := 0,
                     ss_sendBuffer := q, ss_sendedBuffer := sd, ss_recvBuffer := rc, ss_inflight := []\<rparr>"
  have "session_make junk raw nraw pc malloc sid sock = Some ?s"
    by (simp add: session_make_def q(1) sd(1) rc(1))
  then show thesis by (rule that) (simp_all add: send_rep_def recv_rep_def q sd rc)
qed

section \<open>The start\<close>

text \<open>The slots that \<open>new session[maxSession]\<close> makes.\<close>

definition fresh_sessions :: "start_env \<Rightarrow> nat \<Rightarrow> bool" where
  "fresh_sessions env n \<longleftrightarrow>
     (\<forall>i < n. \<exists>junk raw nraw pc malloc. good_malloc malloc 256 \<and> se_session env i = session_new junk raw nraw pc malloc)"

lemma those_fresh:
  assumes "\<forall>x \<in> set xs. \<exists>y. f x = Some y \<and> P y"
  obtains ys where "those (map f xs) = Some ys" "length ys = length xs" "\<forall>y \<in> set ys. P y"
  using assms
proof (induction xs arbitrary: thesis)
  case (Cons x xs)
  obtain ys where "those (map f xs) = Some ys" "length ys = length xs" "\<forall>y \<in> set ys. P y"
    using Cons.IH Cons.prems(2) by auto
  moreover obtain y where "f x = Some y" "P y" using Cons.prems(2) by auto
  ultimately show ?case using Cons.prems(1) [of "y # ys"] by simp
qed simp

lemma start_slots_spec:
  assumes f: "fresh_sessions env (unat n)" and e: "nw_indexStack st = []"
  obtains st' where "start_slots env self n w r st = Some st'" "net_inv (\<lambda>_. 0) st'"
    "length (nw_sessionArray st') = unat n" "nw_maxSession st' = of_nat (unat n)"
    "nw_indexStack st' = map of_nat [0..<unat n]" "unat (getSessionCount st') = 0"
    "\<forall>s \<in> set (nw_sessionArray st'). send_rep s [] [] \<and> recv_rep s [] \<and> ss_IOcount s = 0 \<and> ss_inflight s = []"
proof -
  let ?P = "\<lambda>s. send_rep s [] [] \<and> recv_rep s [] \<and> ss_IOcount s = 0 \<and> ss_inflight s = []"
  have "\<forall>i \<in> set [0..<unat n]. \<exists>s. se_session env i = Some s \<and> ?P s"
  proof
    fix i assume "i \<in> set [0..<unat n]"
    then obtain junk raw nraw pc malloc where m: "good_malloc malloc 256"
      "se_session env i = session_new junk raw nraw pc malloc"
      using f by (auto simp: fresh_sessions_def)
    obtain s where "session_make junk raw nraw pc malloc 0 0 = Some s" "?P s"
      by (rule session_make_spec [OF m(1)]) blast
    then show "\<exists>s. se_session env i = Some s \<and> ?P s" using m(2) by (auto simp: session_new_def)
  qed
  then obtain ss where ss: "those (map (se_session env) [0..<unat n]) = Some ss" "length ss = length [0..<unat n]"
    "\<forall>s \<in> set ss. ?P s"
    by (rule those_fresh)
  let ?st = "st\<lparr>nw_sessionCount := 0, nw_maxSession := ucast n,
                   nw_workerThreadCount := w, nw_runningThreadCount := r,
                   nw_indexStack := map of_nat [0..<unat n] @ nw_indexStack st,
                   nw_sessionArray := map (\<lambda>s. s\<lparr>ss_core := self\<rparr>) ss,
                   nw_recvMessageTPSArr := map (se_counter env) [0..<unat w],
                   nw_sendMessageTPSArr := map (\<lambda>i. se_counter env (unat w + i)) [0..<unat w],
                   nw_isRun := True\<rparr>"
  have st: "start_slots env self n w r st = Some ?st" by (simp add: start_slots_def ss(1))
  have n16: "unat n < 2 ^ 16" using unsigned_less [of n] by simp
  have len: "length (nw_sessionArray ?st) = unat n" using ss(2) by simp
  have stk: "nw_indexStack ?st = map of_nat [0..<unat n]" using e by simp
  have u: "unat (of_nat i :: u16) = i" if "i < unat n" for i using that n16 by (simp add: unat_of_nat)
  have on: "on_stack ?st i = (i < unat n)" for i
    unfolding on_stack_def stk using u by (auto simp: image_iff)
  have P: "\<forall>s \<in> set (nw_sessionArray ?st). ?P s"
    using ss(3) by (auto simp: send_rep_def recv_rep_def)
  have dist: "distinct (nw_indexStack ?st)"
    unfolding stk by (auto simp: distinct_map inj_on_def dest!: arg_cong [where f = unat] simp: u)
  have inv: "net_inv (\<lambda>_. 0) ?st"
    unfolding net_inv_def on len
  proof (intro conjI allI impI)
    show "unat n \<le> 2 ^ 16" using n16 by simp
    show "distinct (nw_indexStack ?st)" by (rule dist)
    fix i assume i: "i < unat n"
    then have "nw_sessionArray ?st ! i \<in> set (nw_sessionArray ?st)" using len by (intro nth_mem) simp
    then have "?P (nw_sessionArray ?st ! i)" using P by blast
    then show "if i < unat n then slot_free 0 (nw_sessionArray ?st ! i) else slot_active i 0 (nw_sessionArray ?st ! i)"
      using i by (simp add: slot_free_def)
  qed simp_all
  have mx: "nw_maxSession ?st = of_nat (unat n)" by simp
  have "unat (getSessionCount ?st) = card {i. i < length (nw_sessionArray ?st) \<and> \<not> on_stack ?st i}"
    by (rule session_count [OF inv]) (simp only: mx len)
  then have "unat (getSessionCount ?st) = 0" using on len by simp
  then show thesis using that [OF st inv len mx stk] P by blast
qed

lemma start_workers_ok:
  assumes "\<And>j. se_workerThread env j \<noteq> 0"
  shows "\<exists>st'. start_workers cb env i n st = Some (st', True)"
  using assms by (induction cb env i n st rule: start_workers.induct) simp_all

lemma start_workers_same:
  assumes "start_workers cb env i n st = Some (st', True)"
  shows "st' = st\<lparr>nw_threadIndexMap := nw_threadIndexMap st'\<rparr>"
  using assms
proof (induction cb env i n st rule: start_workers.induct)
  case (2 cb env i n st)
  have nz: "se_workerThread env i \<noteq> 0" using 2(2) by (auto simp: Let_def start_fail_def split: if_splits bind_splits)
  then have "st' = (st\<lparr>nw_threadIndexMap := AList.update (se_workerThread env i) (of_nat i) (nw_threadIndexMap st)\<rparr>)
      \<lparr>nw_threadIndexMap := nw_threadIndexMap st'\<rparr>"
    using 2 by simp
  then show ?case by simp
qed simp

text \<open>What the operating system answers when the server can start.\<close>

definition start_ok :: "start_env \<Rightarrow> bool" where
  "start_ok env \<longleftrightarrow> se_WSAStartup env = 0 \<and> se_socket env \<noteq> INVALID_SOCKET \<and> se_bind env \<noteq> SOCKET_ERROR \<and>
     se_listen env \<noteq> SOCKET_ERROR \<and> se_IOCP env \<noteq> 0 \<and> se_acceptThread env \<noteq> 0 \<and>
     (\<forall>j. se_workerThread env j \<noteq> 0) \<and> se_networkThread env \<noteq> 0"

lemma those_nth:
  assumes "those (map f xs) = Some ys"
  shows "length ys = length xs \<and> (\<forall>i < length xs. f (xs ! i) = Some (ys ! i))"
  using assms
proof (induction xs arbitrary: ys)
  case (Cons x xs)
  obtain y zs where "f x = Some y" "those (map f xs) = Some zs" "ys = y # zs"
    using Cons.prems by (auto split: option.splits)
  then show ?case using Cons.IH [of zs] by (auto simp: nth_Cons split: nat.split)
qed simp

lemma start_spec:
  assumes ok: "start_ok env" and f: "fresh_sessions env (unat n)" and e: "nw_indexStack st = []"
  obtains st' where "start cb env self n w r st = Some (st', True)" "net_inv (\<lambda>_. 0) st'"
    "length (nw_sessionArray st') = unat n" "nw_maxSession st' = of_nat (unat n)"
    "nw_indexStack st' = map of_nat [0..<unat n]" "nw_isRun st'" "unat (getSessionCount st') = 0"
    "\<forall>s \<in> set (nw_sessionArray st'). send_rep s [] [] \<and> recv_rep s [] \<and> ss_IOcount s = 0 \<and> ss_inflight s = []"
    "\<And>h. map_of (nw_threadIndexMap st') h =
       (if h \<in> se_workerThread env ` {0..<unat w}
        then Some (of_nat (Max {j \<in> {0..<unat w}. se_workerThread env j = h})) else map_of (nw_threadIndexMap st) h)"
    "length (nw_recvMessageTPSArr st') = unat w" "length (nw_sendMessageTPSArr st') = unat w" "nw_sessionCount st' = 0"
    "ph_ser st' = ph_ser st" "ph_supply st' = ph_supply st" "os_answers st' = os_answers st" "network.more st' = network.more st"
    "\<And>i. i < unat n \<Longrightarrow> \<exists>s. se_session env i = Some s \<and> nw_sessionArray st' ! i = s\<lparr>ss_core := self\<rparr>"
proof -
  let ?st3 = "st\<lparr>nw_workerThreadCount := w, nw_listen_socket := se_socket env, nw_IOCP := se_IOCP env\<rparr>"
  have e3: "nw_indexStack ?st3 = []" using e by simp
  obtain st4 where st4: "start_slots env self n w r ?st3 = Some st4" "net_inv (\<lambda>_. 0) st4"
    "length (nw_sessionArray st4) = unat n" "nw_maxSession st4 = of_nat (unat n)"
    "nw_indexStack st4 = map of_nat [0..<unat n]" "unat (getSessionCount st4) = 0"
    "\<forall>s \<in> set (nw_sessionArray st4). send_rep s [] [] \<and> recv_rep s [] \<and> ss_IOcount s = 0 \<and> ss_inflight s = []"
    by (rule start_slots_spec [OF f e3])
  have run: "nw_isRun st4" "nw_threadIndexMap st4 = nw_threadIndexMap st"
    using st4(1) by (auto simp: start_slots_def split: bind_splits)
  let ?st5 = "st4\<lparr>nw_hAcceptThread := se_acceptThread env\<rparr>"
  obtain st6 where st6: "start_workers cb env 0 (unat w) ?st5 = Some (st6, True)"
    using start_workers_ok [of env cb 0 "unat w" ?st5] ok by (auto simp: start_ok_def)
  note F = start_workers_fields [OF st6] and W = start_workers_same [OF st6]
  obtain ss where ss: "those (map (se_session env) [0..<unat n]) = Some ss"
    using st4(1) by (auto simp: start_slots_def split: bind_splits)
  have slots: "nw_sessionArray st4 = map (\<lambda>s. s\<lparr>ss_core := self\<rparr>) ss"
    using st4(1) ss by (auto simp: start_slots_def)
  have those: "length ss = unat n \<and> (\<forall>i < unat n. se_session env i = Some (ss ! i))"
    using those_nth [OF ss] by simp
  have keep: "length (nw_recvMessageTPSArr st4) = unat w" "length (nw_sendMessageTPSArr st4) = unat w" "nw_sessionCount st4 = 0"
    "ph_ser st4 = ph_ser st" "ph_supply st4 = ph_supply st" "os_answers st4 = os_answers st" "network.more st4 = network.more st"
    using st4(1) by (auto simp: start_slots_def split: bind_splits)
  let ?st7 = "st6\<lparr>nw_hNetworkThread := se_networkThread env\<rparr>"
  have s: "start cb env self n w r st = Some (?st7, True)"
    using ok st4(1) st6 by (simp add: start_def start_ok_def Let_def)
  have same: "nw_sessionArray ?st7 = nw_sessionArray st4" "nw_indexStack ?st7 = nw_indexStack st4"
    "nw_maxSession ?st7 = nw_maxSession st4" "nw_isRun ?st7" using F(1-4) run by simp_all
  have n7: "neutral st4 ?st7" by (rule neutral_same_array [OF same(1,2)])
  have c7: "getSessionCount ?st7 = getSessionCount st4" by (simp only: getSessionCount_def same)
  show thesis
  proof (rule that [OF s neutral_inv [OF st4(2) n7]])
    show "map_of (nw_threadIndexMap ?st7) h =
       (if h \<in> se_workerThread env ` {0..<unat w}
        then Some (of_nat (Max {j \<in> {0..<unat w}. se_workerThread env j = h})) else map_of (nw_threadIndexMap st) h)" for h
      using F(8) [of h] run(2) by simp
    show "\<exists>s. se_session env i = Some s \<and> nw_sessionArray ?st7 ! i = s\<lparr>ss_core := self\<rparr>" if "i < unat n" for i
      using those that by (auto simp: same slots)
    show "length (nw_recvMessageTPSArr ?st7) = unat w" "length (nw_sendMessageTPSArr ?st7) = unat w" "nw_sessionCount ?st7 = 0"
      "ph_ser ?st7 = ph_ser st" "ph_supply ?st7 = ph_supply st" "os_answers ?st7 = os_answers st" "network.more ?st7 = network.more st"
      by (subst W, simp add: keep)+
  qed (use st4 in \<open>auto simp: same c7\<close>)
qed

section \<open>A new connection\<close>

lemma session_init_free:
  assumes "slot_free r s"
  shows "session_init s sid sock port ip =
    s\<lparr>ss_ID := sid, ss_socket := sock, ss_port := port, ss_ip := ip, ss_IOcount := 1, ss_sendFlag := 0, ss_cancelIOFlag := 0\<rparr>"
  using assms by (auto simp: session_init_def incrementIO_def Let_def slot_free_def)

lemma release_two:
  assumes "i < length (nw_sessionArray st)" "nw_sessionArray st ! i = s" "ss_IOcount s = 2"
  shows "session_release od i st = Some (session_put st i (s\<lparr>ss_IOcount := 1\<rparr>))"
  using release_more [of st i s od] assms by (simp add: session_atI)

text \<open>\<open>OnNewConnect\<close> for the connection that has just been set up registers its address.\<close>

lemma OnNewConnect_first:
  assumes i: "i = unat (GET_INDEX sid)" "i < length (nw_sessionArray st)" "nw_sessionArray st ! i = s"
    and s: "ss_IOcount s = 1" "ss_ID s = sid" and p: "ls_connSupply st = p # ps"
  shows "OnNewConnect sid st = Some (st\<lparr>ls_connSupply := ps,
    ls_conns := (ls_conns st)(p \<mapsto> connectionData_new (ls_tick st) (ss_ip s)),
    ls_connectionMap := AList.update sid p (ls_connectionMap st)\<rparr>)"
proof -
  let ?s1 = "s\<lparr>ss_IOcount := 2\<rparr>"
  let ?st1 = "session_put st i ?s1"
  let ?st3 = "?st1\<lparr>ls_connSupply := ps, ls_conns := (ls_conns st)(p \<mapsto> connectionData_new (ls_tick st) (ss_ip s)),
    ls_connectionMap := AList.update sid p (ls_connectionMap st)\<rparr>"
  have ix: "unat (ucast sid :: u16) = i" using i(1) by (simp add: GET_INDEX_def)
  have at: "session_at st i = Some s" using i by (simp add: session_atI)
  have f: "findSession OnDisconnect sid st = Some (?st1, Some i)"
    using at s by (simp add: findSession_def ix incrementIO_def Let_def)
  have at1: "session_at ?st1 i = Some ?s1" using i(2) by simp
  have arr: "i < length (nw_sessionArray ?st3)" "nw_sessionArray ?st3 ! i = ?s1"
    using i(2) by (simp_all add: session_put_def)
  have "s\<lparr>ss_IOcount := 1\<rparr> = s" using s(1) by (cases s) simp
  then have rel: "session_release OnDisconnect i ?st3 = Some (session_put ?st3 i s)"
    using release_two [OF arr, of OnDisconnect] by simp
  have same: "session_put ?st3 i s = st\<lparr>ls_connSupply := ps,
    ls_conns := (ls_conns st)(p \<mapsto> connectionData_new (ls_tick st) (ss_ip s)),
    ls_connectionMap := AList.update sid p (ls_connectionMap st)\<rparr>"
  proof -
    have "(nw_sessionArray st)[i := s] = nw_sessionArray st"
      using list_update_id [of "nw_sessionArray st" i] i(3) by simp
    then show ?thesis by (cases st) (simp add: session_put_def)
  qed
  have conn: "connectionPool_New ?st1 (connectionData_new (ls_tick ?st1) (getIp ?s1)) =
      Some (?st1\<lparr>ls_connSupply := ps, ls_conns := (ls_conns st)(p \<mapsto> connectionData_new (ls_tick st) (ss_ip s))\<rparr>, p)"
    using p by (simp add: connectionPool_New_def session_put_def getIp_def)
  have cm: "ls_connectionMap ?st1 = ls_connectionMap st" by (simp add: session_put_def)
  show ?thesis
    using rel by (simp add: OnNewConnect_def f at1 conn cm same)
qed

text \<open>The session of a client that has just been accepted: one receive is pending, and it holds the only reference.\<close>

definition accepted_session :: "session \<Rightarrow> u64 \<Rightarrow> u64 \<Rightarrow> u16 \<Rightarrow> u32 \<Rightarrow> session" where
  "accepted_session s sid sock port ip =
     s\<lparr>ss_ID := sid, ss_socket := sock, ss_port := port, ss_ip := ip, ss_IOcount := 1, ss_sendFlag := 0,
       ss_cancelIOFlag := 0, ss_inflight := [Recv_io]\<rparr>"

lemma accept_spec:
  assumes inv: "net_inv (\<lambda>_. 0) st" and stk: "nw_indexStack st = idx # rest" and sock: "sock \<noteq> INVALID_SOCKET"
    and p: "ls_connSupply st = p # ps" and a: "os_answers st = a # as" "a = 0 \<or> a = WSA_IO_PENDING"
  defines "sid \<equiv> MAKE_SESSION_ID (nw_sessionCount st) idx" and "i \<equiv> unat idx"
  defines "s \<equiv> nw_sessionArray st ! i"
  obtains st' where "accept_step login_callbacks sock ip port st = Some st'"
    "nw_sessionArray st' = (nw_sessionArray st)[i := accepted_session s sid sock port ip]"
    "nw_indexStack st' = rest" "nw_sessionCount st' = nw_sessionCount st + 1" "connected st' sid"
    "ls_connectionMap st' = AList.update sid p (ls_connectionMap st)"
    "ls_conns st' p = Some (connectionData_new (ls_tick st) ip)"
    "os_calls st' = WSARecv sock (recvIO_buffers (ss_recvBuffer s)) # os_calls st"
    "nw_acceptTotal st' = nw_acceptTotal st + 1"
    "ph_ser st' = ph_ser st" "ph_supply st' = ph_supply st" "os_answers st' = as" "nw_recvMessageTPSArr st' = nw_recvMessageTPSArr st"
    "nw_sendMessageTPSArr st' = nw_sendMessageTPSArr st" "ls_connSupply st' = ps" "ls_mysql st' = ls_mysql st" "ls_redis st' = ls_redis st"
    "ls_rand st' = ls_rand st" "ls_stack st' = ls_stack st" "ls_tick st' = ls_tick st" "ls_timeoutThreshold st' = ls_timeoutThreshold st"
    "nw_maxSession st' = nw_maxSession st" "ls_run st' = ls_run st"
proof -
  have "on_stack st i" by (simp add: on_stack_def stk i_def)
  then have i: "i < length (nw_sessionArray st)" and fr: "slot_free 0 s"
    using inv net_inv_slot(1) [OF inv] unfolding net_inv_def s_def by blast+
  have infl: "ss_inflight s = []" using fr by (simp add: slot_free_def)
  let ?s1 = "s\<lparr>ss_ID := sid, ss_socket := sock, ss_port := port, ss_ip := ip, ss_IOcount := 1, ss_sendFlag := 0, ss_cancelIOFlag := 0\<rparr>"
  let ?st3 = "st\<lparr>nw_acceptTPSArr := nw_acceptTPSArr st + 1, nw_acceptTotal := nw_acceptTotal st + 1,
    nw_indexStack := rest, nw_sessionCount := nw_sessionCount st + 1\<rparr>"
  let ?st4 = "session_put ?st3 i ?s1"
  have gi: "i = unat (GET_INDEX sid)" by (simp add: sid_def i_def)
  have at3: "session_at ?st3 i = Some s" using i by (simp add: session_at_def s_def)
  have arr4: "i < length (nw_sessionArray ?st4)" "nw_sessionArray ?st4 ! i = ?s1" using i by (simp_all add: session_put_def)
  let ?conns = "(ls_conns st)(p \<mapsto> connectionData_new (ls_tick st) ip)" and ?map = "AList.update sid p (ls_connectionMap st)"
  let ?st5 = "?st4\<lparr>ls_connSupply := ps, ls_conns := ?conns, ls_connectionMap := ?map\<rparr>"
  have p4: "ls_connSupply ?st4 = p # ps" using p by (simp add: session_put_def)
  have "OnNewConnect sid ?st4 = Some (?st4\<lparr>ls_connSupply := ps, ls_conns := (ls_conns ?st4)(p \<mapsto> connectionData_new (ls_tick ?st4) (ss_ip ?s1)),
    ls_connectionMap := AList.update sid p (ls_connectionMap ?st4)\<rparr>)"
    by (rule OnNewConnect_first [OF gi arr4 _ _ p4]) simp_all
  then have on: "OnNewConnect sid ?st4 = Some ?st5" by (simp add: session_put_def)
  have at5: "session_at ?st5 i = Some ?s1" using arr4 by (simp add: session_at_def)
  let ?call = "WSARecv sock (recvIO_buffers (ss_recvBuffer s))"
  let ?s2 = "?s1\<lparr>ss_IOcount := 2, ss_inflight := [Recv_io]\<rparr>"
  let ?st6 = "session_put (os_log (?st5\<lparr>os_answers := as\<rparr>) ?call) i ?s2"
  have a5: "os_answers ?st5 = a # as" using a(1) by (simp add: session_put_def)
  have "recvIO ?s1 ?st5 = Some (?s2, os_log (?st5\<lparr>os_answers := as\<rparr>) ?call, False)"
    using recvIO_spec [of ?s1 ?st5 a as] a(2) a5 infl by (simp add: hasCancelIOFlag_def)
  then have recv: "net_recvIO OnDisconnect i ?st5 = Some ?st6" by (simp add: net_recvIO_def at5)
  have arr6: "i < length (nw_sessionArray ?st6)" "nw_sessionArray ?st6 ! i = ?s2"
    using arr4 by (simp_all add: session_put_def os_log_def)
  let ?st7 = "session_put ?st6 i (?s2\<lparr>ss_IOcount := 1\<rparr>)"
  have rel: "session_release OnDisconnect i ?st6 = Some ?st7" by (rule release_two [OF arr6]) simp
  have step: "accept_step login_callbacks sock ip port st = Some ?st7"
    using sock stk at3 on recv rel fr
    by (simp add: accept_step_def Let_def login_callbacks_def OnConnectionRequest_def session_init_free
        sid_def [symmetric] i_def [symmetric])
  have same: "?s2\<lparr>ss_IOcount := 1\<rparr> = accepted_session s sid sock port ip" by (simp add: accepted_session_def)
  have nst: "\<not> on_stack ?st7 i"
  proof -
    have "distinct (idx # rest)" using inv stk by (simp add: net_inv_def)
    then show ?thesis by (auto simp: on_stack_def session_put_def os_log_def i_def simp flip: word_unat_eq_iff)
  qed
  show thesis
  proof (rule that [OF step])
    show arr: "nw_sessionArray ?st7 = (nw_sessionArray st)[i := accepted_session s sid sock port ip]"
      using same by (simp add: session_put_def os_log_def)
    show "connected ?st7 sid"
      using nst i unfolding connected_def gi [symmetric] arr by (simp add: accepted_session_def)
  qed (simp_all add: session_put_def os_log_def)
qed

section \<open>The end of a connection\<close>

text \<open>Releasing packets only looks at the heap: the blocks and the list of those given back.\<close>

lemma ser_release_same_heap:
  assumes "ser_release h p = Some h'" "ph_ser g = ph_ser h" "ph_freed g = ph_freed h"
  shows "\<exists>g'. ser_release g p = Some g' \<and> ph_ser g' = ph_ser h' \<and> ph_freed g' = ph_freed h'"
  using assms
  by (auto simp: ser_release_def ser_dec_def ser_call_def ser_at_def ser_put_def serializerFree_def pool_Free_def
      sz_decRef_def Let_def split: bind_splits if_splits)

lemma release_all_same_heap:
  assumes "release_all h ps = Some h'" "ph_ser g = ph_ser h" "ph_freed g = ph_freed h"
  shows "\<exists>g'. release_all g ps = Some g' \<and> ph_ser g' = ph_ser h' \<and> ph_freed g' = ph_freed h'"
  using assms
proof (induction ps arbitrary: h g)
  case (Cons p ps)
  obtain h1 where h1: "ser_release h p = Some h1" "release_all h1 ps = Some h'"
    using Cons.prems(1) by (auto split: bind_splits)
  obtain g1 where g1: "ser_release g p = Some g1" "ph_ser g1 = ph_ser h1" "ph_freed g1 = ph_freed h1"
    using ser_release_same_heap [OF h1(1) Cons.prems(2,3)] by blast
  then show ?case using Cons.IH [OF h1(2) g1(2,3)] by simp
qed simp

text \<open>
  The completion that takes away the last reference closes the socket, gives back every queued and every sent
  packet, returns the slot and removes the connection from the table.
\<close>

lemma last_completion:
  assumes s: "session_at st i = Some s" "ss_IOcount s = 1"
    and rep: "send_rep s qs ds" "valid_ptrs st (qs @ ds)" "rb_inv (ss_recvBuffer s)"
  obtains st' s' h where
    "worker_step login_callbacks ti False t (Some i) ov st = Some (st', True)"
    "nw_sessionArray st' = (nw_sessionArray st)[i := s']" "ss_IOcount s' = 0x80000000" "send_rep s' [] []"
    "rb_contents (ss_recvBuffer s') = []" "ss_ID s' = ss_ID s"
    "nw_indexStack st' = GET_INDEX (ss_ID s) # nw_indexStack st"
    "ls_connectionMap st' = AList.delete (ss_ID s) (ls_connectionMap st)"
    "os_calls st' = CloseSocket (ss_socket s) # os_calls st"
    "release_all st (qs @ ds) = Some h" "ph_ser st' = ph_ser h" "ph_freed st' = ph_freed h"
proof -
  let ?s1 = "s\<lparr>ss_IOcount := 0x80000000\<rparr>"
  let ?st1 = "os_log (session_put st i (s\<lparr>ss_IOcount := 0\<rparr>)) (CloseSocket (ss_socket s))"
  note L = session_atD [OF s(1)]
  have at: "ser_at ?st1 = ser_at st" by (simp add: fun_eq_iff ser_at_def session_put_def os_log_def)
  have v: "valid_ptrs ?st1 (qs @ ds)" using rep(2) by (simp add: valid_ptrs_def at)
  have S: "lfq_rep (ss_sendBuffer ?s1) qs 255" "rb_inv (ss_sendedBuffer ?s1)"
    "rb_contents (ss_sendedBuffer ?s1) = ptr_bytes ds" "rb_inv (ss_recvBuffer ?s1)"
    using rep(1,3) by (simp_all add: send_rep_def)
  obtain s2 st2 where b: "bufferClear ?s1 ?st1 = Some (s2, st2)" "release_all ?st1 (qs @ ds) = Some st2"
    "lfq_rep (ss_sendBuffer s2) [] 255" "rb_inv (ss_sendedBuffer s2)" "rb_contents (ss_sendedBuffer s2) = []"
    "rb_cap (ss_sendedBuffer s2) = rb_cap (ss_sendedBuffer ?s1)" "rb_contents (ss_recvBuffer s2) = []"
    by (rule bufferClear_spec [OF S(1-3) v S(4)])
  note F = bufferClear_frame [OF b(1)]
  let ?st' = "(session_put st2 i s2)\<lparr>nw_indexStack := GET_INDEX (ss_ID s) # nw_indexStack st2,
    ls_connectionMap := AList.delete (ss_ID s) (ls_connectionMap st2)\<rparr>"
  have del: "deleteSession OnDisconnect i (session_put st i (s\<lparr>ss_IOcount := 0\<rparr>)) = Some ?st'"
  proof -
    have "session_at (session_put st i (s\<lparr>ss_IOcount := 0\<rparr>)) i = Some (s\<lparr>ss_IOcount := 0\<rparr>)" using L by simp
    then show ?thesis
      using b(1) by (simp add: deleteSession_def cas_def OnDisconnect_def GET_INDEX_def) (simp add: session_put_def)
  qed
  have w: "worker_step login_callbacks ti False t (Some i) ov st = Some (?st', True)"
    using s del by (simp add: worker_step_def session_release_def decrementIO_def Let_def login_callbacks_def)
  obtain h where h: "release_all st (qs @ ds) = Some h" "ph_ser h = ph_ser st2" "ph_freed h = ph_freed st2"
    using release_all_same_heap [OF b(2), of st] by (auto simp: session_put_def os_log_def)
  have more: "nw_sessionArray st2 = (nw_sessionArray st)[i := s\<lparr>ss_IOcount := 0\<rparr>]" "nw_indexStack st2 = nw_indexStack st"
    using network_of_more [OF F(1)] by (simp_all add: session_put_def os_log_def)
  have os: "os_calls st2 = CloseSocket (ss_socket s) # os_calls st" "ls_connectionMap st2 = ls_connectionMap st"
    using F(1) by (cases st2; cases st; simp add: session_put_def os_log_def)+
  have s2: "ss_IOcount s2 = 0x80000000" "ss_ID s2 = ss_ID s" 
    using arg_cong [OF F(2), of ss_IOcount] arg_cong [OF F(2), of ss_ID] by simp_all
  show thesis
    by (rule that [OF w _ s2(1) _ b(7) s2(2) _ _ _ h(1)])
      (use b rep(1) more os h in \<open>simp_all add: session_put_def send_rep_def\<close>)
qed

end
