(* ===== verification/Completions.thy ===== *)
theory Completions
  imports Worker_Loop Login_Lifecycle
begin

text \<open>
  The other completions of a worker thread, each as the exact state that the iteration leaves: a packet
  posted by \<open>sendReq\<close>, which is queued and sent when no send is running, the end of a send, after which the packets
  queued in the meantime go out, and received bytes, which are put into the ring before the loop over the frames.
\<close>

section \<open>The stamp of a posted packet\<close>

text \<open>\<open>sendReq\<close> marks the pointer in its top bits; the worker recognises the mark and removes it.\<close>

lemma stamp_bits:
  assumes "n < 64"
  shows "bit (reqFilter :: u64) n \<longleftrightarrow> 60 \<le> n" and "bit (0x4000000000000000 :: u64) n \<longleftrightarrow> n = 62"
proof -
  have f: "reqFilter = push_bit 60 (mask 4)" by (simp add: reqFilter_def push_bit_eq_mult mask_eq_exp_minus_1)
  show "bit (reqFilter :: u64) n \<longleftrightarrow> 60 \<le> n" using assms by (auto simp: f bit_simps)
  have e: "(0x4000000000000000 :: u64) = 2 ^ 62" by simp
  show "bit (0x4000000000000000 :: u64) n \<longleftrightarrow> n = 62"
    unfolding e using assms by (simp only: bit_exp_iff) (auto simp: bit_simps)
qed

lemma pointer_bits:
  assumes "unat (p::u64) < 2 ^ 60" "60 \<le> n"
  shows "\<not> bit p n"
proof -
  have "p AND mask 60 = p" using assms(1) by (simp add: word_unat_eq_iff unat_and_mask)
  moreover have "\<not> bit (p AND mask 60) n" using assms(2) by (simp add: bit_simps)
  ultimately show ?thesis by simp
qed

lemma post_stamp:
  assumes "unat (p::u64) < 2 ^ 60"
  shows "requestCheck (p OR 0x4000000000000000) = sendReq_event" "(p OR 0x4000000000000000) AND NOT reqFilter = p"
proof -
  have "reqFilter AND (p OR 0x4000000000000000) = 0x4000000000000000"
  proof (rule bit_word_eqI)
    fix n assume "n < LENGTH(64)"
    then have n': "n < 64" by simp
    show "bit (reqFilter AND (p OR 0x4000000000000000)) n = bit (0x4000000000000000 :: u64) n"
      using n' stamp_bits [of n] pointer_bits [OF assms, of n] by (simp only: bit_and_iff bit_or_iff) linarith
  qed
  then show "requestCheck (p OR 0x4000000000000000) = sendReq_event" by (simp add: requestCheck_def)
  show "(p OR 0x4000000000000000) AND NOT reqFilter = p"
  proof (rule bit_word_eqI)
    fix n assume n: "n < LENGTH(64)"
    then have "n < 64" by simp
    then show "bit ((p OR 0x4000000000000000) AND NOT reqFilter) n = bit p n"
      using stamp_bits [of n] pointer_bits [OF assms, of n] by (simp add: bit_and_iff bit_or_iff bit_not_iff) linarith
  qed
qed

section \<open>A posted packet\<close>

lemma collect_room:
  assumes "send_rep s qs ds" "length qs < 255"
  obtains q where "collectSendPacket s p = Some (s\<lparr>ss_sendBuffer := q\<rparr>, True)" "send_rep (s\<lparr>ss_sendBuffer := q\<rparr>) (qs @ [p]) ds"
proof -
  have l: "lfq_rep (ss_sendBuffer s) qs 255" using assms(1) by (simp add: send_rep_def)
  obtain q where q: "lfq_push (ss_sendBuffer s) p = Some (q, True)" "lfq_rep q (qs @ [p]) 255"
    using lfq.push_law [OF l assms(2), of p] by blast
  show thesis by (rule that [of q]) (use q assms(1) in \<open>simp_all add: collectSendPacket_def send_rep_def\<close>)
qed

lemma collect_full:
  assumes "send_rep s qs ds" "length qs = 255"
  obtains q where "collectSendPacket s p = Some (s\<lparr>ss_sendBuffer := q\<rparr>, False)" "send_rep (s\<lparr>ss_sendBuffer := q\<rparr>) qs ds"
proof -
  have l: "lfq_rep (ss_sendBuffer s) qs 255" using assms(1) by (simp add: send_rep_def)
  obtain q where q: "lfq_push (ss_sendBuffer s) p = Some (q, False)" "lfq_rep q qs 255"
    using lfq.push_full [OF l assms(2), of p] by blast
  show thesis by (rule that [of q]) (use q assms(1) in \<open>simp_all add: collectSendPacket_def send_rep_def\<close>)
qed

text \<open>The worker's part for a posted pointer, once the session is known.\<close>

lemma worker_post:
  assumes "session_at st i = Some s" "requestCheck ov = sendReq_event" "collectSendPacket s (ov AND NOT reqFilter) = Some (s1, b)"
  shows "worker_step cb ti True 0 (Some i) ov st =
    (if b then do { st2 \<leftarrow> net_sendIO (cb_OnDisconnect cb) i (session_put st i s1);
                    st3 \<leftarrow> session_release (cb_OnDisconnect cb) i st2; Some (st3, True) }
     else do { st2 \<leftarrow> ser_release (session_put st i s1) (ov AND NOT reqFilter);
               st3 \<leftarrow> session_release (cb_OnDisconnect cb) i st2; Some (st3, True) })"
  using assms by (simp add: worker_step_def Let_def)

lemma net_sendIO_put:
  assumes "i < length (nw_sessionArray st)" "sendIO s (session_put st i s) = Some (s1, st1, False)"
  shows "net_sendIO od i (session_put st i s) = Some (session_put st1 i s1)"
  using assms by (simp add: net_sendIO_def)

lemma release_put:
  assumes "i < length (nw_sessionArray st)" "2 \<le> unat (ss_IOcount s)"
  shows "session_release od i (session_put st i s) = Some (session_put st i (s\<lparr>ss_IOcount := ss_IOcount s - 1\<rparr>))"
  using release_more [of "session_put st i s" i s od] assms by simp

lemma heap_put [simp]:
  "ser_at (session_put st i s) p = ser_at st p" "os_answers (session_put st i s) = os_answers st"
  "valid_ptrs (session_put st i s) ps = valid_ptrs st ps" "wsabuf (session_put st i s) = wsabuf st"
  "ptr_size (session_put st i s) p = ptr_size st p"
  by (simp_all add: session_put_def ser_at_def valid_ptrs_def wsabuf_def ptr_size_def fun_eq_iff)

lemma put_answers [simp]: "(session_put st i s)\<lparr>os_answers := as\<rparr> = session_put (st\<lparr>os_answers := as\<rparr>) i s"
  by (simp add: session_put_def)

text \<open>No send is running: the packet goes out at once, behind those that wait.\<close>

lemma post_completion:
  assumes s: "session_at st i = Some s" "\<not> hasCancelIOFlag s" "ss_sendFlag s \<noteq> 1" "send_rep s qs []" "length qs < 100"
    and c: "1 \<le> unat (ss_IOcount s)" "unat (ss_IOcount s) < 2 ^ 32 - 1" "length (ss_inflight s) < 2 ^ 30"
    and p: "unat p < 2 ^ 60" "valid_ptrs st (qs @ [p])"
    and a: "os_answers st = a # as" "a = 0 \<or> a = WSA_IO_PENDING"
  obtains s' where
    "worker_step cb ti True 0 (Some i) (p OR 0x4000000000000000) st =
       Some (session_put (os_log (st\<lparr>os_answers := as\<rparr>) (WSASend (ss_socket s) (map (wsabuf st) (qs @ [p])))) i s', True)"
    "send_rep s' [] (qs @ [p])" "ss_sendFlag s' = 1" "ss_IOcount s' = ss_IOcount s" "ss_inflight s' = Send_io # ss_inflight s"
    "ss_cancelIOFlag s' = ss_cancelIOFlag s" "ss_recvBuffer s' = ss_recvBuffer s" "ss_ID s' = ss_ID s" "ss_socket s' = ss_socket s"
proof -
  have i: "i < length (nw_sessionArray st)" using session_atD [OF s(1)] by simp
  have l255: "length qs < 255" using s(5) by simp
  obtain q where q: "collectSendPacket s p = Some (s\<lparr>ss_sendBuffer := q\<rparr>, True)"
      "send_rep (s\<lparr>ss_sendBuffer := q\<rparr>) (qs @ [p]) []"
    by (rule collect_room [OF s(4) l255])
  let ?s1 = "s\<lparr>ss_sendBuffer := q\<rparr>" and ?st1 = "session_put st i (s\<lparr>ss_sendBuffer := q\<rparr>)"
  have s1: "\<not> hasCancelIOFlag ?s1" "ss_sendFlag ?s1 \<noteq> 1" "length (ss_inflight ?s1) < 2 ^ 30"
    using s c by (simp_all add: hasCancelIOFlag_def)
  have l: "qs @ [p] \<noteq> []" "length (qs @ [p]) \<le> 100" "valid_ptrs ?st1 (qs @ [p])" "os_answers ?st1 = a # as"
    using s(5) p(2) a(1) by simp_all
  obtain s2 where s2: "sendIO ?s1 ?st1 = Some (s2, os_log (?st1\<lparr>os_answers := as\<rparr>)
        (WSASend (ss_socket ?s1) (map (wsabuf ?st1) (qs @ [p]))), False)"
    and r: "send_rep s2 [] (qs @ [p])" "ss_sendFlag s2 = 1" "ss_IOcount s2 = ss_IOcount ?s1 + 1"
      "ss_inflight s2 = Send_io # ss_inflight ?s1" "ss_cancelIOFlag s2 = ss_cancelIOFlag ?s1"
      "ss_recvBuffer s2 = ss_recvBuffer ?s1" "ss_ID s2 = ss_ID ?s1" "ss_socket s2 = ss_socket ?s1"
    by (rule sendIO_spec [OF s1(1,2) q(2) l a(2) s1(3)])
  let ?s' = "s2\<lparr>ss_IOcount := ss_IOcount s\<rparr>" and ?st2 = "os_log (st\<lparr>os_answers := as\<rparr>) (WSASend (ss_socket s) (map (wsabuf st) (qs @ [p])))"
  have "net_sendIO (cb_OnDisconnect cb) i ?st1 = Some (session_put ?st2 i s2)"
    using net_sendIO_put [OF i s2] by simp
  moreover have "unat (ss_IOcount s2) = unat (ss_IOcount s) + 1"
    using c(2) r(3) by (simp add: unat_word_ariths)
  then have "session_release (cb_OnDisconnect cb) i (session_put ?st2 i s2) = Some (session_put ?st2 i ?s')"
    using release_put [of i ?st2 s2 "cb_OnDisconnect cb"] i c(1) r(3) by simp
  ultimately have "worker_step cb ti True 0 (Some i) (p OR 0x4000000000000000) st = Some (session_put ?st2 i ?s', True)"
    using worker_post [OF s(1) post_stamp(1) [OF p(1)], of ?s1 True] q(1) post_stamp(2) [OF p(1)] by simp
  then show thesis by (rule that) (use r in simp_all)
qed

text \<open>A send is running, or the connection is being closed: the packet waits in the queue.\<close>

lemma post_waits:
  assumes s: "session_at st i = Some s" "hasCancelIOFlag s \<or> ss_sendFlag s = 1" "send_rep s qs ds" "length qs < 255"
    and c: "2 \<le> unat (ss_IOcount s)" and p: "unat p < 2 ^ 60"
  obtains q where
    "worker_step cb ti True 0 (Some i) (p OR 0x4000000000000000) st =
       Some (session_put st i (s\<lparr>ss_sendBuffer := q, ss_IOcount := ss_IOcount s - 1\<rparr>), True)"
    "send_rep (s\<lparr>ss_sendBuffer := q\<rparr>) (qs @ [p]) ds"
proof -
  have i: "i < length (nw_sessionArray st)" using session_atD [OF s(1)] by simp
  obtain q where q: "collectSendPacket s p = Some (s\<lparr>ss_sendBuffer := q\<rparr>, True)"
      "send_rep (s\<lparr>ss_sendBuffer := q\<rparr>) (qs @ [p]) ds"
    by (rule collect_room [OF s(3,4)])
  let ?s1 = "s\<lparr>ss_sendBuffer := q\<rparr>"
  have "sendIO ?s1 (session_put st i ?s1) = Some (?s1, session_put st i ?s1, False)"
    by (rule sendIO_idle) (use s(2) in \<open>simp add: hasCancelIOFlag_def\<close>)
  then have "net_sendIO (cb_OnDisconnect cb) i (session_put st i ?s1) = Some (session_put st i ?s1)"
    using net_sendIO_put [OF i] by simp
  moreover have "session_release (cb_OnDisconnect cb) i (session_put st i ?s1) =
      Some (session_put st i (?s1\<lparr>ss_IOcount := ss_IOcount ?s1 - 1\<rparr>))"
    by (rule release_put [OF i]) (use c in simp)
  ultimately have "worker_step cb ti True 0 (Some i) (p OR 0x4000000000000000) st =
      Some (session_put st i (?s1\<lparr>ss_IOcount := ss_IOcount ?s1 - 1\<rparr>), True)"
    using worker_post [OF s(1) post_stamp(1) [OF p], of ?s1 True] q(1) post_stamp(2) [OF p] by simp
  then show thesis by (intro that [of q]) (use q(2) in simp_all)
qed

text \<open>The queue is full: the packet is dropped, with its reference.\<close>

lemma post_dropped:
  assumes s: "session_at st i = Some s" "send_rep s qs ds" "length qs = 255"
    and c: "2 \<le> unat (ss_IOcount s)" and p: "unat p < 2 ^ 60" "ser_release st p = Some st'"
  obtains q where
    "worker_step cb ti True 0 (Some i) (p OR 0x4000000000000000) st =
       Some (session_put st' i (s\<lparr>ss_sendBuffer := q, ss_IOcount := ss_IOcount s - 1\<rparr>), True)"
    "send_rep (s\<lparr>ss_sendBuffer := q\<rparr>) qs ds"
proof -
  have i: "i < length (nw_sessionArray st)" using session_atD [OF s(1)] by simp
  have i': "i < length (nw_sessionArray st')" using network_of_more [OF ser_release_more [OF p(2)]] i by simp
  obtain q where q: "collectSendPacket s p = Some (s\<lparr>ss_sendBuffer := q\<rparr>, False)"
      "send_rep (s\<lparr>ss_sendBuffer := q\<rparr>) qs ds"
    by (rule collect_full [OF s(2,3)])
  let ?s1 = "s\<lparr>ss_sendBuffer := q\<rparr>"
  have "ser_release (session_put st i ?s1) p = Some (session_put st' i ?s1)"
    using p(2) by (auto simp: ser_release_def ser_dec_def ser_call_def sz_decRef_def session_put_def ser_put_def ser_at_def
        serializerFree_def pool_Free_def Let_def split: bind_splits if_splits)
  moreover have "session_release (cb_OnDisconnect cb) i (session_put st' i ?s1) =
      Some (session_put st' i (?s1\<lparr>ss_IOcount := ss_IOcount ?s1 - 1\<rparr>))"
    by (rule release_put [OF i']) (use c in simp)
  ultimately have "worker_step cb ti True 0 (Some i) (p OR 0x4000000000000000) st =
      Some (session_put st' i (?s1\<lparr>ss_IOcount := ss_IOcount ?s1 - 1\<rparr>), True)"
    using worker_post [OF s(1) post_stamp(1) [OF p(1)], of ?s1 False] q(1) post_stamp(2) [OF p(1)] by simp
  then show thesis by (intro that [of q]) (use q(2) in simp_all)
qed

section \<open>The end of a send\<close>

lemma wsabuf_shape:
  assumes "ser_shape h' = ser_shape h"
  shows "wsabuf h' p = wsabuf h p"
proof (cases "ser_at h p")
  case None
  then have "ser_at h' p = None" using fun_cong [OF assms, of p] by (simp add: ser_shape_def)
  then show ?thesis using None by (simp add: wsabuf_def)
next
  case (Some s)
  then obtain s' where s': "ser_at h' p = Some s'" "s'\<lparr>sz_referenceCounter := 0\<rparr> = s\<lparr>sz_referenceCounter := 0\<rparr>"
    using ser_at_shape [OF assms] by blast
  have "sz_getHeadPtr s' = sz_getHeadPtr s"
    using arg_cong [OF s'(2), of sz_headPtr] by (simp add: sz_getHeadPtr_def)
  then show ?thesis using Some s'(1) sz_size_shape [OF s'(2)] by (simp add: wsabuf_def)
qed

text \<open>Counting the packets, releasing them and clearing the flag, before the next send is tried.\<close>

lemma worker_sent:
  assumes s: "session_at st i = Some s" "sendOverlappedCheck s ov" "send_rep s qs ds" "ds \<noteq> []"
    and d: "valid_ptrs st ds" "unat t = sum_sizes st ds" "\<And>p. p \<in> set ds \<Longrightarrow> ptr_size st p \<noteq> 0"
    and cb: "cb_OnSend cb (ss_ID s) t st = Some st" and ti: "0 \<le> sint ti" "unat ti < length (nw_sendMessageTPSArr st)"
  defines "arr \<equiv> nw_sendMessageTPSArr st"
  obtains s1 st1 h where
    "worker_step cb ti True t (Some i) ov st =
       (if 0 < sint (lfq_sizeFn (ss_sendBuffer s1))
        then do { st2 \<leftarrow> net_sendIO (cb_OnDisconnect cb) i (session_put st1 i s1);
                  st3 \<leftarrow> session_release (cb_OnDisconnect cb) i st2; Some (st3, True) }
        else do { st3 \<leftarrow> session_release (cb_OnDisconnect cb) i (session_put st1 i s1); Some (st3, True) })"
    "st1 = h\<lparr>nw_sendMessageTPSArr := arr[unat ti := arr ! unat ti + of_nat (length ds)]\<rparr>" "release_all st ds = Some h"
    "send_rep s1 qs []" "s1 = s\<lparr>ss_sendFlag := 0, ss_sendedBuffer := ss_sendedBuffer s1\<rparr>"
    "pheap.more h = pheap.more st"
proof -
  have i: "i < length (nw_sessionArray st)" using session_atD [OF s(1)] by simp
  obtain s' h where h: "sended s st t = Some (s', h, 0, of_nat (length ds))" "release_all st ds = Some h"
      "send_rep s' qs []" "s' = s\<lparr>ss_sendedBuffer := ss_sendedBuffer s'\<rparr>"
    by (rule sended_spec [OF s(3) d(1) s(4) d(2,3)])
  have m: "pheap.more h = pheap.more st" by (rule sended_frame(1) [OF h(1)])
  have len: "length ds \<le> 255"
    using s(3) rb_size_le [of "ss_sendedBuffer s"] length_rb_contents [of "ss_sendedBuffer s"] by (simp add: send_rep_def)
  have n1: "(of_nat (length ds) :: u32) \<noteq> -1"
  proof
    assume e: "(of_nat (length ds) :: u32) = -1"
    have "unat (of_nat (length ds) :: u32) = length ds" using len by (simp add: unat_of_nat)
    moreover have "(-1 :: u32) = 0xFFFFFFFF" by simp
    then have "unat (-1 :: u32) = 0xFFFFFFFF" by (simp only: unat_numeral) simp
    ultimately show False using e len by simp
  qed
  have t0: "t \<noteq> 0"
  proof
    assume "t = 0"
    then have "sum_sizes st ds = 0" using d(2) by simp
    moreover obtain p ps where "ds = p # ps" using s(4) by (cases ds) auto
    ultimately show False using d(3) [of p] by (simp add: unat_eq_zero)
  qed
  let ?a = "arr[unat ti := arr ! unat ti + of_nat (length ds)]"
  have hm: "nw_sendMessageTPSArr h = arr" using m by (cases h; cases st) (simp add: arr_def)
  have i': "i < length (nw_sessionArray h)" using network_of_more [OF m] i by simp
  let ?s1 = "s'\<lparr>ss_sendFlag := 0\<rparr>" and ?st1 = "h\<lparr>nw_sendMessageTPSArr := ?a\<rparr>"
  have tps: "tps_add (nw_sendMessageTPSArr (session_put h i s')) ti (of_nat (length ds)) = Some ?a"
    using ti by (simp add: tps_add_def session_put_def hm arr_def [symmetric])
  have put: "session_put ((session_put h i s')\<lparr>nw_sendMessageTPSArr := ?a\<rparr>) i ?s1 = session_put ?st1 i ?s1"
    by (simp add: session_put_def)
  have w: "worker_step cb ti True t (Some i) ov st =
       (if 0 < sint (lfq_sizeFn (ss_sendBuffer ?s1))
        then do { st2 \<leftarrow> net_sendIO (cb_OnDisconnect cb) i (session_put ?st1 i ?s1);
                  st3 \<leftarrow> session_release (cb_OnDisconnect cb) i st2; Some (st3, True) }
        else do { st3 \<leftarrow> session_release (cb_OnDisconnect cb) i (session_put ?st1 i ?s1); Some (st3, True) })"
    using s(1,2) t0 h(1) n1 tps cb put by (simp add: worker_step_def Let_def)
  have sf: "?s1 = s\<lparr>ss_sendFlag := 0, ss_sendedBuffer := ss_sendedBuffer ?s1\<rparr>"
  proof -
    have "?s1 = (s\<lparr>ss_sendedBuffer := ss_sendedBuffer s'\<rparr>)\<lparr>ss_sendFlag := 0\<rparr>"
      using arg_cong [OF h(4), of "\<lambda>x. x\<lparr>ss_sendFlag := 0\<rparr>"] .
    then show ?thesis by simp
  qed
  have sr: "send_rep ?s1 qs []" using h(3) by simp
  show thesis by (rule that [OF w refl h(2) sr sf m])
qed

text \<open>Nothing was queued in the meantime: the connection is idle, and the reference of the send is returned.\<close>

lemma sent_idle:
  assumes s: "session_at st i = Some s" "sendOverlappedCheck s ov" "send_rep s [] ds" "ds \<noteq> []"
    and d: "valid_ptrs st ds" "unat t = sum_sizes st ds" "\<And>p. p \<in> set ds \<Longrightarrow> ptr_size st p \<noteq> 0"
    and cb: "cb_OnSend cb (ss_ID s) t st = Some st" and ti: "0 \<le> sint ti" "unat ti < length (nw_sendMessageTPSArr st)"
    and c: "2 \<le> unat (ss_IOcount s)"
  defines "arr \<equiv> nw_sendMessageTPSArr st"
  obtains s' h where
    "worker_step cb ti True t (Some i) ov st =
       Some (session_put (h\<lparr>nw_sendMessageTPSArr := arr[unat ti := arr ! unat ti + of_nat (length ds)]\<rparr>) i s', True)"
    "release_all st ds = Some h" "pheap.more h = pheap.more st" "send_rep s' [] []"
    "s' = s\<lparr>ss_sendFlag := 0, ss_IOcount := ss_IOcount s - 1, ss_sendedBuffer := ss_sendedBuffer s'\<rparr>"
proof -
  obtain s1 st1 h where w: "worker_step cb ti True t (Some i) ov st =
       (if 0 < sint (lfq_sizeFn (ss_sendBuffer s1))
        then do { st2 \<leftarrow> net_sendIO (cb_OnDisconnect cb) i (session_put st1 i s1);
                  st3 \<leftarrow> session_release (cb_OnDisconnect cb) i st2; Some (st3, True) }
        else do { st3 \<leftarrow> session_release (cb_OnDisconnect cb) i (session_put st1 i s1); Some (st3, True) })"
    and r: "st1 = h\<lparr>nw_sendMessageTPSArr := arr[unat ti := arr ! unat ti + of_nat (length ds)]\<rparr>" "release_all st ds = Some h"
      "send_rep s1 [] []" "s1 = s\<lparr>ss_sendFlag := 0, ss_sendedBuffer := ss_sendedBuffer s1\<rparr>" "pheap.more h = pheap.more st"
    by (rule worker_sent [OF s d cb ti, folded arr_def])
  have i: "i < length (nw_sessionArray st1)"
    using session_atD [OF s(1)] network_of_more [OF r(5)] by (simp add: r(1))
  have z: "lfq_sizeFn (ss_sendBuffer s1) = 0" using lfq.size_law [of "ss_sendBuffer s1" "[]" 255] r(3) by (simp add: send_rep_def)
  have f: "ss_IOcount s1 = ss_IOcount s" by (subst r(4)) simp
  have rel: "session_release (cb_OnDisconnect cb) i (session_put st1 i s1) =
      Some (session_put st1 i (s1\<lparr>ss_IOcount := ss_IOcount s - 1\<rparr>))"
    using release_put [OF i, of s1 "cb_OnDisconnect cb"] c by (simp add: f)
  have e: "s1\<lparr>ss_IOcount := ss_IOcount s - 1\<rparr> =
      s\<lparr>ss_sendFlag := 0, ss_IOcount := ss_IOcount s - 1, ss_sendedBuffer := ss_sendedBuffer (s1\<lparr>ss_IOcount := ss_IOcount s - 1\<rparr>)\<rparr>"
    using arg_cong [OF r(4), of "\<lambda>x. x\<lparr>ss_IOcount := ss_IOcount s - 1\<rparr>"] by simp
  have w1: "worker_step cb ti True t (Some i) ov st = Some (session_put st1 i (s1\<lparr>ss_IOcount := ss_IOcount s - 1\<rparr>), True)"
    unfolding w z using rel by simp
  have sr: "send_rep (s1\<lparr>ss_IOcount := ss_IOcount s - 1\<rparr>) [] []" using r(3) by simp
  show thesis by (rule that [OF w1 [unfolded r(1)] r(2,5) sr e])
qed

text \<open>Packets were queued in the meantime: they go out in the next send, in order.\<close>

lemma sent_next:
  assumes s: "session_at st i = Some s" "sendOverlappedCheck s ov" "send_rep s qs ds" "ds \<noteq> []"
    and d: "valid_ptrs st ds" "unat t = sum_sizes st ds" "\<And>p. p \<in> set ds \<Longrightarrow> ptr_size st p \<noteq> 0"
    and cb: "cb_OnSend cb (ss_ID s) t st = Some st" and ti: "0 \<le> sint ti" "unat ti < length (nw_sendMessageTPSArr st)"
    and c: "1 \<le> unat (ss_IOcount s)" "unat (ss_IOcount s) < 2 ^ 32 - 1" "length (ss_inflight s) < 2 ^ 30" "\<not> hasCancelIOFlag s"
    and q: "qs \<noteq> []" "length qs \<le> 100" "valid_ptrs st qs" and a: "os_answers st = a # as" "a = 0 \<or> a = WSA_IO_PENDING"
  defines "arr \<equiv> nw_sendMessageTPSArr st"
  obtains s' h where
    "worker_step cb ti True t (Some i) ov st =
       Some (session_put (os_log (h\<lparr>nw_sendMessageTPSArr := arr[unat ti := arr ! unat ti + of_nat (length ds)], os_answers := as\<rparr>)
         (WSASend (ss_socket s) (map (wsabuf st) qs))) i s', True)"
    "release_all st ds = Some h" "pheap.more h = pheap.more st" "send_rep s' [] qs" "ss_sendFlag s' = 1"
    "ss_IOcount s' = ss_IOcount s" "ss_inflight s' = Send_io # ss_inflight s" "ss_recvBuffer s' = ss_recvBuffer s"
    "ss_ID s' = ss_ID s" "ss_socket s' = ss_socket s" "ss_cancelIOFlag s' = ss_cancelIOFlag s"
proof -
  obtain s1 st1 h where w: "worker_step cb ti True t (Some i) ov st =
       (if 0 < sint (lfq_sizeFn (ss_sendBuffer s1))
        then do { st2 \<leftarrow> net_sendIO (cb_OnDisconnect cb) i (session_put st1 i s1);
                  st3 \<leftarrow> session_release (cb_OnDisconnect cb) i st2; Some (st3, True) }
        else do { st3 \<leftarrow> session_release (cb_OnDisconnect cb) i (session_put st1 i s1); Some (st3, True) })"
    and r: "st1 = h\<lparr>nw_sendMessageTPSArr := arr[unat ti := arr ! unat ti + of_nat (length ds)]\<rparr>" "release_all st ds = Some h"
      "send_rep s1 qs []" "s1 = s\<lparr>ss_sendFlag := 0, ss_sendedBuffer := ss_sendedBuffer s1\<rparr>" "pheap.more h = pheap.more st"
    by (rule worker_sent [OF s d cb ti, folded arr_def])
  obtain h0 where h0: "release_all st ds = Some h0" "ser_shape h0 = ser_shape st" using release_all_valid [OF d(1)] by blast
  then have sh: "ser_shape h = ser_shape st" using r(2) by simp
  have i: "i < length (nw_sessionArray st1)"
    using session_atD [OF s(1)] network_of_more [OF r(5)] by (simp add: r(1))
  have f: "ss_IOcount s1 = ss_IOcount s" "ss_inflight s1 = ss_inflight s" "ss_sendFlag s1 = 0" "ss_ID s1 = ss_ID s"
    "ss_socket s1 = ss_socket s" "ss_cancelIOFlag s1 = ss_cancelIOFlag s" "ss_recvBuffer s1 = ss_recvBuffer s"
    by (subst r(4), simp)+
  let ?t1 = "session_put st1 i s1"
  have heap: "valid_ptrs st1 = valid_ptrs h" "wsabuf st1 = wsabuf h" "os_answers st1 = os_answers h"
    by (simp_all add: r(1) valid_ptrs_def wsabuf_def ser_at_def fun_eq_iff)
  have wb: "map (wsabuf h) qs = map (wsabuf st) qs"
    using wsabuf_shape [OF sh] by simp
  have ans: "os_answers h = a # as" using r(5) a(1) by (cases h; cases st) simp
  have n: "unat (of_nat (length qs) :: u32) = length qs" using q(2) by (simp add: unat_of_nat)
  then have "sint (of_nat (length qs) :: u32) = int (length qs)"
    using sint_small [of "of_nat (length qs)"] q(2) by simp
  then have z: "0 < sint (lfq_sizeFn (ss_sendBuffer s1))"
    using r(3) q(1) lfq.size_law [of "ss_sendBuffer s1" qs 255] by (simp add: send_rep_def)
  obtain s2 where s2: "sendIO s1 ?t1 = Some (s2, os_log (?t1\<lparr>os_answers := as\<rparr>) (WSASend (ss_socket s1) (map (wsabuf ?t1) qs)), False)"
    and r2: "send_rep s2 [] qs" "ss_sendFlag s2 = 1" "ss_IOcount s2 = ss_IOcount s1 + 1" "ss_inflight s2 = Send_io # ss_inflight s1"
      "ss_cancelIOFlag s2 = ss_cancelIOFlag s1" "ss_recvBuffer s2 = ss_recvBuffer s1" "ss_ID s2 = ss_ID s1" "ss_socket s2 = ss_socket s1"
    by (rule sendIO_spec [of s1 qs ?t1 a as])
       (use f r(3) q c a ans shape_valid [OF sh q(3)] in \<open>simp_all add: heap hasCancelIOFlag_def\<close>)
  let ?st2 = "os_log (st1\<lparr>os_answers := as\<rparr>) (WSASend (ss_socket s) (map (wsabuf st) qs))"
  have n: "net_sendIO (cb_OnDisconnect cb) i ?t1 = Some (session_put ?st2 i s2)"
    using net_sendIO_put [OF i s2] using f by (simp add: heap wb)
  have "unat (ss_IOcount s2) = unat (ss_IOcount s) + 1" using c(2) r2(3) f(1) by (simp add: unat_word_ariths)
  then have rel: "session_release (cb_OnDisconnect cb) i (session_put ?st2 i s2) = Some (session_put ?st2 i (s2\<lparr>ss_IOcount := ss_IOcount s\<rparr>))"
    using release_put [of i ?st2 s2 "cb_OnDisconnect cb"] i c(1) r2(3) f(1) by simp
  have "worker_step cb ti True t (Some i) ov st = Some (session_put ?st2 i (s2\<lparr>ss_IOcount := ss_IOcount s\<rparr>), True)"
    unfolding w using z n rel by simp
  then show thesis unfolding r(1) by (rule that) (use r r2 f in simp_all)
qed

end
