(* ===== verification/Frame_Stream.thy ===== *)
theory Frame_Stream
  imports Completions
begin

text \<open>
  A whole receive completion. The interface between the worker's loop and the application is the locale
  \<open>frame_receiver\<close>: what \<open>OnRecv\<close> promises for one frame, from which the locale derives that the loop hands over all
  the frames of the received bytes, in order, and leaves the incomplete rest in the ring. The login server
  provides it: a connection that sends any number of login requests gets one response posted for each.
\<close>

section \<open>The completion\<close>

text \<open>The kernel has put \<open>data\<close> behind the bytes \<open>bs\<close>, which were waiting.\<close>

lemma recv_completion:
  assumes s: "session_at st i = Some s" "recv_rep s bs" "ss_recvOverlapped s \<noteq> ss_sendOverlapped s"
    and d: "data \<noteq> []" "length bs + length data < 255"
  obtains s2 where
    "do { st1 \<leftarrow> iocp_deliver i (ss_recvOverlapped s) data st;
          worker_step cb ti True (of_nat (length data)) (Some i) (ss_recvOverlapped s) st1 } =
     do { st2 \<leftarrow> recv_loop cb ti i (session_put st i s2);
          st3 \<leftarrow> net_recvIO (cb_OnDisconnect cb) i st2;
          st4 \<leftarrow> session_release (cb_OnDisconnect cb) i st3;
          Some (st4, True) }"
    "recv_rep s2 (bs @ data)"
    "s2 = s\<lparr>ss_recvBuffer := ss_recvBuffer s2, ss_inflight := remove1 Recv_io (ss_inflight s)\<rparr>"
proof -
  have i: "i < length (nw_sessionArray st)" using session_atD [OF s(1)] by simp
  obtain s1 s2 where r: "recv_arrive s data = Some s1" "recved s1 (of_nat (length data)) = (s2, True)"
      "recv_rep s2 (bs @ data)" "s2 = s\<lparr>ss_recvBuffer := ss_recvBuffer s2\<rparr>"
    by (rule recv_arrive_recved [OF s(2) d])
  let ?f = "\<lambda>x. x\<lparr>ss_inflight := remove1 Recv_io (ss_inflight s)\<rparr>"
  have s1: "s1 = s\<lparr>ss_recvBuffer := ss_recvBuffer s1\<rparr>" using r(1) by (auto simp: recv_arrive_def)
  have op: "completion_op s (ss_recvOverlapped s) = Recv_io" using s(3) by (simp add: completion_op_def)
  have dv: "iocp_deliver i (ss_recvOverlapped s) data st = Some (session_put st i (?f s1))"
    using s(1) r(1) op by (simp add: iocp_deliver_def)
  have ov: "ss_sendOverlapped (?f s1) = ss_sendOverlapped s" "ss_recvOverlapped (?f s1) = ss_recvOverlapped s"
    by (subst s1, simp)+
  have rv: "recved (?f s1) (of_nat (length data)) = (?f s2, True)"
    using r(2) by (auto simp: recved_def split: if_splits)
  have nz: "(of_nat (length data) :: u32) \<noteq> 0"
  proof -
    have "unat (of_nat (length data) :: u32) = length data" using d(2) by (simp add: unat_of_nat)
    then show ?thesis using d(1) by auto
  qed
  have at1: "session_at (session_put st i (?f s1)) i = Some (?f s1)" using i by simp
  have w: "worker_step cb ti True (of_nat (length data)) (Some i) (ss_recvOverlapped s) (session_put st i (?f s1)) =
     do { st2 \<leftarrow> recv_loop cb ti i (session_put st i (?f s2));
          st3 \<leftarrow> net_recvIO (cb_OnDisconnect cb) i st2;
          st4 \<leftarrow> session_release (cb_OnDisconnect cb) i st3;
          Some (st4, True) }"
    using nz s(3) at1
    by (simp add: worker_step_def sendOverlappedCheck_def recvOverlappedCheck_def ov rv Let_def del: of_nat_eq_0_iff)
  have rr: "recv_rep (?f s2) (bs @ data)" using r(3) by simp
  have e: "?f s2 = s\<lparr>ss_recvBuffer := ss_recvBuffer (?f s2), ss_inflight := remove1 Recv_io (ss_inflight s)\<rparr>"
    using arg_cong [OF r(4), of ?f] by simp
  show thesis by (rule that [OF _ rr e]) (use dv w in simp)
qed

lemma rb_fill_size: "rb_fill rb data = Some rb1 \<Longrightarrow> rb_bufferSize rb1 = rb_bufferSize rb"
  by (auto simp: rb_fill_def Let_def split: if_splits bind_splits)

text \<open>Bytes that fill the ring exactly are refused, and the reference of the receive is never given back.\<close>

lemma recv_completion_full:
  assumes s: "session_at st i = Some s" "recv_rep s bs" "ss_recvOverlapped s \<noteq> ss_sendOverlapped s"
    and d: "data \<noteq> []" "length bs + length data = 255"
  obtains s1 where
    "do { st1 \<leftarrow> iocp_deliver i (ss_recvOverlapped s) data st;
          worker_step cb ti True (of_nat (length data)) (Some i) (ss_recvOverlapped s) st1 } =
     Some (session_put st i s1, True)"
    "recv_rep s1 bs" "ss_IOcount s1 = ss_IOcount s" "ss_inflight s1 = remove1 Recv_io (ss_inflight s)"
proof -
  have i: "i < length (nw_sessionArray st)" using session_atD [OF s(1)] by simp
  note R = recv_repD [OF s(2)]
  have fr: "length data \<le> unat (rb_freeSize (ss_recvBuffer s))" using R(4) d(2) by simp
  obtain rb1 where rb1: "rb_fill (ss_recvBuffer s) data = Some rb1" "rb_inv rb1" "rb_size rb1 = rb_size (ss_recvBuffer s)"
      "rb_contents rb1 = rb_contents (ss_recvBuffer s)" "rb_bufferSize rb1 = rb_bufferSize (ss_recvBuffer s)"
    using rb_fill_MoveRear [OF R(1) fr] rb_fill_size by blast
  let ?f = "\<lambda>x. x\<lparr>ss_inflight := remove1 Recv_io (ss_inflight s)\<rparr>"
  let ?s1 = "?f (s\<lparr>ss_recvBuffer := rb1\<rparr>)"
  have op: "completion_op s (ss_recvOverlapped s) = Recv_io" using s(3) by (simp add: completion_op_def)
  have dv: "iocp_deliver i (ss_recvOverlapped s) data st = Some (session_put st i ?s1)"
    using s(1) rb1(1) op by (simp add: iocp_deliver_def recv_arrive_def)
  have rr: "recv_rep ?s1 bs" using s(2) rb1 by (simp add: recv_rep_def)
  have n: "unat (of_nat (length data) :: u32) = length data" using d(2) by (simp add: unat_of_nat)
  then have nz: "(of_nat (length data) :: u32) \<noteq> 0" using d(1) by auto
  have "recved ?s1 (of_nat (length data)) = (?s1, False)"
    by (rule recved_full [OF rr]) (use n d(2) in simp)
  then have w: "worker_step cb ti True (of_nat (length data)) (Some i) (ss_recvOverlapped s) (session_put st i ?s1) =
      Some (session_put st i ?s1, True)"
    using nz s(3) i by (simp add: worker_step_def sendOverlappedCheck_def recvOverlappedCheck_def Let_def del: of_nat_eq_0_iff)
  show thesis by (rule that [OF _ rr]) (use dv w in simp_all)
qed

section \<open>The frames of a completion\<close>

text \<open>
  \<open>R x bs st\<close>: the session \<open>i\<close> has the bytes \<open>bs\<close> in its ring, the next block of the pool is usable, and the
  application's abstract state is \<open>x\<close>. A frame \<open>f\<close> that means the event \<open>e\<close> is consumed by \<open>OnRecv\<close>.
\<close>

definition frame_state :: "u16 \<Rightarrow> nat \<Rightarrow> byte list \<Rightarrow> 'a network_scheme \<Rightarrow> bool" where
  "frame_state ti i bs st \<longleftrightarrow> 0 \<le> sint ti \<and> unat ti < length (nw_recvMessageTPSArr st) \<and>
     (\<exists>s p ps ser. session_at st i = Some s \<and> recv_rep s bs \<and> ph_supply st = p # ps \<and> ser_at st p = Some ser \<and>
        sz_inv ser \<and> 255 \<le> unat (sz_bufferSize ser) \<and> sz_referenceCounter ser = 0)"

text \<open>The state in which \<open>OnRecv\<close> gets the frame \<open>f\<close> in the block \<open>p\<close>.\<close>

definition frame_given :: "nat \<Rightarrow> u64 \<Rightarrow> byte list \<Rightarrow> byte list \<Rightarrow> 'a network_scheme \<Rightarrow> 'a network_scheme \<Rightarrow> bool" where
  "frame_given i p f bs st st1 \<longleftrightarrow>
     (\<exists>s s' ps ser arr. session_at st i = Some s \<and> ph_supply st = p # ps \<and> s' = s\<lparr>ss_recvBuffer := ss_recvBuffer s'\<rparr> \<and> recv_rep s' bs \<and>
        sz_inv ser \<and> sz_ho ser = 0 \<and> sz_to ser = length f \<and> sz_data ser = f \<and> take (length f) (sz_mem ser) = f \<and>
        sz_referenceCounter ser = 1 \<and> length arr = length (nw_recvMessageTPSArr st) \<and>
        st1 = (ser_put (session_put (st\<lparr>ph_supply := ps\<rparr>) i s') p ser)\<lparr>nw_recvMessageTPSArr := arr\<rparr>)"

text \<open>The state that the last turn of the loop leaves: the block it took goes back unused.\<close>

definition loop_end :: "'a network_scheme \<Rightarrow> 'a network_scheme \<Rightarrow> bool" where
  "loop_end st st' \<longleftrightarrow> (\<exists>p ps ser. ph_supply st = p # ps \<and> ser_at st p = Some ser \<and>
     st' = serializerFree (ser_put (st\<lparr>ph_supply := ps\<rparr>) p ((recv_block ser)\<lparr>sz_referenceCounter := 0\<rparr>)) p)"

locale frame_receiver =
  fixes cb :: "'a network_scheme callbacks" and ti :: u16 and i :: nat and sid :: u64
    and R :: "'x \<Rightarrow> byte list \<Rightarrow> 'a network_scheme \<Rightarrow> bool"
    and accepts :: "byte list \<Rightarrow> 'e \<Rightarrow> bool" and act :: "'e \<Rightarrow> 'x \<Rightarrow> 'x"
  assumes ready: "R x bs st \<Longrightarrow> frame_state ti i bs st \<and> (\<exists>s. session_at st i = Some s \<and> ss_ID s = sid)"
    and serves: "R x (f @ bs) st \<Longrightarrow> accepts f e \<Longrightarrow> frame_given i p f bs st st1 \<Longrightarrow>
      \<exists>st2 st3. cb_OnRecv cb sid p st1 = Some st2 \<and> ser_release st2 p = Some st3 \<and> R (act e x) bs st3"
begin

lemma one_frame:
  assumes r: "R x bs st" and f: "5 \<le> length bs" "unat (frame_size bs) < 2 ^ 15" "5 + unat (frame_size bs) \<le> length bs"
    and n: "n = 5 + unat (frame_size bs)" and a: "accepts (take n bs) e"
  obtains st' where "recv_loop cb ti i st = recv_loop cb ti i st'" "R (act e x) (drop n bs) st'"
proof -
  obtain s p ps ser where s: "session_at st i = Some s" "recv_rep s bs" "ph_supply st = p # ps" "ser_at st p = Some ser"
      "sz_inv ser" "255 \<le> unat (sz_bufferSize ser)" "sz_referenceCounter ser = 0" "0 \<le> sint ti"
      "unat ti < length (nw_recvMessageTPSArr st)" "ss_ID s = sid"
    using ready [OF r] by (auto simp: frame_state_def)
  have n255: "n \<le> unat (sz_bufferSize ser)" using recv_repD(3) [OF s(2)] f(3) n s(6) by simp
  let ?arr = "nw_recvMessageTPSArr st"
  obtain s' ser' where l: "recv_loop cb ti i st =
       do { st2 \<leftarrow> cb_OnRecv cb (ss_ID s) p ((ser_put (session_put (st\<lparr>ph_supply := ps\<rparr>) i s') p ser')
                     \<lparr>nw_recvMessageTPSArr := ?arr[unat ti := ?arr ! unat ti + 1]\<rparr>);
            st3 \<leftarrow> ser_release st2 p; recv_loop cb ti i st3 }"
    and g: "s' = s\<lparr>ss_recvBuffer := ss_recvBuffer s'\<rparr>" "recv_rep s' (drop n bs)"
      "sz_inv ser'" "sz_ho ser' = 0" "sz_to ser' = n" "sz_data ser' = take n bs" "take n (sz_mem ser') = take n bs"
      "sz_referenceCounter ser' = sz_referenceCounter ser + 1"
    by (rule recv_loop_frame [OF s(1,2) f n s(3,4,5) n255 s(8,9)])
  let ?st1 = "(ser_put (session_put (st\<lparr>ph_supply := ps\<rparr>) i s') p ser')\<lparr>nw_recvMessageTPSArr := ?arr[unat ti := ?arr ! unat ti + 1]\<rparr>"
  have len: "length (take n bs) = n" using f(3) n by simp
  have "frame_given i p (take n bs) (drop n bs) st ?st1"
    unfolding frame_given_def len
    by (intro exI conjI) (rule s(1), rule s(3), rule g(1), (rule g)+, simp add: g(8) s(7), rule length_list_update, rule refl)
  moreover have "R x (take n bs @ drop n bs) st" using r by simp
  ultimately obtain st2 st3 where "cb_OnRecv cb sid p ?st1 = Some st2" "ser_release st2 p = Some st3" "R (act e x) (drop n bs) st3"
    using serves a by blast
  then show thesis by (intro that [of st3]) (simp_all add: l s(10))
qed

lemma no_frame:
  assumes r: "R x bs st" and f: "length bs < 5 \<or> unat (frame_size bs) < 2 ^ 15 \<and> length bs < 5 + unat (frame_size bs)"
  obtains st' where "recv_loop cb ti i st = Some st'" "loop_end st st'"
proof -
  obtain s p ps ser where s: "session_at st i = Some s" "recv_rep s bs" "ph_supply st = p # ps" "ser_at st p = Some ser"
      "sz_inv ser" "255 \<le> unat (sz_bufferSize ser)" "sz_referenceCounter ser = 0"
    using ready [OF r] by (auto simp: frame_state_def)
  have "recv_loop cb ti i st = Some (serializerFree (ser_put (st\<lparr>ph_supply := ps\<rparr>) p ((recv_block ser)\<lparr>sz_referenceCounter := 0\<rparr>)) p)"
    by (rule recv_loop_stop [OF s(1,2) f s(3,4,5) _ s(7)]) (use s(6) in simp)
  then show thesis by (rule that) (use s(3,4) in \<open>auto simp: loop_end_def\<close>)
qed

theorem all_frames:
  assumes "R x bs st" "parse_frames bs = Some (fs, r)" "list_all2 accepts fs es"
  shows "\<exists>st1 st2. recv_loop cb ti i st = Some st2 \<and> R (fold act es x) r st1 \<and> loop_end st1 st2"
  using assms
proof (induction bs arbitrary: x st fs es rule: parse_frames.induct)
  case (1 bs)
  let ?n = "5 + unat (frame_size bs)"
  show ?case
  proof (cases "length bs < 5 \<or> unat (frame_size bs) < 2 ^ 15 \<and> length bs < ?n")
    case True
    then have fr: "fs = []" "r = bs" using 1(3) by (auto simp: parse_frames.simps [of bs] Let_def split: if_splits)
    then have "es = []" using 1(4) by simp
    moreover obtain st' where "recv_loop cb ti i st = Some st'" "loop_end st st'" by (rule no_frame [OF 1(2) True])
    ultimately show ?thesis using 1(2) fr by auto
  next
    case False
    have c: "5 \<le> length bs" "unat (frame_size bs) < 2 ^ 15" "?n \<le> length bs"
      using False 1(3) by (auto simp: parse_frames.simps [of bs] Let_def split: if_splits)
    obtain gs where gs: "parse_frames (drop ?n bs) = Some (gs, r)" "fs = take ?n bs # gs"
      using 1(3) c by (auto simp: parse_frames.simps [of bs] Let_def not_less split: if_splits)
    obtain e es' where es: "es = e # es'" "accepts (take ?n bs) e" "list_all2 accepts gs es'"
      using 1(4) gs(2) by (auto simp: list_all2_Cons1)
    obtain st' where st': "recv_loop cb ti i st = recv_loop cb ti i st'" "R (act e x) (drop ?n bs) st'"
      by (rule one_frame [OF 1(2) c refl es(2)])
    have "\<exists>st1 st2. recv_loop cb ti i st' = Some st2 \<and> R (fold act es' (act e x)) r st1 \<and> loop_end st1 st2"
      by (rule 1(1) [OF _ _ refl _ st'(2) gs(1) es(3)]) (use c in auto)
    then show ?thesis by (simp add: st'(1) es(1))
  qed
qed

end

end
