(* ===== verification/Login_Stream.thy ===== *)
theory Login_Stream
  imports Frame_Stream
begin

text \<open>
  The login server on a stream of login requests: it provides the interface \<open>frame_receiver\<close>, so that all
  the requests of one receive are served in order, each with one entry of the store and one posted response.
\<close>

section \<open>The database that answers\<close>

definition db_ready :: "nat \<Rightarrow> mysql \<Rightarrow> bool" where
  "db_ready n m \<longleftrightarrow> my_mysqlConnect m \<noteq> 0 \<and> my_mysqlConnect m \<notin> set (my_closed m) \<and>
     (\<exists>qs. my_queries m = replicate n 0 @ qs) \<and>
     n \<le> length (my_results m) \<and> (\<forall>rows \<in> set (take n (my_results m)). rows = [] \<or> (\<exists>c. rows = [[c]]))"

lemma db_less:
  assumes "db_ready n m" "k \<le> n"
  shows "db_ready k m"
proof -
  obtain qs where q: "my_queries m = replicate n 0 @ qs" using assms(1) by (auto simp: db_ready_def)
  have "replicate n (0::u32) = replicate k 0 @ replicate (n - k) 0" using assms(2) by (simp add: replicate_add [symmetric])
  then have "my_queries m = replicate k 0 @ (replicate (n - k) 0 @ qs)" using q by simp
  moreover have "set (take k (my_results m)) \<subseteq> set (take n (my_results m))" using assms(2) by (simp add: set_take_subset_set_take)
  moreover have "k \<le> length (my_results m)" using assms by (simp add: db_ready_def)
  ultimately show ?thesis using assms(1) unfolding db_ready_def by blast
qed

text \<open>One query of a connected thread, for an answer of no row or of one: what is asked, and that it returns.\<close>

lemma query_answered:
  assumes m: "my_mysqlConnect m \<noteq> 0" "my_mysqlConnect m \<notin> set (my_closed m)" "my_queries m = 0 # qs"
    and r: "my_results m = rows # rs" "rows = [] \<or> (\<exists>v. rows = [[v]])"
  obtains m' res where "mysqlConnector_query m q (dbResult_new (\<lambda>ns. ns) [x]) = Some (m', res)"
    "my_calls m' = [Mysql_free_result, Mysql_store_result (my_mysqlConnect m), Mysql_query (my_mysqlConnect m) q] @ my_calls m"
    "my_mysqlConnect m' = my_mysqlConnect m" "my_closed m' = my_closed m" "my_queries m' = qs" "my_results m' = rs"
proof -
  let ?m1 = "(my_log m (Mysql_query (my_mysqlConnect m) q))\<lparr>my_queries := qs\<rparr>"
  let ?m2 = "(my_log ?m1 (Mysql_store_result (my_mysqlConnect m)))\<lparr>my_results := rs\<rparr>"
  have q: "query_loop q m = Some ?m1" by (rule query_loop_ok [OF m])
  have h: "my_mysqlConnect (my_log m c) = my_mysqlConnect m" for c by (simp add: my_log_def)
  have s: "mysql_store_result ?m1 (my_mysqlConnect m) = Some (?m2, rows)"
    using m(1,2) r(1) by (simp add: mysql_store_result_def my_log_def)
  have one: "\<exists>res. fetch_rows [[c]] 0 (dbResult_new (\<lambda>ns. ns) [x]) = Some res" for c
    by (cases c) (simp_all add: dbResult_new_def)
  obtain res where "fetch_rows rows 0 (dbResult_new (\<lambda>ns. ns) [x]) = Some res"
    using r(2) one by (auto simp del: fetch_rows.simps(2))
  then have "mysqlConnector_query m q (dbResult_new (\<lambda>ns. ns) [x]) = Some (my_log ?m2 Mysql_free_result, res)"
    by (simp add: mysqlConnector_query_def q h s)
  then show thesis by (rule that) (simp_all add: my_log_def)
qed

lemma db_query:
  assumes "db_ready (Suc n) m"
  obtains m' res where "mysqlConnector_query m q (dbResult_new (\<lambda>ns. ns) [x]) = Some (m', res)" "db_ready n m'"
proof -
  obtain qs where m: "my_mysqlConnect m \<noteq> 0" "my_mysqlConnect m \<notin> set (my_closed m)" "my_queries m = 0 # replicate n 0 @ qs"
    using assms by (auto simp: db_ready_def)
  obtain rows rs where r: "my_results m = rows # rs" "n \<le> length rs" "rows = [] \<or> (\<exists>c. rows = [[c]])"
      "\<forall>rows \<in> set (take n rs). rows = [] \<or> (\<exists>c. rows = [[c]])"
    using assms by (cases "my_results m") (auto simp: db_ready_def)
  obtain m' res where a: "mysqlConnector_query m q (dbResult_new (\<lambda>ns. ns) [x]) = Some (m', res)"
    "my_mysqlConnect m' = my_mysqlConnect m" "my_closed m' = my_closed m" "my_queries m' = replicate n 0 @ qs" "my_results m' = rs"
    by (rule query_answered [OF m r(1,3)])
  show thesis by (rule that [OF a(1)]) (use a(2-) m r in \<open>simp add: db_ready_def\<close>)
qed

section \<open>The state between two frames\<close>

text \<open>Blocks for the next \<open>n\<close> allocations: different objects of the heap, unused, and large enough.\<close>

definition pool_ready :: "nat \<Rightarrow> 'a pheap_scheme \<Rightarrow> bool" where
  "pool_ready n st \<longleftrightarrow> n \<le> length (ph_supply st) \<and> distinct (ph_supply st) \<and>
     (\<forall>p \<in> set (ph_supply st). \<exists>ser. ser_at st p = Some ser \<and> sz_inv ser \<and> 255 \<le> unat (sz_bufferSize ser) \<and>
        sz_referenceCounter ser = 0)"

definition store_login :: "u64 \<times> byte list \<Rightarrow> redis \<Rightarrow> redis" where
  "store_login e r = redisConnector_set r (to_string (fst e)) (snd e) 1"

text \<open>The packets \<open>qs\<close> are the posted responses to the requests \<open>es\<close>.\<close>

definition answers :: "(nat \<Rightarrow> u16) \<Rightarrow> 'a pheap_scheme \<Rightarrow> u64 \<Rightarrow> u64 \<times> byte list \<Rightarrow> bool" where
  "answers stack st q e \<longleftrightarrow>
     (\<exists>resp. ser_at st q = Some resp \<and> sz_referenceCounter resp = 1 \<and>
        wire_block resp 0x32 (response_payload (fst e) (map stack [0..<20])))"

text \<open>The posted packets \<open>qs\<close>, the latest first, as completions that are owed.\<close>

definition posted :: "u64 list \<Rightarrow> io_op list" where
  "posted qs = rev (map (\<lambda>q. Post_io (q OR 0x4000000000000000)) qs)"

text \<open>
  After the requests \<open>es\<close> were served, with the bytes \<open>bs\<close> still to come; the loop began in \<open>st0\<close>. A frame has at
  least five bytes, so \<open>length bs div 5\<close> bounds what the rest can use.
\<close>

definition stream_state :: "u16 \<Rightarrow> u64 \<Rightarrow> loginServer \<Rightarrow> (u64 \<times> byte list) list \<Rightarrow> byte list \<Rightarrow> loginServer \<Rightarrow> bool" where
  "stream_state ti sid st0 es bs st \<longleftrightarrow>
     (let i = unat (GET_INDEX sid); s0 = nw_sessionArray st0 ! i; s = nw_sessionArray st ! i; n = length bs div 5 in
      net_inv ((\<lambda>_. 0)(i := 1)) st \<and> connected st sid \<and> recv_rep s bs \<and>
      0 \<le> sint ti \<and> unat ti < length (nw_recvMessageTPSArr st) \<and>
      length (ss_inflight s) + n < 2 ^ 30 \<and> pool_ready (2 * n + 1) st \<and> n \<le> length (ls_rand st) \<and> db_ready n (ls_mysql st) \<and>
      ls_stack st = ls_stack st0 \<and> os_answers st = os_answers st0 \<and>
      ls_redis st = fold store_login es (ls_redis st0) \<and>
      (\<exists>qs. s = s0\<lparr>ss_recvBuffer := ss_recvBuffer s, ss_IOcount := ss_IOcount s0 + of_nat (length es),
                   ss_inflight := posted qs @ ss_inflight s0\<rparr> \<and>
         list_all2 (answers (ls_stack st0) st) qs es \<and> set qs \<inter> set (ph_supply st) = {} \<and> distinct qs))"

text \<open>A frame that is a login request as the client sends it.\<close>

definition request_frame :: "byte list \<Rightarrow> u64 \<times> byte list \<Rightarrow> bool" where
  "request_frame f e \<longleftrightarrow>
     (\<exists>w rest. length (snd e) = 64 \<and> wire_block w 0x32 (login_request (fst e) (snd e) rest) \<and> f = sz_data w)"

text \<open>Frames one after the other are cut at the same places by the receiver.\<close>

lemma parse_wire:
  assumes "\<forall>(w, d) \<in> set ws. wire_block w sk d"
  shows "parse_frames (concat (map (\<lambda>(w, d). sz_data w) ws)) = Some (map (\<lambda>(w, d). sz_data w) ws, [])"
  using assms
proof (induction ws)
  case Nil
  show ?case using parse_short [of "[]"] by simp
next
  case (Cons x ws)
  obtain w d where x: "x = (w, d)" "wire_block w sk d" using Cons.prems by (cases x) auto
  have "length (sz_data w) = 5 + length d" "length d < 2 ^ 15" "frame_size (sz_data w) = of_nat (length d)"
    using x(2) by (simp_all add: wire_block_def)
  from parse_cons [OF this] show ?case using Cons x(1) by simp
qed

section \<open>One request\<close>

lemma stream_stateD:
  assumes "stream_state ti sid st0 es bs st"
  defines "i \<equiv> unat (GET_INDEX sid)" and "n \<equiv> length bs div 5"
  defines "s \<equiv> nw_sessionArray st ! i" and "s0 \<equiv> nw_sessionArray st0 ! i"
  shows "net_inv ((\<lambda>_. 0)(i := 1)) st" "connected st sid" "recv_rep s bs" "0 \<le> sint ti"
    "unat ti < length (nw_recvMessageTPSArr st)" "length (ss_inflight s) + n < 2 ^ 30"
    "pool_ready (2 * n + 1) st" "n \<le> length (ls_rand st)" "db_ready n (ls_mysql st)"
    "ls_stack st = ls_stack st0" "os_answers st = os_answers st0" "ls_redis st = fold store_login es (ls_redis st0)"
    "\<exists>qs. s = s0\<lparr>ss_recvBuffer := ss_recvBuffer s, ss_IOcount := ss_IOcount s0 + of_nat (length es),
                   ss_inflight := posted qs @ ss_inflight s0\<rparr> \<and>
         list_all2 (answers (ls_stack st0) st) qs es \<and> set qs \<inter> set (ph_supply st) = {} \<and> distinct qs"
  using assms(1) by (simp_all only: stream_state_def Let_def i_def n_def s_def s0_def)

lemma connected_slot: "connected st sid \<Longrightarrow>
    unat (GET_INDEX sid) < length (nw_sessionArray st) \<and> \<not> on_stack st (unat (GET_INDEX sid)) \<and>
    ss_ID (nw_sessionArray st ! unat (GET_INDEX sid)) = sid"
  by (simp add: connected_def)

lemma given_neutral:
  assumes inv: "net_inv refs st" and c: "connected st sid"
    and g: "frame_given (unat (GET_INDEX sid)) p f bs st st1"
  shows "neutral st st1"
proof -
  let ?i = "unat (GET_INDEX sid)"
  obtain s s' ps ser arr where s: "session_at st ?i = Some s" "s' = s\<lparr>ss_recvBuffer := ss_recvBuffer s'\<rparr>"
      "st1 = (ser_put (session_put (st\<lparr>ph_supply := ps\<rparr>) ?i s') p ser)\<lparr>nw_recvMessageTPSArr := arr\<rparr>"
    using g unfolding frame_given_def by blast
  note I = session_atD [OF s(1)]
  have f: "ss_inflight s' = ss_inflight s" "ss_IOcount s' = ss_IOcount s" "ss_sendFlag s' = ss_sendFlag s" "ss_ID s' = ss_ID s"
    by (subst s(2), simp)+
  have "neutral st (session_put st ?i s')"
    using I by (intro neutral_put) (auto intro: grow_same simp: f)
  moreover have "neutral (session_put st ?i s') st1"
    by (rule neutral_same_array) (simp_all add: s(3) session_put_def ser_put_def)
  ultimately show ?thesis by (rule neutral_trans)
qed

text \<open>What \<open>OnRecv\<close> needs, read off the state in which it gets the frame.\<close>

lemma given_facts:
  assumes S: "stream_state ti sid st0 es (f @ bs) st" and a: "request_frame f e"
    and g: "frame_given (unat (GET_INDEX sid)) p f bs st st1"
  defines "i \<equiv> unat (GET_INDEX sid)" and "n \<equiv> length bs div 5"
  defines "s1 \<equiv> nw_sessionArray st1 ! i"
  obtains ser q qs b0 rk rs where
    "net_inv ((\<lambda>_. 0)(i := 1)) st1" "connected st1 sid" "recv_rep s1 bs" "unat ti < length (nw_recvMessageTPSArr st1)"
    "s1 = (nw_sessionArray st ! i)\<lparr>ss_recvBuffer := ss_recvBuffer s1\<rparr>" "length (ss_inflight s1) + Suc n < 2 ^ 30"
    "ser_at st1 p = Some ser" "sz_inv ser" "sz_ho ser = 0" "sz_to ser = length f" "take (length f) (sz_mem ser) = f"
    "sz_referenceCounter ser = 1"
    "ph_supply st = p # q # qs" "ph_supply st1 = q # qs" "q \<noteq> p" "ser_at st1 q = Some b0" "sz_inv b0" "sz_referenceCounter b0 = 0"
    "255 \<le> unat (sz_bufferSize b0)" "p \<noteq> 0"
    "\<forall>r. r \<noteq> p \<longrightarrow> ser_at st1 r = ser_at st r" "2 * n + 1 \<le> length qs" "distinct (p # q # qs)"
    "ls_rand st1 = rk # rs" "n \<le> length rs" "db_ready (Suc n) (ls_mysql st1)" "ls_stack st1 = ls_stack st0"
    "os_answers st1 = os_answers st0" "ls_redis st1 = fold store_login es (ls_redis st0)"
proof -
  note D = stream_stateD [OF S, folded i_def]
  obtain s s' ps ser arr where s: "session_at st i = Some s" "ph_supply st = p # ps" "s' = s\<lparr>ss_recvBuffer := ss_recvBuffer s'\<rparr>"
      "recv_rep s' bs" "sz_inv ser" "sz_ho ser = 0" "sz_to ser = length f" "take (length f) (sz_mem ser) = f"
      "sz_referenceCounter ser = 1" "length arr = length (nw_recvMessageTPSArr st)"
      "st1 = (ser_put (session_put (st\<lparr>ph_supply := ps\<rparr>) i s') p ser)\<lparr>nw_recvMessageTPSArr := arr\<rparr>"
    using g unfolding frame_given_def i_def by blast
  note I = session_atD [OF s(1)]
  have nt: "neutral st st1" unfolding i_def by (rule given_neutral [OF D(1,2) g])
  have c1: "connected st1 sid" by (rule neutral_used_conn [OF D(1) nt D(2)])
  have inv1: "net_inv ((\<lambda>_. 0)(i := 1)) st1" by (rule neutral_inv [OF D(1) nt])
  have s1: "s1 = s'" using I by (simp add: s1_def s(11) session_put_def ser_put_def)
  have infl: "s1 = (nw_sessionArray st ! i)\<lparr>ss_recvBuffer := ss_recvBuffer s1\<rparr>"
    unfolding s1 by (subst (1) s(3)) (use I in simp)
  have "5 \<le> length f" using a by (auto simp: request_frame_def wire_block_def)
  then have n: "Suc n \<le> length (f @ bs) div 5"
  proof -
    have "(5 + length bs) div 5 \<le> length (f @ bs) div 5" using \<open>5 \<le> length f\<close> by (intro div_le_mono) simp
    then show ?thesis by (simp add: n_def)
  qed
  have pl: "pool_ready (2 * Suc n + 1) st"
    using D(7) n unfolding pool_ready_def by (meson Suc_le_mono add_le_mono le_refl le_trans mult_le_mono2)
  then obtain q qs where q: "ps = q # qs" "2 * n + 1 \<le> length qs" "distinct (p # q # qs)"
    unfolding pool_ready_def s(2) by (cases ps) auto
  obtain b0 where b0: "ser_at st q = Some b0" "sz_inv b0" "sz_referenceCounter b0 = 0" "255 \<le> unat (sz_bufferSize b0)"
    using pl unfolding pool_ready_def s(2) q(1) by auto
  have p0: "p \<noteq> 0" using pl unfolding pool_ready_def s(2) by (auto dest: ser_at_nonnull)
  have at: "ser_at st1 r = (if r = p then Some ser else ser_at st r)" for r
    using p0 by (simp add: s(11) ser_at_def ser_put_def session_put_def)
  obtain rk rs where rk: "ls_rand st = rk # rs" "n \<le> length rs" using D(8) n by (cases "ls_rand st") auto
  have db: "db_ready (Suc n) (ls_mysql st)" by (rule db_less [OF D(9) n])
  have app: "ls_rand st1 = ls_rand st" "ls_mysql st1 = ls_mysql st" "ls_stack st1 = ls_stack st" "ls_redis st1 = ls_redis st"
    "ph_supply st1 = ps" "os_answers st1 = os_answers st" "nw_recvMessageTPSArr st1 = arr"
    by (simp_all add: s(11) session_put_def ser_put_def)
  have F: "recv_rep s1 bs" "unat ti < length (nw_recvMessageTPSArr st1)" "ser_at st1 p = Some ser"
    "ph_supply st = p # q # qs" "ph_supply st1 = q # qs" "ls_rand st1 = rk # rs" "db_ready (Suc n) (ls_mysql st1)"
    "ls_stack st1 = ls_stack st0" "os_answers st1 = os_answers st0" "ls_redis st1 = fold store_login es (ls_redis st0)"
    using s(2,4,10) s1 D(5,10-12) app rk db q(1) at [of p] by simp_all
  have il: "ss_inflight s1 = ss_inflight (nw_sessionArray st ! i)" by (subst infl) simp
  have room: "length (ss_inflight s1) + Suc n < 2 ^ 30" unfolding il using D(6) n by linarith
  have qp: "q \<noteq> p" "ser_at st1 q = Some b0" using q(3) b0(1) at [of q] by auto
  have ot: "\<forall>r. r \<noteq> p \<longrightarrow> ser_at st1 r = ser_at st r" using at by simp
  show thesis
    by (rule that [OF inv1 c1 F(1,2) infl room F(3) s(5-9) F(4,5) qp b0(2-4) p0 ot q(2,3) F(6) rk(2) F(7-10)])
qed

lemma release_last:
  assumes "ser_at h p = Some s" "sz_referenceCounter s = 1"
  shows "ser_release h p = Some (serializerFree (ser_put h p (s\<lparr>sz_referenceCounter := 0\<rparr>)) p)"
  using ser_release_Some [OF assms(1)] assms(2) by (simp add: Let_def)

lemma session_put_pool:
  "nw_sessionArray (serializerFree st p) = nw_sessionArray st" "nw_indexStack (serializerFree st p) = nw_indexStack st"
  "ph_supply (serializerFree st p) = ph_supply st" "ls_stack (serializerFree (st' :: loginServer) p) = ls_stack st'"
  "ls_redis (serializerFree (st' :: loginServer) p) = ls_redis st'" "ls_rand (serializerFree (st' :: loginServer) p) = ls_rand st'"
  "ls_mysql (serializerFree (st' :: loginServer) p) = ls_mysql st'"
  "nw_recvMessageTPSArr (serializerFree st p) = nw_recvMessageTPSArr st" "os_answers (serializerFree st p) = os_answers st"
  by (simp_all add: serializerFree_def pool_Free_def)

lemma request_served:
  assumes S: "stream_state ti sid st0 es (f @ bs) st" and a: "request_frame f e"
    and g: "frame_given (unat (GET_INDEX sid)) p f bs st st1"
  shows "\<exists>st2 st3. OnRecv sid p st1 = Some st2 \<and> ser_release st2 p = Some st3 \<and>
    stream_state ti sid st0 (es @ [e]) bs st3"
proof -
  define i where "i = unat (GET_INDEX sid)"
  define n where "n = length bs div 5"
  define s1 where "s1 = nw_sessionArray st1 ! i"
  obtain ser q qs b0 rk rs where
    inv1: "net_inv ((\<lambda>_. 0)(i := 1)) st1" and c1: "connected st1 sid" and rr: "recv_rep s1 bs"
      and tps: "unat ti < length (nw_recvMessageTPSArr st1)"
      and infl: "s1 = (nw_sessionArray st ! i)\<lparr>ss_recvBuffer := ss_recvBuffer s1\<rparr>" and room: "length (ss_inflight s1) + Suc n < 2 ^ 30"
      and p: "ser_at st1 p = Some ser" "sz_inv ser" "sz_ho ser = 0" "sz_to ser = length f" "take (length f) (sz_mem ser) = f"
        "sz_referenceCounter ser = 1"
      and q: "ph_supply st = p # q # qs" "ph_supply st1 = q # qs" "q \<noteq> p" "ser_at st1 q = Some b0" "sz_inv b0"
        "sz_referenceCounter b0 = 0" "255 \<le> unat (sz_bufferSize b0)" "p \<noteq> 0"
      and ot: "\<forall>r. r \<noteq> p \<longrightarrow> ser_at st1 r = ser_at st r" and sup: "2 * n + 1 \<le> length qs" "distinct (p # q # qs)"
      and rk: "ls_rand st1 = rk # rs" "n \<le> length rs" and db: "db_ready (Suc n) (ls_mysql st1)"
      and stk: "ls_stack st1 = ls_stack st0" "os_answers st1 = os_answers st0" "ls_redis st1 = fold store_login es (ls_redis st0)"
    by (rule given_facts [OF S a g, folded i_def, folded n_def s1_def])
  note D = stream_stateD [OF S, folded i_def]
  obtain w rest where w: "length (snd e) = 64" "wire_block w 0x32 (login_request (fst e) (snd e) rest)" "f = sz_data w"
    using a by (auto simp: request_frame_def)
  define d where "d = login_request (fst e) (snd e) rest"
  have len: "length f = 5 + length d" using w(2,3) by (simp add: wire_block_def d_def)
  obtain m res where m: "mysqlConnector_query (ls_mysql st1) (login_query (fst e)) (dbResult_new (\<lambda>ns. ns) [''sessionKey'']) = Some (m, res)"
      "db_ready n m"
    by (rule db_query [OF db])
  let ?v = "q OR 0x4000000000000000"
  let ?s2 = "s1\<lparr>ss_IOcount := ss_IOcount s1 + 1, ss_inflight := Post_io ?v # ss_inflight s1\<rparr>"
  have room': "length (ss_inflight (nw_sessionArray st1 ! unat (GET_INDEX sid))) < 2 ^ 30" using room by (simp add: s1_def i_def)
  have to: "sz_to ser = 5 + length d" using p(4) len by simp
  have tk: "take (5 + length d) (sz_mem ser) = sz_data w" using p(5) w(3) len by simp
  have b: "164 \<le> unat (sz_bufferSize b0)" using q(7) by simp
  obtain ser' resp where o: "OnRecv sid p st1 =
       Some (os_log (session_put (ser_put (ser_put
                (st1\<lparr>ph_supply := qs, ls_rand := rs, ls_mysql := m,
                    ls_redis := redisConnector_set (ls_redis st1) (to_string (fst e)) (snd e) 1\<rparr>) p ser') q resp) i ?s2)
             (PostStatus (of_nat i) ?v))"
    and resp: "wire_block resp 0x32 (response_payload (fst e) (map (ls_stack st1) [0..<20]))"
      "sz_referenceCounter resp = 1" "sz_referenceCounter ser' = sz_referenceCounter ser"
    using OnRecv_login [OF inv1 c1 p(1-3) to d_def w(1) w(2) [folded d_def] tk m(1) q(2-6) b rk(1) room']
    unfolding i_def [symmetric] s1_def [symmetric] by blast
  define st2 where "st2 = os_log (session_put (ser_put (ser_put
                (st1\<lparr>ph_supply := qs, ls_rand := rs, ls_mysql := m,
                    ls_redis := redisConnector_set (ls_redis st1) (to_string (fst e)) (snd e) 1\<rparr>) p ser') q resp) i ?s2)
             (PostStatus (of_nat i) ?v)"
  note o = o [folded st2_def]
  define st3 where "st3 = serializerFree (ser_put st2 p (ser'\<lparr>sz_referenceCounter := 0\<rparr>)) p"
  have q0: "q \<noteq> 0" by (rule ser_at_nonnull [OF q(4)])
  have at2: "ser_at st2 r = (if r = q then Some resp else if r = p then Some ser' else ser_at st1 r)" for r
    using q(3,8) q0 by (simp add: st2_def ser_at_def ser_put_def session_put_def os_log_def)
  have rel: "ser_release st2 p = Some st3"
    unfolding st3_def by (rule release_last) (use at2 [of p] q(3) resp(3) p(6) in simp_all)
  have at3: "ser_at st3 r = (if r = q then Some resp else if r = p then Some (ser'\<lparr>sz_referenceCounter := 0\<rparr>) else ser_at st1 r)" for r
    using q(3) by (simp only: st3_def ser_at_pool ser_at_put [OF q(8)] at2) simp
  have used1: "slot_used st1 sid" by (rule connected_used [OF inv1 c1])
  have nt: "neutral st1 st2" by (rule OnRecv_neutral [OF inv1 used1 o])
  have nt3: "neutral st1 st3"
    by (rule neutral_trans [OF nt neutral_same_array]) (simp_all add: st3_def session_put_pool ser_put_def)
  have inv3: "net_inv ((\<lambda>_. 0)(i := 1)) st3" by (rule neutral_inv [OF inv1 nt3])
  have c3: "connected st3 sid" by (rule neutral_used_conn [OF inv1 nt3 c1])
  have i1: "i < length (nw_sessionArray st1)" using connected_slot [OF c1] by (simp add: i_def)
  have s3: "nw_sessionArray st3 ! i = ?s2"
    using i1 by (simp add: st3_def st2_def session_put_pool ser_put_def session_put_def os_log_def)
  have app3: "nw_recvMessageTPSArr st3 = nw_recvMessageTPSArr st1" "ph_supply st3 = qs" "ls_rand st3 = rs" "ls_mysql st3 = m"
    "ls_stack st3 = ls_stack st0" "os_answers st3 = os_answers st0" "ls_redis st3 = redisConnector_set (ls_redis st1) (to_string (fst e)) (snd e) 1"
    using stk(1,2) by (simp_all add: st3_def st2_def session_put_pool ser_put_def session_put_def os_log_def)
  define s0 where "s0 = nw_sessionArray st0 ! i"
  define s where "s = nw_sessionArray st ! i"
  obtain ps where ps: "s = s0\<lparr>ss_recvBuffer := ss_recvBuffer s, ss_IOcount := ss_IOcount s0 + of_nat (length es),
        ss_inflight := posted ps @ ss_inflight s0\<rparr>"
      "list_all2 (answers (ls_stack st0) st) ps es" "set ps \<inter> set (ph_supply st) = {}" "distinct ps"
    using D(13) unfolding s0_def s_def by blast
  have keep: "answers (ls_stack st0) st3 r x" if "answers (ls_stack st0) st r x" "r \<in> set ps" for r x
  proof -
    have "r \<noteq> p" "r \<noteq> q" using ps(3) that(2) q(1) by auto
    then have "ser_at st3 r = ser_at st r" by (simp add: at3 ot)
    then show ?thesis using that(1) by (simp add: answers_def)
  qed
  have "answers (ls_stack st0) st3 q e" using resp(1,2) stk(1) by (simp add: answers_def at3)
  moreover have "list_all2 (answers (ls_stack st0) st3) ps es"
    using ps(2) by (rule list.rel_mono_strong) (use keep in auto)
  ultimately have posts: "list_all2 (answers (ls_stack st0) st3) (ps @ [q]) (es @ [e])" by (simp add: list_all2_appendI)
  have sets: "set (ps @ [q]) \<inter> set qs = {}" "distinct (ps @ [q])" using ps(3,4) q(1) sup(2) by auto
  have s3': "?s2 = s0\<lparr>ss_recvBuffer := ss_recvBuffer ?s2, ss_IOcount := ss_IOcount s0 + of_nat (length (es @ [e])),
      ss_inflight := posted (ps @ [q]) @ ss_inflight s0\<rparr>"
  proof -
    have e1: "s1 = s0\<lparr>ss_recvBuffer := ss_recvBuffer s1, ss_IOcount := ss_IOcount s0 + of_nat (length es),
        ss_inflight := posted ps @ ss_inflight s0\<rparr>"
      using infl arg_cong [OF ps(1), of "\<lambda>x. x\<lparr>ss_recvBuffer := ss_recvBuffer s1\<rparr>"] by (cases s0) (simp add: s_def)
    have "ss_IOcount s1 = ss_IOcount s0 + of_nat (length es)" "ss_inflight s1 = posted ps @ ss_inflight s0"
        "s1\<lparr>ss_IOcount := n, ss_inflight := l\<rparr> = s0\<lparr>ss_recvBuffer := ss_recvBuffer s1, ss_IOcount := n, ss_inflight := l\<rparr>" for n l
      by (subst e1, simp)+
    then show ?thesis by (simp add: posted_def add.assoc)
  qed
  have pool3: "pool_ready (2 * n + 1) st3"
    unfolding pool_ready_def app3(2)
  proof (intro conjI ballI)
    fix r assume r: "r \<in> set qs"
    then have "r \<noteq> p" "r \<noteq> q" using sup(2) by auto
    then have "ser_at st3 r = ser_at st r" by (simp add: at3 ot)
    then show "\<exists>ser. ser_at st3 r = Some ser \<and> sz_inv ser \<and> 255 \<le> unat (sz_bufferSize ser) \<and> sz_referenceCounter ser = 0"
      using D(7) r q(1) by (simp add: pool_ready_def)
  qed (use sup in auto)
  have "stream_state ti sid st0 (es @ [e]) bs st3"
    unfolding stream_state_def Let_def i_def [symmetric] s0_def [symmetric] s3 n_def [symmetric] app3
  proof (intro conjI)
    show "recv_rep ?s2 bs" using rr by simp
    show "length (ss_inflight ?s2) + n < 2 ^ 30" using room by simp
    show "redisConnector_set (ls_redis st1) (to_string (fst e)) (snd e) 1 = fold store_login (es @ [e]) (ls_redis st0)"
      by (simp add: stk store_login_def)
    show "\<exists>qs'. ?s2 = s0\<lparr>ss_recvBuffer := ss_recvBuffer ?s2, ss_IOcount := ss_IOcount s0 + of_nat (length (es @ [e])),
                   ss_inflight := posted qs' @ ss_inflight s0\<rparr> \<and>
        list_all2 (answers (ls_stack st0) st3) qs' (es @ [e]) \<and> set qs' \<inter> set qs = {} \<and> distinct qs'"
      by (intro exI [of _ "ps @ [q]"] conjI) (rule s3', rule posts, rule sets, rule sets)
  qed (fact inv3 c3 D(4) tps pool3 rk(2) m(2) refl)+
  then show ?thesis using o rel by blast
qed

section \<open>The login server as a receiver of frames\<close>

lemma stream_frame_state:
  assumes "stream_state ti sid st0 es bs st"
  shows "frame_state ti (unat (GET_INDEX sid)) bs st \<and> (\<exists>s. session_at st (unat (GET_INDEX sid)) = Some s \<and> ss_ID s = sid)"
proof -
  note D = stream_stateD [OF assms]
  have c: "session_at st (unat (GET_INDEX sid)) = Some (nw_sessionArray st ! unat (GET_INDEX sid))"
    using connected_slot [OF D(2)] by (simp add: session_atI)
  obtain p ps where p: "ph_supply st = p # ps" using D(7) by (cases "ph_supply st") (auto simp: pool_ready_def)
  then obtain ser where "ser_at st p = Some ser" "sz_inv ser" "255 \<le> unat (sz_bufferSize ser)" "sz_referenceCounter ser = 0"
    using D(7) by (auto simp: pool_ready_def)
  then show ?thesis using c p D(3-5) connected_slot [OF D(2)] by (auto simp: frame_state_def)
qed

interpretation login_stream: frame_receiver login_callbacks ti "unat (GET_INDEX sid)" sid "stream_state ti sid st0" request_frame
  "\<lambda>e es. es @ [e]" for ti sid st0
proof unfold_locales
  fix x bs st f e p st1
  show "stream_state ti sid st0 x bs st \<Longrightarrow>
    frame_state ti (unat (GET_INDEX sid)) bs st \<and> (\<exists>s. session_at st (unat (GET_INDEX sid)) = Some s \<and> ss_ID s = sid)"
    by (rule stream_frame_state)
  show "stream_state ti sid st0 x (f @ bs) st \<Longrightarrow> request_frame f e \<Longrightarrow> frame_given (unat (GET_INDEX sid)) p f bs st st1 \<Longrightarrow>
    \<exists>st2 st3. cb_OnRecv login_callbacks sid p st1 = Some st2 \<and> ser_release st2 p = Some st3 \<and>
      stream_state ti sid st0 (x @ [e]) bs st3"
    using request_served by (simp add: login_callbacks_def)
qed

lemma fold_snoc: "fold (\<lambda>e es. es @ [e]) es xs = xs @ es"
  by (induction es arbitrary: xs) simp_all

text \<open>The state with which the loop begins.\<close>

lemma supply_put: "ph_supply (session_put st i s) = ph_supply st"
  by (simp add: session_put_def)

lemma stream_begin:
  assumes inv: "net_inv (\<lambda>_. 0) st" and c: "connected st sid" and i: "i = unat (GET_INDEX sid)" and s: "s = nw_sessionArray st ! i"
    and rc: "Recv_io \<in> set (ss_inflight s)" and s2: "s2 = s\<lparr>ss_recvBuffer := ss_recvBuffer s2, ss_inflight := remove1 Recv_io (ss_inflight s)\<rparr>"
    and rr: "recv_rep s2 cs" and ti: "0 \<le> sint ti" "unat ti < length (nw_recvMessageTPSArr st)"
    and n: "n = length cs div 5" "length (ss_inflight s) + n < 2 ^ 30" "pool_ready (2 * n + 1) st" "n \<le> length (ls_rand st)"
      "db_ready n (ls_mysql st)"
  shows "stream_state ti sid (session_put st i s2) [] cs (session_put st i s2)"
proof -
  note C = connected_slot [OF c, folded i]
  obtain lr ls where pr: "slot_prof i 0 lr ls s"
    using net_inv_slot(2) [OF inv, of i] C by (auto simp: slot_active_def s)
  have f: "ss_IOcount s2 = ss_IOcount s" "ss_inflight s2 = remove1 Recv_io (ss_inflight s)" "ss_sendFlag s2 = ss_sendFlag s" "ss_ID s2 = ss_ID s"
    by (subst s2, simp)+
  have l: "length (remove1 Recv_io (ss_inflight s)) = length (ss_inflight s) - 1" "0 < length (ss_inflight s)"
    using rc by (auto simp: length_remove1)
  have "slot_prof i 1 lr ls s2"
    using pr l by (auto simp: slot_prof_def f count_list_remove1)
  then have inv2: "net_inv ((\<lambda>_. 0)(i := 1)) (session_put st i s2)"
    using C by (intro net_inv_put [OF inv]) (auto simp: slot_active_def)
  have at2: "nw_sessionArray (session_put st i s2) ! i = s2" using C by (simp add: session_put_def)
  have c2: "connected (session_put st i s2) sid" using C f(4) by (simp add: connected_def i [symmetric] at2 s)
  show ?thesis
    unfolding stream_state_def Let_def i [symmetric] at2 n(1) [symmetric]
  proof (intro conjI)
    show "length (ss_inflight s2) + n < 2 ^ 30" using n(2) l by (simp add: f)
    show "pool_ready (2 * n + 1) (session_put st i s2)" using n(3) by (simp add: pool_ready_def supply_put)
    show "\<exists>qs. s2 = s2\<lparr>ss_recvBuffer := ss_recvBuffer s2, ss_IOcount := ss_IOcount s2 + of_nat (length []), ss_inflight := posted qs @ ss_inflight s2\<rparr> \<and>
      list_all2 (answers (ls_stack (session_put st i s2)) (session_put st i s2)) qs [] \<and>
      set qs \<inter> set (ph_supply (session_put st i s2)) = {} \<and> distinct qs"
      by (intro exI [of _ "[]"]) (simp add: posted_def)
  qed (use inv2 c2 rr ti n in \<open>simp_all add: session_put_def\<close>)
qed

text \<open>After the loop the receive is started again, and the reference of the completion returned.\<close>

lemma rearm:
  assumes at: "session_at st i = Some s" and c: "1 \<le> unat (ss_IOcount s)" "unat (ss_IOcount s) < 2 ^ 32 - 1"
    and n: "\<not> hasCancelIOFlag s" "os_answers st = a # as" "a = 0 \<or> a = WSA_IO_PENDING" "length (ss_inflight s) < 2 ^ 30"
  shows "do { st3 \<leftarrow> net_recvIO od i st; st4 \<leftarrow> session_release od i st3; Some (st4, True) } =
    Some (session_put (os_log (st\<lparr>os_answers := as\<rparr>) (WSARecv (ss_socket s) (recvIO_buffers (ss_recvBuffer s)))) i
      (s\<lparr>ss_inflight := Recv_io # ss_inflight s\<rparr>), True)"
proof -
  let ?s1 = "s\<lparr>ss_IOcount := ss_IOcount s + 1, ss_inflight := Recv_io # ss_inflight s\<rparr>"
  let ?st1 = "os_log (st\<lparr>os_answers := as\<rparr>) (WSARecv (ss_socket s) (recvIO_buffers (ss_recvBuffer s)))"
  have i: "i < length (nw_sessionArray st)" using session_atD [OF at] by simp
  have r: "net_recvIO od i st = Some (session_put ?st1 i ?s1)"
    using at recvIO_spec [OF n(1,2,4)] n(3) by (simp add: net_recvIO_def)
  have "unat (ss_IOcount ?s1) = unat (ss_IOcount s) + 1" using c(2) by (simp add: unat_word_ariths)
  then have "session_release od i (session_put ?st1 i ?s1) = Some (session_put ?st1 i (?s1\<lparr>ss_IOcount := ss_IOcount s\<rparr>))"
    using release_put [of i ?st1 ?s1 od] i c(1) by simp
  moreover have "?s1\<lparr>ss_IOcount := ss_IOcount s\<rparr> = s\<lparr>ss_inflight := Recv_io # ss_inflight s\<rparr>" by (cases s) simp
  ultimately show ?thesis using r by simp
qed

lemma login_batch:
  assumes inv: "net_inv (\<lambda>_. 0) st" and c: "connected st sid" and i: "i = unat (GET_INDEX sid)" and s: "s = nw_sessionArray st ! i"
    and rc: "Recv_io \<in> set (ss_inflight s)" "ss_recvOverlapped s \<noteq> ss_sendOverlapped s" "recv_rep s bs"
    and d: "data \<noteq> []" "length bs + length data < 255"
    and fr: "parse_frames (bs @ data) = Some (fs, r)" "list_all2 request_frame fs es"
    and ti: "0 \<le> sint ti" "unat ti < length (nw_recvMessageTPSArr st)"
    and n: "n = length (bs @ data) div 5" "length (ss_inflight s) + n < 2 ^ 30" "pool_ready (2 * n + 1) st" "n \<le> length (ls_rand st)"
      "db_ready n (ls_mysql st)"
    and a: "\<not> hasCancelIOFlag s" "os_answers st = a # as" "a = 0 \<or> a = WSA_IO_PENDING"
  obtains st' s' qs where
    "do { st1 \<leftarrow> iocp_deliver i (ss_recvOverlapped s) data st;
          worker_step login_callbacks ti True (of_nat (length data)) (Some i) (ss_recvOverlapped s) st1 } = Some (st', True)"
    "session_at st' i = Some s'" "recv_rep s' r"
    "s' = s\<lparr>ss_recvBuffer := ss_recvBuffer s', ss_IOcount := ss_IOcount s + of_nat (length es),
            ss_inflight := Recv_io # posted qs @ remove1 Recv_io (ss_inflight s)\<rparr>"
    "list_all2 (answers (ls_stack st) st') qs es" "distinct qs" "ls_redis st' = fold store_login es (ls_redis st)" "connected st' sid"
proof -
  note C = connected_slot [OF c, folded i]
  have at: "session_at st i = Some s" using C by (simp add: session_atI s)
  obtain s2 where w: "do { st1 \<leftarrow> iocp_deliver i (ss_recvOverlapped s) data st;
          worker_step login_callbacks ti True (of_nat (length data)) (Some i) (ss_recvOverlapped s) st1 } =
     do { st2 \<leftarrow> recv_loop login_callbacks ti i (session_put st i s2);
          st3 \<leftarrow> net_recvIO (cb_OnDisconnect login_callbacks) i st2;
          st4 \<leftarrow> session_release (cb_OnDisconnect login_callbacks) i st3;
          Some (st4, True) }"
    and s2: "recv_rep s2 (bs @ data)" "s2 = s\<lparr>ss_recvBuffer := ss_recvBuffer s2, ss_inflight := remove1 Recv_io (ss_inflight s)\<rparr>"
    by (rule recv_completion [OF at rc(3,2) d])
  let ?st0 = "session_put st i s2"
  have at0: "nw_sessionArray ?st0 ! i = s2" using C by (simp add: session_put_def)
  have st0: "ls_stack ?st0 = ls_stack st" "ls_redis ?st0 = ls_redis st" "os_answers ?st0 = os_answers st" by (simp_all add: session_put_def)
  have "stream_state ti sid ?st0 [] (bs @ data) ?st0"
    by (rule stream_begin [OF inv c i s rc(1) s2(2,1) ti n])
  from login_stream.all_frames [OF this fr]
  obtain st1 st2 where l: "recv_loop login_callbacks ti i ?st0 = Some st2" "stream_state ti sid ?st0 es r st1" "loop_end st1 st2"
    unfolding i [symmetric] fold_snoc by auto
  note D = stream_stateD [OF l(2), folded i, unfolded at0 st0]
  obtain p ps ser where e: "ph_supply st1 = p # ps" "ser_at st1 p = Some ser"
      "st2 = serializerFree (ser_put (st1\<lparr>ph_supply := ps\<rparr>) p ((recv_block ser)\<lparr>sz_referenceCounter := 0\<rparr>)) p"
    using l(3) unfolding loop_end_def by blast
  define s1 where "s1 = nw_sessionArray st1 ! i"
  obtain qs where qs: "s1 = s2\<lparr>ss_recvBuffer := ss_recvBuffer s1, ss_IOcount := ss_IOcount s2 + of_nat (length es),
        ss_inflight := posted qs @ ss_inflight s2\<rparr>"
      "list_all2 (answers (ls_stack st) st1) qs es" "set qs \<inter> set (ph_supply st1) = {}" "distinct qs"
    using D(13) unfolding s1_def by blast
  have same: "nw_sessionArray st2 = nw_sessionArray st1" "os_answers st2 = os_answers st1" "ls_stack st2 = ls_stack st1"
    "ls_redis st2 = ls_redis st1" "nw_indexStack st2 = nw_indexStack st1"
    by (simp_all add: e(3) session_put_pool ser_put_def)
  have f1: "ss_IOcount s1 = ss_IOcount s + of_nat (length es)" "ss_inflight s1 = posted qs @ remove1 Recv_io (ss_inflight s)"
    "ss_socket s1 = ss_socket s" "ss_cancelIOFlag s1 = ss_cancelIOFlag s"
    by (subst qs(1), subst s2(2), simp)+
  have c1: "i < length (nw_sessionArray st1) \<and> \<not> on_stack st1 i" using connected_slot [OF D(2)] by (simp add: i)
  have at2: "session_at st2 i = Some s1" using c1 by (simp add: session_at_def same s1_def)
  obtain lr ls where "slot_prof i 1 lr ls s1"
    using net_inv_slot(2) [OF D(1), of i] c1 by (auto simp: slot_active_def s1_def)
  then have "slot_active i 1 s1" by (auto simp: slot_active_def)
  from slot_active_count [OF this] have cnt: "1 \<le> unat (ss_IOcount s1)" "unat (ss_IOcount s1) < 2 ^ 32 - 1" by simp_all
  let ?s' = "s1\<lparr>ss_inflight := Recv_io # ss_inflight s1\<rparr>"
  let ?st' = "session_put (os_log (st2\<lparr>os_answers := as\<rparr>) (WSARecv (ss_socket s1) (recvIO_buffers (ss_recvBuffer s1)))) i ?s'"
  have "do { st3 \<leftarrow> net_recvIO (cb_OnDisconnect login_callbacks) i st2;
             st4 \<leftarrow> session_release (cb_OnDisconnect login_callbacks) i st3; Some (st4, True) } = Some (?st', True)"
    by (rule rearm [OF at2 cnt _ _ a(3)]) (use a f1 same D(6,11) in \<open>simp_all add: hasCancelIOFlag_def s1_def\<close>)
  then have run: "do { st1 \<leftarrow> iocp_deliver i (ss_recvOverlapped s) data st;
          worker_step login_callbacks ti True (of_nat (length data)) (Some i) (ss_recvOverlapped s) st1 } = Some (?st', True)"
    using w l(1) by simp
  have fin: "session_at ?st' i = Some ?s'" using c1 by (simp add: same)
  have rr: "recv_rep ?s' r" using D(3) by (simp add: s1_def)
  have se: "?s' = s\<lparr>ss_recvBuffer := ss_recvBuffer ?s', ss_IOcount := ss_IOcount s + of_nat (length es),
      ss_inflight := Recv_io # posted qs @ remove1 Recv_io (ss_inflight s)\<rparr>"
  proof -
    have e2: "s2\<lparr>ss_recvBuffer := b, ss_IOcount := k, ss_inflight := l\<rparr> = s\<lparr>ss_recvBuffer := b, ss_IOcount := k, ss_inflight := l\<rparr>" for b k l
      by (subst s2(2)) simp
    have "ss_IOcount s2 = ss_IOcount s" by (subst s2(2)) simp
    then have "s1 = s\<lparr>ss_recvBuffer := ss_recvBuffer s1, ss_IOcount := ss_IOcount s + of_nat (length es), ss_inflight := posted qs @ ss_inflight s2\<rparr>"
      using qs(1) by (simp add: e2)
    from arg_cong [OF this, of "\<lambda>x. x\<lparr>ss_inflight := Recv_io # ss_inflight s1\<rparr>"] show ?thesis by (simp add: f1(2))
  qed
  have keep: "answers stack ?st' q x" if "answers stack st1 q x" "q \<in> set qs" for stack q x
  proof -
    have "q \<noteq> p" using qs(3) that(2) e(1) by auto
    then have "ser_at ?st' q = ser_at st1 q"
      by (simp add: e(3) ser_at_def ser_put_def session_put_def os_log_def serializerFree_def pool_Free_def)
    then show ?thesis using that(1) by (simp add: answers_def)
  qed
  have ans: "list_all2 (answers (ls_stack st) ?st') qs es"
    using qs(2) by (rule list.rel_mono_strong) (use keep in auto)
  have rd: "ls_redis ?st' = fold store_login es (ls_redis st)" using D(12) by (simp add: same session_put_def os_log_def)
  have "ss_ID s1 = sid" using connected_slot [OF D(2)] by (simp add: i s1_def)
  then have "connected ?st' sid"
    using c1 by (simp add: connected_def i [symmetric] session_put_def on_stack_def same os_log_def)
  then show thesis by (rule that [OF run fin rr se ans qs(4) rd])
qed

end
