(* ===== verification/Login_Timeout.thy ===== *)
theory Login_Timeout
  imports Login_Lifecycle
begin

text \<open>
  The timeout thread of the login server: one pass over the table cancels the I/O of exactly those connections whose
  last tick is too long ago, and changes nothing else of the sessions.
\<close>

definition timed_out :: "loginServer \<Rightarrow> u64 \<Rightarrow> u64 \<Rightarrow> bool" where
  "timed_out st tick c \<longleftrightarrow> (\<exists>d. ls_conns st c = Some d \<and> ls_timeoutThreshold st < tick - cd_timeOutTick d)"

definition expired_slot :: "loginServer \<Rightarrow> u64 \<Rightarrow> (u64 \<times> u64) list \<Rightarrow> nat \<Rightarrow> bool" where
  "expired_slot st tick cs i \<longleftrightarrow> (\<exists>(sid, c) \<in> set cs. unat (GET_INDEX sid) = i \<and> timed_out st tick c)"

lemma cancel_twice: "s\<lparr>ss_cancelIOFlag := 1\<rparr>\<lparr>ss_cancelIOFlag := 1\<rparr> = s\<lparr>ss_cancelIOFlag := 1\<rparr>"
  by simp

lemma sweep_spec:
  assumes "net_inv refs st" "\<forall>(sid, c) \<in> set cs. connected st sid \<and> ls_conns st c \<noteq> None"
  shows "\<exists>st'. update_sweep cs tick st = Some st' \<and> nw_indexStack st' = nw_indexStack st \<and>
    length (nw_sessionArray st') = length (nw_sessionArray st) \<and> ls_connectionMap st' = ls_connectionMap st \<and>
    (\<forall>i < length (nw_sessionArray st). nw_sessionArray st' ! i =
       (if expired_slot st tick cs i then (nw_sessionArray st ! i)\<lparr>ss_cancelIOFlag := 1\<rparr> else nw_sessionArray st ! i))"
  using assms
proof (induction cs arbitrary: st)
  case Nil
  show ?case by (simp add: expired_slot_def)
next
  case (Cons x cs)
  obtain sid c where x: "x = (sid, c)" by (cases x)
  let ?i = "unat (GET_INDEX sid)"
  have c: "connected st sid" and d: "\<exists>d. ls_conns st c = Some d" using Cons.prems(2) by (auto simp: x)
  obtain d where d: "ls_conns st c = Some d" using d by blast
  have rest: "\<forall>(sid, c) \<in> set cs. connected st sid \<and> ls_conns st c \<noteq> None" using Cons.prems(2) by (auto simp: x)
  have ex: "expired_slot st tick (x # cs) i \<longleftrightarrow> (?i = i \<and> timed_out st tick c) \<or> expired_slot st tick cs i" for i
    by (auto simp: expired_slot_def x)
  have t: "timed_out st tick c \<longleftrightarrow> ls_timeoutThreshold st < tick - cd_timeOutTick d" by (simp add: timed_out_def d)
  show ?case
  proof (cases "timed_out st tick c")
    case False
    obtain st' where "update_sweep cs tick st = Some st'" "nw_indexStack st' = nw_indexStack st"
        "length (nw_sessionArray st') = length (nw_sessionArray st)" "ls_connectionMap st' = ls_connectionMap st"
        "\<forall>i < length (nw_sessionArray st). nw_sessionArray st' ! i =
          (if expired_slot st tick cs i then (nw_sessionArray st ! i)\<lparr>ss_cancelIOFlag := 1\<rparr> else nw_sessionArray st ! i)"
      using Cons.IH [OF Cons.prems(1) rest] by blast
    then show ?thesis using False d t by (auto simp: x ex [unfolded x])
  next
    case True
    let ?s = "nw_sessionArray st ! ?i"
    let ?st1 = "os_log (os_log (session_put st ?i (?s\<lparr>ss_cancelIOFlag := 1\<rparr>)) (CancelIoEx (ss_socket ?s) Recv_io)) (CancelIoEx (ss_socket ?s) Send_io)"
    have used: "slot_used st sid" by (rule connected_used [OF Cons.prems(1) c])
    have dr: "disconnectReq od sid st = Some ?st1" for od using disconnectReq_spec [OF Cons.prems(1) used, of od] c by simp
    have nt: "neutral st ?st1" by (rule disconnectReq_neutral [OF Cons.prems(1) used dr])
    have inv1: "net_inv refs ?st1" by (rule neutral_inv [OF Cons.prems(1) nt])
    have cn: "connected ?st1 k" if "connected st k" for k by (rule neutral_used_conn [OF Cons.prems(1) nt that])
    have app: "ls_conns ?st1 = ls_conns st" "ls_timeoutThreshold ?st1 = ls_timeoutThreshold st" "ls_connectionMap ?st1 = ls_connectionMap st"
      "nw_indexStack ?st1 = nw_indexStack st"
      by (simp_all add: session_put_def os_log_def)
    have rest1: "\<forall>(sid, c) \<in> set cs. connected ?st1 sid \<and> ls_conns ?st1 c \<noteq> None" using rest cn app(1) by auto
    have ex1: "expired_slot ?st1 tick cs = expired_slot st tick cs" by (simp add: expired_slot_def timed_out_def app fun_eq_iff)
    obtain st' where st': "update_sweep cs tick ?st1 = Some st'" "nw_indexStack st' = nw_indexStack ?st1"
        "length (nw_sessionArray st') = length (nw_sessionArray ?st1)" "ls_connectionMap st' = ls_connectionMap ?st1"
        "\<forall>i < length (nw_sessionArray ?st1). nw_sessionArray st' ! i =
          (if expired_slot ?st1 tick cs i then (nw_sessionArray ?st1 ! i)\<lparr>ss_cancelIOFlag := 1\<rparr> else nw_sessionArray ?st1 ! i)"
      using Cons.IH [OF inv1 rest1] by blast
    have arr: "nw_sessionArray ?st1 ! i = (if i = ?i then ?s\<lparr>ss_cancelIOFlag := 1\<rparr> else nw_sessionArray st ! i)"
      if "i < length (nw_sessionArray st)" for i
      using that by (simp add: session_put_def os_log_def)
    have len: "length (nw_sessionArray ?st1) = length (nw_sessionArray st)" by simp
    have "update_sweep (x # cs) tick st = Some st'" using d t True dr st'(1) by (simp add: x)
    moreover have "nw_sessionArray st' ! i =
       (if expired_slot st tick (x # cs) i then (nw_sessionArray st ! i)\<lparr>ss_cancelIOFlag := 1\<rparr> else nw_sessionArray st ! i)"
      if "i < length (nw_sessionArray st)" for i
      using st'(5) that len arr [OF that] ex1 ex [of i] True by auto
    ultimately show ?thesis using st'(2-4) len app by auto
  qed
qed

end
