(* ===== verification/Login_Table.thy ===== *)
theory Login_Table
  imports Login_Timeout
begin

text \<open>
  The table of connections and the sessions of the network core say the same in every state that the server can
  reach: there is an entry, and one only, for exactly the sessions that are connected. The relation \<open>tab\<close> says what every
  operation does to both at once: it drops the entries of the sessions that it deletes.
\<close>

section \<open>Sessions and table together\<close>

definition slot_ids :: "loginServer \<Rightarrow> u64 list" where
  "slot_ids st = map ss_ID (nw_sessionArray st)"

definition slot_of :: "u64 \<Rightarrow> nat" where
  "slot_of sid = unat (GET_INDEX sid)"

text \<open>\<open>R\<close> are the identifiers of the sessions that were deleted.\<close>

definition tab_by :: "u64 set \<Rightarrow> loginServer \<Rightarrow> loginServer \<Rightarrow> bool" where
  "tab_by R st st' \<longleftrightarrow> slot_ids st' = slot_ids st \<and> ls_conns st' = ls_conns st \<and>
     ls_connectionMap st' = filter (\<lambda>e. fst e \<notin> R) (ls_connectionMap st) \<and>
     (\<forall>i. on_stack st' i \<longleftrightarrow> on_stack st i \<or> i \<in> slot_of ` R) \<and>
     (\<forall>r \<in> R. slot_of r < length (slot_ids st) \<and> slot_ids st ! slot_of r = r)"

definition tab :: "loginServer \<Rightarrow> loginServer \<Rightarrow> bool" where
  "tab st st' \<longleftrightarrow> (\<exists>R. tab_by R st st')"

text \<open>The slot has an identifier of its own index; this is so from the first connection on.\<close>

definition own_id :: "loginServer \<Rightarrow> nat \<Rightarrow> bool" where
  "own_id st i \<longleftrightarrow> i < length (slot_ids st) \<and> slot_of (slot_ids st ! i) = i"

lemma tab_none:
  assumes "slot_ids st' = slot_ids st" "ls_conns st' = ls_conns st" "ls_connectionMap st' = ls_connectionMap st"
    "nw_indexStack st' = nw_indexStack st"
  shows "tab st st'"
  unfolding tab_def by (rule exI [of _ "{}"]) (use assms in \<open>simp add: tab_by_def on_stack_def\<close>)

lemma tab_refl: "tab st st"
  by (rule tab_none) simp_all

lemma tab_trans [trans]:
  assumes "tab st st'" "tab st' st''"
  shows "tab st st''"
proof -
  obtain R S where "tab_by R st st'" "tab_by S st' st''" using assms by (auto simp: tab_def)
  then have "tab_by (R \<union> S) st st''" by (auto simp: tab_by_def image_Un intro!: filter_cong)
  then show ?thesis unfolding tab_def by blast
qed

lemma tab_ids: "tab st st' \<Longrightarrow> slot_ids st' = slot_ids st"
  by (auto simp: tab_def tab_by_def)

lemma tab_own: "tab st st' \<Longrightarrow> own_id st' i = own_id st i"
  by (simp add: own_id_def tab_ids)

lemma tab_os: "os.more st' = os.more st \<Longrightarrow> tab st st'"
  by (rule tab_none) (cases st, cases st', simp add: slot_ids_def)+

lemma tab_more: "pheap.more st' = pheap.more st \<Longrightarrow> tab st st'"
  by (rule tab_os) (cases st, cases st', simp)

lemma tab_put:
  assumes "ss_ID s = slot_ids st ! i"
  shows "tab st (session_put st i s)"
proof (rule tab_none)
  show "slot_ids (session_put st i s) = slot_ids st"
    using assms by (cases "i < length (nw_sessionArray st)") (simp_all add: slot_ids_def session_put_def map_update list_update_same_conv)
qed (simp_all add: session_put_def)

lemma id_at: "session_at st i = Some s \<Longrightarrow> ss_ID s = slot_ids st ! i \<and> i < length (slot_ids st)"
  by (auto simp: session_at_def slot_ids_def split: if_splits)

section \<open>What each operation does\<close>

lemma deleteSession_tab:
  assumes "deleteSession OnDisconnect i st = Some st'" "own_id st i"
  shows "tab st st'"
proof -
  obtain s where s: "session_at st i = Some s" using assms(1) by (auto simp: deleteSession_def split: bind_splits)
  note id = id_at [OF s]
  let ?s1 = "s\<lparr>ss_IOcount := fst (cas (ss_IOcount s) 0x80000000 0)\<rparr>"
  show ?thesis
  proof (cases "snd (cas (ss_IOcount s) 0x80000000 0) = 0")
    case False
    then have "st' = session_put st i ?s1" using assms(1) s by (simp add: deleteSession_def Let_def)
    then show ?thesis using id by (simp add: tab_put)
  next
    case True
    obtain s2 st2 where c: "bufferClear ?s1 (os_log st (CloseSocket (ss_socket s))) = Some (s2, st2)"
      and st': "OnDisconnect (ss_ID s) ((session_put st2 i s2)\<lparr>nw_indexStack := ucast (ss_ID s) # nw_indexStack st2\<rparr>) = Some st'"
      using assms(1) s True by (auto simp: deleteSession_def Let_def session_put_def split: bind_splits)
    note F = bufferClear_frame [OF c]
    have t2: "tab st st2" by (rule tab_trans [OF tab_os tab_more [OF F(1)]]) (simp add: os_log_def)
    have "ss_ID s2 = ss_ID s" by (subst F(2)) simp
    then have t3: "tab st2 (session_put st2 i s2)" using id tab_ids [OF t2] by (intro tab_put) simp
    have sl: "slot_of (ss_ID s) = i" using assms(2) id by (simp add: own_id_def)
    have "tab_by {ss_ID s} (session_put st2 i s2) st'"
      using st' id sl tab_ids [OF tab_trans [OF t2 t3]]
      by (auto simp: OnDisconnect_def tab_by_def slot_ids_def on_stack_def slot_of_def GET_INDEX_def AList.delete_eq
          session_put_def case_prod_unfold intro!: filter_cong)
    then have "tab (session_put st2 i s2) st'" unfolding tab_def by blast
    then show ?thesis using t2 t3 by (meson tab_trans)
  qed
qed

lemma session_release_tab:
  assumes "session_release OnDisconnect i st = Some st'" "own_id st i"
  shows "tab st st'"
proof -
  obtain s where s: "session_at st i = Some s" using assms(1) by (auto simp: session_release_def split: bind_splits)
  have "ss_ID (fst (decrementIO s)) = ss_ID s" by (simp add: decrementIO_def Let_def)
  then have t: "tab st (session_put st i (fst (decrementIO s)))" using id_at [OF s] by (intro tab_put) simp
  show ?thesis
  proof (cases "snd (decrementIO s) = 0")
    case True
    then have "deleteSession OnDisconnect i (session_put st i (fst (decrementIO s))) = Some st'"
      using assms(1) s by (simp add: session_release_def case_prod_unfold Let_def)
    then show ?thesis using deleteSession_tab tab_own [OF t] assms(2) t tab_trans by blast
  next
    case False
    then show ?thesis using assms(1) s t by (simp add: session_release_def case_prod_unfold Let_def)
  qed
qed

lemma findSession_tab:
  assumes "findSession OnDisconnect sid st = Some (st', r)" "own_id st (slot_of sid)"
  shows "tab st st'" "r = Some i \<Longrightarrow> i = slot_of sid"
proof -
  have i: "unat (ucast sid :: u16) = slot_of sid" by (simp add: slot_of_def GET_INDEX_def)
  obtain s where s: "session_at st (slot_of sid) = Some s" using assms(1) by (auto simp: findSession_def Let_def i split: bind_splits)
  let ?st1 = "session_put st (slot_of sid) (fst (incrementIO s))"
  have "ss_ID (fst (incrementIO s)) = ss_ID s" by (simp add: incrementIO_def Let_def)
  then have t: "tab st ?st1" using id_at [OF s] by (intro tab_put) simp
  have o1: "own_id ?st1 (slot_of sid)" using assms(2) tab_own [OF t] by simp
  show "tab st st'"
    using assms(1) s t tab_trans [OF t session_release_tab [OF _ o1]]
    by (auto simp: findSession_def Let_def i case_prod_unfold split: bind_splits if_splits)
  show "r = Some i \<Longrightarrow> i = slot_of sid"
    using assms(1) s by (auto simp: findSession_def Let_def slot_of_def GET_INDEX_def case_prod_unfold split: bind_splits if_splits)
qed

lemma net_sendIO_tab:
  assumes "net_sendIO OnDisconnect i st = Some st'" "own_id st i"
  shows "tab st st'"
proof -
  obtain s s1 st1 del where s: "session_at st i = Some s" "sendIO s st = Some (s1, st1, del)"
    using assms(1) by (auto simp: net_sendIO_def split: bind_splits)
  have t1: "tab st st1" by (rule tab_os) (rule sendIO_profile(1) [OF s(2)])
  have t2: "tab st1 (session_put st1 i s1)"
    using sendIO_profile(2) [OF s(2)] id_at [OF s(1)] tab_ids [OF t1] by (intro tab_put) simp
  note t = tab_trans [OF t1 t2]
  have "own_id (session_put st1 i s1) i" using assms(2) tab_own [OF t] by simp
  then show ?thesis
    using assms(1) s t tab_trans [OF t deleteSession_tab] by (auto simp: net_sendIO_def Let_def split: if_splits)
qed

lemma net_recvIO_tab:
  assumes "net_recvIO OnDisconnect i st = Some st'" "own_id st i"
  shows "tab st st'"
proof -
  obtain s s1 st1 del where s: "session_at st i = Some s" "recvIO s st = Some (s1, st1, del)"
    using assms(1) by (auto simp: net_recvIO_def split: bind_splits)
  note P = recvIO_profile [OF s(2)]
  have t1: "tab st st1" by (rule tab_os) (simp add: P)
  have t2: "tab st1 (session_put st1 i s1)" using P id_at [OF s(1)] tab_ids [OF t1] by (intro tab_put) simp
  note t = tab_trans [OF t1 t2]
  have "own_id (session_put st1 i s1) i" using assms(2) tab_own [OF t] by simp
  then show ?thesis
    using assms(1) s t tab_trans [OF t deleteSession_tab] by (auto simp: net_recvIO_def Let_def split: if_splits)
qed

section \<open>Requests and callbacks\<close>

lemma disconnectReq_tab:
  assumes "disconnectReq OnDisconnect sid st = Some st'" "own_id st (slot_of sid)"
  shows "tab st st'"
proof -
  obtain st1 r where f: "findSession OnDisconnect sid st = Some (st1, r)" using assms(1) by (auto simp: disconnectReq_def split: bind_splits)
  note F = findSession_tab [OF f assms(2)]
  show ?thesis
  proof (cases r)
    case None
    then show ?thesis using assms(1) f F(1) by (simp add: disconnectReq_def)
  next
    case (Some i)
    obtain s where s: "session_at st1 i = Some s" using assms(1) f Some by (auto simp: disconnectReq_def split: bind_splits)
    let ?s1 = "fst (cancelIORegist s)"
    let ?st3 = "os_log (os_log (session_put st1 i ?s1) (CancelIoEx (ss_socket ?s1) Recv_io)) (CancelIoEx (ss_socket ?s1) Send_io)"
    have "ss_ID ?s1 = ss_ID s" by (simp add: cancelIORegist_def Let_def)
    then have "tab st1 (session_put st1 i ?s1)" using id_at [OF s] by (intro tab_put) simp
    then have t3: "tab st ?st3" using F(1) by (intro tab_trans [OF tab_trans [OF F(1)] tab_os]) (simp_all add: os_log_def)
    have "own_id ?st3 i" using assms(2) tab_own [OF t3] F(2) Some by simp
    moreover have "session_release OnDisconnect i ?st3 = Some st'" using assms(1) f Some s by (simp add: disconnectReq_def Let_def)
    ultimately show ?thesis using session_release_tab tab_trans t3 by blast
  qed
qed

lemma postStatus_tab:
  assumes "postStatus i v st = Some st'"
  shows "tab st st'"
proof -
  obtain s s1 where s: "session_at st i = Some s" "iocp_owe s (Post_io v) = Some s1" and e: "st' = os_log (session_put st i s1) (PostStatus (of_nat i) v)"
    using assms by (auto simp: postStatus_def split: bind_splits)
  have "ss_ID s1 = ss_ID s" using s(2) by (auto simp: iocp_owe_def split: if_splits)
  then have "tab st (session_put st i s1)" using id_at [OF s(1)] by (intro tab_put) simp
  then show ?thesis unfolding e by (rule tab_trans [OF _ tab_os]) (simp add: os_log_def)
qed

lemma sendReq_tab:
  assumes "sendReq OnDisconnect sid p st = Some st'" "own_id st (slot_of sid)"
  shows "tab st st'"
proof -
  obtain st1 r where f: "findSession OnDisconnect sid st = Some (st1, r)" using assms(1) by (auto simp: sendReq_def split: bind_splits)
  note F = findSession_tab [OF f assms(2)]
  show ?thesis
  proof (cases r)
    case None
    then show ?thesis using assms(1) f F(1) by (simp add: sendReq_def)
  next
    case (Some i)
    obtain st2 c s st3 where s: "ser_inc st1 p 1 = Some (st2, c)" "session_at st2 i = Some s"
      "postStatus i (p OR reqEvents_value sendReq_event) (session_put st2 i (fst (incrementIO s))) = Some st3"
      "session_release OnDisconnect i st3 = Some st'"
      using assms(1) f Some by (auto simp: sendReq_def split: bind_splits)
    have t2: "tab st1 st2" by (rule tab_more) (use s(1) in \<open>auto simp: ser_inc_def ser_call_def ser_put_def split: bind_splits prod.splits\<close>)
    have "ss_ID (fst (incrementIO s)) = ss_ID s" by (simp add: incrementIO_def Let_def)
    then have "tab st2 (session_put st2 i (fst (incrementIO s)))" using id_at [OF s(2)] by (intro tab_put) simp
    then have t3: "tab st st3" using F(1) t2 postStatus_tab [OF s(3)] by (meson tab_trans)
    have "own_id st3 i" using assms(2) tab_own [OF t3] F(2) Some by simp
    then show ?thesis using session_release_tab [OF s(4)] tab_trans [OF t3] by blast
  qed
qed

lemma sendReq_packet_tab:
  assumes "sendReq_packet OnDisconnect sid k st = Some st'" "own_id st (slot_of sid)"
  shows "tab st st'"
proof -
  obtain st0 p where c: "packet_copy st k = Some (st0, p)" using assms(1) by (auto simp: sendReq_packet_def split: bind_splits)
  note E = sendReq_packet_eq [OF c]
  obtain st5 out where s5: "sendReq OnDisconnect sid (pk_buffer k) st0 = Some st5" and d: "packet_delete st5 p = Some (st', out)"
    using assms(1) by (auto simp: E(1) split: bind_splits)
  have t0: "tab st st0" by (rule tab_more [OF E(2)])
  have "own_id st0 (slot_of sid)" using assms(2) tab_own [OF t0] by simp
  then show ?thesis using t0 sendReq_tab [OF s5] tab_more [OF packet_delete_more [OF d]] by (meson tab_trans)
qed

lemma send_response_tab:
  assumes "send_response sid acc st = Some st'" "own_id st (slot_of sid)"
  shows "tab st st'"
proof -
  obtain st1 k st2 st3 key st4 st5 st6 out where
    s: "packet_new st = Some (st1, k)" "write_response (ls_env st1) acc (map (ls_stack st1) [0..<20]) st1 k = Some st2"
      "getRandKey st2 = Some (st3, key)" "packet_setHeader st3 k key = Some st4"
      "packet_encryption st4 k getStatickey = Some st5" "sendReq_packet OnDisconnect sid k st5 = Some st6"
      "packet_delete st6 k = Some (st', out)"
    using assms(1) by (auto simp: send_response_def split: bind_splits)
  have t1: "tab st st1"
    by (rule tab_more) (use s(1) in \<open>auto simp: packet_new_def pool_Alloc_def ser_inc_def ser_call_def ser_put_def
        split: bind_splits list.splits prod.splits\<close>)
  have t2: "tab st1 st2"
    by (rule tab_more) (use s(2) in \<open>auto simp: write_response_def packet_setWstring_def split: bind_splits dest!: packet_out_more\<close>)
  have t3: "tab st2 st3" by (rule tab_none) (use s(3) in \<open>auto simp: getRandKey_def slot_ids_def split: list.splits\<close>)
  have t5: "tab st3 st4" "tab st4 st5"
    using s(4,5) by (auto simp: packet_setHeader_def packet_encryption_def intro!: tab_more dest: ser_call_more)
  have t: "tab st st5" using t1 t2 t3 t5 by (meson tab_trans)
  have "own_id st5 (slot_of sid)" using assms(2) tab_own [OF t] by simp
  then show ?thesis using t sendReq_packet_tab [OF s(6)] tab_more [OF packet_delete_more [OF s(7)]] by (meson tab_trans)
qed

lemma ser_call_tab: "ser_call st p f = Some (st', r) \<Longrightarrow> tab st st'"
  by (rule tab_more) (rule ser_call_more)

lemma OnRecv_tab:
  assumes r: "OnRecv sid p st = Some st'" and own: "own_id st (slot_of sid)"
  shows "tab st st'"
proof -
  have D: "tab st st'" if "tab st x" "disconnectReq OnDisconnect sid x = Some st'" for x
    using that disconnectReq_tab own tab_own [OF that(1)] tab_trans by blast
  obtain st1 c1 st2 c2 st3 c3 st4 ok where
    c: "ser_call st p shr_char = Some (st1, c1)" "ser_call st1 p shr_short = Some (st2, c2)"
      "ser_call st2 p shr_char = Some (st3, c3)" "ser_call st3 p (\<lambda>s. decryption s getStatickey) = Some (st4, ok)"
    using r by (auto simp: OnRecv_def split: bind_splits)
  have t4: "tab st st4" using c [THEN ser_call_tab] by (meson tab_trans)
  show ?thesis
  proof (cases ok)
    case False
    then have "disconnectReq OnDisconnect sid st4 = Some st'" using r c by (simp add: OnRecv_def)
    then show ?thesis by (rule D [OF t4])
  next
    case True
    obtain st5 cs st6 ty where
      d: "ser_call st4 p shr_char = Some (st5, cs)" "ser_call st5 p shr_ushort = Some (st6, ty)"
      using r c True by (auto simp: OnRecv_def split: bind_splits)
    have t6: "tab st st6" using t4 d [THEN ser_call_tab] by (meson tab_trans)
    show ?thesis
    proof (cases "ty = 101")
      case False
      then have "disconnectReq OnDisconnect sid st6 = Some st'" using r c True d by (simp add: OnRecv_def)
      then show ?thesis by (rule D [OF t6])
    next
      case ty: True
      obtain st7 acc ser st8 st9 where
        e: "ser_call st6 p shr_ulonglong = Some (st7, acc)" "sessionKeyCheckByDatabase acc st7 = Some (st8, True)"
          "redisUpdate acc p (sz_getHeadPtr ser) st8 = Some st9" "send_response sid acc st9 = Some st'"
        using r c True d ty by (auto simp: OnRecv_def sessionKeyCheckByDatabase_def split: bind_splits)
      have t8: "tab st7 st8" by (rule tab_none) (use e(2) in \<open>auto simp: sessionKeyCheckByDatabase_def slot_ids_def split: bind_splits\<close>)
      have t9: "tab st8 st9" by (rule tab_none) (use e(3) in \<open>auto simp: redisUpdate_def slot_ids_def split: bind_splits\<close>)
      have t: "tab st st9" using t6 ser_call_tab [OF e(1)] t8 t9 by (meson tab_trans)
      have "own_id st9 (slot_of sid)" using own tab_own [OF t] by simp
      then show ?thesis using t send_response_tab [OF e(4)] tab_trans by blast
    qed
  qed
qed

section \<open>The worker\<close>

lemma login_cb [simp]:
  "cb_OnNewConnect login_callbacks = OnNewConnect" "cb_OnDisconnect login_callbacks = OnDisconnect"
  "cb_OnConnectionRequest login_callbacks = OnConnectionRequest" "cb_OnRecv login_callbacks = OnRecv"
  "cb_OnSend login_callbacks = OnSend"
  by (simp_all add: login_callbacks_def)

lemma recv_turn_tab:
  assumes t: "recv_turn login_callbacks ti i st = Some (st', go)" and own: "own_id st i"
  shows "tab st st'"
proof -
  obtain s p h s1 h1 where s: "session_at st i = Some s" and "recvedPacket s h p = Some (s1, h1, go)"
    and m: "pheap.more h1 = pheap.more st" and e: "s1 = s\<lparr>ss_recvBuffer := ss_recvBuffer s1\<rparr>"
    and f: "\<not> go \<longrightarrow> ser_release (session_put h1 i s1) p = Some st'"
    and g: "go \<longrightarrow> (\<exists>arr st2. cb_OnRecv login_callbacks (ss_ID s1) p ((session_put h1 i s1)\<lparr>nw_recvMessageTPSArr := arr\<rparr>) = Some st2 \<and>
      ser_release st2 p = Some st')"
    by (rule recv_turn_cases [OF t])
  let ?st1 = "session_put h1 i s1"
  have t0: "tab st h1" by (rule tab_more [OF m])
  have "ss_ID s1 = ss_ID s" by (subst e) simp
  then have id: "ss_ID s1 = slot_ids st ! i" using id_at [OF s] by simp
  then have t1: "tab st ?st1" using tab_ids [OF t0] by (intro tab_trans [OF t0 tab_put]) simp
  show ?thesis
  proof (cases go)
    case False
    then show ?thesis using t1 f tab_more [OF ser_release_more] tab_trans by blast
  next
    case True
    then obtain arr st2 where st2: "OnRecv (ss_ID s1) p (?st1\<lparr>nw_recvMessageTPSArr := arr\<rparr>) = Some st2" "ser_release st2 p = Some st'"
      using g by auto
    have t2: "tab st (?st1\<lparr>nw_recvMessageTPSArr := arr\<rparr>)" by (rule tab_trans [OF t1 tab_none]) (simp_all add: slot_ids_def)
    have "own_id (?st1\<lparr>nw_recvMessageTPSArr := arr\<rparr>) (slot_of (ss_ID s1))" using own tab_own [OF t2] id by (simp add: own_id_def)
    then show ?thesis using t2 OnRecv_tab [OF st2(1)] tab_more [OF ser_release_more [OF st2(2)]] by (meson tab_trans)
  qed
qed

lemma recv_loop_tab:
  assumes r: "recv_loop login_callbacks ti i st = Some st'" and own: "own_id st i"
  shows "tab st st'"
proof (rule recv_loop_rule [OF r, of "tab st"])
  fix x x' go
  assume n: "tab st x" and t: "recv_turn login_callbacks ti i x = Some (x', go)"
  have "tab x x'" by (rule recv_turn_tab [OF t]) (use own tab_own [OF n] in simp)
  then show "if go then tab st x' else tab st x'" using tab_trans [OF n] by simp
qed (rule tab_refl)

lemma worker_tab:
  assumes w: "worker_step login_callbacks ti ok transfer (Some i) overlap st = Some (st', b)" and own: "own_id st i"
  shows "tab st st'"
proof -
  have rel: "tab st st'" if "tab st x" "session_release OnDisconnect i x = Some st'" for x
    using that session_release_tab own tab_own [OF that(1)] tab_trans by blast
  have net_send: "tab st st'" if "tab st x" "net_sendIO OnDisconnect i x = Some y" "session_release OnDisconnect i y = Some st'" for x y
    using that(2,3) own tab_own [OF that(1)] net_sendIO_tab tab_trans [OF that(1)] rel by blast
  have put: "tab st (session_put x i s)" if "tab st x" "ss_ID s = slot_ids st ! i" for x s
    using that tab_ids [OF that(1)] by (intro tab_trans [OF that(1) tab_put]) simp
  show ?thesis
  proof (cases "session_release OnDisconnect i st = Some st'")
    case True
    then show ?thesis by (rule rel [OF tab_refl])
  next
    case no: False
    obtain s where s: "session_at st i = Some s" using own by (auto simp: own_id_def slot_ids_def session_at_def)
    note id = id_at [OF s]
    consider (post) "transfer = 0" "requestCheck overlap = sendReq_event"
      | (send) "transfer \<noteq> 0" "sendOverlappedCheck s overlap"
      | (recv) "transfer \<noteq> 0" "\<not> sendOverlappedCheck s overlap" "recvOverlappedCheck s overlap"
      using w no s by (auto simp: worker_step_def Let_def split: bind_splits if_splits)
    then show ?thesis
    proof cases
      case post
      obtain s1 k where c: "collectSendPacket s (overlap AND NOT reqFilter) = Some (s1, k)"
        using w no s post by (auto simp: worker_step_def Let_def split: bind_splits if_splits)
      have "ss_ID s1 = ss_ID s" using c by (auto simp: collectSendPacket_def split: bind_splits)
      then have t1: "tab st (session_put st i s1)" using id by (intro put tab_refl) simp
      show ?thesis
        using w no s post c net_send [OF t1] rel [OF tab_trans [OF t1 tab_more [OF ser_release_more]]]
        by (auto simp: worker_step_def Let_def split: bind_splits if_splits)
    next
      case send
      obtain s2 st2 t2 tp where d: "sended s st transfer = Some (s2, st2, t2, tp)"
        using w no s send by (auto simp: worker_step_def Let_def OnSend_def split: bind_splits if_splits)
      note F = sended_frame [OF d]
      have id2: "ss_ID s2 = slot_ids st ! i" using id by (subst F(2)) simp
      let ?st3 = "session_put st2 i s2"
      have t3: "tab st ?st3" by (rule put [OF tab_more [OF F(1)] id2])
      show ?thesis
      proof (cases "tp = -1")
        case True
        then show ?thesis using w no s send d t3 by (auto simp: worker_step_def Let_def OnSend_def split: bind_splits if_splits)
      next
        case False
        obtain arr where a: "tps_add (nw_sendMessageTPSArr ?st3) ti tp = Some arr"
          using w no s send d False by (auto simp: worker_step_def Let_def OnSend_def split: bind_splits if_splits)
        have t4: "tab st (session_put (?st3\<lparr>nw_sendMessageTPSArr := arr\<rparr>) i (s2\<lparr>ss_sendFlag := 0\<rparr>))"
          using id2 by (intro put tab_trans [OF t3 tab_none]) (simp_all add: slot_ids_def)
        show ?thesis
          using w no s send d False a rel [OF t4] net_send [OF t4]
          by (auto simp: worker_step_def Let_def OnSend_def split: bind_splits if_splits)
      qed
    next
      case recv
      obtain s1 k where rv: "recved s transfer = (s1, k)" by (cases "recved s transfer")
      have "ss_ID s1 = ss_ID s" using rv by (auto simp: recved_def split: if_splits)
      then have t1: "tab st (session_put st i s1)" using id by (intro put tab_refl) simp
      show ?thesis
      proof (cases k)
        case False
        then show ?thesis using w no s recv rv t1 by (auto simp: worker_step_def Let_def split: bind_splits if_splits)
      next
        case True
        obtain st2 st3 where g: "recv_loop login_callbacks ti i (session_put st i s1) = Some st2" "net_recvIO OnDisconnect i st2 = Some st3"
          "session_release OnDisconnect i st3 = Some st'"
          using w no s recv rv True by (auto simp: worker_step_def Let_def split: bind_splits if_splits)
        have t2: "tab st st2" using own tab_own [OF t1] tab_trans [OF t1 recv_loop_tab [OF g(1)]] by simp
        have "tab st st3" using own tab_own [OF t2] tab_trans [OF t2 net_recvIO_tab [OF g(2)]] by simp
        then show ?thesis by (rule rel [OF _ g(3)])
      qed
    qed
  qed
qed

section \<open>The table is exact\<close>

definition table_ok :: "loginServer \<Rightarrow> bool" where
  "table_ok st \<longleftrightarrow> distinct (map fst (ls_connectionMap st)) \<and> (\<forall>sid. sid \<in> fst ` set (ls_connectionMap st) \<longleftrightarrow> connected st sid) \<and>
     (\<forall>e \<in> set (ls_connectionMap st). ls_conns st (snd e) \<noteq> None)"

lemma connected_ids: "connected st sid \<longleftrightarrow> slot_of sid < length (slot_ids st) \<and> \<not> on_stack st (slot_of sid) \<and> slot_ids st ! slot_of sid = sid"
  by (auto simp: connected_def slot_ids_def slot_of_def)

lemma connected_own: "connected st sid \<Longrightarrow> own_id st (slot_of sid)"
  by (simp add: connected_ids own_id_def)

lemma tab_table:
  assumes "tab st st'" "table_ok st"
  shows "table_ok st'"
proof -
  obtain R where R: "tab_by R st st'" using assms(1) by (auto simp: tab_def)
  note B = R [unfolded tab_by_def]
  note K = assms(2) [unfolded table_ok_def]
  have m: "ls_connectionMap st' = filter (\<lambda>e. fst e \<notin> R) (ls_connectionMap st)" using B by blast
  have "distinct (map fst (ls_connectionMap st'))" unfolding m using K distinct_map_filter by blast
  moreover have "sid \<in> fst ` set (ls_connectionMap st') \<longleftrightarrow> connected st' sid" for sid
  proof -
    have "sid \<in> fst ` set (ls_connectionMap st') \<longleftrightarrow> connected st sid \<and> sid \<notin> R" unfolding m using K by force
    moreover have "connected st sid \<Longrightarrow> slot_of sid \<in> slot_of ` R \<longleftrightarrow> sid \<in> R"
      using B unfolding connected_ids by (metis image_iff)
    moreover have "on_stack st' (slot_of sid) \<longleftrightarrow> on_stack st (slot_of sid) \<or> slot_of sid \<in> slot_of ` R" "slot_ids st' = slot_ids st"
      using B by blast+
    ultimately show ?thesis unfolding connected_ids by metis
  qed
  moreover have "ls_conns st' (snd e) \<noteq> None" if "e \<in> set (ls_connectionMap st')" for e
    using that K B by (auto simp: m)
  ultimately show ?thesis unfolding table_ok_def by blast
qed

lemma OnNewConnect_empty:
  assumes i: "i = unat (GET_INDEX sid)" "i < length (nw_sessionArray st)" "nw_sessionArray st ! i = s"
    and s: "ss_IOcount s = 1" "ss_ID s = sid" and p: "ls_connSupply st = []"
  shows "OnNewConnect sid st = None"
proof -
  have ix: "unat (ucast sid :: u16) = i" using i(1) by (simp add: GET_INDEX_def)
  have "findSession OnDisconnect sid st = Some (session_put st i (s\<lparr>ss_IOcount := 2\<rparr>), Some i)"
    using i s by (simp add: session_atI findSession_def ix incrementIO_def Let_def)
  then show ?thesis using p i(2) by (simp add: OnNewConnect_def connectionPool_New_def session_put_def session_at_def)
qed

lemma accept_table:
  assumes inv: "net_inv (\<lambda>_. 0) st" and tbl: "table_ok st" and a: "accept_step login_callbacks sock ip port st = Some st'"
  shows "table_ok st'"
proof (cases "sock = INVALID_SOCKET \<or> nw_indexStack st = []")
  case True
  have "tab st st'"
    by (rule tab_none) (use a True in \<open>auto simp: accept_step_def Let_def slot_ids_def OnConnectionRequest_def os_log_def split: if_splits\<close>)
  then show ?thesis by (rule tab_table [OF _ tbl])
next
  case False
  then obtain idx rest where stk: "nw_indexStack st = idx # rest" by (cases "nw_indexStack st") auto
  define sid where "sid = MAKE_SESSION_ID (nw_sessionCount st) idx"
  define i where "i = unat idx"
  let ?st3 = "st\<lparr>nw_acceptTPSArr := nw_acceptTPSArr st + 1, nw_acceptTotal := nw_acceptTotal st + 1,
    nw_indexStack := rest, nw_sessionCount := nw_sessionCount st + 1\<rparr>"
  have os: "on_stack st i" by (simp add: on_stack_def stk i_def)
  then have i: "i < length (nw_sessionArray st)" using inv unfolding net_inv_def by blast
  have fr: "slot_free 0 (nw_sessionArray st ! i)" by (rule net_inv_slot(1) [OF inv i os])
  let ?s1 = "session_init (nw_sessionArray st ! i) sid sock port ip"
  have s1: "ss_IOcount ?s1 = 1" "ss_ID ?s1 = sid" using session_init_free [OF fr, of sid sock port ip] by simp_all
  let ?st4 = "session_put ?st3 i ?s1"
  have gi: "i = unat (GET_INDEX sid)" "slot_of sid = i" by (simp_all add: sid_def i_def slot_of_def)
  have at: "session_at ?st3 i = Some (nw_sessionArray st ! i)" using i by (simp add: session_at_def)
  obtain st5 st6 where on: "OnNewConnect sid ?st4 = Some st5" and io: "net_recvIO OnDisconnect i st5 = Some st6"
    and rel: "session_release OnDisconnect i st6 = Some st'"
    using a False stk at by (auto simp: accept_step_def Let_def OnConnectionRequest_def sid_def [symmetric] i_def [symmetric] split: bind_splits)
  have arr: "i < length (nw_sessionArray ?st4)" "nw_sessionArray ?st4 ! i = ?s1" using i by (simp_all add: session_put_def)
  obtain p ps where p: "ls_connSupply ?st4 = p # ps"
    using OnNewConnect_empty [OF gi(1) arr s1] on by (cases "ls_connSupply ?st4") auto
  have st5: "st5 = ?st4\<lparr>ls_connSupply := ps, ls_conns := (ls_conns ?st4)(p \<mapsto> connectionData_new (ls_tick ?st4) (ss_ip ?s1)),
    ls_connectionMap := AList.update sid p (ls_connectionMap ?st4)\<rparr>"
    using OnNewConnect_first [OF gi(1) arr s1 p] on by simp
  have "distinct (idx # rest)" using inv stk by (simp add: net_inv_def)
  then have os5: "on_stack st5 j \<longleftrightarrow> on_stack st j \<and> j \<noteq> i" for j
    by (auto simp: st5 on_stack_def session_put_def stk i_def simp flip: word_unat_eq_iff)
  have ids5: "slot_ids st5 = (slot_ids st)[i := sid]" by (simp add: st5 slot_ids_def session_put_def map_update s1(2))
  have li: "i < length (slot_ids st)" using i by (simp add: slot_ids_def)
  have con: "connected st5 k \<longleftrightarrow> connected st k \<or> k = sid" for k
    using os li gi(2) unfolding connected_ids os5 ids5 by (cases "slot_of k = i") auto
  have "table_ok st5"
    unfolding table_ok_def con
  proof (intro conjI allI ballI)
    note K = tbl [unfolded table_ok_def]
    have map5: "ls_connectionMap st5 = AList.update sid p (ls_connectionMap st)" by (simp add: st5 session_put_def)
    show "distinct (map fst (ls_connectionMap st5))" unfolding map5 using K by (simp add: distinct_update)
    show "k \<in> fst ` set (ls_connectionMap st5) \<longleftrightarrow> connected st k \<or> k = sid" for k
      unfolding map5 using K dom_update [of sid p "ls_connectionMap st"] by auto
    show "ls_conns st5 (snd e) \<noteq> None" if "e \<in> set (ls_connectionMap st5)" for e
    proof -
      have "set (AList.update sid p xs) \<subseteq> insert (sid, p) (set xs)" for xs by (induction xs) auto
      then have "e = (sid, p) \<or> e \<in> set (ls_connectionMap st)" using that unfolding map5 by blast
      then show ?thesis using K by (auto simp: st5 session_put_def)
    qed
  qed
  moreover have own: "own_id st5 i" using li gi(2) by (simp add: own_id_def ids5)
  have "tab st5 st6" by (rule net_recvIO_tab [OF io own])
  then have "tab st5 st'" using session_release_tab [OF rel] tab_own own tab_trans by blast
  ultimately show ?thesis using tab_table by blast
qed

section \<open>Every step\<close>

lemma request_tab:
  assumes inv: "net_inv refs st" and used: "slot_used st sid"
  shows "disconnectReq OnDisconnect sid st = Some st' \<Longrightarrow> tab st st'" "sendReq OnDisconnect sid p st = Some st' \<Longrightarrow> tab st st'"
    "sendReq_packet OnDisconnect sid k st = Some st' \<Longrightarrow> tab st st'"
proof -
  have send: "tab x y" if "net_inv refs x" "slot_used x sid" "sendReq OnDisconnect sid p x = Some y" for x y p
  proof (cases "connected x sid")
    case True
    then show ?thesis using sendReq_tab [OF that(3)] connected_own by blast
  next
    case False
    then have "y = x" using that(3) find_spec [OF that(1,2), of OnDisconnect] by (simp add: sendReq_def)
    then show ?thesis by (simp add: tab_refl)
  qed
  show "sendReq OnDisconnect sid p st = Some st' \<Longrightarrow> tab st st'" by (rule send [OF inv used])
  show "tab st st'" if d: "disconnectReq OnDisconnect sid st = Some st'"
  proof (cases "connected st sid")
    case True
    then show ?thesis using disconnectReq_tab [OF d] connected_own by blast
  next
    case False
    then have "st' = st" using d disconnectReq_spec [OF inv used, of OnDisconnect] by simp
    then show ?thesis by (simp add: tab_refl)
  qed
  show "tab st st'" if r: "sendReq_packet OnDisconnect sid k st = Some st'"
  proof -
    obtain st0 q where c: "packet_copy st k = Some (st0, q)" using r by (auto simp: sendReq_packet_def split: bind_splits)
    note E = sendReq_packet_eq [OF c]
    obtain st5 out where s5: "sendReq OnDisconnect sid (pk_buffer k) st0 = Some st5" and d: "packet_delete st5 q = Some (st', out)"
      using r by (auto simp: E(1) split: bind_splits)
    have "tab st0 st5" by (rule send [OF neutral_inv [OF inv neutral_heap [OF E(2)]] _ s5]) (simp add: used used_more [OF E(2)])
    then show ?thesis using tab_more [OF E(2)] tab_more [OF packet_delete_more [OF d]] by (meson tab_trans)
  qed
qed

lemma step_table:
  assumes "net_step login_callbacks st st'" "net_inv (\<lambda>_. 0) st" "table_ok st"
  shows "table_ok st'"
  using assms(1)
proof (cases rule: net_step.cases)
  case (step_accept sock ip port)
  then show ?thesis using accept_table [OF assms(2,3)] by blast
next
  case (step_complete i s overlap data st1 ti ok transfer b)
  obtain d: "i < length (nw_sessionArray st)" "\<not> on_stack st i"
    by (rule login.deliver_facts [OF assms(2) step_complete(1-3)]) blast
  have "slot_active i 0 (nw_sessionArray st ! i)" using net_inv_slot(2) [OF assms(2) d] by simp
  then have own: "own_id st i" using d(1) by (auto simp: own_id_def slot_ids_def slot_of_def slot_active_def slot_prof_def)
  obtain s2 where s2: "recv_arrive s data = Some s2"
    and st1: "st1 = session_put st i (s2\<lparr>ss_inflight := remove1 (completion_op s overlap) (ss_inflight s)\<rparr>)"
    using step_complete(1,3) by (auto simp: iocp_deliver_def split: bind_splits)
  have "ss_ID s2 = ss_ID s" using s2 by (auto simp: recv_arrive_def split: bind_splits)
  then have t1: "tab st st1" unfolding st1 using id_at [OF step_complete(1)] by (intro tab_put) simp
  have "tab st1 st'" by (rule worker_tab [OF step_complete(4)]) (simp add: own tab_own [OF t1])
  then show ?thesis using tab_table [OF tab_trans [OF t1] assms(3)] by blast
next
  case (step_disconnect sid)
  then have "tab st st'" using request_tab(1) [OF assms(2) step_disconnect(1)] by simp
  then show ?thesis by (rule tab_table [OF _ assms(3)])
next
  case (step_send sid p)
  then have "tab st st'" using request_tab(2) [OF assms(2) step_send(1)] by simp
  then show ?thesis by (rule tab_table [OF _ assms(3)])
next
  case (step_send_packet sid k)
  then have "tab st st'" using request_tab(3) [OF assms(2) step_send_packet(1)] by simp
  then show ?thesis by (rule tab_table [OF _ assms(3)])
next
  case (step_statistics now past t)
  have "tab st st'" by (rule tab_none) (use step_statistics in \<open>auto simp: networkThread_step_def Let_def slot_ids_def split: if_splits\<close>)
  then show ?thesis by (rule tab_table [OF _ assms(3)])
qed

text \<open>The whole server: the threads of the network core, the clock, and passes of the timeout thread.\<close>

inductive server_reach :: "loginServer \<Rightarrow> loginServer \<Rightarrow> bool" for st0 where
  server_start: "server_reach st0 st0"
| server_net: "server_reach st0 st \<Longrightarrow> net_step login_callbacks st st' \<Longrightarrow> server_reach st0 st'"
| server_tick: "server_reach st0 st \<Longrightarrow> server_reach st0 (st\<lparr>ls_tick := tick\<rparr>)"
| server_update: "server_reach st0 st \<Longrightarrow> update_step st = Some st' \<Longrightarrow> server_reach st0 st'"

lemma sweep_tab:
  assumes "update_sweep cs tick st = Some st'" "net_inv refs st" "\<And>e. e \<in> set cs \<Longrightarrow> connected st (fst e)"
  shows "neutral st st' \<and> tab st st'"
  using assms
proof (induction cs arbitrary: st)
  case Nil
  then show ?case by (simp add: neutral_refl tab_refl)
next
  case (Cons e cs)
  obtain sid c where e: "e = (sid, c)" by (cases e)
  have con: "connected st sid" using Cons.prems(3) [of e] by (simp add: e)
  have used: "slot_used st sid" by (rule connected_used [OF Cons.prems(2) con])
  obtain st1 where st1: "st1 = st \<or> disconnectReq (\<lambda>_ _. None) sid st = Some st1" and r: "update_sweep cs tick st1 = Some st'"
    using Cons.prems(1) by (auto simp: e split: bind_splits if_splits)
  have "disconnectReq (\<lambda>_ _. None) sid st = disconnectReq OnDisconnect sid st"
    unfolding disconnectReq_spec [OF Cons.prems(2) used] by (rule refl)
  then have nt: "neutral st st1 \<and> tab st st1"
    using st1 disconnectReq_neutral [OF Cons.prems(2) used] request_tab(1) [OF Cons.prems(2) used] neutral_refl tab_refl by auto
  have "neutral st1 st' \<and> tab st1 st'"
    by (rule Cons.IH [OF r]) (use nt neutral_inv [OF Cons.prems(2)] neutral_used_conn [OF Cons.prems(2)] Cons.prems(3) in auto)
  then show ?case using nt neutral_trans tab_trans by blast
qed

lemma update_keeps:
  assumes inv: "net_inv (\<lambda>_. 0) st" and tbl: "table_ok st" and u: "update_step st = Some st'"
  shows "net_inv (\<lambda>_. 0) st' \<and> table_ok st'"
proof (cases "ls_run st")
  case True
  have "neutral st st' \<and> tab st st'"
    by (rule sweep_tab [OF _ inv]) (use u True tbl in \<open>auto simp: update_step_def table_ok_def\<close>)
  then show ?thesis using neutral_inv [OF inv] tab_table [OF _ tbl] by blast
qed (use assms in \<open>simp add: update_step_def\<close>)

lemma server_inv:
  assumes "server_reach st0 st" "net_inv (\<lambda>_. 0) st0" "table_ok st0"
  shows "net_inv (\<lambda>_. 0) st \<and> table_ok st"
  using assms
proof (induction rule: server_reach.induct)
  case (server_net st st')
  then show ?case using login.step_inv step_table by blast
next
  case (server_tick st tick)
  have "neutral st (st\<lparr>ls_tick := tick\<rparr>)" "tab st (st\<lparr>ls_tick := tick\<rparr>)"
    by (simp_all add: neutral_same_array tab_none slot_ids_def)
  then show ?case using server_tick neutral_inv tab_table by blast
next
  case (server_update st st')
  then show ?case using update_keeps by blast
qed auto

text \<open>The start leaves the table as it is, and no session is connected.\<close>

lemma start_table:
  assumes "start_ok env" "fresh_sessions env (unat n)" "nw_indexStack st0 = []" "ls_connectionMap st0 = []"
    and "start login_callbacks env self n w r st0 = Some (st1, True)"
  shows "net_inv (\<lambda>_. 0) st1 \<and> table_ok st1"
proof -
  obtain st' where st': "start login_callbacks env self n w r st0 = Some (st', True)" "net_inv (\<lambda>_. 0) st'"
    "length (nw_sessionArray st') = unat n" "nw_indexStack st' = map of_nat [0..<unat n]" "network.more st' = network.more st0"
    by (rule start_spec [OF assms(1-3)]) blast
  then have st: "st' = st1" using assms(5) by simp
  have "on_stack st1 i" if "i < unat n" for i
  proof -
    have "unat n < 2 ^ LENGTH(16)" by (rule unsigned_less)
    then have "unat (of_nat i :: u16) = i" using that by (simp add: unat_of_nat)
    then show ?thesis using st'(4) that by (auto simp: on_stack_def st intro!: image_eqI [of _ _ "of_nat i"])
  qed
  then have "\<not> connected st1 sid" for sid using st'(3) by (auto simp: connected_def st)
  moreover have "ls_connectionMap st1 = []" using st'(5) assms(4) by (cases st0, cases st1) (simp add: st)
  ultimately show ?thesis using st'(2) by (simp add: table_ok_def st)
qed

end
