(* ===== verification/Concurrent_Pool.thy ===== *)
theory Concurrent_Pool
  imports Node_Pool
begin

text \<open>
  The node pool of \<open>LockFreeQueue.h\<close> with any number of threads inside \<open>Alloc\<close> and \<open>Free\<close> at the same time. A step of
  a thread is one access to the shared memory: a read or write of a field, an \<open>InterlockedIncrement\<close> or an
  \<open>InterlockedCompareExchange\<close>; the constructor of \<open>pool_pc\<close> says which access comes next and holds the local variables.
  The invariant \<open>pool_inv\<close> shows that the push number in the upper bits of a key does its work as long as fewer than
  \<open>2 ^ 16\<close> numbers are given out: no node is handed out twice and none is lost.
\<close>

section \<open>One thread\<close>

datatype pool_pc =
    Pool_idle
  | Alloc_read
  | Alloc_next u64
  | Alloc_cas u64 u64
  | Alloc_count u64
  | Alloc_done u64
  | Free_read u64
  | Free_write u64 u64
  | Free_number u64 u64
  | Free_cas u64 u64 u64
  | Free_count
  | Free_done

fun alloc_step :: "pool_pc \<Rightarrow> nodePool \<Rightarrow> (nodePool \<times> pool_pc) option" where
  "alloc_step Alloc_read p =
     (let compareKey = np_topKey p in
      Some (p, if MAKE_NODEPTR compareKey = 0 then Alloc_done 0 else Alloc_next compareKey))"
| "alloc_step (Alloc_next compareKey) p =
     map_option (\<lambda>n. (p, Alloc_cas compareKey (nd_poolNext n))) (np_mem p (MAKE_NODEPTR compareKey))"
| "alloc_step (Alloc_cas compareKey next) p =
     (let r = cas (np_topKey p) next compareKey in
      Some (p\<lparr>np_topKey := fst r\<rparr>, if snd r = compareKey then Alloc_count (MAKE_NODEPTR compareKey) else Alloc_read))"
| "alloc_step (Alloc_count popNode) p = Some (p\<lparr>np_useSize := np_useSize p + 1\<rparr>, Alloc_done popNode)"
| "alloc_step _ p = None"

fun free_step :: "pool_pc \<Rightarrow> nodePool \<Rightarrow> (nodePool \<times> pool_pc) option" where
  "free_step (Free_read freeNode) p = Some (p, Free_write freeNode (np_topKey p))"
| "free_step (Free_write freeNode compareKey) p =
     map_option (\<lambda>n. (p\<lparr>np_mem := (np_mem p)(freeNode \<mapsto> n\<lparr>nd_poolNext := compareKey\<rparr>)\<rparr>, Free_number freeNode compareKey))
       (np_mem p freeNode)"
| "free_step (Free_number freeNode compareKey) p =
     (let pushNo = np_pushCount p + 1 in
      Some (p\<lparr>np_pushCount := pushNo\<rparr>, Free_cas freeNode compareKey (MAKE_KEY freeNode pushNo)))"
| "free_step (Free_cas freeNode compareKey newKey) p =
     (let r = cas (np_topKey p) newKey compareKey in
      Some (p\<lparr>np_topKey := fst r\<rparr>, if snd r = compareKey then Free_count else Free_read freeNode))"
| "free_step Free_count p = Some (p\<lparr>np_useSize := np_useSize p - 1\<rparr>, Free_done)"
| "free_step _ p = None"

definition pool_pc_step :: "pool_pc \<Rightarrow> nodePool \<Rightarrow> (nodePool \<times> pool_pc) option" where
  "pool_pc_step c p = (case alloc_step c p of None \<Rightarrow> free_step c p | Some r \<Rightarrow> Some r)"

section \<open>All threads\<close>

text \<open>\<open>ps_own s t\<close> are the nodes that the code outside the pool has got by thread \<open>t\<close> and not given back.\<close>

record pool_sys =
  ps_pool :: nodePool
  ps_pc :: "nat \<Rightarrow> pool_pc"
  ps_own :: "nat \<Rightarrow> u64 list"

definition pool_start :: "nodePool \<Rightarrow> pool_sys" where
  "pool_start p = \<lparr>ps_pool = p, ps_pc = (\<lambda>_. Pool_idle), ps_own = (\<lambda>_. [])\<rparr>"

text \<open>A run, with the number of push numbers that it takes.\<close>

inductive pool_run :: "pool_sys \<Rightarrow> nat \<Rightarrow> pool_sys \<Rightarrow> bool" for s0 where
  run_start: "pool_run s0 0 s0"
| run_alloc: "pool_run s0 m s \<Longrightarrow> ps_pc s t = Pool_idle \<Longrightarrow> pool_run s0 m (s\<lparr>ps_pc := (ps_pc s)(t := Alloc_read)\<rparr>)"
| run_free: "pool_run s0 m s \<Longrightarrow> ps_pc s t = Pool_idle \<Longrightarrow> a \<in> set (ps_own s t) \<Longrightarrow>
    pool_run s0 m (s\<lparr>ps_pc := (ps_pc s)(t := Free_read a), ps_own := (ps_own s)(t := remove1 a (ps_own s t))\<rparr>)"
| run_access: "pool_run s0 m s \<Longrightarrow> pool_pc_step (ps_pc s t) (ps_pool s) = Some (p, c) \<Longrightarrow>
    m' = (case ps_pc s t of Free_number a k \<Rightarrow> Suc m | _ \<Rightarrow> m) \<Longrightarrow>
    pool_run s0 m' (s\<lparr>ps_pool := p, ps_pc := (ps_pc s)(t := c)\<rparr>)"
| run_return: "pool_run s0 m s \<Longrightarrow> ps_pc s t = Alloc_done a \<Longrightarrow>
    pool_run s0 m (s\<lparr>ps_pc := (ps_pc s)(t := Pool_idle),
      ps_own := (ps_own s)(t := (if a = 0 then [] else [a]) @ ps_own s t)\<rparr>)"
| run_freed: "pool_run s0 m s \<Longrightarrow> ps_pc s t = Free_done \<Longrightarrow> pool_run s0 m (s\<lparr>ps_pc := (ps_pc s)(t := Pool_idle)\<rparr>)"
| run_give: "pool_run s0 m s \<Longrightarrow> a \<in> set (ps_own s t) \<Longrightarrow> t \<noteq> u \<Longrightarrow>
    pool_run s0 m (s\<lparr>ps_own := (ps_own s)(t := remove1 a (ps_own s t), u := a # ps_own s u)\<rparr>)"

section \<open>Keys and push numbers\<close>

definition old_keys :: "u64 \<Rightarrow> u64 set \<Rightarrow> nat \<Rightarrow> u64 set" where
  "old_keys pc D j = {MAKE_KEY a (pc + of_nat i) |a i. a \<in> D \<and> i \<le> j}"

lemma old_keysI: "a \<in> D \<Longrightarrow> i \<le> j \<Longrightarrow> MAKE_KEY a (pc + of_nat i) \<in> old_keys pc D j"
  by (auto simp: old_keys_def)

lemma old_keys_mono: "k \<in> old_keys pc D j \<Longrightarrow> j \<le> j' \<Longrightarrow> k \<in> old_keys pc D j'"
  by (auto simp: old_keys_def intro: order.trans)

lemma tag_inj:
  assumes "take_bit 16 (c + of_nat i :: u64) = take_bit 16 (c + of_nat j)" "i < 2 ^ 16" "j < 2 ^ 16"
  shows "i = j"
proof -
  have u: "uint (take_bit 16 (c + of_nat n)) = (uint c + int n) mod 2 ^ 16" for n
  proof -
    have "uint (c + of_nat n) = (uint c + int n) mod 2 ^ 64"
      by (simp add: uint_word_ariths unsigned_of_nat take_bit_eq_mod mod_add_right_eq zmod_int)
    then show ?thesis by (simp add: unsigned_take_bit_eq) (simp add: take_bit_eq_mod mod_mod_cancel)
  qed
  have "(uint c + int i) mod 2 ^ 16 = (uint c + int j) mod 2 ^ 16" using u [of i] u [of j] assms(1) by simp
  then have "(2 ^ 16 :: int) dvd (uint c + int i) - (uint c + int j)" by (simp only: mod_eq_dvd_iff)
  then have "(2 ^ 16 :: int) dvd int i - int j" by simp
  moreover have "\<bar>int i - int j\<bar> < 2 ^ 16" using assms(2,3) by simp
  ultimately show ?thesis using dvd_imp_le_int [of "int i - int j" "2 ^ 16"] by fastforce
qed

definition good_nodes :: "u64 set \<Rightarrow> bool" where
  "good_nodes D \<longleftrightarrow> (\<forall>a \<in> D. a \<noteq> 0 \<and> unat a < 2 ^ 48)"

lemma old_key_node: "k \<in> old_keys pc D j \<Longrightarrow> good_nodes D \<Longrightarrow> MAKE_NODEPTR k \<in> D"
  by (auto simp: old_keys_def good_nodes_def NODEPTR_KEY)

lemma new_key_fresh:
  assumes "good_nodes D" "a \<in> D" "Suc j < 2 ^ 16"
  shows "MAKE_KEY a (pc + of_nat (Suc j)) \<notin> old_keys pc D j"
proof
  assume "MAKE_KEY a (pc + of_nat (Suc j)) \<in> old_keys pc D j"
  then obtain b i where b: "b \<in> D" "i \<le> j" "MAKE_KEY a (pc + of_nat (Suc j)) = MAKE_KEY b (pc + of_nat i)"
    by (auto simp: old_keys_def)
  have "take_bit 16 (pc + of_nat (Suc j)) = take_bit 16 (pc + of_nat i)"
    using assms(1,2) b KEY_tag by (metis good_nodes_def)
  then have "Suc j = i" by (rule tag_inj) (use assms(3) b(2) in simp_all)
  then show False using b(2) by simp
qed

text \<open>The keys of the free list.\<close>

fun path_keys :: "(u64 \<rightharpoonup> node) \<Rightarrow> u64 \<Rightarrow> u64 list \<Rightarrow> u64 set" where
  "path_keys m k [] = {}"
| "path_keys m k (a # as) = insert k (case m a of None \<Rightarrow> {} | Some n \<Rightarrow> path_keys m (nd_poolNext n) as)"

lemma path_keys_upd: "a \<notin> set fs \<Longrightarrow> path_keys (m(a := x)) k fs = path_keys m k fs"
  by (induction fs arbitrary: k) (auto split: option.splits)

lemma path_keys_node: "pool_path m k fs \<Longrightarrow> x \<in> path_keys m k fs \<Longrightarrow> MAKE_NODEPTR x \<in> set fs"
  by (induction fs arbitrary: k) (auto split: option.splits)

lemma path_top: "pool_path m k fs \<Longrightarrow> k \<noteq> 0 \<Longrightarrow> k \<in> path_keys m k fs"
  by (cases fs) simp_all

section \<open>Who has which node\<close>

fun pc_node :: "pool_pc \<Rightarrow> u64 list" where
  "pc_node (Alloc_count a) = [a]"
| "pc_node (Alloc_done a) = (if a = 0 then [] else [a])"
| "pc_node (Free_read a) = [a]"
| "pc_node (Free_write a k) = [a]"
| "pc_node (Free_number a k) = [a]"
| "pc_node (Free_cas a k n) = [a]"
| "pc_node _ = []"

definition held :: "pool_sys \<Rightarrow> nat \<Rightarrow> u64 list" where
  "held s t = pc_node (ps_pc s t) @ ps_own s t"

definition pending :: "(nat \<Rightarrow> pool_pc) \<Rightarrow> u64 set" where
  "pending c = {n. \<exists>t a k. c t = Free_cas a k n}"

text \<open>Every node is in the free list or held by one thread, once.\<close>

definition shared_out :: "u64 set \<Rightarrow> u64 list \<Rightarrow> (nat \<Rightarrow> u64 list) \<Rightarrow> bool" where
  "shared_out D fs h \<longleftrightarrow> distinct fs \<and> (\<forall>x. x \<in> D \<longleftrightarrow> x \<in> set fs \<or> (\<exists>t. x \<in> set (h t))) \<and> (\<forall>t. distinct (h t)) \<and>
     (\<forall>t x. x \<in> set (h t) \<longrightarrow> x \<notin> set fs) \<and> (\<forall>t u x. x \<in> set (h t) \<longrightarrow> x \<in> set (h u) \<longrightarrow> t = u)"

lemma shared_outI:
  assumes "distinct fs" "\<And>x. x \<in> D \<longleftrightarrow> x \<in> set fs \<or> (\<exists>t. x \<in> set (h t))" "\<And>t. distinct (h t)"
    "\<And>t x. x \<in> set (h t) \<Longrightarrow> x \<notin> set fs" "\<And>t u x. x \<in> set (h t) \<Longrightarrow> x \<in> set (h u) \<Longrightarrow> t = u"
  shows "shared_out D fs h"
  unfolding shared_out_def using assms by blast

lemma shared_outD:
  assumes "shared_out D fs h"
  shows "distinct fs" "x \<in> D \<longleftrightarrow> x \<in> set fs \<or> (\<exists>t. x \<in> set (h t))" "distinct (h t)"
    "x \<in> set (h t) \<Longrightarrow> x \<notin> set fs" "x \<in> set (h t) \<Longrightarrow> x \<in> set (h u) \<Longrightarrow> t = u"
  using assms unfolding shared_out_def by blast+

lemma shared_out_same:
  assumes "shared_out D fs h" "\<And>t. set (h' t) = set (h t)" "\<And>t. distinct (h t) \<Longrightarrow> distinct (h' t)"
  shows "shared_out D fs h'"
  using assms unfolding shared_out_def by simp

lemma shared_out_take:
  assumes "shared_out D (a # fs) h" "\<And>u. h' u = (if u = t then a # h t else h u)"
  shows "shared_out D fs h'"
proof -
  note S = shared_outD [OF assms(1)]
  have a: "a \<notin> set (h u)" "a \<notin> set fs" for u using S(4) [of a u] S(1) by auto
  show ?thesis
  proof (rule shared_outI)
    show "distinct fs" using S(1) by simp
    show "x \<in> D \<longleftrightarrow> x \<in> set fs \<or> (\<exists>t. x \<in> set (h' t))" for x
      using S(2) [of x] by (simp add: assms(2)) (metis list.set_intros set_ConsD)
    show "distinct (h' u)" for u using S(3) [of u] S(3) [of t] a by (simp add: assms(2))
    show "x \<notin> set fs" if "x \<in> set (h' u)" for u x using that S(4) [of x u] S(4) [of x t] a by (auto simp: assms(2) split: if_splits)
    show "u = v" if "x \<in> set (h' u)" "x \<in> set (h' v)" for u v x
      using that a S(5) [of x] by (auto simp: assms(2) split: if_splits)
  qed
qed

lemma shared_out_back:
  assumes "shared_out D fs h" "h t = a # r" "\<And>u. h' u = (if u = t then r else h u)"
  shows "shared_out D (a # fs) h'"
proof -
  note S = shared_outD [OF assms(1)]
  have at: "a \<in> set (h t)" by (simp add: assms(2))
  have a: "a \<notin> set r" "u \<noteq> t \<Longrightarrow> a \<notin> set (h u)" for u
    using S(3) [of t] S(5) [OF at, of u] by (auto simp: assms(2))
  have e: "x \<in> set (h' u) \<longleftrightarrow> x \<noteq> a \<and> x \<in> set (h u)" for x u
    using a by (cases "u = t") (auto simp: assms(2,3))
  show ?thesis
  proof (rule shared_outI)
    show "distinct (a # fs)" using S(1) S(4) [OF at] by simp
    show "x \<in> D \<longleftrightarrow> x \<in> set (a # fs) \<or> (\<exists>t. x \<in> set (h' t))" for x
      using S(2) [of x] at by (auto simp: e)
    show "distinct (h' u)" for u using S(3) [of u] S(3) [of t] assms(2) by (simp add: assms(3))
    show "x \<notin> set (a # fs)" if "x \<in> set (h' u)" for u x
      using that S(4) [of x u] by (simp add: e)
    show "u = v" if "x \<in> set (h' u)" "x \<in> set (h' v)" for u v x
      using that S(5) [of x u v] by (simp add: e)
  qed
qed

lemma shared_out_move:
  assumes "shared_out D fs h" "a \<in> set (h t)" "t \<noteq> u" "set (h' t) = set (h t) - {a}" "distinct (h' t)"
    "h' u = b @ a # c" "h u = b @ c" "\<And>v. v \<noteq> t \<Longrightarrow> v \<noteq> u \<Longrightarrow> h' v = h v"
  shows "shared_out D fs h'"
proof -
  note S = shared_outD [OF assms(1)]
  have a: "v \<noteq> t \<Longrightarrow> a \<notin> set (h v)" for v using S(5) [OF assms(2)] by blast
  have e: "x \<in> set (h' v) \<longleftrightarrow> (if x = a then v = u else x \<in> set (h v))" for x v
  proof (cases "v = t")
    case True
    then show ?thesis using assms(3,4) by auto
  next
    case False
    then have "a \<notin> set (h v)" "v \<noteq> u \<Longrightarrow> h' v = h v" by (rule a, rule assms(8))
    then show ?thesis by (cases "v = u") (auto simp: assms(6,7))
  qed
  show ?thesis
  proof (rule shared_outI)
    show "distinct fs" by (rule S(1))
    show "x \<in> D \<longleftrightarrow> x \<in> set fs \<or> (\<exists>t. x \<in> set (h' t))" for x
      using S(2) [of x] assms(2) by (auto simp: e)
    have "distinct (h' u)" using S(3) [of u] a [of u] assms(3) by (simp add: assms(6,7))
    then show "distinct (h' v)" for v
      using S(3) [of v] assms(5) assms(8) [of v] by (cases "v = t"; cases "v = u") simp_all
    show "x \<notin> set fs" if "x \<in> set (h' v)" for v x
      using that S(4) [of x v] S(4) [OF assms(2)] by (auto simp: e split: if_splits)
    show "v = w" if "x \<in> set (h' v)" "x \<in> set (h' w)" for v w x
      using that S(5) [of x v w] by (auto simp: e split: if_splits)
  qed
qed

section \<open>The invariant\<close>

fun pc_ok :: "u64 set \<Rightarrow> u64 set \<Rightarrow> u64 set \<Rightarrow> (u64 \<rightharpoonup> node) \<Rightarrow> pool_pc \<Rightarrow> bool" where
  "pc_ok old pend keys m (Alloc_next k) \<longleftrightarrow> k \<in> old - pend"
| "pc_ok old pend keys m (Alloc_cas k next) \<longleftrightarrow> k \<in> old - pend \<and>
     (k \<in> keys \<longrightarrow> map_option nd_poolNext (m (MAKE_NODEPTR k)) = Some next)"
| "pc_ok old pend keys m (Free_number a k) \<longleftrightarrow> map_option nd_poolNext (m a) = Some k"
| "pc_ok old pend keys m (Free_cas a k n) \<longleftrightarrow> map_option nd_poolNext (m a) = Some k \<and> n \<in> old \<and> MAKE_NODEPTR n = a"
| "pc_ok old pend keys m _ \<longleftrightarrow> True"

definition pool_inv :: "u64 \<Rightarrow> u64 set \<Rightarrow> nat \<Rightarrow> u64 list \<Rightarrow> pool_sys \<Rightarrow> bool" where
  "pool_inv pc D j fs s \<longleftrightarrow>
     (let p = ps_pool s; m = np_mem p; keys = path_keys m (np_topKey p) fs; old = old_keys pc D j; pend = pending (ps_pc s) in
      good_nodes D \<and> dom m = D \<and> np_pushCount p = pc + of_nat j \<and> pool_path m (np_topKey p) fs \<and>
      keys \<subseteq> old - pend \<and> shared_out D fs (held s) \<and> (\<forall>t. pc_ok old pend keys m (ps_pc s t)))"

lemma pool_invD:
  assumes "pool_inv pc D j fs s"
  shows "good_nodes D" "dom (np_mem (ps_pool s)) = D" "np_pushCount (ps_pool s) = pc + of_nat j"
    "pool_path (np_mem (ps_pool s)) (np_topKey (ps_pool s)) fs"
    "path_keys (np_mem (ps_pool s)) (np_topKey (ps_pool s)) fs \<subseteq> old_keys pc D j - pending (ps_pc s)"
    "shared_out D fs (held s)"
    "pc_ok (old_keys pc D j) (pending (ps_pc s)) (path_keys (np_mem (ps_pool s)) (np_topKey (ps_pool s)) fs)
       (np_mem (ps_pool s)) (ps_pc s t)"
  using assms by (simp_all add: pool_inv_def Let_def)

text \<open>What a step of another thread may change for \<open>pc_ok\<close>.\<close>

lemma pc_ok_mono:
  assumes "pc_ok old pend keys m c" "old \<subseteq> old'" "pend' \<inter> old \<subseteq> pend" "keys' \<inter> (old - pend) \<subseteq> keys"
    and "\<And>k. k \<in> keys \<Longrightarrow> m' (MAKE_NODEPTR k) = m (MAKE_NODEPTR k)" "\<And>a. a \<in> set (pc_node c) \<Longrightarrow> m' a = m a"
  shows "pc_ok old' pend' keys' m' c"
proof (cases c)
  case (Alloc_cas k n)
  then have "k \<in> old' - pend'" "k \<in> keys' \<Longrightarrow> k \<in> keys" using assms(1-4) by auto
  then show ?thesis using assms(1,5) Alloc_cas by auto
qed (use assms in auto)

lemma pending_upd: "pending (f(t := c)) \<subseteq> pending f \<union> (case c of Free_cas a k n \<Rightarrow> {n} | _ \<Rightarrow> {})"
  by (auto simp: pending_def split: if_splits)

lemma pool_inv_step:
  assumes inv: "pool_inv pc D j fs s" and c: "ps_pc s' = (ps_pc s)(t := c)"
    and m: "m = np_mem (ps_pool s)" "m' = np_mem (ps_pool s')" and k: "keys = path_keys m (np_topKey (ps_pool s)) fs"
    "keys' = path_keys m' (np_topKey (ps_pool s')) fs'"
    and j: "j \<le> j'" "np_pushCount (ps_pool s') = pc + of_nat j'"
    and path: "dom m' = D" "pool_path m' (np_topKey (ps_pool s')) fs'" "keys' \<subseteq> old_keys pc D j' - pending (ps_pc s')"
    and pend: "pending (ps_pc s') \<inter> old_keys pc D j \<subseteq> pending (ps_pc s)"
    and keys: "keys' \<inter> (old_keys pc D j - pending (ps_pc s)) \<subseteq> keys"
    and same: "\<And>k. k \<in> keys \<Longrightarrow> m' (MAKE_NODEPTR k) = m (MAKE_NODEPTR k)"
      "\<And>u a. u \<noteq> t \<Longrightarrow> a \<in> set (pc_node (ps_pc s u)) \<Longrightarrow> m' a = m a"
    and own: "shared_out D fs' (held s')"
    and ok: "pc_ok (old_keys pc D j') (pending (ps_pc s')) keys' m' c"
  shows "pool_inv pc D j' fs' s'"
proof -
  note I = pool_invD [OF inv, folded m(1), folded k(1)]
  have old: "old_keys pc D j \<subseteq> old_keys pc D j'" using j(1) by (auto intro: old_keys_mono)
  have "pc_ok (old_keys pc D j') (pending (ps_pc s')) keys' m' (ps_pc s' u)" for u
  proof (cases "u = t")
    case False
    have "pc_ok (old_keys pc D j') (pending (ps_pc s')) keys' m' (ps_pc s u)"
      by (rule pc_ok_mono [OF I(7) old pend keys same(1) same(2) [OF False]])
    then show ?thesis using False c by simp
  qed (use ok c in simp)
  then show ?thesis using I(1) j(2) path own by (simp add: pool_inv_def Let_def m(2) [symmetric] k(2) [symmetric])
qed

text \<open>Steps that leave the free list and the nodes of everyone as they are.\<close>

lemma pool_inv_quiet:
  assumes inv: "pool_inv pc D j fs s" and c: "ps_pc s' = (ps_pc s)(t := c)" "\<And>a k n. c \<noteq> Free_cas a k n"
    and p: "np_mem (ps_pool s') = np_mem (ps_pool s)" "np_topKey (ps_pool s') = np_topKey (ps_pool s)"
      "np_pushCount (ps_pool s') = np_pushCount (ps_pool s)"
    and h: "\<And>u. set (held s' u) = set (held s u)" "\<And>u. distinct (held s u) \<Longrightarrow> distinct (held s' u)"
    and ok: "pc_ok (old_keys pc D j) (pending (ps_pc s)) (path_keys (np_mem (ps_pool s)) (np_topKey (ps_pool s)) fs)
      (np_mem (ps_pool s)) c"
  shows "pool_inv pc D j fs s'"
proof -
  note I = pool_invD [OF inv]
  have pend: "pending (ps_pc s') \<subseteq> pending (ps_pc s)"
    using pending_upd [of "ps_pc s" t c] c by (cases c) auto
  show ?thesis
  proof (rule pool_inv_step [OF inv c(1) refl refl refl refl])
    show "pc_ok (old_keys pc D j) (pending (ps_pc s')) (path_keys (np_mem (ps_pool s')) (np_topKey (ps_pool s')) fs) (np_mem (ps_pool s')) c"
      unfolding p by (rule pc_ok_mono [OF ok]) (use pend in auto)
    show "shared_out D fs (held s')" by (rule shared_out_same [OF I(6) h])
    show "path_keys (np_mem (ps_pool s')) (np_topKey (ps_pool s')) fs \<subseteq> old_keys pc D j - pending (ps_pc s')"
      unfolding p using I(5) pend by blast
    show "pending (ps_pc s') \<inter> old_keys pc D j \<subseteq> pending (ps_pc s)" using pend by blast
  qed (use I in \<open>simp_all add: p\<close>)
qed

lemma held_node: "a \<in> set (pc_node (ps_pc s t)) \<Longrightarrow> a \<in> set (held s t)"
  by (simp add: held_def)

text \<open>A node in the hand of a thread is in the memory, not in the free list and not in another hand.\<close>

lemma node_private:
  assumes "pool_inv pc D j fs s" "a \<in> set (held s t)"
  shows "a \<in> D" "a \<notin> set fs" "u \<noteq> t \<Longrightarrow> a \<notin> set (held s u)" "\<exists>n. np_mem (ps_pool s) a = Some n" "a \<noteq> 0" "unat a < 2 ^ 48"
proof -
  note I = pool_invD [OF assms(1)]
  note S = shared_outD [OF I(6)]
  show D: "a \<in> D" using S(2) [of a] assms(2) by blast
  show "a \<notin> set fs" by (rule S(4) [OF assms(2)])
  show "u \<noteq> t \<Longrightarrow> a \<notin> set (held s u)" using S(5) [OF assms(2)] by blast
  show "\<exists>n. np_mem (ps_pool s) a = Some n" using D I(2) by blast
  show "a \<noteq> 0" "unat a < 2 ^ 48" using D I(1) by (simp_all add: good_nodes_def)
qed

section \<open>The steps\<close>

lemma step_Alloc_read:
  assumes inv: "pool_inv pc D j fs s" and c: "ps_pc s t = Alloc_read"
    and st: "pool_pc_step (ps_pc s t) (ps_pool s) = Some (p, c')"
  shows "pool_inv pc D j fs (s\<lparr>ps_pool := p, ps_pc := (ps_pc s)(t := c')\<rparr>)"
proof -
  note I = pool_invD [OF inv]
  have e: "p = ps_pool s" "c' = (if MAKE_NODEPTR (np_topKey (ps_pool s)) = 0 then Alloc_done 0 else Alloc_next (np_topKey (ps_pool s)))"
    using st by (auto simp: c pool_pc_step_def Let_def)
  have k: "np_topKey (ps_pool s) \<in> old_keys pc D j - pending (ps_pc s)" if "MAKE_NODEPTR (np_topKey (ps_pool s)) \<noteq> 0"
  proof -
    have "np_topKey (ps_pool s) \<noteq> 0" using that by auto
    from path_top [OF I(4) this] I(5) show ?thesis by blast
  qed
  show ?thesis
    by (rule pool_inv_quiet [OF inv, where t = t and c = c']) (use k in \<open>auto simp: e held_def c split: if_splits\<close>)
qed

lemma step_Alloc_next:
  assumes inv: "pool_inv pc D j fs s" and c: "ps_pc s t = Alloc_next k"
    and st: "pool_pc_step (ps_pc s t) (ps_pool s) = Some (p, c')"
  shows "pool_inv pc D j fs (s\<lparr>ps_pool := p, ps_pc := (ps_pc s)(t := c')\<rparr>)"
proof -
  obtain n where e: "p = ps_pool s" "c' = Alloc_cas k (nd_poolNext n)" "np_mem (ps_pool s) (MAKE_NODEPTR k) = Some n"
    using st by (auto simp: c pool_pc_step_def Let_def split: option.splits)
  show ?thesis
    by (rule pool_inv_quiet [OF inv, where t = t and c = c']) (use pool_invD(7) [OF inv, of t] in \<open>auto simp: e held_def c\<close>)
qed

lemma step_Alloc_cas:
  assumes inv: "pool_inv pc D j fs s" and c: "ps_pc s t = Alloc_cas k nxt"
    and st: "pool_pc_step (ps_pc s t) (ps_pool s) = Some (p, c')"
  shows "\<exists>fs'. pool_inv pc D j fs' (s\<lparr>ps_pool := p, ps_pc := (ps_pc s)(t := c')\<rparr>)"
proof (cases "np_topKey (ps_pool s) = k")
  case False
  then have "p = ps_pool s" "c' = Alloc_read" using st by (simp_all add: c pool_pc_step_def Let_def cas_def)
  then show ?thesis
    by (intro exI [of _ fs], intro pool_inv_quiet [OF inv, where t = t and c = c']) (auto simp: held_def c)
next
  case True
  note I = pool_invD [OF inv]
  have e: "p = (ps_pool s)\<lparr>np_topKey := nxt\<rparr>" "c' = Alloc_count (MAKE_NODEPTR k)"
    using st True by (simp_all add: c pool_pc_step_def Let_def cas_def)
  have ok: "k \<in> old_keys pc D j" using I(7) [of t] by (simp add: c)
  then have "MAKE_NODEPTR k \<noteq> 0" using old_key_node [OF ok I(1)] I(1) by (auto simp: good_nodes_def)
  then have k0: "k \<noteq> 0" by auto
  then obtain gs where fs: "fs = MAKE_NODEPTR k # gs" using I(4) True by (cases fs) auto
  obtain n where n: "np_mem (ps_pool s) (MAKE_NODEPTR k) = Some n" "pool_path (np_mem (ps_pool s)) (nd_poolNext n) gs"
    using I(4) by (auto simp: fs split: option.splits)
  have "nxt = nd_poolNext n" using I(7) [of t] True n(1) by (simp add: c fs)
  then have path: "pool_path (np_mem (ps_pool s)) nxt gs"
    "path_keys (np_mem (ps_pool s)) (np_topKey (ps_pool s)) fs = insert k (path_keys (np_mem (ps_pool s)) nxt gs)"
    using n True by (simp_all add: fs)
  have pend: "pending ((ps_pc s)(t := c')) \<subseteq> pending (ps_pc s)" using pending_upd [of "ps_pc s" t c'] by (simp add: e)
  have "pool_inv pc D j gs (s\<lparr>ps_pool := p, ps_pc := (ps_pc s)(t := c')\<rparr>)"
  proof (rule pool_inv_step [OF inv, where t = t and c = c', OF _ refl refl refl refl])
    show "shared_out D gs (held (s\<lparr>ps_pool := p, ps_pc := (ps_pc s)(t := c')\<rparr>))"
      by (rule shared_out_take [OF I(6) [unfolded fs], where t = t]) (simp add: held_def c e)
  qed (use I path pend in \<open>auto simp: e\<close>)
  then show ?thesis by blast
qed

lemma step_Free_write:
  assumes inv: "pool_inv pc D j fs s" and c: "ps_pc s t = Free_write a k"
    and st: "pool_pc_step (ps_pc s t) (ps_pool s) = Some (p, c')"
  shows "pool_inv pc D j fs (s\<lparr>ps_pool := p, ps_pc := (ps_pc s)(t := c')\<rparr>)"
proof -
  note I = pool_invD [OF inv]
  have h: "a \<in> set (held s t)" by (simp add: held_def c)
  note P = node_private [OF inv h]
  obtain n where n: "np_mem (ps_pool s) a = Some n" using P(4) by blast
  let ?m = "(np_mem (ps_pool s))(a \<mapsto> n\<lparr>nd_poolNext := k\<rparr>)"
  have e: "p = (ps_pool s)\<lparr>np_mem := ?m\<rparr>" "c' = Free_number a k"
    using st n by (simp_all add: c pool_pc_step_def)
  have path: "pool_path ?m (np_topKey (ps_pool s)) fs"
    "path_keys ?m (np_topKey (ps_pool s)) fs = path_keys (np_mem (ps_pool s)) (np_topKey (ps_pool s)) fs"
    using I(4) P(2) by (simp_all add: pool_path_upd path_keys_upd)
  have pend: "pending ((ps_pc s)(t := c')) \<subseteq> pending (ps_pc s)" using pending_upd [of "ps_pc s" t c'] by (simp add: e)
  have own: "shared_out D fs (held (s\<lparr>ps_pool := p, ps_pc := (ps_pc s)(t := c')\<rparr>))"
    by (rule shared_out_same [OF I(6)]) (auto simp: held_def c e split: if_splits)
  have nk: "MAKE_NODEPTR x \<noteq> a" if "x \<in> path_keys (np_mem (ps_pool s)) (np_topKey (ps_pool s)) fs" for x
    using path_keys_node [OF I(4) that] P(2) by blast
  have other: "b \<noteq> a" if "u \<noteq> t" "b \<in> set (pc_node (ps_pc s u))" for u b
    using P(3) [OF that(1)] held_node [OF that(2)] by blast
  show ?thesis
  proof (rule pool_inv_step [OF inv, where t = t and c = c', OF _ refl refl refl refl])
    show "dom (np_mem (ps_pool (s\<lparr>ps_pool := p, ps_pc := (ps_pc s)(t := c')\<rparr>))) = D"
      using I(2) P(1) by (auto simp: e)
  qed (use I path pend own nk other in \<open>auto simp: e\<close>)
qed

lemma step_Free_number:
  assumes inv: "pool_inv pc D j fs s" and c: "ps_pc s t = Free_number a k" and b: "Suc j < 2 ^ 16"
    and st: "pool_pc_step (ps_pc s t) (ps_pool s) = Some (p, c')"
  shows "pool_inv pc D (Suc j) fs (s\<lparr>ps_pool := p, ps_pc := (ps_pc s)(t := c')\<rparr>)"
proof -
  note I = pool_invD [OF inv]
  have h: "a \<in> set (held s t)" by (simp add: held_def c)
  note P = node_private [OF inv h]
  define nk where "nk = MAKE_KEY a (pc + of_nat (Suc j))"
  have e: "p = (ps_pool s)\<lparr>np_pushCount := pc + of_nat (Suc j)\<rparr>" "c' = Free_cas a k nk"
    using st by (simp_all add: c pool_pc_step_def nk_def I(3) add.commute add.left_commute Let_def)
  have new: "nk \<notin> old_keys pc D j" unfolding nk_def by (rule new_key_fresh [OF I(1) P(1) b])
  have ok: "nk \<in> old_keys pc D (Suc j)" "MAKE_NODEPTR nk = a"
    unfolding nk_def using P(1,6) by (blast intro: old_keysI, simp only: NODEPTR_KEY)
  have old: "old_keys pc D j \<subseteq> old_keys pc D (Suc j)" by (auto intro: old_keys_mono)
  have pend: "pending ((ps_pc s)(t := c')) \<subseteq> insert nk (pending (ps_pc s))"
    using pending_upd [of "ps_pc s" t c'] by (simp add: e)
  have own: "shared_out D fs (held (s\<lparr>ps_pool := p, ps_pc := (ps_pc s)(t := c')\<rparr>))"
    by (rule shared_out_same [OF I(6)]) (auto simp: held_def c e split: if_splits)
  show ?thesis
  proof (rule pool_inv_step [OF inv, where t = t and c = c', OF _ refl refl refl refl])
    show "pending (ps_pc (s\<lparr>ps_pool := p, ps_pc := (ps_pc s)(t := c')\<rparr>)) \<inter> old_keys pc D j \<subseteq> pending (ps_pc s)"
      using pend new by auto
    show "path_keys (np_mem (ps_pool (s\<lparr>ps_pool := p, ps_pc := (ps_pc s)(t := c')\<rparr>)))
        (np_topKey (ps_pool (s\<lparr>ps_pool := p, ps_pc := (ps_pc s)(t := c')\<rparr>))) fs
      \<subseteq> old_keys pc D (Suc j) - pending (ps_pc (s\<lparr>ps_pool := p, ps_pc := (ps_pc s)(t := c')\<rparr>))"
      using I(5) pend new old by (auto simp: e)
    show "shared_out D fs (held (s\<lparr>ps_pool := p, ps_pc := (ps_pc s)(t := c')\<rparr>))" by (rule own)
  qed (use I(2,4) I(7) [of t] ok in \<open>simp_all add: e c\<close>)
qed

lemma step_Free_cas:
  assumes inv: "pool_inv pc D j fs s" and c: "ps_pc s t = Free_cas a k nk"
    and st: "pool_pc_step (ps_pc s t) (ps_pool s) = Some (p, c')"
  shows "\<exists>fs'. pool_inv pc D j fs' (s\<lparr>ps_pool := p, ps_pc := (ps_pc s)(t := c')\<rparr>)"
proof (cases "np_topKey (ps_pool s) = k")
  case False
  then have "p = ps_pool s" "c' = Free_read a" using st by (simp_all add: c pool_pc_step_def Let_def cas_def)
  then show ?thesis
    by (intro exI [of _ fs], intro pool_inv_quiet [OF inv, where t = t and c = c']) (auto simp: held_def c)
next
  case True
  note I = pool_invD [OF inv]
  have h: "a \<in> set (held s t)" by (simp add: held_def c)
  note P = node_private [OF inv h]
  have e: "p = (ps_pool s)\<lparr>np_topKey := nk\<rparr>" "c' = Free_count"
    using st True by (simp_all add: c pool_pc_step_def Let_def cas_def)
  obtain n where n: "np_mem (ps_pool s) a = Some n" "nd_poolNext n = k" and ok: "nk \<in> old_keys pc D j" "MAKE_NODEPTR nk = a"
    using I(7) [of t] by (auto simp: c)
  have path: "pool_path (np_mem (ps_pool s)) nk (a # fs)"
    "path_keys (np_mem (ps_pool s)) nk (a # fs) = insert nk (path_keys (np_mem (ps_pool s)) (np_topKey (ps_pool s)) fs)"
    using n ok I(4) P(5) True by simp_all
  have mine: "nk \<in> pending (ps_pc s)" using c by (auto simp: pending_def)
  have pend: "pending ((ps_pc s)(t := c')) \<subseteq> pending (ps_pc s)" using pending_upd [of "ps_pc s" t c'] by (simp add: e)
  have gone: "nk \<notin> pending ((ps_pc s)(t := c'))"
  proof
    assume "nk \<in> pending ((ps_pc s)(t := c'))"
    then obtain u b l where u: "u \<noteq> t" "ps_pc s u = Free_cas b l nk" by (auto simp: pending_def e split: if_splits)
    then have "b = a" using I(7) [of u] ok(2) by auto
    then have "a \<in> set (held s u)" using u by (simp add: held_def)
    then show False using P(3) [OF u(1)] by blast
  qed
  have own: "shared_out D (a # fs) (held (s\<lparr>ps_pool := p, ps_pc := (ps_pc s)(t := c')\<rparr>))"
    by (rule shared_out_back [OF I(6), where t = t and r = "ps_own s t"]) (simp_all add: held_def c e)
  have "pool_inv pc D j (a # fs) (s\<lparr>ps_pool := p, ps_pc := (ps_pc s)(t := c')\<rparr>)"
  proof (rule pool_inv_step [OF inv, where t = t and c = c', OF _ refl refl refl refl])
    show "shared_out D (a # fs) (held (s\<lparr>ps_pool := p, ps_pc := (ps_pc s)(t := c')\<rparr>))" by (rule own)
    show "pool_path (np_mem (ps_pool (s\<lparr>ps_pool := p, ps_pc := (ps_pc s)(t := c')\<rparr>)))
      (np_topKey (ps_pool (s\<lparr>ps_pool := p, ps_pc := (ps_pc s)(t := c')\<rparr>))) (a # fs)" using path(1) by (simp add: e)
    show "path_keys (np_mem (ps_pool (s\<lparr>ps_pool := p, ps_pc := (ps_pc s)(t := c')\<rparr>)))
        (np_topKey (ps_pool (s\<lparr>ps_pool := p, ps_pc := (ps_pc s)(t := c')\<rparr>))) (a # fs)
      \<subseteq> old_keys pc D j - pending (ps_pc (s\<lparr>ps_pool := p, ps_pc := (ps_pc s)(t := c')\<rparr>))"
      using path(2) I(5) ok(1) pend gone by (auto simp: e simp del: path_keys.simps)
    show "path_keys (np_mem (ps_pool (s\<lparr>ps_pool := p, ps_pc := (ps_pc s)(t := c')\<rparr>)))
        (np_topKey (ps_pool (s\<lparr>ps_pool := p, ps_pc := (ps_pc s)(t := c')\<rparr>))) (a # fs) \<inter> (old_keys pc D j - pending (ps_pc s))
      \<subseteq> path_keys (np_mem (ps_pool s)) (np_topKey (ps_pool s)) fs"
      using path(2) mine by (auto simp: e simp del: path_keys.simps)
    show "pending (ps_pc (s\<lparr>ps_pool := p, ps_pc := (ps_pc s)(t := c')\<rparr>)) \<inter> old_keys pc D j \<subseteq> pending (ps_pc s)"
      using pend by auto
  qed (use I(2,3) in \<open>simp_all add: e del: path_keys.simps pool_path.simps\<close>)
  then show ?thesis by blast
qed

lemma step_Free_read:
  assumes inv: "pool_inv pc D j fs s" and c: "ps_pc s t = Free_read a"
    and st: "pool_pc_step (ps_pc s t) (ps_pool s) = Some (p, c')"
  shows "pool_inv pc D j fs (s\<lparr>ps_pool := p, ps_pc := (ps_pc s)(t := c')\<rparr>)"
proof -
  have e: "p = ps_pool s" "c' = Free_write a (np_topKey (ps_pool s))" using st by (auto simp: c pool_pc_step_def)
  show ?thesis by (rule pool_inv_quiet [OF inv, where t = t and c = c']) (auto simp: e held_def c)
qed

lemma step_counts:
  assumes inv: "pool_inv pc D j fs s" and c: "ps_pc s t = Free_count \<or> ps_pc s t = Alloc_count a" "a \<noteq> 0"
    and st: "pool_pc_step (ps_pc s t) (ps_pool s) = Some (p, c')"
  shows "pool_inv pc D j fs (s\<lparr>ps_pool := p, ps_pc := (ps_pc s)(t := c')\<rparr>)"
proof -
  have e: "np_mem p = np_mem (ps_pool s)" "np_topKey p = np_topKey (ps_pool s)" "np_pushCount p = np_pushCount (ps_pool s)"
    "c' = Free_done \<and> ps_pc s t = Free_count \<or> c' = Alloc_done a \<and> ps_pc s t = Alloc_count a" using st c by (auto simp: pool_pc_step_def)
  show ?thesis by (rule pool_inv_quiet [OF inv, where t = t and c = c']) (use e c in \<open>auto simp: held_def\<close>)
qed

lemma access_inv:
  assumes inv: "pool_inv pc D j fs s" and st: "pool_pc_step (ps_pc s t) (ps_pool s) = Some (p, c')"
    and b: "(case ps_pc s t of Free_number a k \<Rightarrow> Suc j | _ \<Rightarrow> j) < 2 ^ 16"
  shows "\<exists>fs'. pool_inv pc D (case ps_pc s t of Free_number a k \<Rightarrow> Suc j | _ \<Rightarrow> j) fs' (s\<lparr>ps_pool := p, ps_pc := (ps_pc s)(t := c')\<rparr>)"
proof (cases "ps_pc s t")
  case (Alloc_count a)
  have "a \<noteq> 0" by (rule node_private(5) [OF inv, where t = t]) (simp add: held_def Alloc_count)
  then show ?thesis using step_counts [OF inv _ _ st, of a] Alloc_count by auto
next
  case Free_count
  then show ?thesis using step_counts [OF inv _ _ st, of 1] by auto
qed (use step_Alloc_read [OF inv _ st] step_Alloc_next [OF inv _ st] step_Alloc_cas [OF inv _ st] step_Free_write [OF inv _ st]
      step_Free_number [OF inv _ _ st] step_Free_cas [OF inv _ st] step_Free_read [OF inv _ st] st b in \<open>auto simp: pool_pc_step_def\<close>)

section \<open>Every run\<close>

lemma run_inv:
  assumes "pool_run s0 m s" "pool_inv pc D j fs s0" "j + m < 2 ^ 16"
  shows "\<exists>fs'. pool_inv pc D (j + m) fs' s"
  using assms
proof (induction rule: pool_run.induct)
  case run_start
  then show ?case by auto
next
  case (run_alloc m s t)
  then obtain fs' where inv: "pool_inv pc D (j + m) fs' s" by blast
  show ?case
    by (intro exI [of _ fs'], rule pool_inv_quiet [OF inv, where t = t and c = Alloc_read]) (auto simp: held_def run_alloc.hyps)
next
  case (run_free m s t a)
  then obtain fs' where inv: "pool_inv pc D (j + m) fs' s" by blast
  have d: "distinct (ps_own s t)" using shared_outD(3) [OF pool_invD(6) [OF inv], of t] by (simp add: held_def)
  show ?case
    by (intro exI [of _ fs'], rule pool_inv_quiet [OF inv, where t = t and c = "Free_read a"])
      (use run_free.hyps d in \<open>auto simp: held_def set_remove1_eq\<close>)
next
  case (run_access m s t p c m')
  have le: "j + m < 2 ^ 16" using run_access.prems run_access.hyps(3) by (auto split: pool_pc.splits)
  then obtain fs' where inv: "pool_inv pc D (j + m) fs' s" using run_access by blast
  have m': "(case ps_pc s t of Free_number a k \<Rightarrow> Suc (j + m) | _ \<Rightarrow> j + m) = j + m'"
    using run_access.hyps(3) by (auto split: pool_pc.splits)
  show ?case using access_inv [OF inv run_access.hyps(2)] run_access.prems(2) by (simp add: m')
next
  case (run_return m s t a)
  then obtain fs' where inv: "pool_inv pc D (j + m) fs' s" by blast
  show ?case
    by (intro exI [of _ fs'], rule pool_inv_quiet [OF inv, where t = t and c = Pool_idle]) (auto simp: held_def run_return.hyps)
next
  case (run_freed m s t)
  then obtain fs' where inv: "pool_inv pc D (j + m) fs' s" by blast
  show ?case
    by (intro exI [of _ fs'], rule pool_inv_quiet [OF inv, where t = t and c = Pool_idle]) (auto simp: held_def run_freed.hyps)
next
  case (run_give m s a t u)
  then obtain fs' where inv: "pool_inv pc D (j + m) fs' s" by blast
  let ?s = "s\<lparr>ps_own := (ps_own s)(t := remove1 a (ps_own s t), u := a # ps_own s u)\<rparr>"
  note I = pool_invD [OF inv]
  have d: "distinct (held s t)" by (rule shared_outD(3) [OF I(6)])
  have "shared_out D fs' (held ?s)"
    by (rule shared_out_move [OF I(6), where a = a and t = t and u = u and b = "pc_node (ps_pc s u)" and c = "ps_own s u"])
      (use run_give.hyps d in \<open>auto simp: held_def set_remove1_eq\<close>)
  then have "pool_inv pc D (j + m) fs' ?s" using I by (simp add: pool_inv_def Let_def)
  then show ?case by blast
qed

section \<open>From the constructor\<close>

lemma path_keys_cons_upd:
  "path_keys (m(a := Some n)) k (a # fs) = insert k (path_keys (m(a := Some n)) (nd_poolNext n) fs)"
  by simp

lemma np_fill_keys:
  assumes "np_fill raw as p = Some p'" "np_rep p fs" "np_pushCount p = pc + of_nat i"
    "path_keys (np_mem p) (np_topKey p) fs \<subseteq> old_keys pc D i" "set as \<subseteq> D" "dom (np_mem p) \<subseteq> D"
    "distinct as" "set as \<inter> dom (np_mem p) = {}" "\<forall>a \<in> set as. a \<noteq> 0 \<and> unat a < 2 ^ 48"
  shows "path_keys (np_mem p') (np_topKey p') (rev as @ fs) \<subseteq> old_keys pc D (i + length as) \<and>
    np_pushCount p' = pc + of_nat (i + length as)"
  using assms
proof (induction as arbitrary: p fs i)
  case (Cons a as)
  let ?p = "p\<lparr>np_mem := (np_mem p)(a \<mapsto> (raw a)\<lparr>nd_poolNext := np_topKey p\<rparr>),
           np_topKey := MAKE_KEY a (np_pushCount p), np_pushCount := np_pushCount p + 1\<rparr>"
  have a: "a \<noteq> 0" "unat a < 2 ^ 48" "a \<notin> dom (np_mem p)" "a \<in> D" using Cons.prems by auto
  have af: "a \<notin> set fs" using Cons.prems(2) a pool_path_dom by (fastforce simp: np_rep_def)
  have rep: "np_rep ?p (a # fs)"
    using Cons.prems(2) a af by (auto simp: np_rep_def pool_path_upd NODEPTR_KEY)
  have keys: "path_keys (np_mem ?p) (np_topKey ?p) (a # fs) \<subseteq> old_keys pc D (Suc i)"
  proof -
    have e: "path_keys (np_mem ?p) (np_topKey ?p) (a # fs) =
        insert (MAKE_KEY a (pc + of_nat i)) (path_keys (np_mem p) (np_topKey p) fs)"
      using af Cons.prems(3) by (simp add: path_keys_upd)
    have "MAKE_KEY a (pc + of_nat i) \<in> old_keys pc D (Suc i)" by (rule old_keysI [OF a(4)]) simp
    moreover have "old_keys pc D i \<subseteq> old_keys pc D (Suc i)" by (auto intro: old_keys_mono)
    ultimately show ?thesis unfolding e using Cons.prems(4) by blast
  qed
  have "path_keys (np_mem p') (np_topKey p') (rev as @ (a # fs)) \<subseteq> old_keys pc D (Suc i + length as) \<and>
    np_pushCount p' = pc + of_nat (Suc i + length as)"
  proof (rule Cons.IH [OF _ rep _ keys])
    show "np_fill raw as ?p = Some p'" using Cons.prems(1) a(1) by simp
    show "np_pushCount ?p = pc + of_nat (Suc i)" using Cons.prems(3) by (simp add: add_ac)
    show "set as \<inter> dom (np_mem ?p) = {}" using Cons.prems(7,8) by auto
    show "dom (np_mem ?p) \<subseteq> D" using Cons.prems(6) a(4) by simp
  qed (use Cons.prems a in auto)
  then show ?case by simp
qed (use assms in simp)

lemma start_inv:
  assumes n: "0 \<le> sint n" and m: "inj_on malloc {0..<nat (sint n)}"
    "\<And>i. i < nat (sint n) \<Longrightarrow> malloc i \<noteq> 0 \<and> unat (malloc i) < 2 ^ 48"
    and p: "nodePool_new raw pc malloc n = Some p"
  shows "pool_inv pc (malloc ` {0..<nat (sint n)}) (nat (sint n)) (rev (map malloc [0..<nat (sint n)])) (pool_start p)"
proof -
  let ?as = "map malloc [0..<nat (sint n)]"
  let ?D = "malloc ` {0..<nat (sint n)}"
  let ?e = "nodePool_empty pc \<lparr>np_maxSize := scast n\<rparr>"
  obtain q where q: "nodePool_new raw pc malloc n = Some q" "np_rep q (rev ?as)" "dom (np_mem q) = ?D"
    using nodePool_new_spec [OF n m, of raw pc] by blast
  then have q: "np_rep p (rev ?as)" "dom (np_mem p) = ?D" using p by simp_all
  have e: "np_rep ?e []" by (simp add: np_rep_def nodePool_empty_def)
  have k: "path_keys (np_mem p) (np_topKey p) (rev ?as @ []) \<subseteq> old_keys pc ?D (0 + length ?as) \<and>
      np_pushCount p = pc + of_nat (0 + length ?as)"
    by (rule np_fill_keys [OF p [unfolded nodePool_new_def] e])
      (use m in \<open>auto simp: nodePool_empty_def distinct_map\<close>)
  have own: "shared_out ?D (rev ?as) (held (pool_start p))"
    unfolding shared_out_def using m(1) by (auto simp: held_def pool_start_def distinct_map)
  have pend: "pending (ps_pc (pool_start p)) = {}" by (simp add: pending_def pool_start_def)
  have g: "good_nodes ?D" using m(2) by (auto simp: good_nodes_def)
  show ?thesis
    unfolding pool_inv_def Let_def pend using g q k own by (simp add: pool_start_def np_rep_def)
qed

lemma pool_safe:
  assumes n: "0 \<le> sint n" and m: "inj_on malloc {0..<nat (sint n)}"
    "\<And>i. i < nat (sint n) \<Longrightarrow> malloc i \<noteq> 0 \<and> unat (malloc i) < 2 ^ 48"
    and p: "nodePool_new raw pc malloc n = Some p"
    and run: "pool_run (pool_start p) k s" "nat (sint n) + k < 2 ^ 16"
  obtains fs where "pool_inv pc (malloc ` {0..<nat (sint n)}) (nat (sint n) + k) fs s"
  using run_inv [OF run(1) start_inv [OF n m p] run(2)] by blast

section \<open>A thread that runs alone\<close>

fun pool_solo :: "nat \<Rightarrow> pool_pc \<Rightarrow> nodePool \<Rightarrow> nodePool \<times> pool_pc" where
  "pool_solo 0 c p = (p, c)"
| "pool_solo (Suc n) c p = (case pool_pc_step c p of None \<Rightarrow> (p, c) | Some (p', c') \<Rightarrow> pool_solo n c' p')"

lemma solo_done [simp]: "pool_solo n (Alloc_done a) p = (p, Alloc_done a)" "pool_solo n Free_done p = (p, Free_done)"
  by (cases n; simp add: pool_pc_step_def)+

text \<open>The operations of \<open>Node_Pool\<close> are the runs without interference.\<close>

lemma solo_Alloc:
  assumes "MAKE_NODEPTR (np_topKey p) = 0 \<or> np_mem p (MAKE_NODEPTR (np_topKey p)) = Some n"
  shows "\<exists>p' a. np_Alloc p = Some (p', a) \<and> pool_solo (4 + k) Alloc_read p = (p', Alloc_done a)"
  using assms
  by (subst np_Alloc.simps) (auto simp: numeral_eq_Suc pool_pc_step_def Let_def cas_def)

lemma solo_Free:
  assumes "np_mem p a = Some n"
  shows "\<exists>p'. np_Free p a = Some (p', True) \<and> pool_solo (5 + k) (Free_read a) p = (p', Free_done)"
  using assms
  by (subst np_Free.simps) (auto simp: numeral_eq_Suc pool_pc_step_def Let_def cas_def)

definition busy :: "pool_pc \<Rightarrow> bool" where
  "busy c \<longleftrightarrow> (\<exists>p. pool_pc_step c p \<noteq> None)"

text \<open>Whatever the others have done, a thread that goes on alone is through after eight accesses.\<close>

lemma solo_ends:
  assumes inv: "pool_inv pc D j fs s" and c: "ps_pc s t \<notin> {Pool_idle}"
  shows "(\<exists>a. snd (pool_solo 8 (ps_pc s t) (ps_pool s)) = Alloc_done a) \<or> snd (pool_solo 8 (ps_pc s t) (ps_pool s)) = Free_done"
proof -
  note I = pool_invD [OF inv]
  let ?p = "ps_pool s"
  have top: "MAKE_NODEPTR (np_topKey ?p) = 0 \<or> (\<exists>n. np_mem ?p (MAKE_NODEPTR (np_topKey ?p)) = Some n)"
    using I(4) by (cases fs) (auto split: option.splits)
  have node: "\<exists>n. np_mem ?p a = Some n" if "a \<in> set (held s t)" for a by (rule node_private(4) [OF inv that])
  have A: "\<exists>a. snd (pool_solo (4 + k) Alloc_read ?p) = Alloc_done a" for k using solo_Alloc [of ?p _ k] top by force
  have F: "snd (pool_solo (5 + k) (Free_read a) ?p) = Free_done" if "a \<in> set (held s t)" for a k
    using solo_Free [of ?p a _ k] node [OF that] by force
  have old: "\<exists>n. np_mem ?p (MAKE_NODEPTR k) = Some n" if "k \<in> old_keys pc D j" for k
    using old_key_node [OF that I(1)] I(2) by blast
  show ?thesis
  proof (cases "ps_pc s t")
    case Alloc_read
    then show ?thesis using A [of 4] by simp
  next
    case (Alloc_next k)
    then obtain n where "np_mem ?p (MAKE_NODEPTR k) = Some n" using old I(7) [of t] by auto
    then show ?thesis using A [of 2] Alloc_next
      by (cases "np_topKey ?p = k") (simp_all add: numeral_eq_Suc pool_pc_step_def Let_def cas_def)
  next
    case (Alloc_cas k n)
    then show ?thesis using A [of 3]
      by (cases "np_topKey ?p = k") (simp_all add: numeral_eq_Suc pool_pc_step_def Let_def cas_def)
  next
    case (Alloc_count a)
    then show ?thesis by (simp add: numeral_eq_Suc pool_pc_step_def)
  next
    case (Free_read a)
    then show ?thesis using F [of a 3] by (simp add: held_def)
  next
    case (Free_write a k)
    then obtain n where "np_mem ?p a = Some n" using node [of a] by (auto simp: held_def)
    then show ?thesis using Free_write
      by (cases "np_topKey ?p = k") (simp_all add: numeral_eq_Suc pool_pc_step_def Let_def cas_def)
  next
    case (Free_number a k)
    then obtain n where "np_mem ?p a = Some n" using node [of a] by (auto simp: held_def)
    then show ?thesis using Free_number
      by (cases "np_topKey ?p = k") (simp_all add: numeral_eq_Suc pool_pc_step_def Let_def cas_def)
  next
    case (Free_cas a k n)
    then show ?thesis using F [of a 2]
      by (cases "np_topKey ?p = k") (simp_all add: held_def numeral_eq_Suc pool_pc_step_def Let_def cas_def)
  qed (use c in \<open>simp_all add: numeral_eq_Suc pool_pc_step_def\<close>)
qed

end
