(* ===== verification/Concurrent_Queue.thy ===== *)
theory Concurrent_Queue
  imports Concurrent_Pool Lock_Free_Queue
begin

text \<open>
  The queue of \<open>LockFreeQueue.h\<close> one access at a time, as \<open>Concurrent_Pool\<close> does it for its pool: a thread inside
  \<open>push\<close> or \<open>pop\<close> is a value of \<open>queue_pc\<close>, and a schedule is the list of the threads that make the next accesses. Alone,
  a thread does what the definitions of \<open>Lock_Free_Queue\<close> say; two threads inside \<open>pop\<close> can take the same packet, because
  the test \<open>_head == head\<close> and the assignment \<open>_head = key\<close> are two accesses.
\<close>

section \<open>One thread\<close>

datatype queue_pc =
    Push_number u64
  | Push_alloc u64 u64 pool_pc
  | Push_value u64 u64 u64
  | Push_clear u64 u64
  | Push_tail u64
  | Push_head u64 u64
  | Push_key u64 u64
  | Push_link u64 u64
  | Push_swing u64 u64
  | Push_help u64 u64 u64
  | Push_size
  | Push_done bool
  | Pop_size
  | Pop_undo
  | Pop_head
  | Pop_tail u64
  | Pop_key u64 u64
  | Pop_help_key u64
  | Pop_help u64 u64
  | Pop_check u64 u64
  | Pop_set u64 u64
  | Pop_free u64 pool_pc
  | Pop_value u64
  | Pop_done "u64 option"

text \<open>The accesses of \<open>push\<close>; the parameters are its local variables \<open>t\<close>, \<open>n\<close>, \<open>newKey\<close>, \<open>tail\<close> and \<open>key\<close>.\<close>

fun push_step :: "queue_pc \<Rightarrow> lfq \<Rightarrow> (lfq \<times> queue_pc) option" where
  "push_step (Push_number t) q = (let pushCount = lq_pushs q + 1 in Some (q\<lparr>lq_pushs := pushCount\<rparr>, Push_alloc t pushCount Alloc_read))"
| "push_step (Push_alloc t pushCount c) q =
     map_option (\<lambda>(p, c'). (q\<lparr>lq_np := p\<rparr>,
       (case c' of Alloc_done n \<Rightarrow> if n = 0 then Push_done False else Push_value t n (MAKE_KEY n pushCount)
        | _ \<Rightarrow> Push_alloc t pushCount c')))
       (alloc_step c (lq_np q))"
| "push_step (Push_value t n newKey) q = map_option (\<lambda>q'. (q', Push_clear n newKey)) (nd_upd q n (\<lambda>x. x\<lparr>nd_value := t\<rparr>))"
| "push_step (Push_clear n newKey) q = map_option (\<lambda>q'. (q', Push_tail newKey)) (nd_upd q n (\<lambda>x. x\<lparr>nd_key := 0\<rparr>))"
| "push_step (Push_tail newKey) q = Some (q, Push_head newKey (lq_tail q))"
| "push_step (Push_head newKey tail) q = Some (q, Push_key newKey tail)"
| "push_step (Push_key newKey tail) q =
     map_option (\<lambda>n. (q, if nd_key n = 0 then Push_link newKey tail else Push_help newKey tail (nd_key n)))
       (lq_mem q (MAKE_NODEPTR tail))"
| "push_step (Push_link newKey tail) q =
     Option.bind (lq_mem q (MAKE_NODEPTR tail)) (\<lambda>n.
       let r = cas (nd_key n) newKey 0 in
       map_option (\<lambda>q'. (q', if snd r = 0 then Push_swing newKey tail else Push_tail newKey))
         (nd_upd q (MAKE_NODEPTR tail) (\<lambda>x. x\<lparr>nd_key := fst r\<rparr>)))"
| "push_step (Push_swing newKey tail) q = Some (q\<lparr>lq_tail := fst (cas (lq_tail q) newKey tail)\<rparr>, Push_size)"
| "push_step (Push_help newKey tail key) q = Some (q\<lparr>lq_tail := fst (cas (lq_tail q) key tail)\<rparr>, Push_tail newKey)"
| "push_step Push_size q = Some (q\<lparr>lq_size := lq_size q + 1\<rparr>, Push_done True)"
| "push_step _ q = None"

text \<open>The accesses of \<open>pop\<close>, with its local variables \<open>head\<close>, \<open>tail\<close> and \<open>key\<close>.\<close>

fun pop_step :: "queue_pc \<Rightarrow> lfq \<Rightarrow> (lfq \<times> queue_pc) option" where
  "pop_step Pop_size q = (let n = lq_size q - 1 in Some (q\<lparr>lq_size := n\<rparr>, if sint n < 0 then Pop_undo else Pop_head))"
| "pop_step Pop_undo q = Some (q\<lparr>lq_size := lq_size q + 1\<rparr>, Pop_done None)"
| "pop_step Pop_head q = Some (q, Pop_tail (lq_head q))"
| "pop_step (Pop_tail head) q = Some (q, Pop_key head (lq_tail q))"
| "pop_step (Pop_key head tail) q =
     map_option (\<lambda>n. (q, if nd_key n = 0 then Pop_head else if head = tail then Pop_help_key tail else Pop_check head (nd_key n)))
       (lq_mem q (MAKE_NODEPTR head))"
| "pop_step (Pop_help_key tail) q = map_option (\<lambda>n. (q, Pop_help tail (nd_key n))) (lq_mem q (MAKE_NODEPTR tail))"
| "pop_step (Pop_help tail key) q = Some (q\<lparr>lq_tail := fst (cas (lq_tail q) key tail)\<rparr>, Pop_head)"
| "pop_step (Pop_check head key) q = Some (q, if lq_head q = head then Pop_set head key else Pop_head)"
| "pop_step (Pop_set head key) q = Some (q\<lparr>lq_head := key\<rparr>, Pop_free key (Free_read (MAKE_NODEPTR head)))"
| "pop_step (Pop_free key c) q =
     map_option (\<lambda>(p, c'). (q\<lparr>lq_np := p\<rparr>, (case c' of Free_done \<Rightarrow> Pop_value key | _ \<Rightarrow> Pop_free key c'))) (free_step c (lq_np q))"
| "pop_step (Pop_value key) q = map_option (\<lambda>n. (q, Pop_done (Some (nd_value n)))) (lq_mem q (MAKE_NODEPTR key))"
| "pop_step _ q = None"

definition queue_pc_step :: "queue_pc \<Rightarrow> lfq \<Rightarrow> (lfq \<times> queue_pc) option" where
  "queue_pc_step c q = (case push_step c q of None \<Rightarrow> pop_step c q | Some r \<Rightarrow> Some r)"

section \<open>Schedules\<close>

fun queue_run :: "nat list \<Rightarrow> lfq \<Rightarrow> (nat \<Rightarrow> queue_pc) \<Rightarrow> (lfq \<times> (nat \<Rightarrow> queue_pc)) option" where
  "queue_run [] q c = Some (q, c)"
| "queue_run (t # ts) q c = Option.bind (queue_pc_step (c t) q) (\<lambda>(q', c'). queue_run ts q' (c(t := c')))"

lemma queue_run_append: "queue_run (ts @ us) q c = Option.bind (queue_run ts q c) (\<lambda>(q', c'). queue_run us q' c')"
  by (induction ts arbitrary: q c) (auto split: option.splits simp: Option.bind_assoc case_prod_unfold)

lemma size_left:
  assumes "lfq_chain q ks fs" "n < length ks"
  shows "\<not> sint (of_nat n :: u32) < 0"
proof -
  have "length ks \<le> 2 ^ 31" using assms(1) by (simp add: lfq_chain_def)
  then have s: "n < 2 ^ 31" using assms(2) by linarith
  then have "unat (of_nat n :: u32) = n" by (simp add: unat_of_nat)
  then have "0 \<le> sint (of_nat n :: u32)" using s sint_small [of "of_nat n"] by simp
  then show ?thesis by simp
qed

text \<open>The first five accesses of a \<open>pop\<close>, which change nothing but the size.\<close>

lemma pop_to_set:
  assumes "lq_mem q (MAKE_NODEPTR (lq_head q)) = Some n" "nd_key n \<noteq> 0" "lq_head q \<noteq> lq_tail q"
    "\<not> sint (lq_size q - 1) < 0" "c t = Pop_size"
  shows "queue_run (replicate 5 t) q c = Some (q\<lparr>lq_size := lq_size q - 1\<rparr>, c(t := Pop_set (lq_head q) (nd_key n)))"
  using assms by (simp add: numeral_eq_Suc queue_pc_step_def Let_def)

text \<open>The other seven, from whatever state the queue is in by then.\<close>

lemma pop_from_set:
  assumes "lq_mem q (MAKE_NODEPTR head) = Some n" "lq_mem q (MAKE_NODEPTR key) = Some m" "MAKE_NODEPTR head \<noteq> MAKE_NODEPTR key"
    "c t = Pop_set head key"
  shows "queue_run (replicate 7 t) q c =
    Some (q\<lparr>lq_head := key, lq_np := fst (the (np_Free (lq_np q) (MAKE_NODEPTR head)))\<rparr>, c(t := Pop_done (Some (nd_value m))))"
  using assms by (subst np_Free.simps) (simp add: numeral_eq_Suc queue_pc_step_def Let_def cas_def)

section \<open>Alone\<close>

text \<open>Without interference the accesses of one call add up to the operation of \<open>Lock_Free_Queue\<close>.\<close>

lemma pop_alone:
  assumes c: "lfq_chain q (k1 # k2 # ks) fs" and pc: "c t = Pop_size"
  shows "\<exists>q' x. lfq_pop q = Some (q', Some x) \<and> queue_run (replicate 12 t) q c = Some (q', c(t := Pop_done (Some x)))"
proof -
  note C = c [unfolded lfq_chain_def]
  obtain n1 where n1: "lq_mem q (MAKE_NODEPTR k1) = Some n1" "nd_key n1 = k2" and k2: "k2 \<noteq> 0"
    using C by (auto split: option.splits)
  obtain n2 where n2: "lq_mem q (MAKE_NODEPTR k2) = Some n2" using lfq_chainD(5) [OF c] by auto
  have h: "lq_head q = k1" "lq_tail q = last (k2 # ks)" using C by simp_all
  have ne: "MAKE_NODEPTR k1 \<noteq> MAKE_NODEPTR k2" using C by simp
  have ht: "k1 \<noteq> last (k2 # ks)" using C last_in_set [of "k2 # ks"] by auto
  have s: "\<not> sint (lq_size q - 1) < 0" using size_left [OF c, of "length ks"] C by simp
  let ?q = "q\<lparr>lq_size := lq_size q - 1\<rparr>"
  have f: "\<exists>np'. np_Free (lq_np q) (MAKE_NODEPTR k1) = Some (np', True) \<and> np_mem np' (MAKE_NODEPTR k2) = Some n2"
    using n1(1) n2 ne by (subst np_Free.simps) (simp add: Let_def cas_def)
  then obtain np' where f: "np_Free (lq_np q) (MAKE_NODEPTR k1) = Some (np', True)" "np_mem np' (MAKE_NODEPTR k2) = Some n2" by blast
  have r: "queue_run (replicate 12 t) q c = Some (?q\<lparr>lq_head := k2, lq_np := np'\<rparr>, c(t := Pop_done (Some (nd_value n2))))"
  proof -
    have "replicate 12 t = replicate 5 t @ replicate 7 t" by (simp flip: replicate_add)
    moreover have "queue_run (replicate 5 t) q c = Some (?q, c(t := Pop_set k1 k2))"
      using pop_to_set [of q n1 c t] n1 k2 h ht s pc by simp
    moreover have "queue_run (replicate 7 t) ?q (c(t := Pop_set k1 k2)) =
        Some (?q\<lparr>lq_head := k2, lq_np := np'\<rparr>, c(t := Pop_done (Some (nd_value n2))))"
      using pop_from_set [of ?q k1 n1 k2 n2 "c(t := Pop_set k1 k2)" t] n1 n2 ne f by simp
    ultimately show ?thesis by (simp add: queue_run_append)
  qed
  have "lfq_pop_loop ?q = Some (?q\<lparr>lq_head := k2, lq_np := np'\<rparr>, nd_value n2)"
    using n1 k2 h ht f by (subst lfq_pop_loop.simps) (simp add: Let_def)
  then have "lfq_pop q = Some (?q\<lparr>lq_head := k2, lq_np := np'\<rparr>, Some (nd_value n2))" using s by (simp add: lfq_pop_def Let_def)
  with r show ?thesis by blast
qed

lemma pop_alone_empty:
  assumes "lfq_chain q [k] fs" "c t = Pop_size"
  shows "lfq_pop q = Some (q, None) \<and> queue_run (replicate 2 t) q c = Some (q, c(t := Pop_done None))"
proof -
  have s: "lq_size q = 0" "sint (lq_size q - 1) < 0" using assms(1) by (simp_all add: lfq_chain_def)
  then have "queue_run [t, t] q c = Some (q, c(t := Pop_done None))"
    using assms(2) by (simp add: queue_pc_step_def Let_def)
  then show ?thesis using lfq_pop_empty [OF assms(1)] by (simp add: numeral_2_eq_2)
qed

lemma push_alone:
  assumes c: "lfq_chain q ks (a # fs)" and pc: "c t = Push_number x"
  shows "\<exists>q'. lfq_push q x = Some (q', True) \<and> queue_run (replicate 13 t) q c = Some (q', c(t := Push_done True))"
proof -
  note C = c [unfolded lfq_chain_def]
  note D = lfq_chainD [OF c]
  have a: "a \<noteq> 0" "unat a < 2 ^ 48" "a \<in> dom (lq_mem q)" using C D(6) by (auto simp: np_rep_def)
  obtain n0 where n0: "lq_mem q a = Some n0" using a by auto
  have top: "MAKE_NODEPTR (np_topKey (lq_np q)) = a" using D(4) by (simp add: np_rep_def)
  let ?l = "MAKE_NODEPTR (last ks)"
  have "?l \<in> MAKE_NODEPTR ` set ks" using D(1) by simp
  then have l: "?l \<in> dom (lq_mem q)" "?l \<noteq> a" using D(5) C by auto
  then obtain nl where nl: "lq_mem q ?l = Some nl" by blast
  have nk: "nd_key nl = 0"
  proof -
    have "key_path m ks \<Longrightarrow> (case m (MAKE_NODEPTR (last ks)) of None \<Rightarrow> False | Some n \<Rightarrow> nd_key n = 0)" for m
      by (induction m ks rule: key_path.induct) auto
    then show ?thesis using C nl by force
  qed
  let ?k = "MAKE_KEY a (lq_pushs q + 1)"
  have k: "?k \<noteq> 0" by (rule KEY_nonzero [OF a(2,1)])
  show ?thesis
    using n0 nl nk l(2) a(1) k D(3) top pc
    by (simp add: lfq_push_def Let_def np_Alloc.simps [of "lq_np q"] nd_upd_def cas_def)
       (subst lfq_push_loop.simps, simp add: Let_def cas_def nd_upd_def numeral_eq_Suc queue_pc_step_def fun_upd_twist)
qed

lemma push_alone_full:
  assumes "lfq_chain q ks []" "c t = Push_number x"
  shows "lfq_push q x = Some (q\<lparr>lq_pushs := lq_pushs q + 1\<rparr>, False) \<and>
    queue_run (replicate 2 t) q c = Some (q\<lparr>lq_pushs := lq_pushs q + 1\<rparr>, c(t := Push_done False))"
proof -
  have "np_topKey (lq_np q) = 0" using lfq_chainD(4) [OF assms(1)] by (simp add: np_rep_def)
  then show ?thesis using lfq_push_full [OF assms(1)] assms(2) by (simp add: numeral_2_eq_2 queue_pc_step_def Let_def)
qed

section \<open>Two threads inside pop\<close>

definition two_pops :: "nat list" where
  "two_pops = replicate 5 0 @ replicate 5 1 @ replicate 7 0 @ replicate 7 1"

lemma two_pops_run:
  assumes "lfq_rep q (x # y # xs) c"
  shows "\<exists>q' d. queue_run two_pops q (\<lambda>_. Pop_size) = Some (q', d) \<and> d 0 = Pop_done (Some x) \<and> d 1 = Pop_done (Some x) \<and>
    (\<exists>a p1 p2. a \<noteq> 0 \<and> np_Alloc (lq_np q') = Some (p1, a) \<and> np_Alloc p1 = Some (p2, a))"
proof -
  obtain ks0 fs where c0: "lfq_chain q ks0 fs" "x # y # xs = node_values (lq_mem q) (tl ks0)"
    using assms by (auto simp: lfq_rep_def)
  then obtain k1 k2 k3 ks where ks: "ks0 = k1 # k2 # k3 # ks"
    by (cases ks0; cases "tl ks0"; cases "tl (tl ks0)") (auto simp: node_values_def)
  note c = c0(1) [unfolded ks]
  note C = c [unfolded lfq_chain_def]
  let ?a = "MAKE_NODEPTR k1"
  obtain n1 where n1: "lq_mem q ?a = Some n1" "nd_key n1 = k2" and k2: "k2 \<noteq> 0"
    using C by (auto split: option.splits)
  obtain n2 where n2: "lq_mem q (MAKE_NODEPTR k2) = Some n2" using lfq_chainD(5) [OF c] by auto
  have x: "x = nd_value n2" using c0(2) by (simp add: ks node_values_def n2)
  have h: "lq_head q = k1" "lq_tail q = last (k2 # k3 # ks)" using C by simp_all
  have ne: "?a \<noteq> MAKE_NODEPTR k2" using C by simp
  have ht: "k1 \<noteq> last (k2 # k3 # ks)" using C last_in_set [of "k2 # k3 # ks"] by auto
  have s1: "\<not> sint (lq_size q - 1) < 0" using size_left [OF c, of "Suc (length ks)"] C by simp
  have s2: "\<not> sint (lq_size q - 1 - 1) < 0" using size_left [OF c, of "length ks"] C by simp
  have g: "?a \<noteq> 0" "unat ?a < 2 ^ 48" using n1(1) C by (auto simp: np_rep_def)
  let ?q1 = "q\<lparr>lq_size := lq_size q - 1\<rparr>" let ?q2 = "?q1\<lparr>lq_size := lq_size q - 1 - 1\<rparr>"
  let ?c1 = "(\<lambda>_. Pop_size)(0 := Pop_set k1 k2)" let ?c2 = "?c1(Suc 0 := Pop_set k1 k2)"
  have r1: "queue_run (replicate 5 0) q (\<lambda>_. Pop_size) = Some (?q1, ?c1)"
    using pop_to_set [of q n1 "\<lambda>_. Pop_size" 0] n1 k2 h ht s1 by simp
  have r2: "queue_run (replicate 5 1) ?q1 ?c1 = Some (?q2, ?c2)"
    using pop_to_set [of ?q1 n1 ?c1 1] n1 k2 h ht s2 by simp
  have f: "np_Free p ?a = Some (p\<lparr>np_mem := (np_mem p)(?a \<mapsto> n\<lparr>nd_poolNext := np_topKey p\<rparr>), np_pushCount := np_pushCount p + 1,
      np_topKey := MAKE_KEY ?a (np_pushCount p + 1), np_useSize := np_useSize p - 1\<rparr>, True)" if "np_mem p ?a = Some n" for p n
    using that by (subst np_Free.simps) (simp add: Let_def cas_def)
  define p1 where "p1 = fst (the (np_Free (lq_np q) ?a))"
  have p1: "np_mem p1 = (lq_mem q)(?a \<mapsto> n1\<lparr>nd_poolNext := np_topKey (lq_np q)\<rparr>)" "np_topKey p1 = MAKE_KEY ?a (np_pushCount (lq_np q) + 1)"
    by (simp_all add: p1_def f [OF n1(1)])
  define p2 where "p2 = fst (the (np_Free p1 ?a))"
  have p2: "np_mem p2 ?a = Some (n1\<lparr>nd_poolNext := np_topKey p1\<rparr>)" "np_topKey p2 = MAKE_KEY ?a (np_pushCount p1 + 1)"
    by (simp_all add: p2_def f p1)
  let ?q3 = "?q2\<lparr>lq_head := k2, lq_np := p1\<rparr>" let ?c3 = "?c2(0 := Pop_done (Some x))"
  let ?q4 = "?q3\<lparr>lq_head := k2, lq_np := p2\<rparr>" let ?c4 = "?c3(Suc 0 := Pop_done (Some x))"
  have r3: "queue_run (replicate 7 0) ?q2 ?c2 = Some (?q3, ?c3)"
    using pop_from_set [of ?q2 k1 n1 k2 n2 ?c2 0] n1(1) n2 ne by (simp add: p1_def x)
  have r4: "queue_run (replicate 7 1) ?q3 ?c3 = Some (?q4, ?c4)"
    using pop_from_set [of ?q3 k1 _ k2 n2 ?c3 1] n2 ne by (simp add: p1 p2_def x)
  have r: "queue_run two_pops q (\<lambda>_. Pop_size) = Some (?q4, ?c4)"
    using r1 r2 r3 r4 unfolding two_pops_def by (simp only: queue_run_append One_nat_def) simp
  have al: "np_Alloc p = Some (p\<lparr>np_topKey := nd_poolNext n, np_useSize := np_useSize p + 1\<rparr>, ?a)"
    if "MAKE_NODEPTR (np_topKey p) = ?a" "np_mem p ?a = Some n" for p n
    using that g by (subst np_Alloc.simps) (simp add: Let_def cas_def)
  have t: "MAKE_NODEPTR (np_topKey p2) = ?a" "MAKE_NODEPTR (np_topKey p1) = ?a" using g(2) by (simp_all add: p1 p2 NODEPTR_KEY)
  let ?p3 = "p2\<lparr>np_topKey := np_topKey p1, np_useSize := np_useSize p2 + 1\<rparr>"
  have "np_Alloc p2 = Some (?p3, ?a)" using al [OF t(1) p2(1)] by simp
  moreover have "\<exists>p4. np_Alloc ?p3 = Some (p4, ?a)" using al [of ?p3, OF _] t(2) p2(1) by simp
  ultimately show ?thesis using r g(1) by (intro exI [of _ ?q4] exI [of _ ?c4]) auto
qed

end
