(* ===== verification/Queue_Inv.thy ===== *)
theory Queue_Inv
  imports Concurrent_Queue "HOL-Library.Multiset"
begin

text \<open>
  Runs of the queue of \<open>LockFreeQueue.h\<close> with any number of threads inside \<open>push\<close> and at most one inside \<open>pop\<close>, and the
  invariant of these runs. This is how the session uses the queue: \<open>sendFlag\<close> lets one thread at a time take packets
  out. The invariant keeps, besides the list that starts at the head, one list per thread that has not linked its
  node yet: other threads may link theirs behind it when the node of the \<open>tail\<close> that they have read was recycled meanwhile.
  The accesses that change no list are here, the others in \<open>Queue_Steps\<close>.
\<close>

section \<open>Runs\<close>

record queue_sys =
  qs_q :: lfq
  qs_pc :: "nat \<Rightarrow> queue_pc"
  qs_in :: "u64 list"
  qs_out :: "u64 list"

fun idle :: "queue_pc \<Rightarrow> bool" where
  "idle (Push_done b) = True"
| "idle (Pop_done r) = True"
| "idle _ = False"

fun popping :: "queue_pc \<Rightarrow> bool" where
  "popping Pop_size = True"
| "popping Pop_undo = True"
| "popping Pop_head = True"
| "popping (Pop_tail h) = True"
| "popping (Pop_key h t) = True"
| "popping (Pop_help_key t) = True"
| "popping (Pop_help t k) = True"
| "popping (Pop_check h k) = True"
| "popping (Pop_set h k) = True"
| "popping (Pop_free k c) = True"
| "popping (Pop_value k) = True"
| "popping _ = False"

definition queue_start :: "lfq \<Rightarrow> queue_sys" where
  "queue_start q = \<lparr>qs_q = q, qs_pc = (\<lambda>_. Push_done True), qs_in = [], qs_out = []\<rparr>"

text \<open>
  \<open>qs_in\<close> records the packets that got a node, \<open>qs_out\<close> those that a \<open>pop\<close> returned. The number counts the push numbers that are
  taken, by the queue and by its pool.
\<close>

fun accepted :: "queue_pc \<Rightarrow> u64 list" where
  "accepted (Push_value t n k) = [t]"
| "accepted _ = []"

fun returned :: "queue_pc \<Rightarrow> u64 list" where
  "returned (Pop_done (Some v)) = [v]"
| "returned _ = []"

fun takes_number :: "queue_pc \<Rightarrow> nat" where
  "takes_number (Push_number t) = 1"
| "takes_number (Pop_free k (Free_number a l)) = 1"
| "takes_number _ = 0"

inductive queue_reach :: "queue_sys \<Rightarrow> nat \<Rightarrow> queue_sys \<Rightarrow> bool" for s0 where
  queue_reach_start: "queue_reach s0 0 s0"
| queue_reach_push: "queue_reach s0 m s \<Longrightarrow> idle (qs_pc s t) \<Longrightarrow> queue_reach s0 m (s\<lparr>qs_pc := (qs_pc s)(t := Push_number x)\<rparr>)"
| queue_reach_pop: "queue_reach s0 m s \<Longrightarrow> idle (qs_pc s t) \<Longrightarrow> (\<And>u. \<not> popping (qs_pc s u)) \<Longrightarrow>
    queue_reach s0 m (s\<lparr>qs_pc := (qs_pc s)(t := Pop_size)\<rparr>)"
| queue_reach_access: "queue_reach s0 m s \<Longrightarrow> queue_pc_step (qs_pc s t) (qs_q s) = Some (q, c) \<Longrightarrow>
    queue_reach s0 (m + takes_number (qs_pc s t))
      (s\<lparr>qs_q := q, qs_pc := (qs_pc s)(t := c), qs_in := qs_in s @ accepted c, qs_out := qs_out s @ returned c\<rparr>)"

section \<open>The lists behind a state\<close>

record ghost =
  g_hist :: "u64 list"
  g_vals :: "u64 list"
  g_d :: nat
  g_p :: nat
  g_seg :: "nat \<Rightarrow> u64 list"
  g_ct :: "u64 \<Rightarrow> nat"
  g_clk :: nat
  g_used :: "u64 set"
  g_val :: "u64 \<Rightarrow> u64"

abbreviation nodes :: "u64 list \<Rightarrow> u64 set" where "nodes ks \<equiv> MAKE_NODEPTR ` set ks"

definition main_keys :: "ghost \<Rightarrow> u64 list" where
  "main_keys g = drop (g_d g) (g_hist g)"

definition seg_nodes :: "ghost \<Rightarrow> u64 set" where
  "seg_nodes g = (\<Union>t. nodes (g_seg g t))"

text \<open>The key of a thread that has cleared its node and not linked it, and of one that has a node at all.\<close>

fun prelink :: "queue_pc \<Rightarrow> u64 option" where
  "prelink (Push_tail k) = Some k"
| "prelink (Push_head k t) = Some k"
| "prelink (Push_key k t) = Some k"
| "prelink (Push_link k t) = Some k"
| "prelink (Push_help k t l) = Some k"
| "prelink _ = None"

fun newkey :: "queue_pc \<Rightarrow> u64 option" where
  "newkey (Push_value v n k) = Some k"
| "newkey (Push_clear n k) = Some k"
| "newkey c = prelink c"

fun inner :: "queue_pc \<Rightarrow> pool_pc" where
  "inner (Push_alloc t n c) = c"
| "inner (Pop_free k c) = c"
| "inner _ = Pool_idle"

fun priv :: "queue_pc \<Rightarrow> u64 list \<Rightarrow> u64 list" where
  "priv (Push_value v n k) ks = [n]"
| "priv (Push_clear n k) ks = [n]"
| "priv c ks = map MAKE_NODEPTR ks"

definition pool_view :: "lfq \<Rightarrow> (nat \<Rightarrow> queue_pc) \<Rightarrow> ghost \<Rightarrow> pool_sys" where
  "pool_view q c g = \<lparr>ps_pool = lq_np q, ps_pc = case_nat Pool_idle (\<lambda>t. inner (c t)),
     ps_own = case_nat (map MAKE_NODEPTR (main_keys g)) (\<lambda>t. priv (c t) (g_seg g t))\<rparr>"

definition chain_ok :: "lfq \<Rightarrow> ghost \<Rightarrow> bool" where
  "chain_ok q g \<longleftrightarrow> g_d g \<le> g_p g \<and> g_p g < length (g_hist g) \<and> distinct (g_hist g) \<and> 0 \<notin> set (g_hist g) \<and>
     nodes (g_hist g) \<subseteq> dom (lq_mem q) \<and> key_path (lq_mem q) (main_keys g) \<and> lq_head q = g_hist g ! g_d g \<and> lq_tail q = g_hist g ! g_p g"

text \<open>Push numbers: those that are in some key, and those that threads have taken and not used yet.\<close>

fun tag_of :: "queue_pc \<Rightarrow> u64 option" where
  "tag_of (Push_alloc v l i) = Some l"
| "tag_of _ = None"

definition tags_ok :: "nat \<Rightarrow> lfq \<Rightarrow> (nat \<Rightarrow> queue_pc) \<Rightarrow> ghost \<Rightarrow> bool" where
  "tags_ok n q c g \<longleftrightarrow> lq_pushs q = of_nat n \<and> g_used g \<subseteq> of_nat ` {0..n} \<and> drop_bit 48 ` set (g_hist g) \<subseteq> g_used g \<and>
     (\<forall>t. drop_bit 48 ` set (g_seg g t) \<subseteq> g_used g \<and> set (g_seg g t) \<inter> set (g_hist g) = {}) \<and>
     (\<forall>t k. newkey (c t) = Some k \<longrightarrow> k \<noteq> 0 \<and> k \<notin> set (g_hist g) \<and> drop_bit 48 k \<in> g_used g) \<and>
     (\<forall>t l. tag_of (c t) = Some l \<longrightarrow> l \<in> of_nat ` {0..n} \<and> l \<notin> g_used g) \<and>
     (\<forall>t u l. tag_of (c t) = Some l \<longrightarrow> tag_of (c u) = Some l \<longrightarrow> u = t)"

lemma tags_okD:
  assumes "tags_ok n q c g"
  shows "lq_pushs q = of_nat n" "g_used g \<subseteq> of_nat ` {0..n}" "drop_bit 48 ` set (g_hist g) \<subseteq> g_used g"
    "drop_bit 48 ` set (g_seg g t) \<subseteq> g_used g" "set (g_seg g t) \<inter> set (g_hist g) = {}"
    "newkey (c t) = Some k \<Longrightarrow> k \<noteq> 0 \<and> k \<notin> set (g_hist g) \<and> drop_bit 48 k \<in> g_used g"
    "tag_of (c t) = Some l \<Longrightarrow> l \<in> of_nat ` {0..n} \<and> l \<notin> g_used g" "tag_of (c t) = Some l \<Longrightarrow> tag_of (c u) = Some l \<Longrightarrow> u = t"
proof -
  note A = assms [unfolded tags_ok_def]
  show "lq_pushs q = of_nat n" "g_used g \<subseteq> of_nat ` {0..n}" "drop_bit 48 ` set (g_hist g) \<subseteq> g_used g" using A by blast+
  show "drop_bit 48 ` set (g_seg g t) \<subseteq> g_used g" "set (g_seg g t) \<inter> set (g_hist g) = {}" using A by blast+
  show "newkey (c t) = Some k \<Longrightarrow> k \<noteq> 0 \<and> k \<notin> set (g_hist g) \<and> drop_bit 48 k \<in> g_used g" using A by blast
  show "tag_of (c t) = Some l \<Longrightarrow> l \<in> of_nat ` {0..n} \<and> l \<notin> g_used g" using A by blast
  have "\<forall>t u l. tag_of (c t) = Some l \<longrightarrow> tag_of (c u) = Some l \<longrightarrow> u = t" using A by (elim conjE)
  then show "tag_of (c t) = Some l \<Longrightarrow> tag_of (c u) = Some l \<Longrightarrow> u = t" by blast
qed

lemma tags_okI:
  assumes "lq_pushs q = of_nat n" "g_used g \<subseteq> of_nat ` {0..n}" "drop_bit 48 ` set (g_hist g) \<subseteq> g_used g"
    "\<And>t. drop_bit 48 ` set (g_seg g t) \<subseteq> g_used g" "\<And>t. set (g_seg g t) \<inter> set (g_hist g) = {}"
    "\<And>t k. newkey (c t) = Some k \<Longrightarrow> k \<noteq> 0 \<and> k \<notin> set (g_hist g) \<and> drop_bit 48 k \<in> g_used g"
    "\<And>t l. tag_of (c t) = Some l \<Longrightarrow> l \<in> of_nat ` {0..n} \<and> l \<notin> g_used g"
    "\<And>t u l. tag_of (c t) = Some l \<Longrightarrow> tag_of (c u) = Some l \<Longrightarrow> u = t"
  shows "tags_ok n q c g"
  unfolding tags_ok_def by (intro conjI allI impI; (rule assms; assumption)?) (use assms(6,7) in blast)+

definition seg_ok :: "(u64 \<rightharpoonup> node) \<Rightarrow> (u64 \<Rightarrow> nat) \<Rightarrow> queue_pc \<Rightarrow> u64 list \<Rightarrow> bool" where
  "seg_ok m ct c ks \<longleftrightarrow> (case prelink c of None \<Rightarrow> ks = []
     | Some k \<Rightarrow> ks \<noteq> [] \<and> hd ks = k \<and> key_path m ks \<and> 0 \<notin> set ks \<and>
         sorted_wrt (\<lambda>a b. ct (MAKE_NODEPTR b) < ct (MAKE_NODEPTR a)) ks)"

text \<open>What a thread knows about the queue.\<close>

definition key_of :: "(u64 \<rightharpoonup> node) \<Rightarrow> u64 \<Rightarrow> u64" where
  "key_of m a = (case m a of None \<Rightarrow> 1 | Some n \<Rightarrow> nd_key n)"

definition seen_tail :: "ghost \<Rightarrow> u64 \<Rightarrow> bool" where
  "seen_tail g t \<longleftrightarrow> (\<exists>i \<le> g_p g. t = g_hist g ! i)"

definition tail_ok :: "(u64 \<rightharpoonup> node) \<Rightarrow> ghost \<Rightarrow> u64 \<Rightarrow> u64 \<Rightarrow> bool" where
  "tail_ok m g k t \<longleftrightarrow> seen_tail g t \<and>
     (MAKE_NODEPTR t \<in> seg_nodes g \<longrightarrow> g_ct g (MAKE_NODEPTR k) < g_ct g (MAKE_NODEPTR t)) \<and>
     (MAKE_NODEPTR t \<notin> seg_nodes g \<union> nodes (main_keys g) \<longrightarrow> key_of m (MAKE_NODEPTR t) \<noteq> 0)"

definition next_ok :: "ghost \<Rightarrow> u64 \<Rightarrow> u64 \<Rightarrow> bool" where
  "next_ok g t k \<longleftrightarrow> seen_tail g t \<and>
     (t = g_hist g ! g_p g \<longrightarrow> Suc (g_p g) < length (g_hist g) \<and> g_hist g ! Suc (g_p g) = k)"

definition head_ok :: "ghost \<Rightarrow> u64 \<Rightarrow> u64 \<Rightarrow> bool" where
  "head_ok g h k \<longleftrightarrow> h = g_hist g ! g_d g \<and> Suc (g_d g) < length (g_hist g) \<and> k = g_hist g ! Suc (g_d g)"

fun allocating :: "pool_pc \<Rightarrow> bool" where
  "allocating Alloc_read = True"
| "allocating (Alloc_next k) = True"
| "allocating (Alloc_cas k n) = True"
| "allocating (Alloc_count a) = True"
| "allocating _ = False"

fun freeing :: "pool_pc \<Rightarrow> bool" where
  "freeing (Free_read a) = True"
| "freeing (Free_write a k) = True"
| "freeing (Free_number a k) = True"
| "freeing (Free_cas a k n) = True"
| "freeing Free_count = True"
| "freeing _ = False"

fun knows :: "(u64 \<rightharpoonup> node) \<Rightarrow> ghost \<Rightarrow> queue_pc \<Rightarrow> bool" where
  "knows m g (Push_value v n k) \<longleftrightarrow> MAKE_NODEPTR k = n \<and> g_val g n = v"
| "knows m g (Push_clear n k) \<longleftrightarrow> MAKE_NODEPTR k = n"
| "knows m g (Push_head k t) \<longleftrightarrow> tail_ok m g k t"
| "knows m g (Push_key k t) \<longleftrightarrow> tail_ok m g k t"
| "knows m g (Push_link k t) \<longleftrightarrow> tail_ok m g k t"
| "knows m g (Push_help k t l) \<longleftrightarrow> next_ok g t l"
| "knows m g (Push_swing k t) \<longleftrightarrow> next_ok g t k"
| "knows m g (Pop_tail h) \<longleftrightarrow> h = g_hist g ! g_d g"
| "knows m g (Pop_key h t) \<longleftrightarrow> h = g_hist g ! g_d g \<and> (\<exists>i. g_d g \<le> i \<and> i \<le> g_p g \<and> t = g_hist g ! i)"
| "knows m g (Pop_help_key t) \<longleftrightarrow> (\<exists>k. head_ok g t k)"
| "knows m g (Pop_help t k) \<longleftrightarrow> head_ok g t k"
| "knows m g (Pop_check h k) \<longleftrightarrow> head_ok g h k \<and> g_d g < g_p g"
| "knows m g (Pop_set h k) \<longleftrightarrow> head_ok g h k \<and> g_d g < g_p g"
| "knows m g (Pop_free k c) \<longleftrightarrow> k = g_hist g ! g_d g \<and> 0 < g_d g \<and> freeing c"
| "knows m g (Pop_value k) \<longleftrightarrow> k = g_hist g ! g_d g \<and> 0 < g_d g"
| "knows m g (Push_alloc v l i) \<longleftrightarrow> allocating i"
| "knows m g _ \<longleftrightarrow> True"

text \<open>The packets: \<open>g_vals\<close> are those that became reachable, the others are in the nodes of the threads.\<close>

definition priv_nodes :: "(nat \<Rightarrow> queue_pc) \<Rightarrow> ghost \<Rightarrow> u64 set" where
  "priv_nodes c g = (\<Union>t. set (priv (c t) (g_seg g t)))"

definition value_of :: "(u64 \<rightharpoonup> node) \<Rightarrow> u64 \<Rightarrow> u64" where
  "value_of m a = (case m a of None \<Rightarrow> 0 | Some n \<Rightarrow> nd_value n)"

fun late :: "queue_pc \<Rightarrow> bool" where
  "late (Pop_free k c) = True"
| "late (Pop_value k) = True"
| "late _ = False"

definition vals_ok :: "(u64 \<rightharpoonup> node) \<Rightarrow> (nat \<Rightarrow> queue_pc) \<Rightarrow> u64 list \<Rightarrow> u64 list \<Rightarrow> ghost \<Rightarrow> bool" where
  "vals_ok m c xs ys g \<longleftrightarrow> length (g_vals g) = length (g_hist g) \<and>
     (\<forall>i. 0 < i \<longrightarrow> g_d g \<le> i \<longrightarrow> i < length (g_hist g) \<longrightarrow> value_of m (MAKE_NODEPTR (g_hist g ! i)) = g_vals g ! i) \<and>
     (\<forall>t a. a \<in> set (priv (c t) (g_seg g t)) \<longrightarrow> (\<forall>v n k. c t \<noteq> Push_value v n k) \<longrightarrow> value_of m a = g_val g a) \<and>
     mset xs = mset (tl (g_vals g)) + image_mset (g_val g) (mset_set (priv_nodes c g)) \<and>
     ys = take (g_d g - (if \<exists>t. late (c t) then 1 else 0)) (tl (g_vals g))"

lemma vals_okD:
  assumes "vals_ok m c xs ys g"
  shows "length (g_vals g) = length (g_hist g)"
    "0 < i \<Longrightarrow> g_d g \<le> i \<Longrightarrow> i < length (g_hist g) \<Longrightarrow> value_of m (MAKE_NODEPTR (g_hist g ! i)) = g_vals g ! i"
    "a \<in> set (priv (c t) (g_seg g t)) \<Longrightarrow> (\<And>v n k. c t \<noteq> Push_value v n k) \<Longrightarrow> value_of m a = g_val g a"
    "mset xs = mset (tl (g_vals g)) + image_mset (g_val g) (mset_set (priv_nodes c g))"
    "ys = take (g_d g - (if \<exists>t. late (c t) then 1 else 0)) (tl (g_vals g))"
  using assms unfolding vals_ok_def by blast+

text \<open>The state is taken apart here: the queue, the threads, the packets that went in and those that came out.\<close>

definition queue_inv :: "u64 \<Rightarrow> u64 set \<Rightarrow> nat \<Rightarrow> nat \<Rightarrow> ghost \<Rightarrow> lfq \<Rightarrow> (nat \<Rightarrow> queue_pc) \<Rightarrow> u64 list \<Rightarrow> u64 list \<Rightarrow> bool" where
  "queue_inv pc D j n g q c xs ys \<longleftrightarrow>
     finite D \<and> (\<exists>fs. pool_inv pc D j fs (pool_view q c g)) \<and> chain_ok q g \<and> tags_ok n q c g \<and>
     (\<forall>t. seg_ok (lq_mem q) (g_ct g) (c t) (g_seg g t)) \<and> (\<forall>a. g_ct g a \<le> g_clk g) \<and> (\<forall>t. knows (lq_mem q) g (c t)) \<and>
     (\<forall>t u. popping (c t) \<longrightarrow> popping (c u) \<longrightarrow> t = u) \<and> vals_ok (lq_mem q) c xs ys g"

section \<open>What other threads may change\<close>

lemma seen_tail_mono:
  assumes "seen_tail g t" "g_hist g' = g_hist g @ zs" "g_p g \<le> g_p g'" "g_p g < length (g_hist g)"
  shows "seen_tail g' t"
proof -
  obtain i where i: "i \<le> g_p g" "t = g_hist g ! i" using assms(1) by (auto simp: seen_tail_def)
  then have "i \<le> g_p g'" "t = g_hist g' ! i" using assms(2-4) by (simp_all add: nth_append)
  then show ?thesis unfolding seen_tail_def by blast
qed

lemma next_ok_mono:
  assumes n: "next_ok g t k" and h: "g_hist g' = g_hist g @ zs" "distinct (g_hist g')"
    and p: "g_p g \<le> g_p g'" "g_p g' < length (g_hist g')" "g_p g < length (g_hist g)"
  shows "next_ok g' t k"
proof -
  have s: "seen_tail g' t" by (rule seen_tail_mono [OF _ h(1) p(1,3)]) (use n in \<open>simp add: next_ok_def\<close>)
  moreover have "Suc (g_p g') < length (g_hist g') \<and> g_hist g' ! Suc (g_p g') = k" if e: "t = g_hist g' ! g_p g'"
  proof -
    obtain i where i: "i \<le> g_p g" "t = g_hist g ! i" using n by (auto simp: next_ok_def seen_tail_def)
    then have "g_hist g' ! i = g_hist g' ! g_p g'" using e h(1) p(3) by (simp add: nth_append)
    then have "i = g_p g'" using h(2) i(1) p by (simp add: nth_eq_iff_index_eq)
    then have same: "g_p g' = g_p g" using i(1) p(1) by simp
    then have "t = g_hist g ! g_p g" using e h(1) p(3) by (simp add: nth_append)
    then show ?thesis using n h(1) by (simp add: next_ok_def nth_append same)
  qed
  ultimately show ?thesis by (simp add: next_ok_def)
qed

lemma tail_ok_mono:
  assumes t: "tail_ok m g k t" and h: "g_hist g' = g_hist g @ zs" and p: "g_p g \<le> g_p g'" "g_p g < length (g_hist g)"
    and ct: "g_ct g' (MAKE_NODEPTR k) = g_ct g (MAKE_NODEPTR k)" "g_ct g (MAKE_NODEPTR k) \<le> g_clk g"
    and seg: "\<And>x. x \<in> seg_nodes g' \<Longrightarrow> x \<in> seg_nodes g \<and> g_ct g' x = g_ct g x \<or> g_clk g < g_ct g' x"
    and out: "\<And>x. x \<notin> seg_nodes g' \<union> nodes (main_keys g') \<Longrightarrow>
      x \<notin> seg_nodes g \<union> nodes (main_keys g) \<and> key_of m' x = key_of m x \<or> key_of m' x \<noteq> 0"
  shows "tail_ok m' g' k t"
proof -
  have "seen_tail g' t" by (rule seen_tail_mono [OF _ h p]) (use t in \<open>simp add: tail_ok_def\<close>)
  then show ?thesis
    using t ct seg [of "MAKE_NODEPTR t"] out [of "MAKE_NODEPTR t"] unfolding tail_ok_def by force
qed

lemma head_ok_mono:
  assumes "head_ok g h k" "g_hist g' = g_hist g @ zs" "g_d g' = g_d g"
  shows "head_ok g' h k"
  using assms by (simp add: head_ok_def nth_append)

lemma knows_mono:
  assumes k: "knows m g c" and h: "g_hist g' = g_hist g @ zs" "distinct (g_hist g')"
    and p: "g_p g \<le> g_p g'" "g_p g' < length (g_hist g')" "g_p g < length (g_hist g)" "g_d g \<le> g_p g"
    and d: "popping c \<Longrightarrow> g_d g' = g_d g"
    and ct: "\<And>k. newkey c = Some k \<Longrightarrow> g_ct g' (MAKE_NODEPTR k) = g_ct g (MAKE_NODEPTR k)" "\<And>a. g_ct g a \<le> g_clk g"
    and seg: "\<And>x. x \<in> seg_nodes g' \<Longrightarrow> x \<in> seg_nodes g \<and> g_ct g' x = g_ct g x \<or> g_clk g < g_ct g' x"
    and out: "\<And>x. x \<notin> seg_nodes g' \<union> nodes (main_keys g') \<Longrightarrow>
      x \<notin> seg_nodes g \<union> nodes (main_keys g) \<and> key_of m' x = key_of m x \<or> key_of m' x \<noteq> 0"
    and v: "\<And>v n k. c = Push_value v n k \<Longrightarrow> g_val g' n = g_val g n"
  shows "knows m' g' c"
proof -
  note T = tail_ok_mono [OF _ h(1) p(1,3) _ ct(2) seg out]
  note N = next_ok_mono [OF _ h p(1-3)]
  note H = head_ok_mono [OF _ h(1)]
  have i: "i \<le> g_p g \<Longrightarrow> g_hist g' ! i = g_hist g ! i" for i using h(1) p(3) by (simp add: nth_append)
  show ?thesis
  proof (cases c)
    case (Pop_key hd tl)
    then obtain i0 where "g_d g \<le> i0" "i0 \<le> g_p g" "tl = g_hist g ! i0" "hd = g_hist g ! g_d g" using k by auto
    then show ?thesis using Pop_key d i p by auto
  next
    case (Pop_help_key tl)
    then obtain k0 where "head_ok g tl k0" using k by auto
    then show ?thesis using H [of tl k0] d Pop_help_key by auto
  qed (use k d ct(1) v T N H i p in auto)
qed

section \<open>Steps that change no list\<close>

fun plain :: "pool_pc \<Rightarrow> bool" where
  "plain (Alloc_next k) = False"
| "plain (Alloc_cas k n) = False"
| "plain (Free_number a k) = False"
| "plain (Free_cas a k n) = False"
| "plain _ = True"

lemma pool_path_next:
  assumes "\<And>a. map_option nd_poolNext (m' a) = map_option nd_poolNext (m a)"
  shows "pool_path m' k fs = pool_path m k fs" "path_keys m' k fs = path_keys m k fs"
proof -
  have "pool_path m' k fs = pool_path m k fs \<and> path_keys m' k fs = path_keys m k fs"
  proof (induction fs arbitrary: k)
    case (Cons a fs)
    then show ?case using assms [of a] by (cases "m a"; cases "m' a") simp_all
  qed simp
  then show "pool_path m' k fs = pool_path m k fs" "path_keys m' k fs = path_keys m k fs" by blast+
qed

lemma pool_inv_own:
  assumes inv: "pool_inv pc D j fs s"
    and m: "\<And>a. map_option nd_poolNext (np_mem (ps_pool s') a) = map_option nd_poolNext (np_mem (ps_pool s) a)"
    and p: "np_topKey (ps_pool s') = np_topKey (ps_pool s)" "np_pushCount (ps_pool s') = np_pushCount (ps_pool s)"
    and c: "\<And>t. ps_pc s' t = ps_pc s t \<or> plain (ps_pc s' t)" and h: "shared_out D fs (held s')"
  shows "pool_inv pc D j fs s'"
proof -
  note I = pool_invD [OF inv]
  have pend: "pending (ps_pc s') \<subseteq> pending (ps_pc s)"
  proof
    fix n
    assume "n \<in> pending (ps_pc s')"
    then obtain t a k where f: "ps_pc s' t = Free_cas a k n" by (auto simp: pending_def)
    then have "ps_pc s t = Free_cas a k n" using c [of t] by auto
    then show "n \<in> pending (ps_pc s)" by (auto simp: pending_def)
  qed
  have "np_mem (ps_pool s') a = None \<longleftrightarrow> np_mem (ps_pool s) a = None" for a
    using m [of a] by (cases "np_mem (ps_pool s) a"; cases "np_mem (ps_pool s') a") simp_all
  then have dom: "dom (np_mem (ps_pool s')) = D" unfolding I(2) [symmetric] by (simp add: dom_def)
  have ok: "pc_ok (old_keys pc D j) (pending (ps_pc s')) (path_keys (np_mem (ps_pool s)) (np_topKey (ps_pool s)) fs)
      (np_mem (ps_pool s')) (ps_pc s' t)" for t
  proof (cases "plain (ps_pc s' t)")
    case True
    then show ?thesis by (cases "ps_pc s' t") simp_all
  next
    case False
    then have "ps_pc s' t = ps_pc s t" using c by blast
    then show ?thesis using I(7) [of t] pend by (cases "ps_pc s t") (auto simp: m)
  qed
  show ?thesis
    unfolding pool_inv_def Let_def using I(1,3,4,5) pend dom h ok by (simp add: p pool_path_next [OF m]) blast
qed

lemma view_held:
  "held (pool_view q c g) 0 = map MAKE_NODEPTR (main_keys g)"
  "held (pool_view q c g) (Suc t) = pc_node (inner (c t)) @ priv (c t) (g_seg g t)"
  by (simp_all add: held_def pool_view_def)

text \<open>Program points at which a thread holds nothing but its list.\<close>

fun simple :: "queue_pc \<Rightarrow> bool" where
  "simple (Push_alloc v n c) = False"
| "simple (Push_value v n k) = False"
| "simple (Push_clear n k) = False"
| "simple (Pop_free k c) = False"
| "simple _ = True"

lemma simpleD: "simple c \<Longrightarrow> tag_of c = None" "simple c \<Longrightarrow> inner c = Pool_idle" "simple c \<Longrightarrow> newkey c = prelink c" "simple c \<Longrightarrow> priv c ks = map MAKE_NODEPTR ks"
  by (cases c; simp)+

lemma queue_invD:
  assumes "queue_inv pc D j n g q c xs ys"
  shows "finite D" "\<exists>fs. pool_inv pc D j fs (pool_view q c g)" "chain_ok q g" "tags_ok n q c g"
    "seg_ok (lq_mem q) (g_ct g) (c t) (g_seg g t)" "g_ct g a \<le> g_clk g" "knows (lq_mem q) g (c t)"
    "popping (c t) \<Longrightarrow> popping (c u) \<Longrightarrow> t = u" "vals_ok (lq_mem q) c xs ys g"
  using assms unfolding queue_inv_def by blast+

lemma queue_invI:
  assumes "finite D" "pool_inv pc D j fs (pool_view q c g)" "chain_ok q g" "tags_ok n q c g"
    "\<And>t. seg_ok (lq_mem q) (g_ct g) (c t) (g_seg g t)" "\<And>a. g_ct g a \<le> g_clk g" "\<And>t. knows (lq_mem q) g (c t)"
    "\<And>t u. popping (c t) \<Longrightarrow> popping (c u) \<Longrightarrow> t = u" "vals_ok (lq_mem q) c xs ys g"
  shows "queue_inv pc D j n g q c xs ys"
  using assms unfolding queue_inv_def by blast

lemma local_step:
  assumes inv: "queue_inv pc D j n g q c xs ys" and c: "simple (c t)" "simple d" "prelink d = prelink (c t)" "late d = late (c t)"
    and k: "knows (lq_mem q) g d" and pop: "popping d \<Longrightarrow> popping (c t) \<or> (\<forall>u. \<not> popping (c u))"
  shows "queue_inv pc D j n g (q\<lparr>lq_size := z\<rparr>) (c(t := d)) xs ys"
proof -
  note I = queue_invD [OF inv]
  obtain fs where fs: "pool_inv pc D j fs (pool_view q c g)" using I(2) by blast
  have i: "inner ((c(t := d)) u) = inner (c u)" for u using c(1,2) by (simp add: simpleD)
  have nk: "newkey ((c(t := d)) u) = newkey (c u)" for u using c(1-3) by (simp add: simpleD)
  have pr: "priv ((c(t := d)) u) ks = priv (c u) ks" for u ks using c(1,2) by (simp add: simpleD)
  have al: "tag_of ((c(t := d)) u) = tag_of (c u)" for u using c(1,2) by (simp add: simpleD)
  have pv: "(c(t := d)) u = Push_value v l i0 \<longleftrightarrow> c u = Push_value v l i0" for u v l i0 using c(1,2) by auto
  have lt: "late ((c(t := d)) u) = late (c u)" for u using c(4) by simp
  show ?thesis
  proof (rule queue_invI [where fs = fs])
    show "pool_inv pc D j fs (pool_view (q\<lparr>lq_size := z\<rparr>) (c(t := d)) g)"
      using fs by (simp add: pool_view_def i pr del: fun_upd_apply)
    show "tags_ok n (q\<lparr>lq_size := z\<rparr>) (c(t := d)) g" using I(4) by (simp add: tags_ok_def nk al del: fun_upd_apply)
    show "vals_ok (lq_mem (q\<lparr>lq_size := z\<rparr>)) (c(t := d)) xs ys g"
      using I(9) by (simp add: vals_ok_def priv_nodes_def pr pv lt del: fun_upd_apply)
    show "seg_ok (lq_mem (q\<lparr>lq_size := z\<rparr>)) (g_ct g) ((c(t := d)) u) (g_seg g u)" for u
      using I(5) [of u] c(3) by (cases "u = t") (simp_all add: seg_ok_def)
    show "u = v" if "popping ((c(t := d)) u)" "popping ((c(t := d)) v)" for u v
      using that I(8) [of u v] I(8) [of t v] I(8) [of t u] pop by (auto split: if_splits)
  qed (use I k in \<open>simp_all add: chain_ok_def\<close>)
qed

lemma pc_step:
  assumes "queue_inv pc D j n g q c xs ys" "simple (c t)" "simple d" "prelink d = prelink (c t)" "late d = late (c t)"
    "knows (lq_mem q) g d" "popping d \<Longrightarrow> popping (c t) \<or> (\<forall>u. \<not> popping (c u))"
  shows "queue_inv pc D j n g q (c(t := d)) xs ys"
  using local_step [OF assms, of "lq_size q"] by (cases q) simp

section \<open>The tail\<close>

lemma tail_move:
  assumes inv: "queue_inv pc D j n g q c xs ys" and t: "lq_tail q = t" "next_ok g t k"
  shows "queue_inv pc D j n (g\<lparr>g_p := Suc (g_p g)\<rparr>) (q\<lparr>lq_tail := k\<rparr>) c xs ys"
proof -
  note I = queue_invD [OF inv]
  obtain fs where fs: "pool_inv pc D j fs (pool_view q c g)" using I(2) by blast
  have C: "g_d g \<le> g_p g" "g_p g < length (g_hist g)" "distinct (g_hist g)" "lq_tail q = g_hist g ! g_p g"
    using I(3) by (simp_all add: chain_ok_def)
  have k: "Suc (g_p g) < length (g_hist g)" "g_hist g ! Suc (g_p g) = k" using t C(4) by (simp_all add: next_ok_def)
  have K: "knows (lq_mem q) (g\<lparr>g_p := Suc (g_p g)\<rparr>) (c u)" for u
    by (rule knows_mono [OF I(7), where zs = "[]"]) (use C k I(6) in \<open>simp_all add: seg_nodes_def main_keys_def\<close>)
  show ?thesis
  proof (rule queue_invI [where fs = fs])
    show "pool_inv pc D j fs (pool_view (q\<lparr>lq_tail := k\<rparr>) c (g\<lparr>g_p := Suc (g_p g)\<rparr>))"
      using fs by (simp add: pool_view_def main_keys_def)
    show "chain_ok (q\<lparr>lq_tail := k\<rparr>) (g\<lparr>g_p := Suc (g_p g)\<rparr>)" using I(3) k by (simp add: chain_ok_def main_keys_def)
    show "u = v" if "popping (c u)" "popping (c v)" for u v using that by (rule I(8))
    show "vals_ok (lq_mem (q\<lparr>lq_tail := k\<rparr>)) c xs ys (g\<lparr>g_p := Suc (g_p g)\<rparr>)"
      using I(9) by (simp add: vals_ok_def priv_nodes_def)
  qed (use I(1,4-6) K in \<open>simp_all add: tags_ok_def\<close>)
qed

text \<open>All three places that move the tail compare it with a key that the thread read before.\<close>

lemma tail_cas:
  assumes inv: "queue_inv pc D j n g q c xs ys" and t: "next_ok g t k"
  shows "\<exists>p. queue_inv pc D j n (g\<lparr>g_p := p\<rparr>) (q\<lparr>lq_tail := fst (cas (lq_tail q) k t)\<rparr>) c xs ys"
proof (cases "lq_tail q = t")
  case True
  then show ?thesis using tail_move [OF inv True t] by (auto simp: cas_def)
next
  case False
  then have "q\<lparr>lq_tail := fst (cas (lq_tail q) k t)\<rparr> = q" by (cases q) (simp add: cas_def)
  then show ?thesis using inv by (intro exI [of _ "g_p g"]) simp
qed

lemma head_next:
  assumes "chain_ok q g" "head_ok g h k"
  shows "next_ok g h k"
proof -
  have C: "g_d g \<le> g_p g" "g_p g < length (g_hist g)" "distinct (g_hist g)" using assms(1) by (simp_all add: chain_ok_def)
  have h: "h = g_hist g ! g_d g" "Suc (g_d g) < length (g_hist g)" "k = g_hist g ! Suc (g_d g)"
    using assms(2) by (simp_all add: head_ok_def)
  have "seen_tail g h" unfolding seen_tail_def using C(1) h(1) by blast
  moreover have "g_hist g ! g_d g = g_hist g ! g_p g \<longleftrightarrow> g_d g = g_p g" using C by (simp add: nth_eq_iff_index_eq)
  ultimately show ?thesis unfolding next_ok_def using h by metis
qed

lemma step_tail_moves:
  assumes inv: "queue_inv pc D j n g q c xs ys" and st: "queue_pc_step (c t) q = Some (q', d)"
    and c: "c t = Push_swing k a \<or> c t = Push_help k a l \<or> c t = Pop_help a l"
  shows "\<exists>g'. queue_inv pc D j n g' q' (c(t := d)) xs ys"
proof -
  note I = queue_invD [OF inv]
  define x where "x = (if c t = Push_swing k a then k else l)"
  have n: "next_ok g a x" using I(7) [of t] head_next [OF I(3), of a l] c by (auto simp: x_def)
  obtain p where p: "queue_inv pc D j n (g\<lparr>g_p := p\<rparr>) (q\<lparr>lq_tail := fst (cas (lq_tail q) x a)\<rparr>) c xs ys" using tail_cas [OF inv n] by blast
  have e: "q' = q\<lparr>lq_tail := fst (cas (lq_tail q) x a)\<rparr>" "d = (case c t of Push_help k a l \<Rightarrow> Push_tail k | Pop_help a l \<Rightarrow> Pop_head | _ \<Rightarrow> Push_size)"
    using c st by (elim disjE; simp add: queue_pc_step_def x_def)+
  show ?thesis unfolding e(1) by (rule exI, rule pc_step [OF p]; use c e(2) in \<open>elim disjE; simp\<close>)
qed

section \<open>Accesses that change nothing but the size\<close>

lemma key_path_nth:
  assumes "key_path m ks" "i < length ks" "m (MAKE_NODEPTR (ks ! i)) = Some n"
  shows "nd_key n = (if Suc i < length ks then ks ! Suc i else 0)" "Suc i < length ks \<Longrightarrow> ks ! Suc i \<noteq> 0"
proof -
  have "nd_key n = (if Suc i < length ks then ks ! Suc i else 0) \<and> (Suc i < length ks \<longrightarrow> ks ! Suc i \<noteq> 0)"
    using assms
  proof (induction m ks arbitrary: i rule: key_path.induct)
    case (3 m k k' ks)
    then show ?case by (cases i) (auto split: option.splits)
  qed simp_all
  then show "nd_key n = (if Suc i < length ks then ks ! Suc i else 0)" "Suc i < length ks \<Longrightarrow> ks ! Suc i \<noteq> 0" by blast+
qed

lemma chain_nth:
  assumes "chain_ok q g" "g_d g \<le> i" "i < length (g_hist g)" "lq_mem q (MAKE_NODEPTR (g_hist g ! i)) = Some n"
  shows "nd_key n = (if Suc i < length (g_hist g) then g_hist g ! Suc i else 0)" "nd_key n \<noteq> 0 \<longleftrightarrow> Suc i < length (g_hist g)"
proof -
  have p: "key_path (lq_mem q) (main_keys g)" "g_d g \<le> length (g_hist g)" using assms(1) by (simp_all add: chain_ok_def)
  have i: "i - g_d g < length (main_keys g)" "main_keys g ! (i - g_d g) = g_hist g ! i" "main_keys g ! Suc (i - g_d g) = g_hist g ! Suc i"
    "Suc (i - g_d g) < length (main_keys g) \<longleftrightarrow> Suc i < length (g_hist g)"
    using assms(2,3) p(2) by (auto simp: main_keys_def Suc_diff_le)
  show "nd_key n = (if Suc i < length (g_hist g) then g_hist g ! Suc i else 0)"
    using key_path_nth(1) [OF p(1) i(1), of n] assms(4) by (simp add: i)
  then show "nd_key n \<noteq> 0 \<longleftrightarrow> Suc i < length (g_hist g)"
    using key_path_nth(2) [OF p(1) i(1), of n] assms(4) by (simp add: i)
qed

text \<open>The nodes of the threads and of the list are different ones.\<close>

lemma held_apart:
  assumes inv: "queue_inv pc D j n g q c xs ys"
  shows "a \<in> nodes (main_keys g) \<Longrightarrow> a \<notin> set (priv (c t) (g_seg g t))"
    "a \<in> set (priv (c t) (g_seg g t)) \<Longrightarrow> a \<in> set (priv (c u) (g_seg g u)) \<Longrightarrow> t = u"
    "a \<in> set (pc_node (inner (c t))) \<Longrightarrow> a \<notin> nodes (main_keys g) \<and> a \<notin> set (priv (c u) (g_seg g u))"
    "distinct (map MAKE_NODEPTR (main_keys g))" "distinct (priv (c t) (g_seg g t))"
    "a \<in> set (priv (c t) (g_seg g t)) \<or> a \<in> set (pc_node (inner (c t))) \<Longrightarrow> a \<noteq> 0 \<and> unat a < 2 ^ 48 \<and> a \<in> D"
    "dom (lq_mem q) = D"
proof -
  obtain fs where fs: "pool_inv pc D j fs (pool_view q c g)" using queue_invD(2) [OF inv] by blast
  note S = shared_outD [OF pool_invD(6) [OF fs]]
  have H: "set (held (pool_view q c g) 0) = nodes (main_keys g)"
    "\<And>t. set (held (pool_view q c g) (Suc t)) = set (pc_node (inner (c t))) \<union> set (priv (c t) (g_seg g t))"
    by (simp_all add: view_held)
  show "a \<in> nodes (main_keys g) \<Longrightarrow> a \<notin> set (priv (c t) (g_seg g t))" using S(5) [of a 0 "Suc t"] H by blast
  show "a \<in> set (priv (c t) (g_seg g t)) \<Longrightarrow> a \<in> set (priv (c u) (g_seg g u)) \<Longrightarrow> t = u" using S(5) [of a "Suc t" "Suc u"] H by blast
  have d: "distinct (pc_node (inner (c t)) @ priv (c t) (g_seg g t))" for t using S(3) [of "Suc t"] by (simp add: view_held)
  show "a \<in> set (pc_node (inner (c t))) \<Longrightarrow> a \<notin> nodes (main_keys g) \<and> a \<notin> set (priv (c u) (g_seg g u))"
    using S(5) [of a "Suc t" 0] S(5) [of a "Suc t" "Suc u"] H d [of t] by (cases "t = u") auto
  show "distinct (map MAKE_NODEPTR (main_keys g))" using S(3) [of 0] by (simp add: view_held)
  show "distinct (priv (c t) (g_seg g t))" using d [of t] by simp
  show "a \<in> set (priv (c t) (g_seg g t)) \<or> a \<in> set (pc_node (inner (c t))) \<Longrightarrow> a \<noteq> 0 \<and> unat a < 2 ^ 48 \<and> a \<in> D"
    using node_private(1,5,6) [OF fs, of a "Suc t"] H by blast
  show "dom (lq_mem q) = D" using pool_invD(2) [OF fs] by (simp add: pool_view_def)
qed

lemma seg_priv:
  assumes "queue_inv pc D j n g q c xs ys"
  shows "nodes (g_seg g t) \<subseteq> set (priv (c t) (g_seg g t))"
  using queue_invD(5) [OF assms, of t] by (cases "c t") (simp_all add: seg_ok_def)

lemma main_node:
  assumes "chain_ok q g" "g_d g \<le> i" "i < length (g_hist g)"
  shows "MAKE_NODEPTR (g_hist g ! i) \<in> nodes (main_keys g)"
proof -
  have "main_keys g ! (i - g_d g) = g_hist g ! i" "i - g_d g < length (main_keys g)" using assms by (simp_all add: main_keys_def)
  then show ?thesis by (metis imageI nth_mem)
qed

lemma main_not_seg: "queue_inv pc D j n g q c xs ys \<Longrightarrow> a \<in> nodes (main_keys g) \<Longrightarrow> a \<notin> seg_nodes g"
  using held_apart(1) [of pc D j n g q c xs ys a] seg_priv [of pc D j n g q c xs ys] unfolding seg_nodes_def by auto

lemma tail_now:
  assumes inv: "queue_inv pc D j n g q c xs ys"
  shows "seen_tail g (lq_tail q)" "tail_ok (lq_mem q) g k (lq_tail q)"
proof -
  note C = queue_invD(3) [OF inv]
  have p: "g_d g \<le> g_p g" "g_p g < length (g_hist g)" "lq_tail q = g_hist g ! g_p g" using C by (simp_all add: chain_ok_def)
  then show s: "seen_tail g (lq_tail q)" by (auto simp: seen_tail_def)
  have "MAKE_NODEPTR (lq_tail q) \<in> nodes (main_keys g)" using main_node [OF C p(1,2)] by (simp add: p(3))
  then show "tail_ok (lq_mem q) g k (lq_tail q)" unfolding tail_ok_def using s main_not_seg [OF inv] by blast
qed

lemma seen_next:
  assumes inv: "queue_inv pc D j n g q c xs ys" and t: "seen_tail g t" "lq_mem q (MAKE_NODEPTR t) = Some m" "nd_key m \<noteq> 0"
  shows "next_ok g t (nd_key m)"
proof -
  note C = queue_invD(3) [OF inv]
  have p: "g_d g \<le> g_p g" "g_p g < length (g_hist g)" using C by (simp_all add: chain_ok_def)
  show ?thesis unfolding next_ok_def using t chain_nth [OF C p] by auto
qed

lemma step_push_reads:
  assumes inv: "queue_inv pc D j n g q c xs ys" and st: "queue_pc_step (c t) q = Some (q', d)"
    and c: "c t = Push_tail k \<or> c t = Push_head k a \<or> c t = Push_key k a \<or> c t = Push_size"
  shows "queue_inv pc D j n g q' (c(t := d)) xs ys"
  using c
proof (elim disjE)
  assume c: "c t = Push_key k a"
  have K: "tail_ok (lq_mem q) g k a" using queue_invD(7) [OF inv, of t] by (simp add: c)
  obtain m where m: "lq_mem q (MAKE_NODEPTR a) = Some m" "q' = q" "d = (if nd_key m = 0 then Push_link k a else Push_help k a (nd_key m))"
    using st by (auto simp: c queue_pc_step_def split: option.splits)
  have "nd_key m \<noteq> 0 \<Longrightarrow> next_ok g a (nd_key m)" using seen_next [OF inv _ m(1)] K by (simp add: tail_ok_def)
  then show ?thesis unfolding m(2) by (intro pc_step [OF inv]) (use K in \<open>simp_all add: c m(3) split: if_splits\<close>)
next
  assume c: "c t = Push_tail k"
  have e: "q' = q" "d = Push_head k (lq_tail q)" using st by (auto simp: c queue_pc_step_def)
  show ?thesis unfolding e by (rule pc_step [OF inv]) (simp_all add: c tail_now [OF inv])
next
  assume c: "c t = Push_head k a"
  have e: "q' = q" "d = Push_key k a" using st by (auto simp: c queue_pc_step_def)
  show ?thesis unfolding e by (rule pc_step [OF inv]) (use queue_invD(7) [OF inv, of t] in \<open>simp_all add: c\<close>)
next
  assume c: "c t = Push_size"
  have e: "q' = q\<lparr>lq_size := lq_size q + 1\<rparr>" "d = Push_done True" using st by (auto simp: c queue_pc_step_def)
  show ?thesis unfolding e by (rule local_step [OF inv]) (simp_all add: c)
qed

lemma step_pop_key:
  assumes inv: "queue_inv pc D j n g q c xs ys" and st: "queue_pc_step (c t) q = Some (q', d)" and c: "c t = Pop_key h a"
  shows "queue_inv pc D j n g q' (c(t := d)) xs ys"
proof -
  note C = queue_invD(3) [OF inv]
  have p: "g_d g \<le> g_p g" "g_p g < length (g_hist g)" "g_d g < length (g_hist g)" using C by (simp_all add: chain_ok_def)
  obtain i where K: "h = g_hist g ! g_d g" "g_d g \<le> i" "i \<le> g_p g" "a = g_hist g ! i"
    using queue_invD(7) [OF inv, of t] by (auto simp: c)
  obtain m where m: "lq_mem q (MAKE_NODEPTR h) = Some m" "q' = q"
    "d = (if nd_key m = 0 then Pop_head else if h = a then Pop_help_key a else Pop_check h (nd_key m))"
    using st by (auto simp: c queue_pc_step_def split: option.splits)
  have H: "nd_key m \<noteq> 0 \<Longrightarrow> head_ok g h (nd_key m)"
    using chain_nth [OF C order_refl p(3), of m] m(1) K(1) by (simp add: head_ok_def)
  have "h \<noteq> a \<Longrightarrow> g_d g < g_p g" using K by (cases "g_d g = i") auto
  then have "knows (lq_mem q) g d" using H by (auto simp: m(3))
  then show ?thesis unfolding m(2) by (intro pc_step [OF inv]) (simp_all add: c m(3))
qed

lemma step_pop_reads:
  assumes inv: "queue_inv pc D j n g q c xs ys" and st: "queue_pc_step (c t) q = Some (q', d)"
    and c: "c t = Pop_size \<or> c t = Pop_undo \<or> c t = Pop_head \<or> c t = Pop_tail h \<or> c t = Pop_help_key h \<or> c t = Pop_check h k"
  shows "queue_inv pc D j n g q' (c(t := d)) xs ys"
proof -
  note C = queue_invD(3) [OF inv]
  note K = queue_invD(7) [OF inv, of t]
  have p: "g_d g \<le> g_p g" "lq_tail q = g_hist g ! g_p g" "lq_head q = g_hist g ! g_d g" using C by (simp_all add: chain_ok_def)
  show ?thesis
    using c
  proof (elim disjE)
    assume c: "c t = Pop_size"
    have e: "q' = q\<lparr>lq_size := lq_size q - 1\<rparr>" "d = (if sint (lq_size q - 1) < 0 then Pop_undo else Pop_head)"
      using st by (simp_all add: c queue_pc_step_def Let_def)
    show ?thesis unfolding e by (rule local_step [OF inv]) (simp_all add: c)
  next
    assume c: "c t = Pop_undo"
    have e: "q' = q\<lparr>lq_size := lq_size q + 1\<rparr>" "d = Pop_done None" using st by (auto simp: c queue_pc_step_def)
    show ?thesis unfolding e by (rule local_step [OF inv]) (simp_all add: c)
  next
    assume c: "c t = Pop_head"
    have e: "q' = q" "d = Pop_tail (lq_head q)" using st by (auto simp: c queue_pc_step_def)
    show ?thesis unfolding e by (rule pc_step [OF inv]) (simp_all add: c p)
  next
    assume c: "c t = Pop_tail h"
    have e: "q' = q" "d = Pop_key h (lq_tail q)" using st by (auto simp: c queue_pc_step_def)
    have "knows (lq_mem q) g d" using K p by (auto simp: c e)
    then show ?thesis unfolding e(1) by (intro pc_step [OF inv]) (simp_all add: c e(2))
  next
    assume c: "c t = Pop_help_key h"
    obtain k0 where k0: "head_ok g h k0" using K by (auto simp: c)
    obtain m where m: "lq_mem q (MAKE_NODEPTR h) = Some m" "q' = q" "d = Pop_help h (nd_key m)"
      using st by (auto simp: c queue_pc_step_def split: option.splits)
    have "nd_key m = k0" using chain_nth(1) [OF C order_refl, of m] k0 m(1) by (simp add: head_ok_def)
    then show ?thesis unfolding m(2) by (intro pc_step [OF inv]) (simp_all add: c m(3) k0)
  next
    assume c: "c t = Pop_check h k"
    have e: "q' = q" "d = (if lq_head q = h then Pop_set h k else Pop_head)" using st by (auto simp: c queue_pc_step_def)
    show ?thesis unfolding e by (rule pc_step [OF inv]) (use K in \<open>simp_all add: c\<close>)
  qed
qed

section \<open>Accesses that leave the keys and the values alone\<close>

definition same_nodes :: "(u64 \<rightharpoonup> node) \<Rightarrow> (u64 \<rightharpoonup> node) \<Rightarrow> bool" where
  "same_nodes m m' \<longleftrightarrow> (\<forall>a. map_option (\<lambda>n. (nd_key n, nd_value n)) (m' a) = map_option (\<lambda>n. (nd_key n, nd_value n)) (m a))"

lemma same_nodes_refl: "same_nodes m m"
  by (simp add: same_nodes_def)

lemma same_nodes_cases:
  assumes "same_nodes m m'"
  obtains "m a = None" "m' a = None" | n n' where "m a = Some n" "m' a = Some n'" "nd_key n' = nd_key n" "nd_value n' = nd_value n"
proof -
  have "map_option (\<lambda>n. (nd_key n, nd_value n)) (m' a) = map_option (\<lambda>n. (nd_key n, nd_value n)) (m a)"
    using assms by (simp add: same_nodes_def)
  then show ?thesis using that by (cases "m a"; cases "m' a") simp_all
qed

lemma same_nodesD:
  assumes "same_nodes m m'"
  shows "key_of m' a = key_of m a" "value_of m' a = value_of m a" "dom m' = dom m" "key_path m' ks = key_path m ks"
    "knows m' g c = knows m g c" "seg_ok m' ct c ks = seg_ok m ct c ks" "vals_ok m' f xs ys g = vals_ok m f xs ys g"
proof -
  show k: "key_of m' a = key_of m a" for a by (cases rule: same_nodes_cases [OF assms, of a]) (simp_all add: key_of_def)
  show v: "value_of m' a = value_of m a" for a by (cases rule: same_nodes_cases [OF assms, of a]) (simp_all add: value_of_def)
  have "m' a = None \<longleftrightarrow> m a = None" for a by (cases rule: same_nodes_cases [OF assms, of a]) simp_all
  then show "dom m' = dom m" by (simp add: dom_def)
  show p: "key_path m' ks = key_path m ks" for ks
  proof (induction ks rule: induct_list012)
    case (2 k)
    show ?case by (cases rule: same_nodes_cases [OF assms, of "MAKE_NODEPTR k"]) simp_all
  next
    case (3 k k' ks)
    then show ?case by (cases rule: same_nodes_cases [OF assms, of "MAKE_NODEPTR k"]) simp_all
  qed simp
  show "knows m' g c = knows m g c" by (cases c) (simp_all add: tail_ok_def k)
  show "seg_ok m' ct c ks = seg_ok m ct c ks" by (cases "prelink c") (simp_all add: seg_ok_def p)
  show "vals_ok m' f xs ys g = vals_ok m f xs ys g" by (simp add: vals_ok_def v)
qed

lemma knows_keys: "(\<And>a. key_of m' a = key_of m a) \<Longrightarrow> knows m' g c = knows m g c"
  by (cases c) (simp_all add: tail_ok_def)

lemma frame_step:
  assumes inv: "queue_inv pc D j n g q c xs ys" and m: "same_nodes (lq_mem q) (lq_mem q')"
    and q: "lq_head q' = lq_head q" "lq_tail q' = lq_tail q" and d: "prelink (c t) = None" "prelink d = None"
    and k: "knows (lq_mem q) g d" and pop: "popping d \<Longrightarrow> popping (c t)"
    and pool: "pool_inv pc D j' fs (pool_view q' (c(t := d)) g)" and tags: "tags_ok n' q' (c(t := d)) g"
    and vals: "vals_ok (lq_mem q) (c(t := d)) xs' ys' g"
  shows "queue_inv pc D j' n' g q' (c(t := d)) xs' ys'"
proof -
  note I = queue_invD [OF inv]
  note S = same_nodesD [OF m]
  show ?thesis
  proof (rule queue_invI [OF _ pool])
    show "chain_ok q' g" using I(3) by (simp add: chain_ok_def S q)
    show "seg_ok (lq_mem q') (g_ct g) ((c(t := d)) u) (g_seg g u)" for u
      using I(5) [of u] d unfolding S by (cases "u = t") (simp_all add: seg_ok_def)
    show "u = v" if "popping ((c(t := d)) u)" "popping ((c(t := d)) v)" for u v
      using that I(8) [of u v] I(8) [of t v] I(8) [of t u] pop by (auto split: if_splits)
  qed (use I(1,6,7) k tags vals in \<open>simp_all add: S\<close>)
qed

lemma seg_none: "queue_inv pc D j n g q c xs ys \<Longrightarrow> prelink (c t) = None \<Longrightarrow> g_seg g t = []"
  using queue_invD(5) [of pc D j n g q c xs ys t] by (simp add: seg_ok_def)

text \<open>The packets stay where they are when the thread holds the same nodes as before.\<close>

lemma vals_same:
  assumes "vals_ok m c xs ys g" "priv d (g_seg g t) = priv (c t) (g_seg g t)" "late d = late (c t)"
    "\<And>v n k. c t \<noteq> Push_value v n k" "\<And>v n k. d \<noteq> Push_value v n k"
  shows "vals_ok m (c(t := d)) xs ys g"
proof -
  have p: "priv ((c(t := d)) u) (g_seg g u) = priv (c u) (g_seg g u)" for u using assms(2) by simp
  have l: "late ((c(t := d)) u) = late (c u)" for u using assms(3) by simp
  have v: "(c(t := d)) u = Push_value a b k \<longleftrightarrow> c u = Push_value a b k" for u a b k using assms(4,5) by auto
  show ?thesis using assms(1) by (simp add: vals_ok_def priv_nodes_def p l v del: fun_upd_apply)
qed

lemma view_step:
  assumes inv: "pool_inv pc D j fs (pool_view q c g)"
    and st: "pool_pc_step (inner (c t)) (lq_np q) = Some (p, i)"
    and b: "j' = (case inner (c t) of Free_number a k \<Rightarrow> Suc j | _ \<Rightarrow> j)" "j' < 2 ^ 16"
    and d: "inner d = i \<or> plain (inner d)" "pc_node (inner d) @ priv d (g_seg g t) = pc_node i @ priv (c t) (g_seg g t)"
  shows "\<exists>fs'. pool_inv pc D j' fs' (pool_view (q\<lparr>lq_np := p\<rparr>) (c(t := d)) g)"
proof -
  let ?s = "pool_view q c g" let ?s' = "pool_view (q\<lparr>lq_np := p\<rparr>) (c(t := d)) g"
  have pc: "ps_pc ?s (Suc t) = inner (c t)" "ps_pool ?s = lq_np q" by (simp_all add: pool_view_def)
  obtain fs' where fs: "pool_inv pc D j' fs' (?s\<lparr>ps_pool := p, ps_pc := (ps_pc ?s)(Suc t := i)\<rparr>)"
    using access_inv [OF inv, of "Suc t" p i] st b by (auto simp: pc)
  have h: "held ?s' u = held (?s\<lparr>ps_pool := p, ps_pc := (ps_pc ?s)(Suc t := i)\<rparr>) u" for u
    using d(2) by (cases u) (auto simp: held_def pool_view_def)
  have h: "held ?s' = held (?s\<lparr>ps_pool := p, ps_pc := (ps_pc ?s)(Suc t := i)\<rparr>)" using h by (rule ext)
  have "pool_inv pc D j' fs' ?s'"
  proof (rule pool_inv_own [OF fs])
    show "ps_pc ?s' u = ps_pc (?s\<lparr>ps_pool := p, ps_pc := (ps_pc ?s)(Suc t := i)\<rparr>) u \<or> plain (ps_pc ?s' u)" for u
      using d(1) by (cases u) (auto simp: pool_view_def)
    show "shared_out D fs' (held ?s')" unfolding h by (rule pool_invD(6) [OF fs])
  qed (simp_all add: pool_view_def)
  then show ?thesis by blast
qed

lemma alloc_step_keeps:
  assumes "alloc_step i p = Some (p', i')" "allocating i"
  shows "np_mem p' = np_mem p" "(\<exists>a. i' = Alloc_done a) \<or> allocating i'" "pool_pc_step i p = Some (p', i')" "\<And>a k. i \<noteq> Free_number a k"
  using assms by (cases i; auto simp: pool_pc_step_def Let_def split: if_splits option.splits)+

lemma free_step_keeps:
  assumes "free_step i p = Some (p', i')" "freeing i"
  shows "same_nodes (np_mem p) (np_mem p')" "i' = Free_done \<or> freeing i'" "pool_pc_step i p = Some (p', i')" "pc_node i' = [] \<or> i' \<noteq> Free_done"
  using assms by (cases i; auto simp: pool_pc_step_def same_nodes_def Let_def split: if_splits option.splits)+

end
