(* ===== verification/Queue_Steps.thy ===== *)
theory Queue_Steps
  imports Queue_Inv
begin

text \<open>
  The accesses that change the lists behind a state of the queue: a push number, a node from the pool or back to it,
  the two writes to a new node, the link, and the move of the head. Each keeps the invariant of \<open>Queue_Inv\<close>.
\<close>

section \<open>Numbers and the pool\<close>

lemma of_nat_fresh: "Suc n < 2 ^ 16 \<Longrightarrow> (of_nat (Suc n) :: u64) \<notin> of_nat ` {0..n}"
proof
  assume n: "Suc n < 2 ^ 16" and "(of_nat (Suc n) :: u64) \<in> of_nat ` {0..n}"
  then obtain i where i: "i \<le> n" "(of_nat (Suc n) :: u64) = of_nat i" by auto
  have "unat (of_nat (Suc n) :: u64) = Suc n" "unat (of_nat i :: u64) = i" using n i(1) by (simp_all add: unat_of_nat del: of_nat_Suc)
  then show False using i by simp
qed

lemma step_push_number:
  assumes inv: "queue_inv pc D j n g q c xs ys" and st: "queue_pc_step (c t) q = Some (q', d)" and c: "c t = Push_number x" and n: "Suc n < 2 ^ 16"
  shows "queue_inv pc D j (Suc n) g q' (c(t := d)) xs ys"
proof -
  note I = queue_invD [OF inv]
  obtain fs where fs: "pool_inv pc D j fs (pool_view q c g)" using I(2) by blast
  have T: "lq_pushs q = of_nat n" "g_used g \<subseteq> of_nat ` {0..n}" using I(4) by (simp_all add: tags_ok_def)
  define l where "l = (of_nat (Suc n) :: u64)"
  have e: "q' = q\<lparr>lq_pushs := l\<rparr>" "d = Push_alloc x l Alloc_read" using st T(1) by (auto simp: c queue_pc_step_def Let_def l_def)
  have l: "l \<notin> of_nat ` {0..n}" "l \<in> of_nat ` {0..Suc n}" 
    unfolding l_def by (rule of_nat_fresh [OF n], rule imageI, simp)
  have sub: "of_nat ` {0..n} \<subseteq> (of_nat ` {0..Suc n} :: u64 set)" by auto
  have pool: "pool_inv pc D j fs (pool_view q' (c(t := d)) g)"
  proof (rule pool_inv_own [OF fs])
    show "ps_pc (pool_view q' (c(t := d)) g) u = ps_pc (pool_view q c g) u \<or> plain (ps_pc (pool_view q' (c(t := d)) g) u)" for u
      by (cases u) (simp_all add: pool_view_def e)
    have "held (pool_view q' (c(t := d)) g) u = held (pool_view q c g) u" for u
      by (cases u) (simp_all add: view_held e c)
    then show "shared_out D fs (held (pool_view q' (c(t := d)) g))" using pool_invD(6) [OF fs] by presburger
  qed (simp_all add: pool_view_def e)
  note T = tags_okD [OF I(4)]
  have tags: "tags_ok (Suc n) q' (c(t := d)) g"
  proof (rule tags_okI)
    show "lq_pushs q' = of_nat (Suc n)" by (simp only: e(1) l_def) simp
    show "g_used g \<subseteq> of_nat ` {0..Suc n}" using T(2) sub by blast
    show "k \<noteq> 0 \<and> k \<notin> set (g_hist g) \<and> drop_bit 48 k \<in> g_used g" if "newkey ((c(t := d)) u) = Some k" for u k
      using that T(6) [of u] by (simp add: e split: if_splits)
    show "a \<in> of_nat ` {0..Suc n} \<and> a \<notin> g_used g" if "tag_of ((c(t := d)) u) = Some a" for u a
      using that T(7) [of u a] T(2) l sub by (cases "u = t") (auto simp: e)
    show "w = u" if "tag_of ((c(t := d)) u) = Some a" "tag_of ((c(t := d)) w) = Some a" for u w a
      using that T(7) [of u a] T(7) [of w a] T(8) [of u a w] l by (cases "u = t"; cases "w = t") (auto simp: e)
  qed (use T in blast)+
  show ?thesis
    by (rule frame_step [OF inv _ _ _ _ _ _ _ pool tags]) (use I(9) in \<open>auto simp: e c same_nodes_refl intro!: vals_same\<close>)
qed

lemma tags_step:
  assumes "tags_ok n q c g" "lq_pushs q' = lq_pushs q" "newkey d = None \<or> newkey d = newkey (c t)" "tag_of d = None \<or> tag_of d = tag_of (c t)"
  shows "tags_ok n q' (c(t := d)) g"
proof (rule tags_okI)
  note T = tags_okD [OF assms(1)]
  show "lq_pushs q' = of_nat n" using T(1) assms(2) by simp
  show "k \<noteq> 0 \<and> k \<notin> set (g_hist g) \<and> drop_bit 48 k \<in> g_used g" if "newkey ((c(t := d)) u) = Some k" for u k
    using that T(6) [of u k] T(6) [of t k] assms(3) by (auto split: if_splits)
  have tg: "tag_of (c u) = Some l" if "tag_of ((c(t := d)) u) = Some l" for u l
    using that assms(4) by (auto split: if_splits)
  show "l \<in> of_nat ` {0..n} \<and> l \<notin> g_used g" if "tag_of ((c(t := d)) u) = Some l" for u l by (rule T(7) [OF tg [OF that]])
  show "v = u" if "tag_of ((c(t := d)) u) = Some l" "tag_of ((c(t := d)) v) = Some l" for u v l
    by (rule T(8) [OF tg [OF that(1)] tg [OF that(2)]])
qed (use tags_okD [OF assms(1)] in blast)+

lemma tags_move:
  assumes T: "tags_ok n q c g" and q: "lq_pushs q' = lq_pushs q" "g_used g' = g_used g" and d: "tag_of d = None" "newkey d = None \<or> newkey d = newkey (c t)"
    and h: "drop_bit 48 ` set (g_hist g') \<subseteq> g_used g"
    and s: "\<And>u. drop_bit 48 ` set (g_seg g' u) \<subseteq> g_used g" "\<And>u. set (g_seg g' u) \<inter> set (g_hist g') = {}"
    and k: "\<And>u k. newkey ((c(t := d)) u) = Some k \<Longrightarrow> k \<notin> set (g_hist g')"
  shows "tags_ok n q' (c(t := d)) g'"
proof (rule tags_okI)
  have S: "tags_ok n q' (c(t := d)) g" by (rule tags_step [OF T q(1) d(2)]) (simp add: d(1))
  note S = tags_okD [OF S]
  show "l \<in> of_nat ` {0..n} \<and> l \<notin> g_used g'" if "tag_of ((c(t := d)) u) = Some l" for u l using S(7) [OF that] by (simp add: q(2))
  show "v = u" if "tag_of ((c(t := d)) u) = Some l" "tag_of ((c(t := d)) v) = Some l" for u v l by (rule S(8) [OF that])
  show "z \<noteq> 0 \<and> z \<notin> set (g_hist g') \<and> drop_bit 48 z \<in> g_used g'" if "newkey ((c(t := d)) u) = Some z" for u z
    using S(6) [OF that] k [OF that] by (simp add: q(2))
qed (use q h s tags_okD(1,2) [OF T] in simp_all)

text \<open>What has to be shown for a step that changes the lists.\<close>

lemma list_step:
  assumes inv: "queue_inv pc D j n g q c xs ys" and pool: "pool_inv pc D j' fs (pool_view q' (c(t := d)) g')"
    and chain: "chain_ok q' g'" "g_hist g' = g_hist g @ zs" "g_p g' = g_p g" and tags: "tags_ok n' q' (c(t := d)) g'"
    and seg: "\<And>u. seg_ok (lq_mem q') (g_ct g') ((c(t := d)) u) (g_seg g' u)" and clk: "\<And>z. g_ct g' z \<le> g_clk g'"
    and vals: "vals_ok (lq_mem q') (c(t := d)) xs' ys' g'"
    and own: "knows (lq_mem q') g' d" "popping d \<Longrightarrow> popping (c t)"
    and others: "\<And>u. u \<noteq> t \<Longrightarrow> popping (c u) \<Longrightarrow> g_d g' = g_d g"
      "\<And>u k. u \<noteq> t \<Longrightarrow> newkey (c u) = Some k \<Longrightarrow> g_ct g' (MAKE_NODEPTR k) = g_ct g (MAKE_NODEPTR k)"
      "\<And>x. x \<in> seg_nodes g' \<Longrightarrow> x \<in> seg_nodes g \<and> g_ct g' x = g_ct g x \<or> g_clk g < g_ct g' x"
      "\<And>x. x \<notin> seg_nodes g' \<union> nodes (main_keys g') \<Longrightarrow>
        x \<notin> seg_nodes g \<union> nodes (main_keys g) \<and> key_of (lq_mem q') x = key_of (lq_mem q) x \<or> key_of (lq_mem q') x \<noteq> 0"
      "\<And>u v n k. u \<noteq> t \<Longrightarrow> c u = Push_value v n k \<Longrightarrow> g_val g' n = g_val g n"
  shows "queue_inv pc D j' n' g' q' (c(t := d)) xs' ys'"
proof (rule queue_invI [OF _ pool chain(1) tags seg clk _ _ vals])
  note I = queue_invD [OF inv]
  have C: "g_d g \<le> g_p g" "g_p g < length (g_hist g)" using I(3) by (simp_all add: chain_ok_def)
  show "finite D" by (rule I(1))
  show "knows (lq_mem q') g' ((c(t := d)) u)" for u
  proof (cases "u = t")
    case False
    have "knows (lq_mem q') g' (c u)"
      by (rule knows_mono [OF I(7) chain(2) _ _ _ C(2,1) _ _ I(6) others(3,4)])
        (use chain(1,3) others(1,2,5) False in \<open>auto simp: chain_ok_def\<close>)
    then show ?thesis using False by simp
  qed (simp add: own(1))
  have pp: "popping (c u)" if "popping ((c(t := d)) u)" for u using that own(2) by (cases "u = t") simp_all
  show "u = v" if "popping ((c(t := d)) u)" "popping ((c(t := d)) v)" for u v using that by (intro I(8) pp)
qed

lemma step_push_alloc:
  assumes inv: "queue_inv pc D j n g q c xs ys" and st: "queue_pc_step (c t) q = Some (q', d)" and c: "c t = Push_alloc x l i"
    and j: "j < 2 ^ 16" and d: "\<And>v a k. d \<noteq> Push_value v a k"
  shows "queue_inv pc D j n g q' (c(t := d)) xs ys"
proof -
  note I = queue_invD [OF inv]
  obtain fs where fs: "pool_inv pc D j fs (pool_view q c g)" using I(2) by blast
  have a: "allocating i" using I(7) [of t] by (simp add: c)
  obtain p i' where p: "alloc_step i (lq_np q) = Some (p, i')" "q' = q\<lparr>lq_np := p\<rparr>"
    "d = (case i' of Alloc_done n \<Rightarrow> if n = 0 then Push_done False else Push_value x n (MAKE_KEY n l) | _ \<Rightarrow> Push_alloc x l i')"
    using st by (auto simp: c queue_pc_step_def split: option.splits prod.splits)
  note K = alloc_step_keeps [OF p(1) a]
  have e: "i' = Alloc_done 0 \<and> d = Push_done False \<or> allocating i' \<and> d = Push_alloc x l i'"
    using K(2) p(3) d by (cases i') (auto split: if_splits)
  have "\<exists>fs'. pool_inv pc D j fs' (pool_view (q\<lparr>lq_np := p\<rparr>) (c(t := d)) g)"
    by (rule view_step [OF fs]) (use K(3,4) j e seg_none [OF inv, of t] in \<open>auto simp: c split: pool_pc.splits\<close>)
  then obtain fs' where pool: "pool_inv pc D j fs' (pool_view q' (c(t := d)) g)" unfolding p(2) by blast
  have tags: "tags_ok n q' (c(t := d)) g" by (rule tags_step [OF I(4)]) (use e in \<open>auto simp: p(2) c\<close>)
  have vals: "vals_ok (lq_mem q) (c(t := d)) xs ys g" by (rule vals_same [OF I(9)]) (use e in \<open>auto simp: c\<close>)
  show ?thesis
    by (rule frame_step [OF inv _ _ _ _ _ _ _ pool tags vals]) (use e in \<open>auto simp: p(2) K(1) same_nodes_refl c\<close>)
qed

lemma step_pop_free:
  assumes inv: "queue_inv pc D j n g q c xs ys" and st: "queue_pc_step (c t) q = Some (q', d)" and c: "c t = Pop_free k i"
    and j: "j' = (case i of Free_number a k \<Rightarrow> Suc j | _ \<Rightarrow> j)" "j' < 2 ^ 16"
  shows "queue_inv pc D j' n g q' (c(t := d)) xs ys"
proof -
  note I = queue_invD [OF inv]
  obtain fs where fs: "pool_inv pc D j fs (pool_view q c g)" using I(2) by blast
  have a: "freeing i" and k: "k = g_hist g ! g_d g" "0 < g_d g" using I(7) [of t] by (simp_all add: c)
  obtain p i' where p: "free_step i (lq_np q) = Some (p, i')" "q' = q\<lparr>lq_np := p\<rparr>"
    "d = (case i' of Free_done \<Rightarrow> Pop_value k | _ \<Rightarrow> Pop_free k i')"
    using st by (auto simp: c queue_pc_step_def split: option.splits prod.splits)
  note K = free_step_keeps [OF p(1) a]
  have e: "i' = Free_done \<and> d = Pop_value k \<or> freeing i' \<and> d = Pop_free k i'"
    using K(2) p(3) by (cases i') auto
  have "\<exists>fs'. pool_inv pc D j' fs' (pool_view (q\<lparr>lq_np := p\<rparr>) (c(t := d)) g)"
    by (rule view_step [OF fs, where t = t]) (use K(3) j e in \<open>auto simp: c\<close>)
  then obtain fs' where pool: "pool_inv pc D j' fs' (pool_view q' (c(t := d)) g)" unfolding p(2) by blast
  have tags: "tags_ok n q' (c(t := d)) g" by (rule tags_step [OF I(4)]) (use e in \<open>auto simp: p(2) c\<close>)
  have vals: "vals_ok (lq_mem q) (c(t := d)) xs ys g" by (rule vals_same [OF I(9)]) (use e in \<open>auto simp: c\<close>)
  show ?thesis
    by (rule frame_step [OF inv _ _ _ _ _ _ _ pool tags vals]) (use e k K(1) in \<open>auto simp: p(2) c\<close>)
qed

lemma step_pop_value:
  assumes inv: "queue_inv pc D j n g q c xs ys" and st: "queue_pc_step (c t) q = Some (q', d)" and c: "c t = Pop_value k"
  shows "queue_inv pc D j n g q' (c(t := d)) xs (ys @ returned d)"
proof -
  note I = queue_invD [OF inv]
  obtain fs where fs: "pool_inv pc D j fs (pool_view q c g)" using I(2) by blast
  have k: "k = g_hist g ! g_d g" "0 < g_d g" using I(7) [of t] by (simp_all add: c)
  have l: "g_d g < length (g_hist g)" using I(3) by (simp add: chain_ok_def)
  obtain m where m: "lq_mem q (MAKE_NODEPTR k) = Some m" "q' = q" "d = Pop_done (Some (nd_value m))"
    using st by (auto simp: c queue_pc_step_def split: option.splits)
  have v: "nd_value m = g_vals g ! g_d g" "length (g_vals g) = length (g_hist g)"
    using vals_okD(2) [OF I(9) k(2) order_refl l] vals_okD(1) [OF I(9)] m(1) by (simp_all add: value_of_def k(1))
  have one: "\<not> late (c u)" if "u \<noteq> t" for u
  proof
    assume "late (c u)"
    then have "popping (c u)" by (cases "c u") simp_all
    then show False using I(8) [of u t] that by (simp add: c)
  qed
  have late: "\<exists>t. late (c t)" using c by (auto intro: exI [of _ t])
  have none: "\<not> (\<exists>u. late ((c(t := d)) u))" using one by (simp add: m)
  have "take (g_d g - 1) (tl (g_vals g)) @ [nd_value m] = take (g_d g) (tl (g_vals g))"
    using take_Suc_conv_app_nth [of "g_d g - 1" "tl (g_vals g)"] v k(2) l by (simp add: nth_tl)
  then have y: "ys @ returned d = take (g_d g) (tl (g_vals g))"
    using I(9) late by (simp add: vals_ok_def m)
  have p: "priv ((c(t := d)) u) ks = priv (c u) ks" for u ks by (simp add: c m)
  have pv: "(c(t := d)) u = Push_value a b z \<longleftrightarrow> c u = Push_value a b z" for u a b z using c m by auto
  have vals: "vals_ok (lq_mem q) (c(t := d)) xs (ys @ returned d) g"
    using I(9) y none by (simp add: vals_ok_def priv_nodes_def p pv del: fun_upd_apply)
  have i: "inner ((c(t := d)) u) = inner (c u)" for u by (simp add: c m)
  have pool: "pool_inv pc D j fs (pool_view q' (c(t := d)) g)" using fs unfolding pool_view_def i p m(2) .
  have tags: "tags_ok n q' (c(t := d)) g" by (rule tags_step [OF I(4)]) (simp_all add: m)
  show ?thesis by (rule frame_step [OF inv _ _ _ _ _ _ _ pool tags vals]) (simp_all add: m c same_nodes_refl)
qed

section \<open>A new node\<close>

lemma UN_split: "(\<Union>u. F u) = F t \<union> (\<Union>u \<in> - {t}. F u)" for t :: nat
  by auto

definition other_nodes :: "(nat \<Rightarrow> queue_pc) \<Rightarrow> ghost \<Rightarrow> nat \<Rightarrow> u64 set" where
  "other_nodes c g t = (\<Union>u \<in> - {t}. set (priv (c u) (g_seg g u)))"

lemma priv_nodes_other: "priv_nodes c g = set (priv (c t) (g_seg g t)) \<union> other_nodes c g t"
  unfolding priv_nodes_def other_nodes_def by (rule UN_split)

lemma priv_nodes_upd:
  assumes "\<And>u. u \<noteq> t \<Longrightarrow> g_seg g' u = g_seg g u"
  shows "priv_nodes (c(t := d)) g' = set (priv d (g_seg g' t)) \<union> other_nodes c g t"
  using assms unfolding priv_nodes_other [of _ _ t] other_nodes_def by simp

lemma step_push_alloc_node:
  assumes inv: "queue_inv pc D j n g q c xs ys" and st: "queue_pc_step (c t) q = Some (q', d)" and c: "c t = Push_alloc x l i"
    and j: "j < 2 ^ 16" "n < 2 ^ 16" and d: "d = Push_value v a k"
  shows "\<exists>g'. queue_inv pc D j n g' q' (c(t := d)) (xs @ [v]) ys"
proof -
  note I = queue_invD [OF inv]
  note T = tags_okD [OF I(4)]
  note A = held_apart [OF inv]
  obtain fs where fs: "pool_inv pc D j fs (pool_view q c g)" using I(2) by blast
  have al: "allocating i" using I(7) [of t] by (simp add: c)
  obtain p i' where p: "alloc_step i (lq_np q) = Some (p, i')" "q' = q\<lparr>lq_np := p\<rparr>"
    "d = (case i' of Alloc_done n \<Rightarrow> if n = 0 then Push_done False else Push_value x n (MAKE_KEY n l) | _ \<Rightarrow> Push_alloc x l i')"
    using st by (auto simp: c queue_pc_step_def split: option.splits prod.splits)
  note K = alloc_step_keeps [OF p(1) al]
  have e: "i' = Alloc_done a" "a \<noteq> 0" "v = x" "k = MAKE_KEY a l" using p(3) d by (cases i'; auto split: if_splits)+
  have i: "i = Alloc_count a" using p(1) al e(1,2) by (cases i) (auto simp: Let_def split: if_splits option.splits)
  have seg: "g_seg g t = []" by (rule seg_none [OF inv]) (simp add: c)
  have mine: "a \<in> set (pc_node (inner (c t)))" by (simp add: c i)
  have a: "unat a < 2 ^ 48" "a \<in> D" "a \<notin> set (priv (c u) (g_seg g u))" for u using A(6) [of a t] A(3) [OF mine] mine by auto
  have l: "l \<in> of_nat ` {0..n}" "l \<notin> g_used g" using T(7) [of t l] by (simp_all add: c)
  then obtain b where b: "b \<le> n" "l = of_nat b" by auto
  have tag: "drop_bit 48 k = l"
  proof -
    have "take_bit 16 (of_nat b :: u64) = of_nat b" using b(1) j(2) by (intro word_unat_eq_iff [THEN iffD2]) (simp add: unsigned_take_bit_eq unat_of_nat take_bit_nat_eq_self)
    then show ?thesis unfolding e(4) KEY_tag [OF a(1)] by (simp add: b(2))
  qed
  have k: "k \<noteq> 0" "MAKE_NODEPTR k = a" using e(2,4) a(1) by (simp_all add: KEY_nonzero NODEPTR_KEY)
  let ?g = "g\<lparr>g_used := insert l (g_used g), g_val := (g_val g)(a := v)\<rparr>"
  have "\<exists>fs'. pool_inv pc D j fs' (pool_view (q\<lparr>lq_np := p\<rparr>) (c(t := d)) g)"
    by (rule view_step [OF fs, where t = t]) (use K(3) j e d seg in \<open>auto simp: c i\<close>)
  then obtain fs' where pool: "pool_inv pc D j fs' (pool_view q' (c(t := d)) ?g)" unfolding p(2) by (auto simp: pool_view_def main_keys_def)
  have tags: "tags_ok n q' (c(t := d)) ?g"
  proof (rule tags_okI)
    show "z \<noteq> 0 \<and> z \<notin> set (g_hist ?g) \<and> drop_bit 48 z \<in> g_used ?g" if "newkey ((c(t := d)) u) = Some z" for u z
      using that T(6) [of u z] T(3) k tag l by (cases "u = t") (auto simp: d)
    show "z \<in> of_nat ` {0..n} \<and> z \<notin> g_used ?g" if "tag_of ((c(t := d)) u) = Some z" for u z
      using that T(7) [of u z] T(8) [of t l u] by (cases "u = t") (auto simp: d c)
    show "w = u" if "tag_of ((c(t := d)) u) = Some z" "tag_of ((c(t := d)) w) = Some z" for u w z
      using that T(8) [of u z w] by (cases "u = t"; cases "w = t") (auto simp: d)
    show "drop_bit 48 ` set (g_seg ?g u) \<subseteq> g_used ?g" for u using T(4) [of u] by auto
  qed (use T(1-3,5) l in \<open>auto simp: p(2)\<close>)
  have priv: "priv_nodes (c(t := d)) ?g = insert a (priv_nodes c g)"
    using priv_nodes_upd [of t ?g g c d] priv_nodes_other [of c g t] seg by (simp add: d c)
  have fin: "finite (priv_nodes c g)" by (rule finite_subset [OF _ I(1)]) (use A(6) in \<open>auto simp: priv_nodes_def\<close>)
  have new: "a \<notin> priv_nodes c g" using a(3) by (auto simp: priv_nodes_def)
  then have im: "image_mset (g_val ?g) (mset_set (priv_nodes (c(t := d)) ?g)) = image_mset (g_val g) (mset_set (priv_nodes c g)) + {#v#}"
    unfolding priv using fin by (auto intro!: image_mset_cong)
  have late: "(\<exists>u. late ((c(t := d)) u)) \<longleftrightarrow> (\<exists>u. late (c u))" using c d by (auto split: if_splits) (metis late.simps)+
  have vals: "vals_ok (lq_mem q') (c(t := d)) (xs @ [v]) ys ?g"
    unfolding vals_ok_def
  proof (intro conjI allI impI)
    show "mset (xs @ [v]) = mset (tl (g_vals ?g)) + image_mset (g_val ?g) (mset_set (priv_nodes (c(t := d)) ?g))"
      unfolding im using vals_okD(4) [OF I(9)] by simp
    show "ys = take (g_d ?g - (if \<exists>u. late ((c(t := d)) u) then 1 else 0)) (tl (g_vals ?g))"
      unfolding late using vals_okD(5) [OF I(9)] by simp
    show "value_of (lq_mem q') z = g_val ?g z" if "z \<in> set (priv ((c(t := d)) u) (g_seg ?g u))" "\<forall>v n k. (c(t := d)) u \<noteq> Push_value v n k" for u z
      using that vals_okD(3) [OF I(9), of z u] a(3) [of u] K(1) by (auto simp: p(2) d split: if_splits)
  qed (use vals_okD(1,2) [OF I(9)] K(1) in \<open>simp_all add: p(2)\<close>)
  have "queue_inv pc D j n ?g q' (c(t := d)) (xs @ [v]) ys"
  proof (rule list_step [OF inv pool, where zs = "[]", OF _ _ _ tags _ _ vals])
    show "chain_ok q' ?g" using I(3) K(1) by (simp add: chain_ok_def p(2) main_keys_def)
    show "seg_ok (lq_mem q') (g_ct ?g) ((c(t := d)) u) (g_seg ?g u)" for u
      using I(5) [of u] K(1) seg by (cases "u = t") (simp_all add: seg_ok_def p(2) d)
    show "g_val ?g z = g_val g z" if "c u = Push_value w z y" for u w z y using a(3) [of u] that by auto
  qed (use K(1) k(2) I(6) in \<open>simp_all add: p(2) d seg_nodes_def main_keys_def\<close>)
  then show ?thesis by blast
qed

text \<open>A write to a field other than \<open>poolNext\<close> of a node outside the pool.\<close>

lemma view_write:
  assumes inv: "pool_inv pc D j fs (pool_view q c g)" and m: "lq_mem q a = Some x" "nd_poolNext x' = nd_poolNext x"
    and q: "lq_np q' = (lq_np q)\<lparr>np_mem := (lq_mem q)(a \<mapsto> x')\<rparr>"
    and c: "\<And>u. inner (c' u) = inner (c u)" and h: "shared_out D fs (held (pool_view q' c' g'))"
  shows "pool_inv pc D j fs (pool_view q' c' g')"
proof (rule pool_inv_own [OF inv _ _ _ _ h])
  show "ps_pc (pool_view q' c' g') u = ps_pc (pool_view q c g) u \<or> plain (ps_pc (pool_view q' c' g') u)" for u
    by (simp add: pool_view_def c)
qed (simp_all add: pool_view_def q m)

lemma held_same:
  assumes "shared_out D fs (held (pool_view q c g))" "main_keys g' = main_keys g"
    "\<And>u. pc_node (inner (c' u)) @ priv (c' u) (g_seg g' u) = pc_node (inner (c u)) @ priv (c u) (g_seg g u)"
  shows "shared_out D fs (held (pool_view q' c' g'))"
proof -
  have "held (pool_view q' c' g') u = held (pool_view q c g) u" for u
    by (cases u) (simp_all add: view_held assms(2,3))
  then show ?thesis using assms(1) by presburger
qed

lemma step_push_value:
  assumes inv: "queue_inv pc D j n g q c xs ys" and st: "queue_pc_step (c t) q = Some (q', d)" and c: "c t = Push_value v a k"
  shows "queue_inv pc D j n g q' (c(t := d)) xs ys"
proof -
  note I = queue_invD [OF inv]
  note A = held_apart [OF inv]
  obtain fs where fs: "pool_inv pc D j fs (pool_view q c g)" using I(2) by blast
  obtain x where x: "lq_mem q a = Some x" "q' = q\<lparr>lq_np := (lq_np q)\<lparr>np_mem := (lq_mem q)(a \<mapsto> x\<lparr>nd_value := v\<rparr>)\<rparr>\<rparr>" "d = Push_clear a k"
    using st by (auto simp: c queue_pc_step_def nd_upd_def split: option.splits)
  have K: "MAKE_NODEPTR k = a" "g_val g a = v" using I(7) [of t] by (simp_all add: c)
  have mine: "a \<in> set (priv (c t) (g_seg g t))" by (simp add: c)
  have key: "key_of (lq_mem q') z = key_of (lq_mem q) z" for z by (simp add: x key_of_def)
  have val: "value_of (lq_mem q') z = (if z = a then v else value_of (lq_mem q) z)" for z by (simp add: x value_of_def)
  have path: "key_path (lq_mem q') ks = key_path (lq_mem q) ks" for ks using key_path_same [of "lq_mem q" a x "x\<lparr>nd_value := v\<rparr>"] x(1) by (simp add: x(2))
  have p: "priv ((c(t := d)) u) ks = priv (c u) ks" for u ks by (simp add: c x)
  have i: "inner ((c(t := d)) u) = inner (c u)" for u by (simp add: c x)
  have lt: "late ((c(t := d)) u) = late (c u)" for u by (simp add: c x)
  have vals: "vals_ok (lq_mem q') (c(t := d)) xs ys g"
    unfolding vals_ok_def
  proof (intro conjI allI impI)
    fix l
    assume l: "0 < l" "g_d g \<le> l" "l < length (g_hist g)"
    have "MAKE_NODEPTR (g_hist g ! l) \<noteq> a" using main_node [OF I(3) l(2,3)] A(1) mine by blast
    then show "value_of (lq_mem q') (MAKE_NODEPTR (g_hist g ! l)) = g_vals g ! l" unfolding val using vals_okD(2) [OF I(9) l] by simp
  next
    fix u z
    assume z: "z \<in> set (priv ((c(t := d)) u) (g_seg g u))" "\<forall>v n k. (c(t := d)) u \<noteq> Push_value v n k"
    show "value_of (lq_mem q') z = g_val g z"
    proof (cases "u = t")
      case True
      then show ?thesis using z(1) K(2) by (simp add: x(3) val)
    next
      case False
      then have "z \<noteq> a" using z(1) A(2) [OF mine, of u] by auto
      then show ?thesis using z False vals_okD(3) [OF I(9), of z u] by (simp add: val)
    qed
  qed (use vals_okD [OF I(9)] in \<open>simp_all add: p lt priv_nodes_def del: fun_upd_apply\<close>)
  show ?thesis
  proof (rule queue_invI [OF I(1)])
    show "pool_inv pc D j fs (pool_view q' (c(t := d)) g)"
      by (rule view_write [OF fs x(1) _ _ i held_same [OF pool_invD(6) [OF fs]]]) (simp_all add: x(2) i p del: fun_upd_apply)
    have "dom (lq_mem q') = dom (lq_mem q)" using x(1) by (auto simp: x(2))
    then show "chain_ok q' g" using I(3) path by (simp add: chain_ok_def) (simp add: x(2))
    show "tags_ok n q' (c(t := d)) g" by (rule tags_step [OF I(4)]) (simp_all add: x c)
    show "seg_ok (lq_mem q') (g_ct g) ((c(t := d)) u) (g_seg g u)" for u
      using I(5) [of u] by (cases "u = t") (auto simp: seg_ok_def path c x(3) split: option.splits)
    show "knows (lq_mem q') g ((c(t := d)) u)" for u
      unfolding knows_keys [OF key] using I(7) [of u] K by (cases "u = t") (simp_all add: x(3))
    show "u = w" if "popping ((c(t := d)) u)" "popping ((c(t := d)) w)" for u w
      using that I(8) [of u w] by (auto simp: x(3) split: if_splits)
  qed (rule I(6), rule vals)
qed

lemma newkey_node:
  assumes "queue_inv pc D j n g q c xs ys" "newkey (c u) = Some z"
  shows "MAKE_NODEPTR z \<in> set (priv (c u) (g_seg g u))"
proof (cases "prelink (c u)")
  case None
  then show ?thesis using assms(2) queue_invD(7) [OF assms(1), of u] by (cases "c u") simp_all
next
  case (Some y)
  then have "z = y" using assms(2) by (cases "c u") simp_all
  moreover have "y \<in> set (g_seg g u)" using queue_invD(5) [OF assms(1), of u] Some by (auto simp: seg_ok_def)
  ultimately show ?thesis using seg_priv [OF assms(1), of u] by blast
qed

lemma seg_ok_mono:
  assumes "seg_ok m ct c ks" "key_path m' ks = key_path m ks" "\<And>a. a \<in> nodes ks \<Longrightarrow> ct' a = ct a"
  shows "seg_ok m' ct' c ks"
proof -
  have "sorted_wrt (\<lambda>a b. ct' (MAKE_NODEPTR b) < ct' (MAKE_NODEPTR a)) ks"
    if "sorted_wrt (\<lambda>a b. ct (MAKE_NODEPTR b) < ct (MAKE_NODEPTR a)) ks"
    by (rule sorted_wrt_mono_rel [OF _ that]) (simp add: assms(3))
  then show ?thesis using assms(1,2) by (cases "prelink c") (simp_all add: seg_ok_def)
qed

lemma step_push_clear:
  assumes inv: "queue_inv pc D j n g q c xs ys" and st: "queue_pc_step (c t) q = Some (q', d)" and c: "c t = Push_clear a k"
  shows "\<exists>g'. queue_inv pc D j n g' q' (c(t := d)) xs ys"
proof -
  note I = queue_invD [OF inv]
  note A = held_apart [OF inv]
  note T = tags_okD [OF I(4)]
  obtain fs where fs: "pool_inv pc D j fs (pool_view q c g)" using I(2) by blast
  obtain x where x: "lq_mem q a = Some x" "q' = q\<lparr>lq_np := (lq_np q)\<lparr>np_mem := (lq_mem q)(a \<mapsto> x\<lparr>nd_key := 0\<rparr>)\<rparr>\<rparr>" "d = Push_tail k"
    using st by (auto simp: c queue_pc_step_def nd_upd_def split: option.splits)
  have k: "MAKE_NODEPTR k = a" "k \<noteq> 0" "k \<notin> set (g_hist g)" "drop_bit 48 k \<in> g_used g" using I(7) [of t] T(6) [of t k] by (simp_all add: c)
  have mine: "a \<in> set (priv (c t) (g_seg g t))" by (simp add: c)
  have seg: "g_seg g t = []" by (rule seg_none [OF inv]) (simp add: c)
  have main: "a \<notin> nodes (main_keys g)" using A(1) mine by blast
  have segs: "a \<notin> nodes (g_seg g u)" for u
    using A(2) [OF mine, of u] seg_priv [OF inv, of u] seg by (cases "u = t") auto
  let ?g = "g\<lparr>g_seg := (g_seg g)(t := [k]), g_ct := (g_ct g)(a := Suc (g_clk g)), g_clk := Suc (g_clk g)\<rparr>"
  have path: "key_path (lq_mem q') ks = key_path (lq_mem q) ks" if "a \<notin> nodes ks" for ks using key_path_upd [OF that] by (simp add: x(2))
  have key: "key_of (lq_mem q') z = key_of (lq_mem q) z" if "z \<noteq> a" for z using that by (simp add: x(2) key_of_def)
  have val: "value_of (lq_mem q') z = value_of (lq_mem q) z" for z by (simp add: x(1,2) value_of_def)
  have p: "priv ((c(t := d)) u) (g_seg ?g u) = priv (c u) (g_seg g u)" for u by (simp add: c x(3) k(1))
  have i: "inner ((c(t := d)) u) = inner (c u)" for u by (simp add: c x(3))
  have lt: "late ((c(t := d)) u) = late (c u)" for u by (simp add: c x(3))
  have pv: "(c(t := d)) u = Push_value a b z \<longleftrightarrow> c u = Push_value a b z" for u a b z using c x(3) by auto
  have main_same: "main_keys ?g = main_keys g" by (simp add: main_keys_def)
  have sn: "seg_nodes ?g = insert a (seg_nodes g)"
    unfolding seg_nodes_def UN_split [of _ t] using seg k(1) by simp
  have vals: "vals_ok (lq_mem q') (c(t := d)) xs ys ?g"
    using I(9) unfolding vals_ok_def priv_nodes_def p lt pv by (simp add: val)
  have "queue_inv pc D j n ?g q' (c(t := d)) xs ys"
  proof (rule list_step [OF inv, where zs = "[]", OF _ _ _ _ _ _ _ vals])
    show "pool_inv pc D j fs (pool_view q' (c(t := d)) ?g)"
      by (rule view_write [OF fs x(1), of "x\<lparr>nd_key := 0\<rparr>", OF _ _ i held_same [OF pool_invD(6) [OF fs] main_same]])
        (simp_all only: i p, simp_all add: x(2))
    have "dom (lq_mem q') = dom (lq_mem q)" using x(1) by (auto simp: x(2))
    then show "chain_ok q' ?g" using I(3) path [OF main] unfolding chain_ok_def main_same by simp (simp add: x(2))
    show "tags_ok n q' (c(t := d)) ?g"
    proof (rule tags_move [OF I(4)])
      show "drop_bit 48 ` set (g_seg ?g u) \<subseteq> g_used g" "set (g_seg ?g u) \<inter> set (g_hist ?g) = {}" for u
        using T(4) [of u] T(5) [of u] k by auto
      show "z \<notin> set (g_hist ?g)" if "newkey ((c(t := d)) u) = Some z" for u z
        using that T(6) [of u z] k by (auto simp: x(3) split: if_splits)
    qed (use T(3) in \<open>simp_all add: x(2,3) c\<close>)
    show "seg_ok (lq_mem q') (g_ct ?g) ((c(t := d)) u) (g_seg ?g u)" for u
      using seg_ok_mono [OF I(5) [of u]] path [OF segs, of u] segs [of u] k by (cases "u = t") (fastforce simp: seg_ok_def x(2,3))+
    show "g_ct ?g z \<le> g_clk ?g" for z using I(6) [of z] by simp
    show "g_ct ?g (MAKE_NODEPTR z) = g_ct g (MAKE_NODEPTR z)" if "u \<noteq> t" "newkey (c u) = Some z" for u z
      using newkey_node [OF inv that(2)] A(2) [OF mine, of u] that(1) by auto
    show "z \<in> seg_nodes g \<and> g_ct ?g z = g_ct g z \<or> g_clk g < g_ct ?g z" if "z \<in> seg_nodes ?g" for z
      using that unfolding sn by auto
    show "z \<notin> seg_nodes g \<union> nodes (main_keys g) \<and> key_of (lq_mem q') z = key_of (lq_mem q) z \<or> key_of (lq_mem q') z \<noteq> 0"
      if "z \<notin> seg_nodes ?g \<union> nodes (main_keys ?g)" for z
      using that key unfolding sn main_same by auto
  qed (simp_all add: x(3))
  then show ?thesis by blast
qed

section \<open>The head moves\<close>

lemma step_pop_set:
  assumes inv: "queue_inv pc D j n g q c xs ys" and st: "queue_pc_step (c t) q = Some (q', d)" and c: "c t = Pop_set h k"
  shows "\<exists>g'. queue_inv pc D j n g' q' (c(t := d)) xs ys"
proof -
  note I = queue_invD [OF inv]
  note A = held_apart [OF inv]
  obtain fs where fs: "pool_inv pc D j fs (pool_view q c g)" using I(2) by blast
  have H: "h = g_hist g ! g_d g" "Suc (g_d g) < length (g_hist g)" "k = g_hist g ! Suc (g_d g)" "g_d g < g_p g"
    using I(7) [of t] by (simp_all add: c head_ok_def)
  have C: "g_d g \<le> g_p g" "g_p g < length (g_hist g)" "distinct (g_hist g)" "g_d g < length (g_hist g)"
    using I(3) by (simp_all add: chain_ok_def)
  have e: "q' = q\<lparr>lq_head := k\<rparr>" "d = Pop_free k (Free_read (MAKE_NODEPTR h))" using st by (auto simp: c queue_pc_step_def)
  let ?g = "g\<lparr>g_d := Suc (g_d g)\<rparr>"
  have main: "main_keys g = h # main_keys ?g" using C(4) by (simp add: main_keys_def H(1) Cons_nth_drop_Suc)
  have seg: "g_seg g t = []" by (rule seg_none [OF inv]) (simp add: c)
  have p: "priv ((c(t := d)) u) ks = priv (c u) ks" for u ks by (simp add: c e)
  have pv: "(c(t := d)) u = Push_value a b z \<longleftrightarrow> c u = Push_value a b z" for u a b z using c e by auto
  have pool: "pool_inv pc D j fs (pool_view q' (c(t := d)) ?g)"
  proof (rule pool_inv_own [OF fs])
    show "ps_pc (pool_view q' (c(t := d)) ?g) u = ps_pc (pool_view q c g) u \<or> plain (ps_pc (pool_view q' (c(t := d)) ?g) u)" for u
      by (cases u) (simp_all add: pool_view_def e)
    show "shared_out D fs (held (pool_view q' (c(t := d)) ?g))"
    proof (rule shared_out_move [OF pool_invD(6) [OF fs], where a = "MAKE_NODEPTR h" and t = 0 and u = "Suc t" and b = "[]" and c = "[]"])
      show "held (pool_view q' (c(t := d)) ?g) v = held (pool_view q c g) v" if "v \<noteq> 0" "v \<noteq> Suc t" for v
        using that by (cases v) (simp_all add: view_held)
    qed (use A(4) main in \<open>simp_all add: view_held e seg c\<close>)
  qed (simp_all add: pool_view_def e(1))
  have none: "\<not> late (c u)" for u
  proof
    assume l: "late (c u)"
    then have "popping (c u)" by (cases "c u") simp_all
    then have "u = t" using I(8) [of u t] by (simp add: c)
    then show False using l by (simp add: c)
  qed
  have "\<exists>u. late ((c(t := d)) u)" by (rule exI [of _ t]) (simp add: e(2))
  then have vals: "vals_ok (lq_mem q') (c(t := d)) xs ys ?g"
    unfolding vals_ok_def priv_nodes_def p pv using vals_okD [OF I(9)] none by (simp add: priv_nodes_def e(1))
  have key: "key_of (lq_mem q) (MAKE_NODEPTR h) \<noteq> 0"
    using chain_nth(2) [OF I(3) order_refl C(4)] H by (auto simp: key_of_def split: option.splits)
  have "queue_inv pc D j n ?g q' (c(t := d)) xs ys"
  proof (rule list_step [OF inv pool, where zs = "[]", OF _ _ _ _ _ _ vals])
    have "key_path m (h # ks) \<Longrightarrow> ks \<noteq> [] \<Longrightarrow> key_path m ks" for m ks by (cases ks) simp_all
    moreover have "main_keys ?g \<noteq> []" using H(2) by (simp add: main_keys_def)
    ultimately have "key_path (lq_mem q) (main_keys ?g)" using I(3) unfolding chain_ok_def main by blast
    then show "chain_ok q' ?g" using I(3) H by (simp add: chain_ok_def e(1))
    have "tags_ok n q' (c(t := d)) g" by (rule tags_step [OF I(4)]) (simp_all add: e c)
    then show "tags_ok n q' (c(t := d)) ?g" by (simp add: tags_ok_def)
    show "seg_ok (lq_mem q') (g_ct ?g) ((c(t := d)) u) (g_seg ?g u)" for u
      using I(5) [of u] seg by (cases "u = t") (simp_all add: seg_ok_def e)
    show "g_d ?g = g_d g" if "u \<noteq> t" "popping (c u)" for u using I(8) [OF that(2), of t] that(1) by (simp add: c)
    show "z \<notin> seg_nodes g \<union> nodes (main_keys g) \<and> key_of (lq_mem q') z = key_of (lq_mem q) z \<or> key_of (lq_mem q') z \<noteq> 0"
      if "z \<notin> seg_nodes ?g \<union> nodes (main_keys ?g)" for z
      using that key by (cases "z = MAKE_NODEPTR h") (simp_all add: main seg_nodes_def e(1))
  qed (use I(6) in \<open>simp_all add: c e H(3) seg_nodes_def\<close>)
  then show ?thesis by blast
qed

section \<open>Linking\<close>

lemma key_path_end:
  assumes "key_path m ks" "z \<in> nodes ks" "m z = Some n" "nd_key n = 0"
  shows "z = MAKE_NODEPTR (last ks)"
proof -
  obtain i where i: "i < length ks" "z = MAKE_NODEPTR (ks ! i)" using assms(2) by (auto simp: in_set_conv_nth)
  have "\<not> Suc i < length ks"
    using key_path_nth [OF assms(1) i(1), of n] assms(3,4) by (simp add: i(2) split: if_splits)
  then have "i = length ks - 1" using i(1) by simp
  then show ?thesis using i by (metis last_conv_nth length_greater_0_conv gr_implies_not0 list.size(3))
qed

lemma key_path_append:
  assumes "key_path m ks" "key_path m zs" "distinct (map MAKE_NODEPTR ks)" "MAKE_NODEPTR (last ks) \<notin> nodes zs"
    "m (MAKE_NODEPTR (last ks)) = Some n" "hd zs \<noteq> 0"
  shows "key_path (m(MAKE_NODEPTR (last ks) \<mapsto> n\<lparr>nd_key := hd zs\<rparr>)) (ks @ zs)"
  using assms
proof (induction ks rule: induct_list012)
  case (2 k)
  obtain y ys where zs: "zs = y # ys" using 2(2) by (cases zs) auto
  have "key_path (m(MAKE_NODEPTR k \<mapsto> n\<lparr>nd_key := y\<rparr>)) zs" using key_path_upd [of "MAKE_NODEPTR k" zs] 2(2,4) by simp
  then show ?case using 2(6) by (simp add: zs fun_upd_same del: fun_upd_apply)
next
  case (3 k k' ks)
  define l where "l = MAKE_NODEPTR (last (k' # ks))"
  have l: "MAKE_NODEPTR (last (k # k' # ks)) = l" by (simp add: l_def)
  have "MAKE_NODEPTR k \<noteq> l"
    using 3(5) last_in_set [of "k' # ks"] by (auto simp: l_def split: if_splits)
  then have ne: "(m(l \<mapsto> n\<lparr>nd_key := hd zs\<rparr>)) (MAKE_NODEPTR k) = m (MAKE_NODEPTR k)" by simp
  have "key_path (m(l \<mapsto> n\<lparr>nd_key := hd zs\<rparr>)) ((k' # ks) @ zs)"
    unfolding l_def using 3(3-) by (intro 3(2)) (auto split: option.splits)
  then show ?case unfolding l append.simps key_path.simps ne using 3(3) by simp
qed simp

lemma shared_out_merge:
  assumes "shared_out D fs h" "t \<noteq> u" "set (h' t) = set (h t) - set zs" "distinct (h' t)" "h' u = h u @ zs" "set zs \<subseteq> set (h t)" "distinct zs"
    "\<And>v. v \<noteq> t \<Longrightarrow> v \<noteq> u \<Longrightarrow> h' v = h v"
  shows "shared_out D fs h'"
proof -
  note S = shared_outD [OF assms(1)]
  have z: "x \<in> set zs \<Longrightarrow> x \<in> set (h v) \<longleftrightarrow> v = t" for x v using S(5) [of x t v] assms(6) by blast
  have e: "x \<in> set (h' v) \<longleftrightarrow> (if x \<in> set zs then v = u else x \<in> set (h v))" for x v
    using z [of x v] assms(2,3,5) assms(8) [of v] by (cases "v = t"; cases "v = u") auto
  show ?thesis
  proof (rule shared_outI)
    show "x \<in> D \<longleftrightarrow> x \<in> set fs \<or> (\<exists>t. x \<in> set (h' t))" for x
      using S(2) [of x] z [of x] by (auto simp: e)
    have "distinct (h' u)" using S(3) [of u] z assms(2,7) by (auto simp: assms(5))
    then show "distinct (h' v)" for v using S(3) [of v] assms(4) assms(8) [of v] by (cases "v = t"; cases "v = u") simp_all
    show "x \<notin> set fs" if "x \<in> set (h' v)" for v x
      using that S(4) [of x v] S(4) [of x t] assms(6) by (auto simp: e split: if_splits)
    show "v = w" if "x \<in> set (h' v)" "x \<in> set (h' w)" for v w x
      using that S(5) [of x v w] by (simp add: e split: if_splits)
  qed (rule S(1))
qed

text \<open>What a thread that is about to link has.\<close>

lemma link_facts:
  assumes inv: "queue_inv pc D j n g q c xs ys" and c: "c t = Push_link k a" and z: "lq_mem q (MAKE_NODEPTR a) = Some m" "nd_key m = 0"
  shows "g_seg g t \<noteq> []" "hd (g_seg g t) = k" "key_path (lq_mem q) (g_seg g t)" "k \<noteq> 0" "tail_ok (lq_mem q) g k a"
    "sorted_wrt (\<lambda>a b. g_ct g (MAKE_NODEPTR b) < g_ct g (MAKE_NODEPTR a)) (g_seg g t)"
    "distinct (map MAKE_NODEPTR (g_seg g t))" "MAKE_NODEPTR a \<in> seg_nodes g \<union> nodes (main_keys g)"
    "MAKE_NODEPTR a \<notin> nodes (g_seg g t)"
proof -
  have S: "seg_ok (lq_mem q) (g_ct g) (Push_link k a) (g_seg g t)" using queue_invD(5) [OF inv, of t] by (simp add: c)
  then show "g_seg g t \<noteq> []" "hd (g_seg g t) = k" "key_path (lq_mem q) (g_seg g t)" and srt:
    "sorted_wrt (\<lambda>a b. g_ct g (MAKE_NODEPTR b) < g_ct g (MAKE_NODEPTR a)) (g_seg g t)" by (simp_all add: seg_ok_def)
  show "k \<noteq> 0" using S hd_in_set [of "g_seg g t"] by (auto simp: seg_ok_def)
  show K: "tail_ok (lq_mem q) g k a" using queue_invD(7) [OF inv, of t] by (simp add: c)
  show "distinct (map MAKE_NODEPTR (g_seg g t))" using held_apart(5) [OF inv, of t] by (simp add: c)
  show "MAKE_NODEPTR a \<in> seg_nodes g \<union> nodes (main_keys g)"
    using K z by (auto simp: tail_ok_def key_of_def)
  show "MAKE_NODEPTR a \<notin> nodes (g_seg g t)"
  proof
    assume h: "MAKE_NODEPTR a \<in> nodes (g_seg g t)"
    then have "g_ct g (MAKE_NODEPTR k) < g_ct g (MAKE_NODEPTR a)" using K by (auto simp: tail_ok_def seg_nodes_def)
    moreover have "g_ct g (MAKE_NODEPTR a) \<le> g_ct g (MAKE_NODEPTR k)"
      using h S by (cases "g_seg g t") (auto simp: seg_ok_def intro: less_imp_le)
    ultimately show False by simp
  qed
qed

lemma step_push_link_fail:
  assumes inv: "queue_inv pc D j n g q c xs ys" and st: "queue_pc_step (c t) q = Some (q', d)" and c: "c t = Push_link k a"
    and z: "lq_mem q (MAKE_NODEPTR a) = Some m" "nd_key m \<noteq> 0"
  shows "queue_inv pc D j n g q' (c(t := d)) xs ys"
proof -
  have "(lq_mem q)(MAKE_NODEPTR a \<mapsto> m\<lparr>nd_key := nd_key m\<rparr>) = lq_mem q" using z(1) by (simp add: fun_upd_idem)
  then have e: "q' = q" "d = Push_tail k" using st z by (auto simp: c queue_pc_step_def cas_def nd_upd_def Let_def)
  show ?thesis unfolding e by (rule pc_step [OF inv]) (simp_all add: c)
qed

lemma link_result:
  assumes inv: "queue_inv pc D j n g q c xs ys" and st: "queue_pc_step (c t) q = Some (q', d)" and c: "c t = Push_link k a"
    and z: "lq_mem q (MAKE_NODEPTR a) = Some m" "nd_key m = 0"
  shows "q' = q\<lparr>lq_np := (lq_np q)\<lparr>np_mem := (lq_mem q)(MAKE_NODEPTR a \<mapsto> m\<lparr>nd_key := k\<rparr>)\<rparr>\<rparr>" "d = Push_swing k a"
    "dom (lq_mem q') = dom (lq_mem q)" "y \<noteq> MAKE_NODEPTR a \<Longrightarrow> key_of (lq_mem q') y = key_of (lq_mem q) y"
    "value_of (lq_mem q') y = value_of (lq_mem q) y" "inner ((c(t := d)) u) = inner (c u)" "late ((c(t := d)) u) = late (c u)"
proof -
  show e: "q' = q\<lparr>lq_np := (lq_np q)\<lparr>np_mem := (lq_mem q)(MAKE_NODEPTR a \<mapsto> m\<lparr>nd_key := k\<rparr>)\<rparr>\<rparr>" "d = Push_swing k a"
    using st z link_facts(4) [OF inv c z] by (auto simp: c queue_pc_step_def cas_def nd_upd_def Let_def)
  show "dom (lq_mem q') = dom (lq_mem q)" using z(1) by (auto simp: e(1))
  show "key_of (lq_mem q') y = key_of (lq_mem q) y" if "y \<noteq> MAKE_NODEPTR a" using that by (simp add: e(1) key_of_def)
  show "value_of (lq_mem q') y = value_of (lq_mem q) y" by (simp add: e(1) z(1) value_of_def)
  show "inner ((c(t := d)) u) = inner (c u)" "late ((c(t := d)) u) = late (c u)" by (simp_all add: c e(2))
qed

text \<open>The thread's list goes to the end of the queue.\<close>

abbreviation join_main :: "ghost \<Rightarrow> nat \<Rightarrow> ghost" where
  "join_main g t \<equiv> g\<lparr>g_hist := g_hist g @ g_seg g t, g_vals := g_vals g @ map (\<lambda>k. g_val g (MAKE_NODEPTR k)) (g_seg g t),
     g_seg := (g_seg g)(t := [])\<rparr>"

lemma vals_join:
  assumes inv: "queue_inv pc D j n g q c xs ys" and c: "c t = Push_link k a" and d: "d = Push_swing k a"
    and v: "\<And>y. value_of m' y = value_of (lq_mem q) y"
  shows "vals_ok m' (c(t := d)) xs ys (join_main g t)"
  unfolding vals_ok_def
proof (intro conjI allI impI)
  note I = queue_invD [OF inv]
  note A = held_apart [OF inv]
  note V = vals_okD [OF I(9)]
  let ?g = "join_main g t" let ?ks = "g_seg g t"
  have C: "g_d g \<le> g_p g" "g_p g < length (g_hist g)" using I(3) by (simp_all add: chain_ok_def)
  have mine: "set (priv (c t) ?ks) = nodes ?ks" and one: "\<And>v n k. c t \<noteq> Push_value v n k" by (simp_all add: c)
  have ne: "g_vals g \<noteq> []" using V(1) C(2) by auto
  have dist: "distinct (map MAKE_NODEPTR ?ks)" using A(5) [of t] by (simp add: c)
  have pn: "priv_nodes c g = nodes ?ks \<union> other_nodes c g t" "priv_nodes (c(t := d)) ?g = other_nodes c g t"
    using priv_nodes_other [of c g t] priv_nodes_upd [of t ?g g c d] by (simp_all add: mine d)
  have fin: "finite (other_nodes c g t)" by (rule finite_subset [OF _ I(1)]) (use A(6) in \<open>auto simp: other_nodes_def\<close>)
  have "y \<notin> nodes ?ks" if "y \<in> set (priv (c u) (g_seg g u))" "u \<noteq> t" for y u using A(2) [of y u t] that mine by blast
  then have off: "nodes ?ks \<inter> other_nodes c g t = {}" by (auto simp: other_nodes_def)
  have ms: "mset_set (priv_nodes c g) = mset (map MAKE_NODEPTR ?ks) + mset_set (other_nodes c g t)"
    unfolding pn(1) using mset_set_Union [OF _ fin off] mset_set_set [OF dist] by simp
  show "length (g_vals ?g) = length (g_hist ?g)" using V(1) by simp
  show "value_of m' (MAKE_NODEPTR (g_hist ?g ! l)) = g_vals ?g ! l" if l: "0 < l" "g_d ?g \<le> l" "l < length (g_hist ?g)" for l
  proof (cases "l < length (g_hist g)")
    case True
    then show ?thesis using V(2) [of l] l V(1) by (simp add: v nth_append)
  next
    case False
    then have "l - length (g_hist g) < length ?ks" using l(3) by simp
    then have "MAKE_NODEPTR (?ks ! (l - length (g_hist g))) \<in> set (priv (c t) ?ks)" unfolding mine by simp
    from V(3) [OF this one] show ?thesis using False V(1) l(3) by (simp add: v nth_append)
  qed
  show "value_of m' y = g_val ?g y" if "y \<in> set (priv ((c(t := d)) u) (g_seg ?g u))" "\<forall>v n k. (c(t := d)) u \<noteq> Push_value v n k" for u y
    using that V(3) [of y u] by (cases "u = t") (simp_all add: d v)
  show "mset xs = mset (tl (g_vals ?g)) + image_mset (g_val ?g) (mset_set (priv_nodes (c(t := d)) ?g))"
    using V(4) ne unfolding ms pn(2) by (simp add: image_mset.compositionality o_def)
  have "late ((c(t := d)) u) = late (c u)" for u by (simp add: c d)
  moreover have "g_d g \<le> length (tl (g_vals g))" using V(1) C(1,2) by simp
  ultimately show "ys = take (g_d ?g - (if \<exists>u. late ((c(t := d)) u) then 1 else 0)) (tl (g_vals ?g))"
    using V(5) ne by simp
qed

lemma step_push_link_main:
  assumes inv: "queue_inv pc D j n g q c xs ys" and st: "queue_pc_step (c t) q = Some (q', d)" and c: "c t = Push_link k a"
    and z: "lq_mem q (MAKE_NODEPTR a) = Some m" "nd_key m = 0" and b: "MAKE_NODEPTR a \<in> nodes (main_keys g)"
  shows "queue_inv pc D j n (join_main g t) q' (c(t := d)) xs ys"
proof -
  note I = queue_invD [OF inv]
  note A = held_apart [OF inv]
  note T = tags_okD [OF I(4)]
  note L = link_facts [OF inv c z]
  note R = link_result [OF inv st c z]
  let ?g = "join_main g t" let ?ks = "g_seg g t"
  obtain fs where fs: "pool_inv pc D j fs (pool_view q c g)" using I(2) by blast
  have C: "g_d g \<le> g_p g" "g_p g < length (g_hist g)" "distinct (g_hist g)" "key_path (lq_mem q) (main_keys g)"
    using I(3) by (simp_all add: chain_ok_def)
  have last: "MAKE_NODEPTR a = MAKE_NODEPTR (last (main_keys g))" by (rule key_path_end [OF C(4) b z])
  have mine: "set (priv (c t) ?ks) = nodes ?ks" by (simp add: c)
  have notks: "y \<notin> nodes ?ks" if "y \<in> set (priv (c u) (g_seg g u))" "u \<noteq> t" for y u using A(2) [of y u t] that mine by blast
  have main: "main_keys ?g = main_keys g @ ?ks" using C(1,2) by (simp add: main_keys_def)
  have path: "key_path (lq_mem q') (main_keys ?g)"
    unfolding main R(1) using key_path_append [OF C(4) L(3) A(4)] L(2,4,9) z(1) last by simp
  have dis: "set ?ks \<inter> set (g_hist g) = {}" "0 \<notin> set ?ks" using T(5) [of t] I(5) [of t] by (simp_all add: c seg_ok_def)
  have sn: "seg_nodes ?g \<union> nodes ?ks = seg_nodes g" unfolding seg_nodes_def UN_split [of _ t] by auto
  show ?thesis
  proof (rule list_step [OF inv _ _ _ _ _ _ _ vals_join [OF inv c R(2,5)], where zs = ?ks])
    show "pool_inv pc D j fs (pool_view q' (c(t := d)) ?g)"
    proof (rule view_write [OF fs z(1), of "m\<lparr>nd_key := k\<rparr>", OF _ _ R(6)])
      show "shared_out D fs (held (pool_view q' (c(t := d)) ?g))"
      proof (rule shared_out_merge [OF pool_invD(6) [OF fs], where t = "Suc t" and u = 0 and zs = "map MAKE_NODEPTR ?ks"])
        show "held (pool_view q' (c(t := d)) ?g) v = held (pool_view q c g) v" if "v \<noteq> Suc t" "v \<noteq> 0" for v
          using that by (cases v) (simp_all add: view_held)
      qed (use L(7) in \<open>simp_all add: view_held main c R(2)\<close>)
    qed (simp_all add: R(1))
    have "distinct (g_hist ?g)" using C(3) dis(1) L(7) by (auto simp: distinct_map)
    moreover have "nodes ?ks \<subseteq> D" using A(6) [of _ t] mine by blast
    ultimately show "chain_ok q' ?g" using I(3) path R(3) dis(2) C(1,2) A(7) unfolding chain_ok_def by (auto simp: R(1) nth_append)
    show "tags_ok n q' (c(t := d)) ?g"
    proof (rule tags_move [OF I(4)])
      show "drop_bit 48 ` set (g_hist ?g) \<subseteq> g_used g" using T(3) T(4) [of t] by auto
      show "set (g_seg ?g u) \<inter> set (g_hist ?g) = {}" for u
        using T(5) [of u] notks [of _ u] seg_priv [OF inv, of u] by (cases "u = t") auto
      show "y \<notin> set (g_hist ?g)" if "newkey ((c(t := d)) u) = Some y" for u y
      proof -
        have u: "u \<noteq> t" "newkey (c u) = Some y" using that by (auto simp: R(2) split: if_splits)
        then show ?thesis using notks [OF newkey_node [OF inv u(2)] u(1)] T(6) [OF u(2)] by auto
      qed
    qed (use T(4) in \<open>simp_all add: R(1,2)\<close>)
    show "seg_ok (lq_mem q') (g_ct ?g) ((c(t := d)) u) (g_seg ?g u)" for u
    proof (cases "u = t")
      case False
      have "MAKE_NODEPTR a \<notin> nodes (g_seg g u)" using A(1) [OF b, of u] seg_priv [OF inv, of u] by blast
      then show ?thesis using seg_ok_mono [OF I(5) [of u]] key_path_upd [of "MAKE_NODEPTR a" "g_seg g u"] False by (simp add: R(1))
    qed (simp add: seg_ok_def R(2))
    have "next_ok ?g a k"
      unfolding next_ok_def
    proof (intro conjI impI)
      show "seen_tail ?g a" by (rule seen_tail_mono [where g = g and zs = ?ks]) (use L(5) C(2) in \<open>simp_all add: tail_ok_def\<close>)
      assume "a = g_hist ?g ! g_p ?g"
      then have "a = g_hist g ! g_p g" using C(2) by (simp add: nth_append)
      then have "Suc (g_p g) = length (g_hist g)" using chain_nth(2) [OF I(3) C(1,2)] z C(2) by fastforce
      then show "Suc (g_p ?g) < length (g_hist ?g)" "g_hist ?g ! Suc (g_p ?g) = k"
        using L(1,2) by (simp_all add: nth_append hd_conv_nth)
    qed
    then show "knows (lq_mem q') ?g d" by (simp add: R(2))
    show "y \<notin> seg_nodes g \<union> nodes (main_keys g) \<and> key_of (lq_mem q') y = key_of (lq_mem q) y \<or> key_of (lq_mem q') y \<noteq> 0"
      if "y \<notin> seg_nodes ?g \<union> nodes (main_keys ?g)" for y
      using that sn b R(4) [of y] unfolding main by (cases "y = MAKE_NODEPTR a") auto
    show "y \<in> seg_nodes g \<and> g_ct ?g y = g_ct g y \<or> g_clk g < g_ct ?g y" if "y \<in> seg_nodes ?g" for y using that sn by auto
  qed (use I(6) in \<open>simp_all add: R(2)\<close>)
qed

lemma sorted_wrt_last: "sorted_wrt P ks \<Longrightarrow> v \<in> set ks \<Longrightarrow> v = last ks \<or> P v (last ks)"
  by (induction ks) auto

lemma UN_merge:
  assumes "w \<noteq> t" "\<And>u. G u = (if u = t then {} else F u \<union> (if u = w then F t else {}))"
  shows "(\<Union>u. G u) = (\<Union>u. F u)"
proof
  show "(\<Union>u. G u) \<subseteq> (\<Union>u. F u)" by (auto simp: assms(2) split: if_splits)
  have "x \<in> G (if u = t then w else u)" if "x \<in> F u" for x u using assms(1) that by (cases "u = t") (simp_all add: assms(2))
  then show "(\<Union>u. F u) \<subseteq> (\<Union>u. G u)" by blast
qed

text \<open>The thread's list goes behind the list of another thread.\<close>

abbreviation join_seg :: "ghost \<Rightarrow> nat \<Rightarrow> nat \<Rightarrow> ghost" where
  "join_seg g t w \<equiv> g\<lparr>g_seg := (g_seg g)(t := [], w := g_seg g w @ g_seg g t)\<rparr>"

lemma attach_facts:
  assumes inv: "queue_inv pc D j n g q c xs ys" and c: "c t = Push_link k a" and z: "lq_mem q (MAKE_NODEPTR a) = Some m" "nd_key m = 0"
    and b: "MAKE_NODEPTR a \<in> nodes (g_seg g w)"
  shows "w \<noteq> t" "prelink (c w) \<noteq> None" "priv (c w) l = map MAKE_NODEPTR l" "\<forall>v n k. c w \<noteq> Push_value v n k"
    "MAKE_NODEPTR a = MAKE_NODEPTR (last (g_seg g w))" "MAKE_NODEPTR a \<notin> nodes (main_keys g)"
    "u \<noteq> w \<Longrightarrow> MAKE_NODEPTR a \<notin> nodes (g_seg g u)"
    "sorted_wrt (\<lambda>a b. g_ct g (MAKE_NODEPTR b) < g_ct g (MAKE_NODEPTR a)) (g_seg g w @ g_seg g t)"
proof -
  note I = queue_invD [OF inv]
  note A = held_apart [OF inv]
  note L = link_facts [OF inv c z]
  show "w \<noteq> t" using b L(9) by blast
  obtain y0 where w: "prelink (c w) = Some y0" using I(5) [of w] b by (cases "prelink (c w)") (auto simp: seg_ok_def)
  then show "prelink (c w) \<noteq> None" by simp
  have W: "key_path (lq_mem q) (g_seg g w)" "sorted_wrt (\<lambda>a b. g_ct g (MAKE_NODEPTR b) < g_ct g (MAKE_NODEPTR a)) (g_seg g w)"
    using I(5) [of w] by (simp_all add: seg_ok_def w)
  show "priv (c w) l = map MAKE_NODEPTR l" "\<forall>v n k. c w \<noteq> Push_value v n k" using w by (cases "c w"; simp)+
  show last: "MAKE_NODEPTR a = MAKE_NODEPTR (last (g_seg g w))" by (rule key_path_end [OF W(1) b z])
  show "MAKE_NODEPTR a \<notin> nodes (main_keys g)" using A(1) [of "MAKE_NODEPTR a" w] b seg_priv [OF inv, of w] by blast
  show "u \<noteq> w \<Longrightarrow> MAKE_NODEPTR a \<notin> nodes (g_seg g u)"
    using A(2) [of "MAKE_NODEPTR a" w u] b seg_priv [OF inv, of w] seg_priv [OF inv, of u] by blast
  have "g_ct g (MAKE_NODEPTR y) < g_ct g (MAKE_NODEPTR v)" if "v \<in> set (g_seg g w)" "y \<in> set (g_seg g t)" for v y
  proof -
    have "g_ct g (MAKE_NODEPTR y) \<le> g_ct g (MAKE_NODEPTR k)" using L(2,6) that(2) by (cases "g_seg g t") auto
    also have "\<dots> < g_ct g (MAKE_NODEPTR a)" using L(5) b by (auto simp: tail_ok_def seg_nodes_def)
    also have "\<dots> \<le> g_ct g (MAKE_NODEPTR v)" unfolding last using sorted_wrt_last [OF W(2) that(1)] by auto
    finally show ?thesis .
  qed
  then show "sorted_wrt (\<lambda>a b. g_ct g (MAKE_NODEPTR b) < g_ct g (MAKE_NODEPTR a)) (g_seg g w @ g_seg g t)"
    using W(2) L(6) by (simp add: sorted_wrt_append)
qed

lemma step_push_link_seg:
  assumes inv: "queue_inv pc D j n g q c xs ys" and st: "queue_pc_step (c t) q = Some (q', d)" and c: "c t = Push_link k a"
    and z: "lq_mem q (MAKE_NODEPTR a) = Some m" "nd_key m = 0" and b: "MAKE_NODEPTR a \<in> nodes (g_seg g w)"
  shows "queue_inv pc D j n (join_seg g t w) q' (c(t := d)) xs ys"
proof -
  note I = queue_invD [OF inv]
  note A = held_apart [OF inv]
  note T = tags_okD [OF I(4)]
  note L = link_facts [OF inv c z]
  note R = link_result [OF inv st c z]
  note W = attach_facts [OF inv c z b]
  let ?g = "join_seg g t w" let ?ks = "g_seg g t"
  obtain fs where fs: "pool_inv pc D j fs (pool_view q c g)" using I(2) by blast
  have C: "g_d g \<le> g_p g" "g_p g < length (g_hist g)" using I(3) by (simp_all add: chain_ok_def)
  obtain y0 where w: "prelink (c w) = Some y0" "g_seg g w \<noteq> []" "hd (g_seg g w) = y0" "key_path (lq_mem q) (g_seg g w)" "0 \<notin> set (g_seg g w)"
    using I(5) [of w] W(2) by (auto simp: seg_ok_def)
  have mine: "set (priv (c t) ?ks) = nodes ?ks" by (simp add: c)
  have main: "main_keys ?g = main_keys g" by (simp add: main_keys_def)
  have path: "key_path (lq_mem q') (g_seg g w @ ?ks)"
    unfolding R(1) using key_path_append [OF w(4) L(3) _ _ _ _, of m] A(5) [of w] L(2,4,9) z(1) W(5) W(3) [of "g_seg g w"] by simp
  have sn: "seg_nodes ?g = seg_nodes g"
    unfolding seg_nodes_def by (rule UN_merge [OF W(1)]) (use W(1) in \<open>simp add: image_Un\<close>)
  have pn: "priv_nodes (c(t := d)) ?g = priv_nodes c g"
    unfolding priv_nodes_def by (rule UN_merge [OF W(1)]) (use W(1) mine in \<open>simp add: R(2) W(3) image_Un\<close>)
  have vals: "vals_ok (lq_mem q') (c(t := d)) xs ys ?g"
    unfolding vals_ok_def pn R(7)
  proof (intro conjI allI impI)
    show "value_of (lq_mem q') y = g_val ?g y" if "y \<in> set (priv ((c(t := d)) u) (g_seg ?g u))" "\<forall>v n k. (c(t := d)) u \<noteq> Push_value v n k" for u y
      using that vals_okD(3) [OF I(9), of y u] vals_okD(3) [OF I(9), of y t] mine W(1,3,4)
      by (cases "u = t"; cases "u = w") (auto simp: R(2,5) c)
  qed (use vals_okD [OF I(9)] in \<open>simp_all add: R(5)\<close>)
  show ?thesis
  proof (rule list_step [OF inv, where zs = "[]", OF _ _ _ _ _ _ _ vals])
    show "pool_inv pc D j fs (pool_view q' (c(t := d)) ?g)"
    proof (rule view_write [OF fs z(1), of "m\<lparr>nd_key := k\<rparr>", OF _ _ R(6)])
      show "shared_out D fs (held (pool_view q' (c(t := d)) ?g))"
      proof (rule shared_out_merge [OF pool_invD(6) [OF fs], where t = "Suc t" and u = "Suc w" and zs = "map MAKE_NODEPTR ?ks"])
        show "held (pool_view q' (c(t := d)) ?g) v = held (pool_view q c g) v" if "v \<noteq> Suc t" "v \<noteq> Suc w" for v
          using that by (cases v) (simp_all add: view_held main)
      qed (use L(7) W(1) in \<open>simp_all add: view_held c R(2) W(3)\<close>)
    qed (simp_all add: R(1))
    show "chain_ok q' ?g" using I(3) R(3) key_path_upd [OF W(6)] unfolding chain_ok_def main by (simp add: R(1))
    show "tags_ok n q' (c(t := d)) ?g"
    proof (rule tags_move [OF I(4)])
      show "drop_bit 48 ` set (g_seg ?g u) \<subseteq> g_used g" "set (g_seg ?g u) \<inter> set (g_hist ?g) = {}" for u
        using T(4) [of u] T(4) [of t] T(5) [of u] T(5) [of t] by auto
      show "y \<notin> set (g_hist ?g)" if "newkey ((c(t := d)) u) = Some y" for u y
        using that T(6) [of u y] by (auto simp: R(2) split: if_splits)
    qed (use T(3) in \<open>simp_all add: R(1,2)\<close>)
    show "seg_ok (lq_mem q') (g_ct ?g) ((c(t := d)) u) (g_seg ?g u)" for u
    proof (cases "u = t \<or> u = w")
      case False
      then show ?thesis using seg_ok_mono [OF I(5) [of u]] key_path_upd [OF W(7) [of u]] by (simp add: R(1))
    next
      case True
      then show ?thesis using path w W(1,8) I(5) [of t] by (auto simp: seg_ok_def R(2) c)
    qed
    have "seen_tail ?g a" by (rule seen_tail_mono [where g = g and zs = "[]"]) (use L(5) C(2) in \<open>simp_all add: tail_ok_def\<close>)
    moreover have "a \<noteq> g_hist g ! g_p g" using main_node [OF I(3) C] W(6) by auto
    ultimately show "knows (lq_mem q') ?g d" by (simp add: next_ok_def R(2))
    show "y \<notin> seg_nodes g \<union> nodes (main_keys g) \<and> key_of (lq_mem q') y = key_of (lq_mem q) y \<or> key_of (lq_mem q') y \<noteq> 0"
      if "y \<notin> seg_nodes ?g \<union> nodes (main_keys ?g)" for y
      using that b R(4) [of y] unfolding main sn by (cases "y = MAKE_NODEPTR a") (auto simp: seg_nodes_def)
  qed (use I(6) in \<open>simp_all add: R(2) sn\<close>)
qed

end
