(* ===== verification/Single_Consumer.thy ===== *)
theory Single_Consumer
  imports Queue_Steps
begin

text \<open>
  What the queue of \<open>LockFreeQueue.h\<close> gives to any number of pushing threads and one popping thread: no access goes wrong, every
  packet that got a node comes out at most once, and what has not come out when all calls have ended is still in
  the list that starts at the head. The order is that in which the packets became reachable from the head, which is
  not always the order of the calls, and the tail may stay behind the end of the list.
\<close>

section \<open>Every access\<close>

lemma no_log:
  assumes "queue_pc_step p q = Some (q', d)"
  shows "\<forall>x l i. p \<noteq> Push_alloc x l i \<Longrightarrow> accepted d = []" "\<forall>k. p \<noteq> Pop_value k \<Longrightarrow> returned d = []"
proof -
  have "((\<forall>x l i. p \<noteq> Push_alloc x l i) \<longrightarrow> accepted d = []) \<and> ((\<forall>k. p \<noteq> Pop_value k) \<longrightarrow> returned d = [])"
  proof (cases p)
    case (Push_alloc x l i)
    then show ?thesis using assms by (cases "alloc_step i (lq_np q)") (auto simp: queue_pc_step_def split: pool_pc.splits if_splits)
  next
    case (Push_link k a)
    then show ?thesis using assms by (cases "lq_mem q (MAKE_NODEPTR a)") (auto simp: queue_pc_step_def nd_upd_def Let_def)
  next
    case (Pop_free k i)
    then show ?thesis using assms by (cases "free_step i (lq_np q)") (auto simp: queue_pc_step_def split: pool_pc.splits)
  qed (use assms in \<open>auto simp: queue_pc_step_def nd_upd_def Let_def split: option.splits if_splits\<close>)
  then show "\<forall>x l i. p \<noteq> Push_alloc x l i \<Longrightarrow> accepted d = []" "\<forall>k. p \<noteq> Pop_value k \<Longrightarrow> returned d = []" by blast+
qed

lemma queue_access_inv:
  assumes inv: "queue_inv pc D j n g q c xs ys" and st: "queue_pc_step (c t) q = Some (q', d)" and b: "j + n + takes_number (c t) < 2 ^ 16"
  shows "\<exists>g' j' n'. j' + n' = j + n + takes_number (c t) \<and> queue_inv pc D j' n' g' q' (c(t := d)) (xs @ accepted d) (ys @ returned d)"
proof -
  have same: ?thesis if "\<exists>g'. queue_inv pc D j n g' q' (c(t := d)) xs ys" "takes_number (c t) = 0" "accepted d = []" "returned d = []"
    using that by auto
  note log = no_log [OF st]
  show ?thesis
  proof (cases "c t")
    case (Push_number x)
    then show ?thesis using step_push_number [OF inv st Push_number] b log
      by (intro exI [of _ g] exI [of _ j] exI [of _ "Suc n"]) simp
  next
    case (Push_alloc x l i)
    have b: "j < 2 ^ 16" "n < 2 ^ 16" using b by simp_all
    show ?thesis
    proof (cases "\<exists>v a k. d = Push_value v a k")
      case True
      then obtain v a k where d: "d = Push_value v a k" by blast
      show ?thesis using step_push_alloc_node [OF inv st Push_alloc b d] Push_alloc
        by (auto simp: d)
    next
      case False
      then have "queue_inv pc D j n g q' (c(t := d)) xs ys" using step_push_alloc [OF inv st Push_alloc b(1)] by blast
      moreover have "accepted d = []" using False by (cases d) simp_all
      ultimately show ?thesis using same log Push_alloc by auto
    qed
  next
    case (Push_link k a)
    obtain m where z: "lq_mem q (MAKE_NODEPTR a) = Some m"
      using st Push_link by (auto simp: queue_pc_step_def split: option.splits bind_splits)
    have "\<exists>g'. queue_inv pc D j n g' q' (c(t := d)) xs ys"
    proof (cases "nd_key m = 0")
      case True
      then show ?thesis
        using link_facts(8) [OF inv Push_link z True] step_push_link_main [OF inv st Push_link z True]
          step_push_link_seg [OF inv st Push_link z True] by (auto simp: seg_nodes_def)
    next
      case False
      then show ?thesis using step_push_link_fail [OF inv st Push_link z] by blast
    qed
    then show ?thesis using same log Push_link by simp
  next
    case (Pop_free k i)
    let ?j = "case i of Free_number a k \<Rightarrow> Suc j | _ \<Rightarrow> j"
    have j: "?j = j + takes_number (c t)" by (cases i) (simp_all add: Pop_free)
    have "queue_inv pc D ?j n g q' (c(t := d)) xs ys" by (rule step_pop_free [OF inv st Pop_free refl]) (use j b in linarith)
    then show ?thesis using log Pop_free j by (intro exI [of _ g] exI [of _ ?j] exI [of _ n]) simp
  next
    case (Pop_value k)
    then show ?thesis using step_pop_value [OF inv st Pop_value] log by auto
  qed (use st log same step_push_value [OF inv st] step_push_clear [OF inv st] step_pop_set [OF inv st]
      step_push_reads [OF inv st] step_tail_moves [OF inv st] step_pop_key [OF inv st] step_pop_reads [OF inv st]
      in \<open>fastforce simp: queue_pc_step_def\<close>)+
qed

lemma queue_reach_inv:
  assumes "queue_reach s0 k s" "queue_inv pc D j n g (qs_q s0) (qs_pc s0) (qs_in s0) (qs_out s0)" "j + n + k < 2 ^ 16"
  shows "\<exists>g' j' n'. j' + n' = j + n + k \<and> queue_inv pc D j' n' g' (qs_q s) (qs_pc s) (qs_in s) (qs_out s)"
  using assms
proof (induction rule: queue_reach.induct)
  case queue_reach_start
  then show ?case by auto
next
  case (queue_reach_push m s t x)
  then obtain g' j' n' where inv: "j' + n' = j + n + m" "queue_inv pc D j' n' g' (qs_q s) (qs_pc s) (qs_in s) (qs_out s)" by blast
  have "queue_inv pc D j' n' g' (qs_q s) ((qs_pc s)(t := Push_number x)) (qs_in s) (qs_out s)"
    by (rule pc_step [OF inv(2)]) (use queue_reach_push.hyps(2) in \<open>cases "qs_pc s t"; simp\<close>)+
  then show ?case using inv(1) by (auto simp del: fun_upd_apply)
next
  case (queue_reach_pop m s t)
  then obtain g' j' n' where inv: "j' + n' = j + n + m" "queue_inv pc D j' n' g' (qs_q s) (qs_pc s) (qs_in s) (qs_out s)" by blast
  have "queue_inv pc D j' n' g' (qs_q s) ((qs_pc s)(t := Pop_size)) (qs_in s) (qs_out s)"
    by (rule pc_step [OF inv(2)]) (use queue_reach_pop.hyps(2,3) in \<open>cases "qs_pc s t"; simp\<close>)+
  then show ?case using inv(1) by (auto simp del: fun_upd_apply)
next
  case (queue_reach_access m s t q c)
  then obtain g' j' n' where inv: "j' + n' = j + n + m" "queue_inv pc D j' n' g' (qs_q s) (qs_pc s) (qs_in s) (qs_out s)" by force
  show ?case using queue_access_inv [OF inv(2) queue_reach_access.hyps(2)] inv(1) queue_reach_access.prems(2) by (simp add: add.assoc del: fun_upd_apply)
qed

section \<open>No access goes wrong\<close>

lemma access_defined:
  assumes inv: "queue_inv pc D j n g q c xs ys" and t: "\<not> idle (c t)"
  shows "queue_pc_step (c t) q \<noteq> None"
proof -
  note I = queue_invD [OF inv]
  note A = held_apart [OF inv]
  note K = I(7) [of t]
  obtain fs where fs: "pool_inv pc D j fs (pool_view q c g)" using I(2) by blast
  have C: "g_d g \<le> g_p g" "g_p g < length (g_hist g)" "nodes (g_hist g) \<subseteq> dom (lq_mem q)" using I(3) by (simp_all add: chain_ok_def)
  have hist: "\<exists>x. lq_mem q (MAKE_NODEPTR (g_hist g ! i)) = Some x" if "i < length (g_hist g)" for i
  proof -
    have "MAKE_NODEPTR (g_hist g ! i) \<in> dom (lq_mem q)" using C(3) nth_mem [OF that] by blast
    then show ?thesis by blast
  qed
  have seen: "\<exists>x. lq_mem q (MAKE_NODEPTR a) = Some x" if "seen_tail g a" for a
    using that hist C(2) unfolding seen_tail_def by (metis le_less_trans)
  have priv: "\<exists>x. lq_mem q a = Some x" if "a \<in> set (priv (c t) (g_seg g t)) \<or> a \<in> set (pc_node (inner (c t)))" for a
    using A(6) [OF that] A(7) by blast
  have ok: "pc_ok (old_keys pc D j) (pending (ps_pc (pool_view q c g))) (path_keys (lq_mem q) (np_topKey (lq_np q)) fs) (lq_mem q) (inner (c t))"
    using pool_invD(7) [OF fs, of "Suc t"] by (simp add: pool_view_def)
  show ?thesis
  proof (cases "c t")
    case (Push_alloc x l i)
    have "\<exists>x. lq_mem q (MAKE_NODEPTR k) = Some x" if "i = Alloc_next k" for k
    proof -
      have "k \<in> old_keys pc D j" using ok that by (simp add: Push_alloc)
      then have "MAKE_NODEPTR k \<in> D" by (rule old_key_node [OF _ pool_invD(1) [OF fs]])
      then show ?thesis using A(7) by blast
    qed
    then show ?thesis using K by (cases i) (auto simp: Push_alloc queue_pc_step_def Let_def)
  next
    case (Pop_free k i)
    then show ?thesis using K priv by (cases i) (auto simp: queue_pc_step_def Let_def)
  next
    case (Push_link k a)
    then show ?thesis using K seen [of a] by (auto simp: tail_ok_def queue_pc_step_def nd_upd_def Let_def)
  qed (use K t seen hist C(1,2) priv in \<open>fastforce simp: tail_ok_def queue_pc_step_def nd_upd_def Let_def head_ok_def\<close>)+
qed

section \<open>What went in and what came out\<close>

lemma out_sub:
  assumes "queue_inv pc D j n g q c xs ys"
  shows "mset ys \<subseteq># mset xs"
proof -
  note V = vals_okD [OF queue_invD(9) [OF assms]]
  have "mset (take i zs) \<subseteq># mset zs" for i and zs :: "u64 list"
    by (metis append_take_drop_id mset_append mset_subset_eq_add_left)
  then have "mset ys \<subseteq># mset (tl (g_vals g))" unfolding V(5) .
  then show ?thesis unfolding V(4) by (simp add: subset_mset.add_increasing2)
qed

lemma idle_all:
  assumes inv: "queue_inv pc D j n g q c xs ys" and idle: "\<And>t. idle (c t)"
  shows "\<exists>ks. key_path (lq_mem q) ks \<and> hd ks = lq_head q \<and> mset xs = mset ys + mset (node_values (lq_mem q) (tl ks))"
proof (intro exI conjI)
  note I = queue_invD [OF inv]
  note V = vals_okD [OF I(9)]
  have C: "g_d g \<le> g_p g" "g_p g < length (g_hist g)" "lq_head q = g_hist g ! g_d g" using I(3) by (simp_all add: chain_ok_def)
  show "key_path (lq_mem q) (main_keys g)" using I(3) by (simp add: chain_ok_def)
  show "hd (main_keys g) = lq_head q" using C by (simp add: main_keys_def hd_drop_conv_nth)
  have i: "prelink (c t) = None" "\<not> late (c t)" "inner (c t) = Pool_idle" "priv (c t) [] = []" for t using idle [of t] by (cases "c t"; simp)+
  have s: "g_seg g t = []" for t by (rule seg_none [OF inv i(1)])
  have p: "priv_nodes c g = {}" by (simp add: priv_nodes_def s i(4))
  have "node_values (lq_mem q) (tl (main_keys g)) = drop (g_d g) (tl (g_vals g))"
  proof (rule nth_equalityI)
    show "length (node_values (lq_mem q) (tl (main_keys g))) = length (drop (g_d g) (tl (g_vals g)))"
      using V(1) by (simp add: node_values_def main_keys_def)
    fix l
    assume l: "l < length (node_values (lq_mem q) (tl (main_keys g)))"
    then have l: "Suc (g_d g + l) < length (g_hist g)" by (simp add: node_values_def main_keys_def)
    have k: "tl (main_keys g) ! l = g_hist g ! Suc (g_d g + l)" using l by (simp add: main_keys_def nth_tl)
    have "node_values (lq_mem q) (tl (main_keys g)) ! l = value_of (lq_mem q) (MAKE_NODEPTR (g_hist g ! Suc (g_d g + l)))"
      using l k by (simp add: node_values_def value_of_def main_keys_def del: nth_drop)
    then show "node_values (lq_mem q) (tl (main_keys g)) ! l = drop (g_d g) (tl (g_vals g)) ! l"
      using V(2) [of "Suc (g_d g + l)"] l V(1) by (simp add: nth_tl)
  qed
  moreover have "mset (take (g_d g) (tl (g_vals g))) + mset (drop (g_d g) (tl (g_vals g))) = mset (tl (g_vals g))"
    by (simp flip: mset_append)
  ultimately show "mset xs = mset ys + mset (node_values (lq_mem q) (tl (main_keys g)))"
    using V(4,5) by (simp add: p i(2))
qed

section \<open>From the constructor\<close>

lemma queue_start_inv:
  assumes n: "0 < unat n" "unat n < 2 ^ 31" and m: "inj_on malloc {0..<unat n}" "\<And>i. i < unat n \<Longrightarrow> malloc i \<noteq> 0 \<and> unat (malloc i) < 2 ^ 48"
    and q: "lfq_new raw pc malloc n = Some q"
  shows "\<exists>g. queue_inv pc (malloc ` {0..<unat n}) (unat n) 0 g q (\<lambda>_. Push_done True) [] []"
proof -
  have u: "unat (ucast n :: u32) = unat n" using n by (simp add: unsigned_ucast_eq take_bit_nat_eq_self)
  then have s: "sint (ucast n :: u32) = int (unat n)" using n(2) sint_small [of "ucast n"] by (simp only: u)
  then have sn: "nat (sint (ucast n :: u32)) = unat n" "0 \<le> sint (ucast n :: u32)" by (simp_all only: s nat_int of_nat_0_le_iff)
  obtain np np1 a where np: "nodePool_new raw pc malloc (ucast n) = Some np" "np_Alloc np = Some (np1, a)"
    "nd_upd \<lparr>lq_pushs = 0, lq_head = a, lq_tail = a, lq_np = np1, lq_size = 0\<rparr> a (\<lambda>n. n\<lparr>nd_key := 0\<rparr>) = Some q"
    using q by (auto simp: lfq_new_def split: bind_splits)
  let ?D = "malloc ` {0..<unat n}"
  obtain fs where inv: "pool_inv pc ?D (unat n) fs (pool_start np)" "fs \<noteq> []"
    using start_inv [of "ucast n" malloc raw pc np] sn m np(1) n(1) by auto
  then obtain b gs where fs: "fs = b # gs" by (cases fs) auto
  note P = pool_invD [OF inv(1) [unfolded fs]]
  have ps: "ps_pool (pool_start np) = np" "ps_pc (pool_start np) = (\<lambda>_. Pool_idle)" "held (pool_start np) = (\<lambda>_. [])"
    by (auto simp: pool_start_def held_def)
  note P = P [unfolded ps]
  obtain x where x: "np_mem np b = Some x" "MAKE_NODEPTR (np_topKey np) = b" "b \<noteq> 0" "pool_path (np_mem np) (nd_poolNext x) gs"
    using P(4) by (auto split: option.splits)
  have np1: "a = b" "np1 = np\<lparr>np_topKey := nd_poolNext x, np_useSize := np_useSize np + 1\<rparr>"
    using np(2) x by (simp_all add: np_Alloc.simps [of np] Let_def cas_def)
  let ?m = "(np_mem np)(b \<mapsto> x\<lparr>nd_key := 0\<rparr>)"
  have qe: "q = \<lparr>lq_pushs = 0, lq_head = b, lq_tail = b, lq_np = np1\<lparr>np_mem := ?m\<rparr>, lq_size = 0\<rparr>"
    using np(3) x(1) by (simp add: nd_upd_def np1)
  have "b \<in> ?D" using P(2) x(1) by blast
  then have small: "unat b < 2 ^ 48" using P(1) unfolding good_nodes_def by blast
  have b: "MAKE_NODEPTR b = b" "drop_bit 48 b = 0" using NODEPTR_small [OF small] KEY_tag [OF small, of 0] by (simp_all add: MAKE_KEY_def)
  define g where "g = \<lparr>g_hist = [b], g_vals = [0], g_d = 0, g_p = 0, g_seg = (\<lambda>_. []), g_ct = (\<lambda>_. 0), g_clk = 0, g_used = {0}, g_val = (\<lambda>_. 0)\<rparr>"
  have main: "main_keys g = [b]" by (simp add: main_keys_def g_def)
  have pend: "pending (ps_pc (pool_view q (\<lambda>_. Push_done True) g)) = {}" by (auto simp: pending_def pool_view_def split: nat.splits)
  have next_same: "map_option nd_poolNext (?m z) = map_option nd_poolNext (np_mem np z)" for z by (simp add: x(1))
  have "pool_inv pc ?D (unat n) gs (pool_view q (\<lambda>_. Push_done True) g)"
    unfolding pool_inv_def Let_def pend
  proof (intro conjI allI)
    show "dom (np_mem (ps_pool (pool_view q (\<lambda>_. Push_done True) g))) = ?D" using P(2) x(1) by (auto simp: pool_view_def qe)
    show "np_pushCount (ps_pool (pool_view q (\<lambda>_. Push_done True) g)) = pc + of_nat (unat n)" using P(3) by (simp add: pool_view_def qe np1)
    show "pool_path (np_mem (ps_pool (pool_view q (\<lambda>_. Push_done True) g))) (np_topKey (ps_pool (pool_view q (\<lambda>_. Push_done True) g))) gs"
      using x(4) pool_path_next(1) [of ?m "np_mem np", OF next_same] by (simp add: pool_view_def qe np1 del: fun_upd_apply)
    show "path_keys (np_mem (ps_pool (pool_view q (\<lambda>_. Push_done True) g))) (np_topKey (ps_pool (pool_view q (\<lambda>_. Push_done True) g))) gs
        \<subseteq> old_keys pc ?D (unat n) - {}"
      using P(5) x(1) pool_path_next(2) [of ?m "np_mem np", OF next_same] by (auto simp: pool_view_def qe np1 simp del: fun_upd_apply)
    show "shared_out ?D gs (held (pool_view q (\<lambda>_. Push_done True) g))"
    proof (rule shared_out_take [OF P(6), where t = 0])
      show "held (pool_view q (\<lambda>_. Push_done True) g) u = (if u = 0 then b # [] else [])" for u
        by (cases u) (simp_all add: view_held main b, simp add: g_def)
    qed
    show "pc_ok (old_keys pc ?D (unat n)) {} keys m (ps_pc (pool_view q (\<lambda>_. Push_done True) g) t)" for t keys m
      by (cases t) (simp_all add: pool_view_def)
  qed (rule P(1))
  then have "queue_inv pc ?D (unat n) 0 g q (\<lambda>_. Push_done True) [] []"
  proof (rule queue_invI [rotated])
    show "chain_ok q g" using x b by (simp add: chain_ok_def main) (simp add: qe g_def b)
    show "tags_ok 0 q (\<lambda>_. Push_done True) g" by (rule tags_okI) (simp_all add: qe g_def b)
    show "vals_ok (lq_mem q) (\<lambda>_. Push_done True) [] [] g" by (simp add: vals_ok_def g_def priv_nodes_def)
  qed (simp_all add: seg_ok_def g_def)
  then show ?thesis by blast
qed

lemma single_consumer:
  assumes "0 < unat n" "unat n + k < 2 ^ 16" "inj_on malloc {0..<unat n}" "\<And>i. i < unat n \<Longrightarrow> malloc i \<noteq> 0 \<and> unat (malloc i) < 2 ^ 48"
    and "lfq_new raw pc malloc n = Some q" "queue_reach (queue_start q) k s"
  obtains g D j m where "queue_inv pc D j m g (qs_q s) (qs_pc s) (qs_in s) (qs_out s)"
proof -
  have "unat n < 2 ^ 31" using assms(2) by simp
  then obtain g where "queue_inv pc (malloc ` {0..<unat n}) (unat n) 0 g q (\<lambda>_. Push_done True) [] []"
    using queue_start_inv [OF assms(1) _ assms(3-5)] by blast
  then show thesis using queue_reach_inv [OF assms(6)] assms(2) that by (fastforce simp: queue_start_def)
qed

end
