(* ===== verification/Session_Threads.thy ===== *)
theory Session_Threads
  imports Network_Safety
begin

text \<open>
  One slot of \<open>sessionArray\<close> and any number of threads inside \<open>findSession\<close>, \<open>sendReq\<close>, \<open>disconnectReq\<close>, \<open>acceptThread\<close>,
  \<open>workerThread\<close>, \<open>sendIO\<close>, \<open>recvIO\<close> and \<open>deleteSession\<close>, one access to the shared members of the session at a time.
  A thread is a value of \<open>slot_pc\<close>, whose arguments are its local variables; the argument \<open>n\<close> of the states of
  \<open>decrementIO\<close> and \<open>deleteSession\<close> counts the references that the thread gives back after this one. A call of \<open>push\<close> or \<open>pop\<close> of the
  queue is one step (\<open>Queue_Steps\<close> looks inside), and so is the work on buffers that no other thread touches, which is what
  \<open>Session_Exclusive\<close> proves. A request that a callback makes on this session is made by a thread of its own, while the
  thread that runs the callback rests.
\<close>

section \<open>The state of a slot\<close>

text \<open>
  \<open>sl_free\<close> says how often the index of the slot is on \<open>indexStack\<close>, \<open>sl_given\<close> and \<open>sl_gone\<close> list the arguments of the calls of \<open>OnNewConnect\<close>
  and \<open>OnDisconnect\<close>, the latest first, and \<open>sl_lost\<close> counts the references of workers that went on without \<open>decrementIO\<close>.
\<close>

record slot = os +
  sl_session :: session
  sl_index :: u16
  sl_free :: nat
  sl_given :: "u64 list"
  sl_gone :: "u64 list"
  sl_lost :: nat

datatype slot_request = Send_packet u64 | Disconnect

datatype slot_pc =
    Slot_idle
  | Find_inc slot_request u64
  | Find_id slot_request u64
  | Found slot_request u64
  | Req_count u64 u64
  | Req_post u64 u64
  | Release nat
  | Del_cas nat
  | Del_read nat
  | Del_close u64 u64 nat
  | Del_clear u64 nat
  | Del_push u64 nat
  | Del_notify u64 nat
  | Acc_id u64 u64 u16 u32
  | Acc_socket u64 u64 u16 u32
  | Acc_address u64 u16 u32
  | Acc_inc u64
  | Acc_flag u64
  | Acc_cancel u64
  | Acc_and u64
  | Acc_connect u64
  | Post_push u64
  | Post_drop u64
  | Send_test
  | Send_flag
  | Send_size
  | Send_reset
  | Send_inc u64
  | Send_loop u64 u64 "(u64 \<times> u32) list"
  | Send_check
  | Send_fail_flag
  | Send_fail
  | Sent_packets u32
  | Sent_flag
  | Sent_size
  | Recved u32
  | Frame_take
  | Frame_end u64
  | Recv_test
  | Recv_inc
  | Recv_call
  | Recv_check
  | Recv_fail

section \<open>One access\<close>

abbreviation sl_put :: "slot \<Rightarrow> session \<Rightarrow> slot" where
  "sl_put st s \<equiv> st\<lparr>sl_session := s\<rparr>"

text \<open>Where a thread goes on after \<open>deleteSession\<close>.\<close>

fun slot_return :: "nat \<Rightarrow> slot_pc" where
  "slot_return 0 = Slot_idle"
| "slot_return (Suc n) = Release n"

text \<open>\<open>findSession\<close>, and what \<open>sendReq\<close> and \<open>disconnectReq\<close> do with a session that was found.\<close>

fun request_step :: "slot_pc \<Rightarrow> slot \<Rightarrow> (slot \<times> slot_pc) option" where
  "request_step (Find_inc r sid) st =
     (let (s, temp) = incrementIO (sl_session st)
      in Some (sl_put st s, if temp AND 0x80000000 \<noteq> 0 then Release 0 else Find_id r sid))"
| "request_step (Find_id r sid) st = Some (st, if ss_ID (sl_session st) \<noteq> sid then Release 0 else Found r sid)"
| "request_step (Found (Send_packet p) sid) st = map_option (\<lambda>x. (fst x, Req_count p sid)) (ser_inc st p 1)"
| "request_step (Req_count p sid) st = Some (sl_put st (fst (incrementIO (sl_session st))), Req_post p sid)"
| "request_step (Req_post p sid) st =
     map_option (\<lambda>s. let v = p OR reqEvents_value sendReq_event
                      in (os_log (sl_put st s) (PostStatus (ucast (sl_index st)) v), Release 0))
       (iocp_owe (sl_session st) (Post_io (p OR reqEvents_value sendReq_event)))"
| "request_step (Found Disconnect sid) st =
     (let s = fst (cancelIORegist (sl_session st))
      in Some (os_log (os_log (sl_put st s) (CancelIoEx (ss_socket s) Recv_io)) (CancelIoEx (ss_socket s) Send_io), Release 0))"
| "request_step _ st = None"

text \<open>\<open>if (decrementIO() == 0) deleteSession();\<close>\<close>

fun release_step :: "slot_pc \<Rightarrow> slot \<Rightarrow> (slot \<times> slot_pc) option" where
  "release_step (Release n) st =
     (let (s, c) = decrementIO (sl_session st) in Some (sl_put st s, if c = 0 then Del_cas n else slot_return n))"
| "release_step (Del_cas n) st =
     (let s = sl_session st; r = cas (ss_IOcount s) 0x80000000 0
      in Some (sl_put st (s\<lparr>ss_IOcount := fst r\<rparr>), if snd r \<noteq> 0 then slot_return n else Del_read n))"
| "release_step (Del_read n) st = Some (st, Del_close (ss_ID (sl_session st)) (ss_socket (sl_session st)) n)"
| "release_step (Del_close sid sock n) st = Some (os_log st (CloseSocket sock), Del_clear sid n)"
| "release_step (Del_clear sid n) st =
     map_option (\<lambda>(s, st'). (sl_put st' s, Del_push sid n)) (bufferClear (sl_session st) st)"
| "release_step (Del_push sid n) st =
     Some (if GET_INDEX sid = sl_index st then st\<lparr>sl_free := sl_free st + 1\<rparr> else st, Del_notify sid n)"
| "release_step (Del_notify sid n) st = Some (st\<lparr>sl_gone := sid # sl_gone st\<rparr>, slot_return n)"
| "release_step _ st = None"

text \<open>The accept thread, after it took the index from the stack: \<open>session::init\<close> and \<open>OnNewConnect\<close>.\<close>

fun accept_pc_step :: "slot_pc \<Rightarrow> slot \<Rightarrow> (slot \<times> slot_pc) option" where
  "accept_pc_step (Acc_id sid sock port ip) st = Some (sl_put st ((sl_session st)\<lparr>ss_ID := sid\<rparr>), Acc_socket sid sock port ip)"
| "accept_pc_step (Acc_socket sid sock port ip) st = Some (sl_put st ((sl_session st)\<lparr>ss_socket := sock\<rparr>), Acc_address sid port ip)"
| "accept_pc_step (Acc_address sid port ip) st = Some (sl_put st ((sl_session st)\<lparr>ss_port := port, ss_ip := ip\<rparr>), Acc_inc sid)"
| "accept_pc_step (Acc_inc sid) st = Some (sl_put st (fst (incrementIO (sl_session st))), Acc_flag sid)"
| "accept_pc_step (Acc_flag sid) st = Some (sl_put st ((sl_session st)\<lparr>ss_sendFlag := 0\<rparr>), Acc_cancel sid)"
| "accept_pc_step (Acc_cancel sid) st = Some (sl_put st ((sl_session st)\<lparr>ss_cancelIOFlag := 0\<rparr>), Acc_and sid)"
| "accept_pc_step (Acc_and sid) st =
     (let s = sl_session st in Some (sl_put st (s\<lparr>ss_IOcount := ss_IOcount s AND 0x7fffffff\<rparr>), Acc_connect sid))"
| "accept_pc_step (Acc_connect sid) st = Some (st\<lparr>sl_given := sid # sl_given st\<rparr>, Recv_test)"
| "accept_pc_step _ st = None"

text \<open>A posted packet, \<open>sendIO\<close>, and the completion of a send.\<close>

fun send_step :: "slot_pc \<Rightarrow> slot \<Rightarrow> (slot \<times> slot_pc) option" where
  "send_step (Post_push p) st =
     map_option (\<lambda>(s, b). (sl_put st s, if b then Send_test else Post_drop p)) (collectSendPacket (sl_session st) p)"
| "send_step (Post_drop p) st = map_option (\<lambda>st'. (st', Release 0)) (ser_release st p)"
| "send_step Send_test st = Some (st, if hasCancelIOFlag (sl_session st) then Release 0 else Send_flag)"
| "send_step Send_flag st =
     (let s = sl_session st in Some (sl_put st (s\<lparr>ss_sendFlag := 1\<rparr>), if ss_sendFlag s = 1 then Release 0 else Send_size))"
| "send_step Send_size st =
     (let sendBufferSize :: u64 = scast (lfq_sizeFn (ss_sendBuffer (sl_session st)))
      in Some (st, if sendBufferSize = 0 then Send_reset else Send_inc sendBufferSize))"
| "send_step Send_reset st = Some (sl_put st ((sl_session st)\<lparr>ss_sendFlag := 0\<rparr>), Release 0)"
| "send_step (Send_inc packetCount) st = Some (sl_put st (fst (incrementIO (sl_session st))), Send_loop packetCount 0 [])"
| "send_step (Send_loop packetCount i buffer) st =
     (let s = sl_session st in
      if i < packetCount then
        Option.bind (lfq_pop (ss_sendBuffer s)) (\<lambda>(q, r).
          let s1 = s\<lparr>ss_sendBuffer := q\<rparr> in
          case r of None \<Rightarrow> Some (sl_put st s1, Send_loop packetCount (i - 1 + 1) buffer)
          | Some temp \<Rightarrow>
              if 100 \<le> i then None
              else Option.bind (ser_at st temp) (\<lambda>p.
                   map_option (\<lambda>(sd, _). (sl_put st (s1\<lparr>ss_sendedBuffer := sd\<rparr>),
                       Send_loop packetCount (i + 1) (buffer @ [(sz_getHeadPtr p, ucast (sz_size p))])))
                     (rb_push (ss_sendedBuffer s1) (le_bytes 8 temp) 8)))
      else
        Option.bind (os_io st (WSASend (ss_socket s) buffer)) (\<lambda>(st1, ret).
          if ret \<noteq> 0 \<and> ret \<noteq> WSA_IO_PENDING
          then Some (st1, if ret \<noteq> 10054 \<and> ret \<noteq> 10053 then Send_fail_flag else Send_fail)
          else map_option (\<lambda>s1. (sl_put st1 s1, if ret = WSA_IO_PENDING then Send_check else Release 0)) (iocp_owe s Send_io)))"
| "send_step Send_check st =
     (let s = sl_session st
      in Some (if hasCancelIOFlag s then os_log st (CancelIoEx (ss_socket s) Send_io) else st, Release 0))"
| "send_step Send_fail_flag st = Some (sl_put st ((sl_session st)\<lparr>ss_sendFlag := 0\<rparr>), Send_fail)"
| "send_step Send_fail st =
     (let s = fst (cancelIORegist (sl_session st))
      in Some (os_log (sl_put st s) (CancelIoEx (ss_socket s) Recv_io), Release 1))"
| "send_step (Sent_packets transfer) st =
     map_option (\<lambda>(s, st', _, tp). if tp \<noteq> -1 then (sl_put st' s, Sent_flag) else (sl_put st' s\<lparr>sl_lost := sl_lost st' + 1\<rparr>, Slot_idle))
       (sended (sl_session st) st transfer)"
| "send_step Sent_flag st = Some (sl_put st ((sl_session st)\<lparr>ss_sendFlag := 0\<rparr>), Sent_size)"
| "send_step Sent_size st = Some (st, if 0 < sint (lfq_sizeFn (ss_sendBuffer (sl_session st))) then Send_test else Release 0)"
| "send_step _ st = None"

text \<open>The completion of a receive, the loop over the frames and \<open>recvIO\<close>.\<close>

fun recv_step :: "slot_pc \<Rightarrow> slot \<Rightarrow> (slot \<times> slot_pc) option" where
  "recv_step (Recved transfer) st =
     (let (s, ok) = recved (sl_session st) transfer
      in Some (if ok then (sl_put st s, Frame_take) else (sl_put st s\<lparr>sl_lost := sl_lost st + 1\<rparr>, Slot_idle)))"
| "recv_step Frame_take st =
     do { (st1, p) \<leftarrow> serializerAlloc st;
          (st2, _) \<leftarrow> ser_inc st1 p 1;
          (st3, _) \<leftarrow> ser_call st2 p (\<lambda>s. Some (sz_begin s, ()));
          (s, st4, ok) \<leftarrow> recvedPacket (sl_session st3) st3 p;
          (if ok then Some (sl_put st4 s, Frame_end p)
           else map_option (\<lambda>st5. (st5, Recv_test)) (ser_release (sl_put st4 s) p)) }"
| "recv_step (Frame_end p) st = map_option (\<lambda>st'. (st', Frame_take)) (ser_release st p)"
| "recv_step Recv_test st = Some (st, if hasCancelIOFlag (sl_session st) then Release 0 else Recv_inc)"
| "recv_step Recv_inc st = Some (sl_put st (fst (incrementIO (sl_session st))), Recv_call)"
| "recv_step Recv_call st =
     (let s = sl_session st in
      Option.bind (os_io st (WSARecv (ss_socket s) (recvIO_buffers (ss_recvBuffer s)))) (\<lambda>(st1, ret).
        if ret \<noteq> 0 \<and> ret \<noteq> WSA_IO_PENDING then Some (st1, Recv_fail)
        else map_option (\<lambda>s1. (sl_put st1 s1, if ret = WSA_IO_PENDING then Recv_check else Release 0)) (iocp_owe s Recv_io)))"
| "recv_step Recv_check st =
     (let s = sl_session st
      in Some (if hasCancelIOFlag s then os_log st (CancelIoEx (ss_socket s) Recv_io) else st, Release 0))"
| "recv_step Recv_fail st =
     (let s = fst (cancelIORegist (sl_session st))
      in Some (os_log (sl_put st s) (CancelIoEx (ss_socket s) Send_io), Release 1))"
| "recv_step _ st = None"

definition slot_step :: "slot_pc \<Rightarrow> slot \<Rightarrow> (slot \<times> slot_pc) option" where
  "slot_step p st =
     (case request_step p st of Some r \<Rightarrow> Some r
      | None \<Rightarrow> (case release_step p st of Some r \<Rightarrow> Some r
        | None \<Rightarrow> (case accept_pc_step p st of Some r \<Rightarrow> Some r
          | None \<Rightarrow> (case send_step p st of Some r \<Rightarrow> Some r | None \<Rightarrow> recv_step p st))))"

section \<open>What a thread at rest begins\<close>

text \<open>
  The application names only identifiers that it was given. The accept thread takes the index from the stack, and a
  worker takes a completion that is owed to the session; \<open>transfer\<close> and \<open>overlap\<close> decide where it goes, as in \<open>workerThread\<close>.
\<close>

datatype slot_call =
    Call_request slot_request u64
  | Call_accept u32 u64 u16 u32
  | Call_worker bool u32 u64 "byte list"

definition worker_entry :: "bool \<Rightarrow> u32 \<Rightarrow> u64 \<Rightarrow> session \<Rightarrow> slot_pc" where
  "worker_entry GQCSresult transfer overlap s =
     (if \<not> GQCSresult then Release 0
      else if transfer = 0 then
        (if requestCheck overlap = sendReq_event then Post_push (overlap AND NOT reqFilter) else Release 0)
      else if sendOverlappedCheck s overlap then Sent_packets transfer
      else if recvOverlappedCheck s overlap then Recved transfer
      else Release 0)"

fun slot_begin :: "slot_call \<Rightarrow> slot \<Rightarrow> (slot \<times> slot_pc) option" where
  "slot_begin (Call_request r sid) st = (if sid \<in> set (sl_given st) then Some (st, Find_inc r sid) else None)"
| "slot_begin (Call_accept sessionCount sock port ip) st =
     (if sl_free st = 0 then None
      else Some (st\<lparr>sl_free := sl_free st - 1\<rparr>, Acc_id (MAKE_SESSION_ID sessionCount (sl_index st)) sock port ip))"
| "slot_begin (Call_worker GQCSresult transfer overlap data) st =
     (let s = sl_session st; owed = completion_op s overlap in
      if owed \<notin> set (ss_inflight s) then None
      else map_option (\<lambda>s1. (sl_put st (s1\<lparr>ss_inflight := remove1 owed (ss_inflight s)\<rparr>), worker_entry GQCSresult transfer overlap s))
             (recv_arrive s data))"

section \<open>Runs\<close>

text \<open>The references on a session: those of the threads, one for each completion owed, and the lost ones.\<close>

fun pc_refs :: "slot_pc \<Rightarrow> nat" where
  "pc_refs Slot_idle = 0"
| "pc_refs (Find_inc r sid) = 0"
| "pc_refs (Req_post p sid) = 2"
| "pc_refs (Release n) = Suc n"
| "pc_refs (Del_cas n) = n"
| "pc_refs (Del_read n) = n"
| "pc_refs (Del_close sid sock n) = n"
| "pc_refs (Del_clear sid n) = n"
| "pc_refs (Del_push sid n) = n"
| "pc_refs (Del_notify sid n) = n"
| "pc_refs (Acc_id sid sock port ip) = 0"
| "pc_refs (Acc_socket sid sock port ip) = 0"
| "pc_refs (Acc_address sid port ip) = 0"
| "pc_refs (Acc_inc sid) = 0"
| "pc_refs (Send_loop m i buffer) = 2"
| "pc_refs Send_fail_flag = 2"
| "pc_refs Send_fail = 2"
| "pc_refs Recv_call = 2"
| "pc_refs Recv_fail = 2"
| "pc_refs _ = 1"

definition slot_refs :: "nat \<Rightarrow> slot \<Rightarrow> (nat \<Rightarrow> slot_pc) \<Rightarrow> nat" where
  "slot_refs N st c = (\<Sum>t<N. pc_refs (c t)) + length (ss_inflight (sl_session st)) + sl_lost st"

text \<open>What the other sessions and the application may do meanwhile: they share the heap and the system, not the slot.\<close>

definition slot_same :: "slot \<Rightarrow> slot \<Rightarrow> bool" where
  "slot_same st st' \<longleftrightarrow> sl_session st' = sl_session st \<and> sl_index st' = sl_index st \<and> sl_free st' = sl_free st \<and>
     sl_given st' = sl_given st \<and> sl_gone st' = sl_gone st \<and> sl_lost st' = sl_lost st"

text \<open>A slot as the constructor of \<open>session\<close> and \<open>start\<close> leave it.\<close>

definition slot_fresh :: "slot \<Rightarrow> bool" where
  "slot_fresh st \<longleftrightarrow> ss_IOcount (sl_session st) = 0 \<and> ss_inflight (sl_session st) = [] \<and> sl_free st = 1 \<and>
     sl_given st = [] \<and> sl_gone st = [] \<and> sl_lost st = 0"

text \<open>The runs of \<open>N\<close> threads in which the references never reach \<open>2 ^ 31 - 1\<close>, where the next one would touch the flag.\<close>

inductive slot_reach :: "nat \<Rightarrow> slot \<Rightarrow> slot \<Rightarrow> (nat \<Rightarrow> slot_pc) \<Rightarrow> bool" for N st0 where
  slot_reach_start: "slot_fresh st0 \<Longrightarrow> slot_reach N st0 st0 (\<lambda>_. Slot_idle)"
| slot_reach_begin: "slot_reach N st0 st c \<Longrightarrow> t < N \<Longrightarrow> c t = Slot_idle \<Longrightarrow> slot_begin call st = Some (st', p) \<Longrightarrow>
    slot_refs N st' (c(t := p)) + 1 < 2 ^ 31 \<Longrightarrow> slot_reach N st0 st' (c(t := p))"
| slot_reach_access: "slot_reach N st0 st c \<Longrightarrow> t < N \<Longrightarrow> slot_step (c t) st = Some (st', p) \<Longrightarrow>
    slot_refs N st' (c(t := p)) + 1 < 2 ^ 31 \<Longrightarrow> slot_reach N st0 st' (c(t := p))"
| slot_reach_other: "slot_reach N st0 st c \<Longrightarrow> slot_same st st' \<Longrightarrow> slot_reach N st0 st' c"

end
