(* ===== verification/Session_Weights.thy ===== *)
theory Session_Weights
  imports Session_Threads
begin

text \<open>
  The invariant of the runs of \<open>Session_Threads\<close>. A thread's state gives it weights: the references it holds, whether it has the
  slot to itself, whether it is the sender or the receiver of the connection. \<open>slot_ok\<close> states the invariant for one thread
  against the sums over the others, so that an access concerns the accessing thread alone.
\<close>

section \<open>What the state of a thread says\<close>

text \<open>The slot is this thread's alone: between taking the index and clearing the flag, and from setting it to giving the index back.\<close>

fun pc_owns :: "slot_pc \<Rightarrow> nat" where
  "pc_owns (Acc_id sid sock port ip) = 1"
| "pc_owns (Acc_socket sid sock port ip) = 1"
| "pc_owns (Acc_address sid port ip) = 1"
| "pc_owns (Acc_inc sid) = 1"
| "pc_owns (Acc_flag sid) = 1"
| "pc_owns (Acc_cancel sid) = 1"
| "pc_owns (Acc_and sid) = 1"
| "pc_owns (Del_read n) = 1"
| "pc_owns (Del_close sid sock n) = 1"
| "pc_owns (Del_clear sid n) = 1"
| "pc_owns (Del_push sid n) = 1"
| "pc_owns _ = 0"

text \<open>The thread holds a reference that it took while the slot was in use; the others are given back at once.\<close>

fun pc_firm :: "slot_pc \<Rightarrow> bool" where
  "pc_firm Slot_idle = False"
| "pc_firm (Find_inc r sid) = False"
| "pc_firm (Release n) = (0 < n)"
| "pc_firm (Del_cas n) = (0 < n)"
| "pc_firm (Del_read n) = (0 < n)"
| "pc_firm (Del_close sid sock n) = (0 < n)"
| "pc_firm (Del_clear sid n) = (0 < n)"
| "pc_firm (Del_push sid n) = (0 < n)"
| "pc_firm (Del_notify sid n) = (0 < n)"
| "pc_firm (Acc_id sid sock port ip) = False"
| "pc_firm (Acc_socket sid sock port ip) = False"
| "pc_firm (Acc_address sid port ip) = False"
| "pc_firm (Acc_inc sid) = False"
| "pc_firm (Acc_flag sid) = False"
| "pc_firm (Acc_cancel sid) = False"
| "pc_firm (Acc_and sid) = False"
| "pc_firm _ = True"

text \<open>The thread is the one that sends: it got \<open>sendFlag\<close> and has neither reset it nor handed it to the pending send.\<close>

fun pc_sends :: "slot_pc \<Rightarrow> nat" where
  "pc_sends Send_size = 1"
| "pc_sends Send_reset = 1"
| "pc_sends (Send_inc m) = 1"
| "pc_sends (Send_loop m i buffer) = 1"
| "pc_sends Send_fail_flag = 1"
| "pc_sends (Sent_packets transfer) = 1"
| "pc_sends Sent_flag = 1"
| "pc_sends _ = 0"

text \<open>The thread is the one that receives: no receive is pending, and it will start the next one.\<close>

fun pc_recvs :: "slot_pc \<Rightarrow> nat" where
  "pc_recvs (Acc_connect sid) = 1"
| "pc_recvs (Recved transfer) = 1"
| "pc_recvs Frame_take = 1"
| "pc_recvs (Frame_end p) = 1"
| "pc_recvs Recv_test = 1"
| "pc_recvs Recv_inc = 1"
| "pc_recvs Recv_call = 1"
| "pc_recvs _ = 0"

text \<open>No connection is announced: before \<open>OnNewConnect\<close>, and after the identifier was read for \<open>OnDisconnect\<close>.\<close>

fun pc_vacant :: "slot_pc \<Rightarrow> nat" where
  "pc_vacant (Acc_connect sid) = 1"
| "pc_vacant (Del_read n) = 0"
| "pc_vacant p = pc_owns p"

fun pc_gone :: "u64 \<Rightarrow> slot_pc \<Rightarrow> nat" where
  "pc_gone x (Del_close sid sock n) = of_bool (sid = x)"
| "pc_gone x (Del_clear sid n) = of_bool (sid = x)"
| "pc_gone x (Del_push sid n) = of_bool (sid = x)"
| "pc_gone x (Del_notify sid n) = of_bool (sid = x)"
| "pc_gone x _ = 0"

text \<open>The identifier that the session has, as far as the thread knows.\<close>

fun pc_knows :: "slot_pc \<Rightarrow> u64 set" where
  "pc_knows (Found r sid) = {sid}"
| "pc_knows (Req_count p sid) = {sid}"
| "pc_knows (Req_post p sid) = {sid}"
| "pc_knows (Acc_socket sid sock port ip) = {sid}"
| "pc_knows (Acc_address sid port ip) = {sid}"
| "pc_knows (Acc_inc sid) = {sid}"
| "pc_knows (Acc_flag sid) = {sid}"
| "pc_knows (Acc_cancel sid) = {sid}"
| "pc_knows (Acc_and sid) = {sid}"
| "pc_knows (Acc_connect sid) = {sid}"
| "pc_knows _ = {}"

text \<open>The identifiers with which the slot is taken or given back.\<close>

fun pc_names :: "slot_pc \<Rightarrow> u64 set" where
  "pc_names (Acc_id sid sock port ip) = {sid}"
| "pc_names (Del_close sid sock n) = {sid}"
| "pc_names (Del_clear sid n) = {sid}"
| "pc_names (Del_push sid n) = {sid}"
| "pc_names (Del_notify sid n) = {sid}"
| "pc_names (Find_inc r sid) = {}"
| "pc_names (Find_id r sid) = {}"
| "pc_names (Found r sid) = {}"
| "pc_names (Req_count p sid) = {}"
| "pc_names (Req_post p sid) = {}"
| "pc_names p = pc_knows p"

text \<open>All that can happen before the first \<open>OnNewConnect\<close>.\<close>

fun pc_early :: "slot_pc \<Rightarrow> bool" where
  "pc_early Slot_idle = True"
| "pc_early (Acc_connect sid) = True"
| "pc_early (Acc_id sid sock port ip) = True"
| "pc_early (Acc_socket sid sock port ip) = True"
| "pc_early (Acc_address sid port ip) = True"
| "pc_early (Acc_inc sid) = True"
| "pc_early (Acc_flag sid) = True"
| "pc_early (Acc_cancel sid) = True"
| "pc_early (Acc_and sid) = True"
| "pc_early _ = False"

lemma pc_weights:
  "pc_firm p \<Longrightarrow> 0 < pc_refs p" "0 < pc_sends p \<Longrightarrow> pc_firm p" "0 < pc_recvs p \<Longrightarrow> pc_firm p"
  "pc_vacant p \<le> pc_owns p + pc_recvs p" "pc_knows p = {} \<or> pc_firm p \<or> 0 < pc_owns p"
  by (cases p; simp)+

section \<open>The others\<close>

record others =
  ot_refs :: nat
  ot_owns :: nat
  ot_firm :: bool
  ot_sends :: nat
  ot_recvs :: nat
  ot_vacant :: nat
  ot_gone :: "u64 \<Rightarrow> nat"
  ot_knows :: "u64 set"
  ot_names :: "u64 set"
  ot_early :: bool

definition others_of :: "nat set \<Rightarrow> (nat \<Rightarrow> slot_pc) \<Rightarrow> others" where
  "others_of T c = \<lparr>ot_refs = (\<Sum>t\<in>T. pc_refs (c t)), ot_owns = (\<Sum>t\<in>T. pc_owns (c t)), ot_firm = (\<exists>t\<in>T. pc_firm (c t)),
     ot_sends = (\<Sum>t\<in>T. pc_sends (c t)), ot_recvs = (\<Sum>t\<in>T. pc_recvs (c t)), ot_vacant = (\<Sum>t\<in>T. pc_vacant (c t)),
     ot_gone = (\<lambda>x. \<Sum>t\<in>T. pc_gone x (c t)), ot_knows = (\<Union>t\<in>T. pc_knows (c t)), ot_names = (\<Union>t\<in>T. pc_names (c t)),
     ot_early = (\<forall>t\<in>T. pc_early (c t))\<rparr>"

definition add_pc :: "slot_pc \<Rightarrow> others \<Rightarrow> others" where
  "add_pc p r = \<lparr>ot_refs = pc_refs p + ot_refs r, ot_owns = pc_owns p + ot_owns r, ot_firm = (pc_firm p \<or> ot_firm r),
     ot_sends = pc_sends p + ot_sends r, ot_recvs = pc_recvs p + ot_recvs r, ot_vacant = pc_vacant p + ot_vacant r,
     ot_gone = (\<lambda>x. pc_gone x p + ot_gone r x), ot_knows = pc_knows p \<union> ot_knows r, ot_names = pc_names p \<union> ot_names r,
     ot_early = (pc_early p \<and> ot_early r)\<rparr>"

lemma others_insert:
  assumes "finite T" "t \<notin> T"
  shows "others_of (insert t T) c = add_pc (c t) (others_of T c)"
  using assms by (simp add: others_of_def add_pc_def fun_eq_iff)

lemma others_upd:
  assumes "t \<notin> T"
  shows "others_of T (c(t := p)) = others_of T c"
proof -
  have "u \<in> T \<Longrightarrow> (c(t := p)) u = c u" for u using assms by auto
  then show ?thesis unfolding others_of_def by (simp cong: sum.cong image_cong)
qed

text \<open>What holds of the sums over any set of threads.\<close>

definition weighed :: "others \<Rightarrow> bool" where
  "weighed r \<longleftrightarrow> (ot_firm r \<longrightarrow> 0 < ot_refs r) \<and> (0 < ot_sends r \<longrightarrow> ot_firm r) \<and> (0 < ot_recvs r \<longrightarrow> ot_firm r) \<and>
     ot_vacant r \<le> ot_owns r + ot_recvs r \<and> (ot_knows r = {} \<or> ot_firm r \<or> 0 < ot_owns r)"

lemma weighed_others:
  assumes "finite T"
  shows "weighed (others_of T c)"
  using assms
proof (induction T)
  case empty
  then show ?case by (simp add: others_of_def weighed_def)
next
  case (insert t T)
  then show ?case
    using pc_weights [of "c t"] unfolding others_insert [OF insert(1,2)] weighed_def add_pc_def by auto
qed

section \<open>The invariant\<close>

text \<open>\<open>r\<close> sums up all threads.\<close>

definition slot_ok :: "others \<Rightarrow> slot \<Rightarrow> bool" where
  "slot_ok r st \<longleftrightarrow> (let s = sl_session st; owns = sl_free st + ot_owns r; vacant = sl_free st + ot_vacant r in
     owns \<le> 1 \<and>
     ss_IOcount s = of_nat (ot_refs r + length (ss_inflight s) + sl_lost st) + (if owns = 0 \<or> sl_given st = [] then 0 else 0x80000000) \<and>
     (owns = 1 \<longrightarrow> ss_inflight s = [] \<and> sl_lost st = 0 \<and> \<not> ot_firm r) \<and>
     (sl_given st = [] \<longrightarrow> ss_inflight s = [] \<and> sl_lost st = 0 \<and> ot_early r) \<and>
     ot_sends r + count_list (ss_inflight s) Send_io \<le> 1 \<and>
     (0 < ot_sends r + count_list (ss_inflight s) Send_io \<longrightarrow> ss_sendFlag s = 1) \<and>
     ot_recvs r + count_list (ss_inflight s) Recv_io \<le> 1 \<and>
     ot_knows r \<subseteq> {ss_ID s} \<and>
     (vacant = 0 \<longrightarrow> GET_INDEX (ss_ID s) = sl_index st) \<and> (\<forall>x\<in>ot_names r. GET_INDEX x = sl_index st) \<and>
     (\<forall>x. count_list (sl_given st) x = count_list (sl_gone st) x + ot_gone r x + of_bool (vacant = 0 \<and> ss_ID s = x)))"

definition slot_inv :: "nat \<Rightarrow> slot \<Rightarrow> (nat \<Rightarrow> slot_pc) \<Rightarrow> bool" where
  "slot_inv N st c \<longleftrightarrow> slot_ok (others_of {..<N} c) st"

lemma slot_ok_same: "slot_ok r st \<Longrightarrow> slot_same st st' \<Longrightarrow> slot_ok r st'"
  unfolding slot_ok_def slot_same_def by simp

lemma slot_fresh_ok: "slot_fresh st \<Longrightarrow> slot_inv N st (\<lambda>_. Slot_idle)"
  by (simp add: slot_fresh_def slot_inv_def slot_ok_def others_of_def)

section \<open>The counter\<close>

lemma count_flag:
  assumes "n < 2 ^ 31"
  shows "(of_nat n + (if b then 0 else 0x80000000) :: u32) AND 0x80000000 \<noteq> 0 \<longleftrightarrow> \<not> b"
    "(of_nat n + (if b then 0 else 0x80000000) :: u32) = 0 \<longleftrightarrow> n = 0 \<and> b"
    "(of_nat n + (if b then 0 else 0x80000000) :: u32) AND 0x7fffffff = of_nat n"
proof -
  let ?w = "of_nat n :: u32"
  have u: "unat ?w = n" using assms by (simp add: unat_of_nat)
  have f: "?w AND 0x80000000 = 0" using assms u by (intro no_flag) simp
  have d: "?w + 0x80000000 = ?w OR 0x80000000" by (rule disjunctive_add_eq_or [OF f])
  have k: "(0x7fffffff :: u32) = mask 31" by (simp add: mask_eq_exp_minus_1)
  have m: "?w AND 0x7fffffff = ?w" unfolding k using assms u by (simp add: word_unat_eq_iff unat_and_mask)
  show "(?w + (if b then 0 else 0x80000000)) AND 0x80000000 \<noteq> 0 \<longleftrightarrow> \<not> b"
    using f d by (simp add: bit.conj_disj_distrib2)
  show "?w + (if b then 0 else 0x80000000) = 0 \<longleftrightarrow> n = 0 \<and> b"
    using u by (auto simp: d or_eq_0_iff)
  show "(?w + (if b then 0 else 0x80000000)) AND 0x7fffffff = ?w"
    using m d by (simp add: bit.conj_disj_distrib2)
qed

text \<open>The number of references, and the counter of a slot.\<close>

abbreviation refs_of :: "others \<Rightarrow> slot \<Rightarrow> nat" where
  "refs_of r st \<equiv> ot_refs r + length (ss_inflight (sl_session st)) + sl_lost st"

lemma slot_refs_others: "slot_refs N st c = refs_of (others_of {..<N} c) st"
  by (simp add: slot_refs_def others_of_def)

section \<open>One thread moves\<close>

text \<open>The invariant, spelled out for the thread that moves and the others.\<close>

lemma slot_ok_add:
  "slot_ok (add_pc p r) st \<longleftrightarrow> (let s = sl_session st in
     (sl_free st + pc_owns p + ot_owns r \<le> 1) \<and>
     (ss_IOcount s = of_nat (pc_refs p + ot_refs r + length (ss_inflight s) + sl_lost st) +
        (if sl_free st + pc_owns p + ot_owns r = 0 \<or> sl_given st = [] then 0 else 0x80000000)) \<and>
     (sl_free st + pc_owns p + ot_owns r = 1 \<longrightarrow> ss_inflight s = [] \<and> sl_lost st = 0 \<and> \<not> pc_firm p \<and> \<not> ot_firm r) \<and>
     (sl_given st = [] \<longrightarrow> ss_inflight s = [] \<and> sl_lost st = 0 \<and> pc_early p \<and> ot_early r) \<and>
     (pc_sends p + ot_sends r + count_list (ss_inflight s) Send_io \<le> 1 \<and>
       (0 < pc_sends p + ot_sends r + count_list (ss_inflight s) Send_io \<longrightarrow> ss_sendFlag s = 1)) \<and>
     (pc_recvs p + ot_recvs r + count_list (ss_inflight s) Recv_io \<le> 1) \<and>
     (pc_knows p \<subseteq> {ss_ID s} \<and> ot_knows r \<subseteq> {ss_ID s}) \<and>
     ((sl_free st + pc_vacant p + ot_vacant r = 0 \<longrightarrow> GET_INDEX (ss_ID s) = sl_index st) \<and>
       (\<forall>x\<in>pc_names p. GET_INDEX x = sl_index st) \<and> (\<forall>x\<in>ot_names r. GET_INDEX x = sl_index st)) \<and>
     (\<forall>x. count_list (sl_given st) x = count_list (sl_gone st) x + pc_gone x p + ot_gone r x +
        of_bool (sl_free st + pc_vacant p + ot_vacant r = 0 \<and> ss_ID s = x)))"
  unfolding slot_ok_def add_pc_def Let_def
  by (simp add: add.assoc ball_Un conj_ac)

lemma slot_okI:
  fixes st :: slot
  defines "s \<equiv> sl_session st"
  assumes "sl_free st + pc_owns p + ot_owns r \<le> 1"
    "ss_IOcount s = of_nat (pc_refs p + ot_refs r + length (ss_inflight s) + sl_lost st) +
        (if sl_free st + pc_owns p + ot_owns r = 0 \<or> sl_given st = [] then 0 else 0x80000000)"
    "sl_free st + pc_owns p + ot_owns r = 1 \<Longrightarrow> ss_inflight s = [] \<and> sl_lost st = 0 \<and> \<not> pc_firm p \<and> \<not> ot_firm r"
    "sl_given st = [] \<Longrightarrow> ss_inflight s = [] \<and> sl_lost st = 0 \<and> pc_early p \<and> ot_early r"
    "pc_sends p + ot_sends r + count_list (ss_inflight s) Send_io \<le> 1 \<and>
       (0 < pc_sends p + ot_sends r + count_list (ss_inflight s) Send_io \<longrightarrow> ss_sendFlag s = 1)"
    "pc_recvs p + ot_recvs r + count_list (ss_inflight s) Recv_io \<le> 1"
    "pc_knows p \<subseteq> {ss_ID s}" "ot_knows r \<subseteq> {ss_ID s}"
    "sl_free st + pc_vacant p + ot_vacant r = 0 \<Longrightarrow> GET_INDEX (ss_ID s) = sl_index st"
    "\<forall>x\<in>pc_names p. GET_INDEX x = sl_index st" "\<forall>x\<in>ot_names r. GET_INDEX x = sl_index st"
    "\<And>x. count_list (sl_given st) x = count_list (sl_gone st) x + pc_gone x p + ot_gone r x +
        of_bool (sl_free st + pc_vacant p + ot_vacant r = 0 \<and> ss_ID s = x)"
  shows "slot_ok (add_pc p r) st"
  using assms(2-) unfolding slot_ok_add s_def Let_def by (intro conjI impI allI; blast)

lemma slot_okD:
  fixes st :: slot
  defines "s \<equiv> sl_session st"
  assumes ok: "slot_ok (add_pc p r) st"
  shows "sl_free st + pc_owns p + ot_owns r \<le> 1"
    "ss_IOcount s = of_nat (pc_refs p + ot_refs r + length (ss_inflight s) + sl_lost st) +
        (if sl_free st + pc_owns p + ot_owns r = 0 \<or> sl_given st = [] then 0 else 0x80000000)"
    "sl_free st + pc_owns p + ot_owns r = 1 \<Longrightarrow> ss_inflight s = [] \<and> sl_lost st = 0 \<and> \<not> pc_firm p \<and> \<not> ot_firm r"
    "sl_given st = [] \<Longrightarrow> ss_inflight s = [] \<and> sl_lost st = 0 \<and> pc_early p \<and> ot_early r"
    "pc_sends p + ot_sends r + count_list (ss_inflight s) Send_io \<le> 1 \<and>
       (0 < pc_sends p + ot_sends r + count_list (ss_inflight s) Send_io \<longrightarrow> ss_sendFlag s = 1)"
    "pc_recvs p + ot_recvs r + count_list (ss_inflight s) Recv_io \<le> 1"
    "pc_knows p \<subseteq> {ss_ID s}" "ot_knows r \<subseteq> {ss_ID s}"
    "sl_free st + pc_vacant p + ot_vacant r = 0 \<Longrightarrow> GET_INDEX (ss_ID s) = sl_index st"
    "\<forall>x\<in>pc_names p. GET_INDEX x = sl_index st" "\<forall>x\<in>ot_names r. GET_INDEX x = sl_index st"
    "count_list (sl_given st) x = count_list (sl_gone st) x + pc_gone x p + ot_gone r x +
        of_bool (sl_free st + pc_vacant p + ot_vacant r = 0 \<and> ss_ID s = x)"
proof -
  note a1 = ok [unfolded slot_ok_add Let_def, folded s_def]
  note a2 = conjunct2 [OF a1]
  note a3 = conjunct2 [OF a2]
  note a4 = conjunct2 [OF a3]
  note a5 = conjunct2 [OF a4]
  note a6 = conjunct2 [OF a5]
  note a7 = conjunct2 [OF a6]
  note a8 = conjunct2 [OF a7]
  note a9 = conjunct2 [OF a8]
  show "sl_free st + pc_owns p + ot_owns r \<le> 1" by (rule conjunct1 [OF a1])
  show "ss_IOcount s = of_nat (pc_refs p + ot_refs r + length (ss_inflight s) + sl_lost st) +
        (if sl_free st + pc_owns p + ot_owns r = 0 \<or> sl_given st = [] then 0 else 0x80000000)" by (rule conjunct1 [OF a2])
  show "sl_free st + pc_owns p + ot_owns r = 1 \<Longrightarrow> ss_inflight s = [] \<and> sl_lost st = 0 \<and> \<not> pc_firm p \<and> \<not> ot_firm r" by (rule mp [OF conjunct1 [OF a3]])
  show "sl_given st = [] \<Longrightarrow> ss_inflight s = [] \<and> sl_lost st = 0 \<and> pc_early p \<and> ot_early r" by (rule mp [OF conjunct1 [OF a4]])
  show "pc_sends p + ot_sends r + count_list (ss_inflight s) Send_io \<le> 1 \<and>
       (0 < pc_sends p + ot_sends r + count_list (ss_inflight s) Send_io \<longrightarrow> ss_sendFlag s = 1)" by (rule conjunct1 [OF a5])
  show "pc_recvs p + ot_recvs r + count_list (ss_inflight s) Recv_io \<le> 1" by (rule conjunct1 [OF a6])
  show "pc_knows p \<subseteq> {ss_ID s}" "ot_knows r \<subseteq> {ss_ID s}" using conjunct1 [OF a7] by blast+
  show "sl_free st + pc_vacant p + ot_vacant r = 0 \<Longrightarrow> GET_INDEX (ss_ID s) = sl_index st"
    by (rule mp [OF conjunct1 [OF conjunct1 [OF a8]]])
  show "\<forall>x\<in>pc_names p. GET_INDEX x = sl_index st" "\<forall>x\<in>ot_names r. GET_INDEX x = sl_index st"
    using conjunct1 [OF a8] by blast+
  show "count_list (sl_given st) x = count_list (sl_gone st) x + pc_gone x p + ot_gone r x +
        of_bool (sl_free st + pc_vacant p + ot_vacant r = 0 \<and> ss_ID s = x)" by (rule spec [OF a9])
qed

text \<open>A step that keeps the owner of the slot and the connection.\<close>

lemma slot_ok_step:
  fixes st st' :: slot
  defines "s \<equiv> sl_session st" and "s' \<equiv> sl_session st'"
  assumes ok: "slot_ok (add_pc p r) st"
    and same: "ss_ID s' = ss_ID s" "sl_index st' = sl_index st" "sl_given st' = sl_given st" "sl_gone st' = sl_gone st"
      "sl_free st' = sl_free st" "pc_owns p' = pc_owns p" "pc_vacant p' = pc_vacant p" "\<And>x. pc_gone x p' = pc_gone x p"
    and cnt: "ss_IOcount s' + of_nat (pc_refs p + length (ss_inflight s) + sl_lost st) =
        ss_IOcount s + of_nat (pc_refs p' + length (ss_inflight s') + sl_lost st')"
    and own: "\<lbrakk>sl_free st + pc_owns p + ot_owns r = 1; ss_inflight s = []; sl_lost st = 0; \<not> pc_firm p\<rbrakk> \<Longrightarrow>
        ss_inflight s' = [] \<and> sl_lost st' = 0 \<and> \<not> pc_firm p'"
    and early: "\<lbrakk>sl_given st = []; ss_inflight s = []; sl_lost st = 0; pc_early p\<rbrakk> \<Longrightarrow>
        ss_inflight s' = [] \<and> sl_lost st' = 0 \<and> pc_early p'"
    and snd: "\<lbrakk>pc_sends p + ot_sends r + count_list (ss_inflight s) Send_io \<le> 1;
        0 < pc_sends p + ot_sends r + count_list (ss_inflight s) Send_io \<longrightarrow> ss_sendFlag s = 1\<rbrakk> \<Longrightarrow>
        pc_sends p' + ot_sends r + count_list (ss_inflight s') Send_io \<le> 1 \<and>
        (0 < pc_sends p' + ot_sends r + count_list (ss_inflight s') Send_io \<longrightarrow> ss_sendFlag s' = 1)"
    and rcv: "pc_recvs p + ot_recvs r + count_list (ss_inflight s) Recv_io \<le> 1 \<Longrightarrow>
        pc_recvs p' + ot_recvs r + count_list (ss_inflight s') Recv_io \<le> 1"
    and ids: "pc_knows p' \<subseteq> {ss_ID s}" "\<And>x. x \<in> pc_names p' \<Longrightarrow> x \<in> pc_names p"
  shows "slot_ok (add_pc p' r) st'"
proof -
  note D = slot_okD [OF ok, folded s_def]
  have *: "ss_IOcount s' = of_nat (pc_refs p' + ot_refs r + length (ss_inflight s') + sl_lost st') +
      (if sl_free st + pc_owns p + ot_owns r = 0 \<or> sl_given st = [] then 0 else 0x80000000)"
    using cnt D(2) by (simp add: algebra_simps split: if_splits)
  show ?thesis
  proof (rule slot_okI, fold s'_def, unfold same)
    show "ot_knows r \<subseteq> {ss_ID s}" "\<forall>x\<in>ot_names r. GET_INDEX x = sl_index st" using D by blast+
    show "pc_knows p' \<subseteq> {ss_ID s}" "\<forall>x\<in>pc_names p'. GET_INDEX x = sl_index st" using D(10) ids by blast+
    show "sl_free st + pc_vacant p + ot_vacant r = 0 \<Longrightarrow> GET_INDEX (ss_ID s) = sl_index st" using D(9) .
    show "sl_given st = [] \<Longrightarrow> ss_inflight s' = [] \<and> sl_lost st' = 0 \<and> pc_early p' \<and> ot_early r" using D(4) early by blast
    show "sl_free st + pc_owns p + ot_owns r = 1 \<Longrightarrow> ss_inflight s' = [] \<and> sl_lost st' = 0 \<and> \<not> pc_firm p' \<and> \<not> ot_firm r"
      using D(3) own by blast
    show "pc_sends p' + ot_sends r + count_list (ss_inflight s') Send_io \<le> 1 \<and>
        (0 < pc_sends p' + ot_sends r + count_list (ss_inflight s') Send_io \<longrightarrow> ss_sendFlag s' = 1)"
      by (rule snd) (use D(5) in simp_all)
    show "pc_recvs p' + ot_recvs r + count_list (ss_inflight s') Recv_io \<le> 1" by (rule rcv [OF D(6)])
  qed (rule D * | assumption)+
qed

text \<open>What the steps leave alone.\<close>

lemma slot_of_more:
  assumes "pheap.more st' = pheap.more (st :: slot)"
  shows "sl_session st' = sl_session st" "sl_index st' = sl_index st" "sl_free st' = sl_free st" "sl_given st' = sl_given st"
    "sl_gone st' = sl_gone st" "sl_lost st' = sl_lost st"
  using assms by (cases st, cases st', simp)+

end
