(* ===== verification/Session_Exclusive.thy ===== *)
theory Session_Exclusive
  imports Session_Weights
begin

text \<open>
  Every access of every thread keeps the invariant of \<open>Session_Weights\<close>, so it holds in all runs of \<open>Session_Threads\<close>. What it gives: at
  most one thread at a time takes packets out of the queue, one works on the receive buffer, one deletes; a session that was
  found stays what it is until the reference is given back; the application hears of every connection's end once.
\<close>

section \<open>The accesses\<close>

lemma ser_inc_keeps: "ser_inc h p n = Some x \<Longrightarrow> pheap.more (fst x) = pheap.more h"
  by (auto simp: ser_inc_def ser_call_def ser_put_def split: bind_splits prod.splits)

lemma slot_log [simp]:
  "sl_session (os_log st c) = sl_session st" "sl_index (os_log st c) = sl_index st" "sl_free (os_log st c) = sl_free st"
  "sl_given (os_log st c) = sl_given st" "sl_gone (os_log st c) = sl_gone st" "sl_lost (os_log st c) = sl_lost st"
  by (simp_all add: os_log_def)

text \<open>The test of the flag that \<open>findSession\<close> makes on the new counter.\<close>

lemma find_flag:
  assumes ok: "slot_ok (add_pc p r) st" and b: "refs_of (add_pc p r) st + 1 < 2 ^ 31" and e: "\<not> pc_early p"
  shows "(ss_IOcount (sl_session st) + 1) AND 0x80000000 \<noteq> 0 \<longleftrightarrow> sl_free st + pc_owns p + ot_owns r = 1"
proof -
  note D = slot_okD [OF ok]
  let ?own = "sl_free st + pc_owns p + ot_owns r"
  have g: "sl_given st \<noteq> []" using D(4) e by blast
  have "ss_IOcount (sl_session st) + 1 = of_nat (refs_of (add_pc p r) st + 1) + (if ?own = 0 then 0 else 0x80000000)"
    using D(2) g by (simp add: add_pc_def)
  then have "(ss_IOcount (sl_session st) + 1) AND 0x80000000 \<noteq> 0 \<longleftrightarrow> ?own \<noteq> 0"
    using count_flag(1) [OF b, of "?own = 0"] by metis
  then show ?thesis using D(1) by linarith
qed

text \<open>Most accesses change nothing that the invariant speaks of.\<close>

definition slot_quiet :: "slot \<Rightarrow> slot \<Rightarrow> bool" where
  "slot_quiet st st' \<longleftrightarrow> ss_IOcount (sl_session st') = ss_IOcount (sl_session st) \<and>
     ss_inflight (sl_session st') = ss_inflight (sl_session st) \<and> ss_sendFlag (sl_session st') = ss_sendFlag (sl_session st) \<and>
     ss_ID (sl_session st') = ss_ID (sl_session st) \<and> sl_index st' = sl_index st \<and> sl_free st' = sl_free st \<and>
     sl_given st' = sl_given st \<and> sl_gone st' = sl_gone st \<and> sl_lost st' = sl_lost st"

lemma slot_ok_quiet:
  assumes ok: "slot_ok (add_pc p r) st" and q: "slot_quiet st st'"
    and "pc_refs p' = pc_refs p" "pc_owns p' = pc_owns p" "pc_vacant p' = pc_vacant p" "\<And>x. pc_gone x p' = pc_gone x p"
    "pc_firm p' \<Longrightarrow> pc_firm p" "pc_early p \<Longrightarrow> pc_early p'" "pc_sends p' \<le> pc_sends p" "pc_recvs p' \<le> pc_recvs p"
    "pc_knows p' \<subseteq> {ss_ID (sl_session st)}" "pc_names p' \<subseteq> pc_names p"
  shows "slot_ok (add_pc p' r) st'"
  by (rule slot_ok_step [OF ok]) (use assms(2-) in \<open>auto simp: slot_quiet_def\<close>)

lemma slot_quiet_refl [simp]: "slot_quiet st st"
  by (simp add: slot_quiet_def)

lemma quiet_more:
  assumes "pheap.more st' = pheap.more st"
  shows "slot_quiet st st'"
  by (simp add: slot_quiet_def slot_of_more [OF assms])

lemma quiet_buffers:
  assumes "pheap.more st1 = pheap.more st"
    and "s = (sl_session st)\<lparr>ss_sendBuffer := q, ss_sendedBuffer := d, ss_recvBuffer := b\<rparr>"
  shows "slot_quiet st (sl_put st1 s)"
  by (simp add: slot_quiet_def slot_of_more [OF assms(1)] assms(2))

lemma pc_request_ok:
  assumes ok: "slot_ok (add_pc p r) st" and st: "request_step p st = Some (st', p')"
    and b: "refs_of (add_pc p r) st + 1 < 2 ^ 31"
  shows "slot_ok (add_pc p' r) st'"
proof (cases p)
  case (Find_inc q sid)
  note F = find_flag [OF ok b]
  have g: "sl_given st \<noteq> []" using slot_okD(4) [OF ok] by (auto simp: Find_inc)
  have e: "st' = sl_put st ((sl_session st)\<lparr>ss_IOcount := ss_IOcount (sl_session st) + 1\<rparr>)"
    "p' = (if sl_free st + pc_owns p + ot_owns r = 1 then Release 0 else Find_id q sid)"
    using st F by (auto simp: Find_inc incrementIO_def Let_def)
  show ?thesis by (rule slot_ok_step [OF ok]) (use g in \<open>simp_all add: e Find_inc split: if_splits\<close>)
next
  case (Found q sid)
  have k: "ss_ID (sl_session st) = sid" using slot_okD(7) [OF ok] by (simp add: Found)
  show ?thesis
  proof (cases q)
    case (Send_packet x)
    have "slot_quiet st st'" "p' = Req_count x sid" using st by (auto simp: Found Send_packet dest!: ser_inc_keeps intro: quiet_more)
    then show ?thesis by (intro slot_ok_quiet [OF ok]) (simp_all add: Found k)
  next
    case Disconnect
    have "slot_quiet st st'" "p' = Release 0"
      using st by (auto simp: Found Disconnect cancelIORegist_def Let_def slot_quiet_def)
    then show ?thesis by (intro slot_ok_quiet [OF ok]) (simp_all add: Found)
  qed
next
  case (Find_id q sid)
  have "st' = st" "p' = (if ss_ID (sl_session st) \<noteq> sid then Release 0 else Found q sid)" using st by (auto simp: Find_id)
  then show ?thesis by (intro slot_ok_quiet [OF ok]) (simp_all add: Find_id)
next
  case (Req_count q sid)
  have k: "ss_ID (sl_session st) = sid" using slot_okD(7) [OF ok] by (simp add: Req_count)
  have e: "st' = sl_put st ((sl_session st)\<lparr>ss_IOcount := ss_IOcount (sl_session st) + 1\<rparr>)" "p' = Req_post q sid"
    using st by (simp_all add: Req_count incrementIO_def Let_def)
  show ?thesis by (rule slot_ok_step [OF ok]) (simp_all add: e Req_count k)
next
  case (Req_post q sid)
  have e: "\<exists>v. sl_session st' = (sl_session st)\<lparr>ss_inflight := Post_io v # ss_inflight (sl_session st)\<rparr>" "p' = Release 0"
    "sl_index st' = sl_index st" "sl_free st' = sl_free st" "sl_given st' = sl_given st" "sl_gone st' = sl_gone st" "sl_lost st' = sl_lost st"
    using st by (auto simp: Req_post iocp_owe_def Let_def split: if_splits)
  then obtain v where v: "sl_session st' = (sl_session st)\<lparr>ss_inflight := Post_io v # ss_inflight (sl_session st)\<rparr>" by blast
  show ?thesis by (rule slot_ok_step [OF ok]) (simp_all add: e(2-) v Req_post)
qed (use st in simp_all)

text \<open>While a thread has the slot to itself, no other has a firm reference or is the sender or the receiver.\<close>

lemma owner_alone:
  assumes ok: "slot_ok (add_pc p r) st" and r: "weighed r" and o: "0 < pc_owns p"
  shows "sl_free st = 0" "ot_owns r = 0" "\<not> pc_firm p" "\<not> ot_firm r" "ot_sends r = 0" "ot_recvs r = 0" "ot_vacant r = 0"
    "ot_knows r = {}" "ss_inflight (sl_session st) = []" "sl_lost st = 0" "pc_owns p = 1"
proof -
  note D = slot_okD [OF ok]
  show a: "sl_free st = 0" "ot_owns r = 0" and o1: "pc_owns p = 1" using D(1) o by simp_all
  have "sl_free st + pc_owns p + ot_owns r = 1" using a o1 by simp
  then show b: "\<not> pc_firm p" "\<not> ot_firm r" "ss_inflight (sl_session st) = []" "sl_lost st = 0" using D(3) by blast+
  show "ot_sends r = 0" "ot_recvs r = 0" "ot_vacant r = 0" "ot_knows r = {}" using r a b by (auto simp: weighed_def)
qed

text \<open>Only a counter without references and without the flag can be taken to the flag.\<close>

lemma cas_alone:
  assumes ok: "slot_ok (add_pc p r) st" and b: "refs_of (add_pc p r) st < 2 ^ 31"
    and z: "ss_IOcount (sl_session st) = 0" "\<not> pc_early p"
  shows "pc_refs p = 0" "ot_refs r = 0" "ss_inflight (sl_session st) = []" "sl_lost st = 0" "sl_free st = 0" "pc_owns p = 0"
    "ot_owns r = 0" "sl_given st \<noteq> []"
proof -
  note D = slot_okD [OF ok]
  let ?own = "sl_free st + pc_owns p + ot_owns r"
  show g: "sl_given st \<noteq> []" using D(4) z(2) by blast
  have "of_nat (refs_of (add_pc p r) st) + (if ?own = 0 then 0 else 0x80000000 :: u32) = 0"
    using D(2) g z(1) by (simp add: add_pc_def)
  then have "refs_of (add_pc p r) st = 0 \<and> ?own = 0" using count_flag(2) [OF b, of "?own = 0"] by metis
  then show "pc_refs p = 0" "ot_refs r = 0" "ss_inflight (sl_session st) = []" "sl_lost st = 0" "sl_free st = 0" "pc_owns p = 0"
    "ot_owns r = 0"
    by (simp_all add: add_pc_def)
qed

lemma step_return:
  assumes ok: "slot_ok (add_pc p r) st" and q: "slot_quiet st st'"
    and "pc_refs p = n" "pc_owns p = 0" "pc_vacant p = 0" "\<And>x. pc_gone x p = 0" "pc_firm p = (0 < n)" "\<not> pc_early p"
  shows "slot_ok (add_pc (slot_return n) r) st'"
  by (rule slot_ok_quiet [OF ok q]) (use assms(3-) in \<open>cases n; simp\<close>)+

lemma pc_release_ok:
  assumes ok: "slot_ok (add_pc p r) st" and w: "weighed r" and st: "release_step p st = Some (st', p')"
    and b: "refs_of (add_pc p r) st < 2 ^ 31"
  shows "slot_ok (add_pc p' r) st'"
proof (cases p)
  case (Release n)
  have e: "st' = sl_put st ((sl_session st)\<lparr>ss_IOcount := ss_IOcount (sl_session st) - 1\<rparr>)" "p' = Del_cas n \<or> p' = slot_return n"
    using st by (auto simp: Release decrementIO_def Let_def)
  show ?thesis by (rule slot_ok_step [OF ok]) (use e(2) in \<open>cases n; auto simp: e(1) Release\<close>)+
next
  case (Del_cas n)
  show ?thesis
  proof (cases "ss_IOcount (sl_session st) = 0")
    case False
    then have "slot_quiet st st'" "p' = slot_return n" using st by (auto simp: Del_cas cas_def Let_def slot_quiet_def)
    then show ?thesis using step_return [OF ok] by (simp add: Del_cas)
  next
    case True
    note Z = cas_alone [OF ok b True]
    have z: "n = 0" "ot_refs r = 0" "ss_inflight (sl_session st) = []" "sl_lost st = 0" "sl_free st = 0" "ot_owns r = 0" "sl_given st \<noteq> []"
      using Z by (simp_all add: Del_cas)
    have r: "\<not> ot_firm r" "ot_sends r = 0" "ot_recvs r = 0" "ot_vacant r = 0" "ot_knows r = {}" using w z by (auto simp: weighed_def)
    have e: "st' = sl_put st ((sl_session st)\<lparr>ss_IOcount := 0x80000000\<rparr>)" "p' = Del_read 0"
      using st True by (auto simp: Del_cas cas_def Let_def z)
    show ?thesis
      by (rule slot_okI) (use slot_okD(9-12) [OF ok] z r in \<open>simp_all add: e Del_cas z\<close>)
  qed
next
  case (Del_read n)
  note A = owner_alone [OF ok w, unfolded Del_read, simplified]
  have e: "st' = st" "p' = Del_close (ss_ID (sl_session st)) (ss_socket (sl_session st)) 0"
    using st A by (auto simp: Del_read)
  show ?thesis
    by (rule slot_okI) (use slot_okD [OF ok] A in \<open>simp_all add: e Del_read\<close>)
next
  case (Del_close sid sock n)
  have "slot_quiet st st'" "p' = Del_clear sid n" using st by (auto simp: Del_close slot_quiet_def)
  then show ?thesis by (intro slot_ok_quiet [OF ok]) (simp_all add: Del_close)
next
  case (Del_clear sid n)
  obtain s st1 where c: "bufferClear (sl_session st) st = Some (s, st1)" "st' = sl_put st1 s" "p' = Del_push sid n"
    using st by (auto simp: Del_clear)
  then show ?thesis using quiet_buffers [OF bufferClear_frame [OF c(1)]] by (intro slot_ok_quiet [OF ok]) (simp_all add: Del_clear)
next
  case (Del_push sid n)
  note A = owner_alone [OF ok w, unfolded Del_push, simplified]
  have g: "GET_INDEX sid = sl_index st" using slot_okD(10) [OF ok] by (simp add: Del_push)
  have e: "st' = st\<lparr>sl_free := 1\<rparr>" "p' = Del_notify sid 0" using st A g by (simp_all add: Del_push)
  show ?thesis
    by (rule slot_okI) (use slot_okD [OF ok] A g in \<open>simp_all add: e Del_push\<close>)
next
  case (Del_notify sid n)
  have e: "st' = st\<lparr>sl_gone := sid # sl_gone st\<rparr>" "p' = slot_return n" using st by (simp_all add: Del_notify)
  show ?thesis
    by (rule slot_okI) (use slot_okD [OF ok] in \<open>cases n; simp add: e Del_notify\<close>)+
qed (use st in simp_all)

lemma pc_accept_ok:
  assumes ok: "slot_ok (add_pc p r) st" and w: "weighed r" and st: "accept_pc_step p st = Some (st', p')"
    and b: "refs_of (add_pc p r) st < 2 ^ 31"
  shows "slot_ok (add_pc p' r) st'"
proof (cases p)
  case (Acc_id sid sock port ip)
  note A = owner_alone [OF ok w, unfolded Acc_id, simplified]
  have e: "st' = sl_put st ((sl_session st)\<lparr>ss_ID := sid\<rparr>)" "p' = Acc_socket sid sock port ip" using st by (simp_all add: Acc_id)
  show ?thesis
    by (rule slot_okI) (use slot_okD [OF ok] A in \<open>simp_all add: e Acc_id\<close>)
next
  case (Acc_socket sid sock port ip)
  have "slot_quiet st st'" "p' = Acc_address sid port ip" using st by (auto simp: Acc_socket slot_quiet_def)
  then show ?thesis using slot_okD(7) [OF ok] by (intro slot_ok_quiet [OF ok]) (simp_all add: Acc_socket)
next
  case (Acc_address sid port ip)
  have "slot_quiet st st'" "p' = Acc_inc sid" using st by (auto simp: Acc_address slot_quiet_def)
  then show ?thesis using slot_okD(7) [OF ok] by (intro slot_ok_quiet [OF ok]) (simp_all add: Acc_address)
next
  case (Acc_inc sid)
  have e: "st' = sl_put st ((sl_session st)\<lparr>ss_IOcount := ss_IOcount (sl_session st) + 1\<rparr>)" "p' = Acc_flag sid"
    using st by (simp_all add: Acc_inc incrementIO_def Let_def)
  show ?thesis
    by (rule slot_ok_step [OF ok]) (use slot_okD(7) [OF ok] in \<open>simp_all add: e Acc_inc\<close>)
next
  case (Acc_flag sid)
  note A = owner_alone [OF ok w, unfolded Acc_flag, simplified]
  have e: "st' = sl_put st ((sl_session st)\<lparr>ss_sendFlag := 0\<rparr>)" "p' = Acc_cancel sid" using st by (simp_all add: Acc_flag)
  show ?thesis
    by (rule slot_ok_step [OF ok]) (use slot_okD(7) [OF ok] A in \<open>simp_all add: e Acc_flag\<close>)
next
  case (Acc_cancel sid)
  have "slot_quiet st st'" "p' = Acc_and sid" using st by (auto simp: Acc_cancel slot_quiet_def)
  then show ?thesis using slot_okD(7) [OF ok] by (intro slot_ok_quiet [OF ok]) (simp_all add: Acc_cancel)
next
  case (Acc_and sid)
  note D = slot_okD [OF ok]
  note A = owner_alone [OF ok w, unfolded Acc_and, simplified]
  let ?s = "sl_session st"
  have e: "st' = sl_put st (?s\<lparr>ss_IOcount := ss_IOcount ?s AND 0x7fffffff\<rparr>)" "p' = Acc_connect sid"
    using st by (simp_all add: Acc_and Let_def)
  have "ss_IOcount ?s = of_nat (refs_of (add_pc p r) st) + (if sl_given st = [] then 0 else 0x80000000)"
    using D(2) by (simp add: add_pc_def Acc_and)
  then have c: "ss_IOcount ?s AND 0x7fffffff = of_nat (refs_of (add_pc p r) st)"
    using count_flag(3) [OF b, of "sl_given st = []"] by metis
  show ?thesis
    by (rule slot_okI) (use D A c in \<open>simp_all add: e Acc_and add_pc_def\<close>)
next
  case (Acc_connect sid)
  note D = slot_okD [OF ok]
  have e: "st' = st\<lparr>sl_given := sid # sl_given st\<rparr>" "p' = Recv_test" using st by (simp_all add: Acc_connect)
  have "sl_free st + ot_owns r \<noteq> 1" using D(3) by (auto simp: Acc_connect)
  then have f: "sl_free st = 0" "ot_owns r = 0" using D(1) by (simp_all add: Acc_connect)
  moreover have "ot_recvs r = 0" using D(6) by (simp add: Acc_connect)
  ultimately have v: "ot_vacant r = 0" using w by (simp add: weighed_def)
  show ?thesis
    by (rule slot_okI) (use D f v in \<open>simp_all add: e Acc_connect\<close>)
qed (use st in simp_all)

lemma collect_quiet:
  assumes "collectSendPacket (sl_session st) q = Some (s, ok)"
  shows "slot_quiet st (sl_put st s)"
  using assms by (auto simp: collectSendPacket_def slot_quiet_def split: bind_splits)

lemma os_io_more: "os_io w c = Some (w', a) \<Longrightarrow> os.more w' = os.more w"
  by (auto simp: os_io_def os_log_def split: list.splits)

lemma slot_os_more:
  assumes "os.more st' = os.more (st :: slot)"
  shows "sl_session st' = sl_session st" "slot_quiet st st'"
  using assms by (cases st, cases st', simp add: slot_quiet_def)+

text \<open>An operation is handed to the kernel, which then holds the reference that was taken for it.\<close>

lemma step_owe:
  assumes ok: "slot_ok (add_pc p r) st" and o: "iocp_owe (sl_session st) op = Some s" and q: "slot_quiet st st1"
    and w: "pc_refs p = Suc (pc_refs p')" "pc_owns p = 0" "pc_owns p' = 0" "pc_vacant p = 0" "pc_vacant p' = 0" "\<And>x. pc_gone x p' = pc_gone x p"
      "pc_firm p" "\<not> pc_early p" "pc_knows p' = {}" "pc_names p' = {}"
    and s: "pc_sends p' + of_bool (op = Send_io) \<le> pc_sends p" "pc_recvs p' + of_bool (op = Recv_io) \<le> pc_recvs p"
  shows "slot_ok (add_pc p' r) (sl_put st1 s)"
proof -
  have e: "s = (sl_session st)\<lparr>ss_inflight := op # ss_inflight (sl_session st)\<rparr>"
    using o by (auto simp: iocp_owe_def split: if_splits)
  show ?thesis
    by (rule slot_ok_step [OF ok]) (use q w s in \<open>auto simp: e slot_quiet_def split: if_splits\<close>)
qed

lemma sended_quiet:
  assumes "sended (sl_session st) st t = Some (s, st1, t', n)"
  shows "slot_quiet st (sl_put st1 s)"
proof (rule quiet_buffers [OF sended_frame(1) [OF assms]])
  show "s = (sl_session st)\<lparr>ss_sendBuffer := ss_sendBuffer (sl_session st), ss_sendedBuffer := ss_sendedBuffer s,
      ss_recvBuffer := ss_recvBuffer (sl_session st)\<rparr>"
    by (subst sended_frame(2) [OF assms]) simp
qed

text \<open>A worker goes on without giving its reference back.\<close>

lemma step_lose:
  assumes ok: "slot_ok (add_pc p r) st" and q: "slot_quiet st st1"
    and w: "pc_refs p = 1" "pc_owns p = 0" "pc_vacant p = 0" "\<And>x. pc_gone x p = 0" "pc_firm p" "\<not> pc_early p"
  shows "slot_ok (add_pc Slot_idle r) (st1\<lparr>sl_lost := sl_lost st1 + 1\<rparr>)"
  by (rule slot_ok_step [OF ok]) (use q w in \<open>auto simp: slot_quiet_def\<close>)

lemma quiet_heap_session:
  assumes "pheap.more st1 = pheap.more st" "slot_quiet st (sl_put st s)"
  shows "slot_quiet st (sl_put st1 s)"
  using assms(2) by (simp add: slot_quiet_def slot_of_more [OF assms(1)])

lemma pc_send_ok:
  assumes ok: "slot_ok (add_pc p r) st" and st: "send_step p st = Some (st', p')"
  shows "slot_ok (add_pc p' r) st'"
proof (cases p)
  case (Post_push x)
  obtain s b where c: "collectSendPacket (sl_session st) x = Some (s, b)" "st' = sl_put st s" "p' = (if b then Send_test else Post_drop x)"
    using st by (auto simp: Post_push)
  then show ?thesis using collect_quiet [OF c(1)] by (intro slot_ok_quiet [OF ok]) (simp_all add: Post_push)
next
  case (Post_drop x)
  have "slot_quiet st st'" "p' = Release 0" using st by (auto simp: Post_drop dest!: ser_release_more intro: quiet_more)
  then show ?thesis by (intro slot_ok_quiet [OF ok]) (simp_all add: Post_drop)
next
  case Send_test
  have "st' = st" "p' = Release 0 \<or> p' = Send_flag" using st by (auto simp: Send_test split: if_splits)
  then show ?thesis by (intro slot_ok_quiet [OF ok]) (auto simp: Send_test)
next
  case Send_flag
  have e: "st' = sl_put st ((sl_session st)\<lparr>ss_sendFlag := 1\<rparr>)" "p' = (if ss_sendFlag (sl_session st) = 1 then Release 0 else Send_size)"
    using st by (auto simp: Send_flag Let_def)
  show ?thesis
    by (rule slot_ok_step [OF ok]) (auto simp: e Send_flag split: if_splits)
next
  case Send_size
  have "st' = st" "p' = Send_reset \<or> (\<exists>m. p' = Send_inc m)" using st by (auto simp: Send_size Let_def split: if_splits)
  then show ?thesis by (intro slot_ok_quiet [OF ok]) (auto simp: Send_size)
next
  case Send_reset
  have e: "st' = sl_put st ((sl_session st)\<lparr>ss_sendFlag := 0\<rparr>)" "p' = Release 0" using st by (simp_all add: Send_reset)
  show ?thesis
    by (rule slot_ok_step [OF ok]) (simp_all add: e Send_reset)
next
  case (Send_inc m)
  have e: "st' = sl_put st ((sl_session st)\<lparr>ss_IOcount := ss_IOcount (sl_session st) + 1\<rparr>)" "p' = Send_loop m 0 []"
    using st by (simp_all add: Send_inc incrementIO_def Let_def)
  show ?thesis
    by (rule slot_ok_step [OF ok]) (simp_all add: e Send_inc)
next
  case (Send_loop m i buffer)
  show ?thesis
  proof (cases "i < m")
    case True
    have "slot_quiet st st'" "\<exists>j b. p' = Send_loop m j b"
      using st True by (auto simp: Send_loop Let_def slot_quiet_def split: bind_splits option.splits if_splits)
    then show ?thesis by (intro slot_ok_quiet [OF ok]) (auto simp: Send_loop)
  next
    case False
    obtain st1 ret where o: "os_io st (WSASend (ss_socket (sl_session st)) buffer) = Some (st1, ret)"
      using st False by (auto simp: Send_loop Let_def split: bind_splits)
    note q = slot_os_more [OF os_io_more [OF o]]
    show ?thesis
    proof (cases "ret \<noteq> 0 \<and> ret \<noteq> WSA_IO_PENDING")
      case True
      then have "st' = st1" "p' = Send_fail_flag \<or> p' = Send_fail" using st False o by (auto simp: Send_loop Let_def)
      then show ?thesis using q by (intro slot_ok_quiet [OF ok]) (auto simp: Send_loop)
    next
      case owed: False
      then obtain s where s: "iocp_owe (sl_session st) Send_io = Some s" "st' = sl_put st1 s" "p' = Send_check \<or> p' = Release 0"
        using st False o by (auto simp: Send_loop Let_def split: if_splits)
      then show ?thesis unfolding s(2) by (intro step_owe [OF ok s(1) q(2)]) (auto simp: Send_loop)
    qed
  qed
next
  case Send_check
  have "slot_quiet st st'" "p' = Release 0" using st by (auto simp: Send_check Let_def slot_quiet_def)
  then show ?thesis by (intro slot_ok_quiet [OF ok]) (simp_all add: Send_check)
next
  case Send_fail_flag
  have e: "st' = sl_put st ((sl_session st)\<lparr>ss_sendFlag := 0\<rparr>)" "p' = Send_fail" using st by (simp_all add: Send_fail_flag)
  show ?thesis
    by (rule slot_ok_step [OF ok]) (simp_all add: e Send_fail_flag)
next
  case Send_fail
  have "slot_quiet st st'" "p' = Release 1" using st by (auto simp: Send_fail Let_def cancelIORegist_def slot_quiet_def)
  then show ?thesis by (intro slot_ok_quiet [OF ok]) (simp_all add: Send_fail)
next
  case (Sent_packets transfer)
  obtain s st1 t' n where c: "sended (sl_session st) st transfer = Some (s, st1, t', n)"
    "(st', p') = (if n \<noteq> -1 then (sl_put st1 s, Sent_flag) else ((sl_put st1 s)\<lparr>sl_lost := sl_lost st1 + 1\<rparr>, Slot_idle))"
    using st by (auto simp: Sent_packets)
  note q = sended_quiet [OF c(1)]
  show ?thesis
  proof (cases "n = -1")
    case True
    have "st' = (sl_put st1 s)\<lparr>sl_lost := sl_lost (sl_put st1 s) + 1\<rparr>" "p' = Slot_idle" using c(2) True by simp_all
    then show ?thesis using step_lose [OF ok q] by (simp add: Sent_packets)
  next
    case False
    then show ?thesis using c(2) q by (intro slot_ok_quiet [OF ok]) (simp_all add: Sent_packets)
  qed
next
  case Sent_flag
  have e: "st' = sl_put st ((sl_session st)\<lparr>ss_sendFlag := 0\<rparr>)" "p' = Sent_size" using st by (simp_all add: Sent_flag)
  show ?thesis
    by (rule slot_ok_step [OF ok]) (simp_all add: e Sent_flag)
next
  case Sent_size
  have "st' = st" "p' = Send_test \<or> p' = Release 0" using st by (auto simp: Sent_size split: if_splits)
  then show ?thesis by (intro slot_ok_quiet [OF ok]) (auto simp: Sent_size)
qed (use st in simp_all)

lemma ser_call_keeps: "ser_call h p f = Some x \<Longrightarrow> pheap.more (fst x) = pheap.more h"
  by (auto simp: ser_call_def ser_put_def split: bind_splits prod.splits)

lemma serializerAlloc_keeps: "serializerAlloc h = Some x \<Longrightarrow> pheap.more (fst x) = pheap.more h"
  by (auto simp: serializerAlloc_def pool_Alloc_def Let_def split: bind_splits list.splits dest!: ser_call_keeps)

lemma frame_take_quiet:
  assumes "recv_step Frame_take st = Some (st', p')"
  shows "slot_quiet st st'" "p' = Recv_test \<or> (\<exists>x. p' = Frame_end x)"
proof -
  obtain st1 q st2 y st3 z s st4 ok where c: "serializerAlloc st = Some (st1, q)" "ser_inc st1 q 1 = Some (st2, y)"
      "ser_call st2 q (\<lambda>s. Some (sz_begin s, ())) = Some (st3, z)" "recvedPacket (sl_session st3) st3 q = Some (s, st4, ok)"
    and d: "(ok \<and> st' = sl_put st4 s \<and> p' = Frame_end q) \<or>
      (\<not> ok \<and> p' = Recv_test \<and> ser_release (sl_put st4 s) q = Some st')"
    using assms by (auto split: bind_splits if_splits)
  have m3: "pheap.more st3 = pheap.more st"
    using serializerAlloc_keeps [OF c(1)] ser_inc_keeps [OF c(2)] ser_call_keeps [OF c(3)] by simp
  have s: "s = (sl_session st)\<lparr>ss_sendBuffer := ss_sendBuffer (sl_session st), ss_sendedBuffer := ss_sendedBuffer (sl_session st),
      ss_recvBuffer := ss_recvBuffer s\<rparr>"
    by (subst recvedPacket_frame_session(2) [OF c(4)]) (simp add: slot_of_more [OF m3])
  have q: "slot_quiet st (sl_put st4 s)"
    by (rule quiet_buffers [OF _ s]) (use recvedPacket_frame_session(1) [OF c(4)] m3 in simp)
  show "slot_quiet st st'"
  proof (cases ok)
    case False
    then have "pheap.more st' = pheap.more (sl_put st4 s)" using d ser_release_more by blast
    from quiet_more [OF this] q show ?thesis by (simp add: slot_quiet_def)
  qed (use d q in simp)
  show "p' = Recv_test \<or> (\<exists>x. p' = Frame_end x)" using d by blast
qed

lemma pc_recv_ok:
  assumes ok: "slot_ok (add_pc p r) st" and st: "recv_step p st = Some (st', p')"
  shows "slot_ok (add_pc p' r) st'"
proof (cases p)
  case (Recved transfer)
  obtain s b where c: "recved (sl_session st) transfer = (s, b)" by (cases "recved (sl_session st) transfer")
  have q: "slot_quiet st (sl_put st s)" using c by (auto simp: recved_def slot_quiet_def split: if_splits)
  show ?thesis
  proof (cases b)
    case False
    then have "st' = (sl_put st s)\<lparr>sl_lost := sl_lost (sl_put st s) + 1\<rparr>" "p' = Slot_idle" using st c by (simp_all add: Recved)
    then show ?thesis using step_lose [OF ok q] by (simp add: Recved)
  next
    case True
    then have "st' = sl_put st s" "p' = Frame_take" using st c by (simp_all add: Recved)
    then show ?thesis using q by (intro slot_ok_quiet [OF ok]) (simp_all add: Recved)
  qed
next
  case Frame_take
  show ?thesis
    using frame_take_quiet [OF st [unfolded Frame_take]] by (intro slot_ok_quiet [OF ok]) (auto simp: Frame_take)
next
  case (Frame_end x)
  have "slot_quiet st st'" "p' = Frame_take" using st by (auto simp: Frame_end dest!: ser_release_more intro: quiet_more)
  then show ?thesis by (intro slot_ok_quiet [OF ok]) (simp_all add: Frame_end)
next
  case Recv_test
  have "st' = st" "p' = Release 0 \<or> p' = Recv_inc" using st by (auto simp: Recv_test split: if_splits)
  then show ?thesis by (intro slot_ok_quiet [OF ok]) (auto simp: Recv_test)
next
  case Recv_inc
  have e: "st' = sl_put st ((sl_session st)\<lparr>ss_IOcount := ss_IOcount (sl_session st) + 1\<rparr>)" "p' = Recv_call"
    using st by (simp_all add: Recv_inc incrementIO_def Let_def)
  show ?thesis
    by (rule slot_ok_step [OF ok]) (simp_all add: e Recv_inc)
next
  case Recv_call
  obtain st1 ret where o: "os_io st (WSARecv (ss_socket (sl_session st)) (recvIO_buffers (ss_recvBuffer (sl_session st)))) = Some (st1, ret)"
    using st by (auto simp: Recv_call Let_def split: bind_splits)
  note q = slot_os_more [OF os_io_more [OF o]]
  show ?thesis
  proof (cases "ret \<noteq> 0 \<and> ret \<noteq> WSA_IO_PENDING")
    case True
    then have "st' = st1" "p' = Recv_fail" using st o by (auto simp: Recv_call Let_def)
    then show ?thesis using q by (intro slot_ok_quiet [OF ok]) (auto simp: Recv_call)
  next
    case False
    then obtain s where s: "iocp_owe (sl_session st) Recv_io = Some s" "st' = sl_put st1 s" "p' = Recv_check \<or> p' = Release 0"
      using st o by (auto simp: Recv_call Let_def split: if_splits)
    then show ?thesis unfolding s(2) by (intro step_owe [OF ok s(1) q(2)]) (auto simp: Recv_call)
  qed
next
  case Recv_check
  have "slot_quiet st st'" "p' = Release 0" using st by (auto simp: Recv_check Let_def slot_quiet_def)
  then show ?thesis by (intro slot_ok_quiet [OF ok]) (simp_all add: Recv_check)
next
  case Recv_fail
  have "slot_quiet st st'" "p' = Release 1" using st by (auto simp: Recv_fail Let_def cancelIORegist_def slot_quiet_def)
  then show ?thesis by (intro slot_ok_quiet [OF ok]) (simp_all add: Recv_fail)
qed (use st in simp_all)

section \<open>The runs\<close>

lemma slot_step_ok:
  assumes "slot_ok (add_pc p r) st" "weighed r" "slot_step p st = Some (st', p')" "refs_of (add_pc p r) st + 1 < 2 ^ 31"
  shows "slot_ok (add_pc p' r) st'"
proof -
  have b: "refs_of (add_pc p r) st < 2 ^ 31" using assms(4) by linarith
  have "request_step p st = Some (st', p') \<or> release_step p st = Some (st', p') \<or> accept_pc_step p st = Some (st', p') \<or>
      send_step p st = Some (st', p') \<or> recv_step p st = Some (st', p')"
    using assms(3) by (auto simp: slot_step_def split: option.splits)
  then show ?thesis
    using pc_request_ok [OF assms(1) _ assms(4)] pc_release_ok [OF assms(1,2) _ b] pc_accept_ok [OF assms(1,2) _ b]
      pc_send_ok [OF assms(1)] pc_recv_ok [OF assms(1)] by blast
qed

lemma count_list_remove1: "x \<in> set xs \<Longrightarrow> count_list (remove1 x xs) y = count_list xs y - of_bool (x = y)"
  by (induction xs) auto

lemma slot_begin_ok:
  assumes ok: "slot_ok (add_pc Slot_idle r) st" and w: "weighed r" and st: "slot_begin call st = Some (st', p')"
  shows "slot_ok (add_pc p' r) st'"
proof (cases call)
  case (Call_request q sid)
  have e: "st' = st" "p' = Find_inc q sid" "sl_given st \<noteq> []" using st by (auto simp: Call_request split: if_splits)
  show ?thesis by (rule slot_ok_step [OF ok]) (use e(3) in \<open>simp_all add: e(1,2)\<close>)
next
  case (Call_accept n sock port ip)
  note D = slot_okD [OF ok]
  let ?sid = "MAKE_SESSION_ID n (sl_index st)"
  have e: "st' = st\<lparr>sl_free := sl_free st - 1\<rparr>" "p' = Acc_id ?sid sock port ip" and f: "sl_free st = 1"
    using st D(1) by (auto simp: Call_accept split: if_splits)
  show ?thesis
    by (rule slot_okI) (use D f in \<open>simp_all add: e\<close>)
next
  case (Call_worker ok' transfer overlap data)
  let ?s = "sl_session st" and ?op = "completion_op (sl_session st) overlap"
  obtain s1 where m: "?op \<in> set (ss_inflight ?s)" and a: "recv_arrive ?s data = Some s1"
    and e: "st' = sl_put st (s1\<lparr>ss_inflight := remove1 ?op (ss_inflight ?s)\<rparr>)" "p' = worker_entry ok' transfer overlap ?s"
    using st by (auto simp: Call_worker Let_def split: if_splits)
  have s1: "ss_ID s1 = ss_ID ?s" "ss_IOcount s1 = ss_IOcount ?s" "ss_sendFlag s1 = ss_sendFlag ?s"
    using a by (auto simp: recv_arrive_def)
  have n: "Suc (length (remove1 ?op (ss_inflight ?s))) = length (ss_inflight ?s)"
    using m length_pos_if_in_set [OF m] by (simp add: length_remove1)
  then have n': "of_nat (length (ss_inflight ?s)) = (of_nat (length (remove1 ?op (ss_inflight ?s))) + 1 :: u32)"
    by (metis of_nat_Suc add.commute)
  have k: "count_list (remove1 ?op (ss_inflight ?s)) y + of_bool (?op = y) = count_list (ss_inflight ?s) y" for y
    using count_list_remove1 [OF m, of y] m count_list_0_iff [of "ss_inflight ?s" y] by (auto simp: of_bool_def)
  have p: "pc_refs p' = 1" "pc_owns p' = 0" "pc_vacant p' = 0" "pc_gone x p' = 0" "pc_knows p' = {}" "pc_names p' = {}"
    "pc_sends p' \<le> of_bool (?op = Send_io)" "pc_recvs p' \<le> of_bool (?op = Recv_io)" for x
    by (auto simp: e(2) worker_entry_def completion_op_def sendOverlappedCheck_def recvOverlappedCheck_def)
  have ne: "ss_inflight ?s \<noteq> []" using m by auto
  show ?thesis
  proof (rule slot_ok_step [OF ok])
    show "pc_sends p' + ot_sends r + count_list (ss_inflight (sl_session st')) Send_io \<le> 1 \<and>
        (0 < pc_sends p' + ot_sends r + count_list (ss_inflight (sl_session st')) Send_io \<longrightarrow> ss_sendFlag (sl_session st') = 1)"
      using slot_okD(5) [OF ok] k [of Send_io] p(7) by (simp add: e(1) s1)
    show "pc_recvs p' + ot_recvs r + count_list (ss_inflight (sl_session st')) Recv_io \<le> 1"
      using slot_okD(6) [OF ok] k [of Recv_io] p(8) by (simp add: e(1))
  qed (use p ne n' in \<open>simp_all add: e(1) s1\<close>)
qed

lemma others_thread:
  assumes "t < N"
  shows "others_of {..<N} c = add_pc (c t) (others_of ({..<N} - {t}) c)"
    "others_of {..<N} (c(t := p)) = add_pc p (others_of ({..<N} - {t}) c)"
proof -
  have "{..<N} = insert t ({..<N} - {t})" using assms by auto
  then show "others_of {..<N} c = add_pc (c t) (others_of ({..<N} - {t}) c)"
    "others_of {..<N} (c(t := p)) = add_pc p (others_of ({..<N} - {t}) c)"
    using others_insert [of "{..<N} - {t}" t c] others_insert [of "{..<N} - {t}" t "c(t := p)"]
      others_upd [of t "{..<N} - {t}" c p] by simp_all
qed

lemma slot_reach_inv:
  assumes "slot_reach N st0 st c"
  shows "slot_inv N st c \<and> slot_refs N st c + 1 < 2 ^ 31"
  using assms
proof (induction rule: slot_reach.induct)
  case slot_reach_start
  then show ?case using slot_fresh_ok [of st0 N] by (simp add: slot_refs_def slot_fresh_def)
next
  case (slot_reach_begin st c t call st' p)
  have "slot_ok (add_pc Slot_idle (others_of ({..<N} - {t}) c)) st"
    using slot_reach_begin.IH slot_reach_begin.hyps(2,3) others_thread(1) [of t N c] by (simp add: slot_inv_def)
  from slot_begin_ok [OF this weighed_others slot_reach_begin.hyps(4)] show ?case
    using slot_reach_begin.hyps(2,5) by (simp add: slot_inv_def others_thread(2) del: fun_upd_apply)
next
  case (slot_reach_access st c t st' p)
  have o: "slot_ok (add_pc (c t) (others_of ({..<N} - {t}) c)) st"
    using slot_reach_access.IH slot_reach_access.hyps(2) others_thread(1) [of t N c] by (simp add: slot_inv_def)
  have b: "refs_of (add_pc (c t) (others_of ({..<N} - {t}) c)) st + 1 < 2 ^ 31"
    using slot_reach_access.IH slot_reach_access.hyps(2) others_thread(1) [of t N c] by (simp add: slot_refs_others)
  from slot_step_ok [OF o weighed_others slot_reach_access.hyps(3) b] show ?case
    using slot_reach_access.hyps(2,4) by (simp add: slot_inv_def others_thread(2) del: fun_upd_apply)
next
  case (slot_reach_other st c st')
  then show ?case using slot_ok_same by (simp add: slot_inv_def slot_refs_def slot_same_def) blast
qed

section \<open>What it gives\<close>

text \<open>The thread has found the session and not given its reference back.\<close>

fun has_session :: "slot_pc \<Rightarrow> u64 \<Rightarrow> bool" where
  "has_session (Found r sid) x = (sid = x)"
| "has_session (Req_count p sid) x = (sid = x)"
| "has_session (Req_post p sid) x = (sid = x)"
| "has_session p x = False"

text \<open>The thread takes packets out of the queue.\<close>

fun pops_queue :: "slot_pc \<Rightarrow> bool" where
  "pops_queue (Send_loop m i buffer) = True"
| "pops_queue (Del_clear sid n) = True"
| "pops_queue p = False"

text \<open>The thread works on the receive buffer.\<close>

fun uses_ring :: "slot_pc \<Rightarrow> bool" where
  "uses_ring (Recved transfer) = True"
| "uses_ring Frame_take = True"
| "uses_ring Recv_call = True"
| "uses_ring (Del_clear sid n) = True"
| "uses_ring p = False"

text \<open>The thread is inside \<open>deleteSession\<close>, after the counter was taken to the flag and before the index goes back.\<close>

fun deletes :: "slot_pc \<Rightarrow> bool" where
  "deletes (Del_read n) = True"
| "deletes (Del_close sid sock n) = True"
| "deletes (Del_clear sid n) = True"
| "deletes (Del_push sid n) = True"
| "deletes p = False"

text \<open>Two threads, and the rest.\<close>

lemma two_threads:
  assumes "slot_reach N st0 st c" "t < N" "u < N" "t \<noteq> u"
  obtains r where "slot_ok (add_pc (c t) (add_pc (c u) r)) st" "weighed r"
proof
  let ?T = "{..<N} - {t} - {u}"
  have "{..<N} - {t} = insert u ?T" using assms by auto
  then have "others_of ({..<N} - {t}) c = add_pc (c u) (others_of ?T c)" using others_insert [of ?T u c] by simp
  then show "slot_ok (add_pc (c t) (add_pc (c u) (others_of ?T c))) st"
    using slot_reach_inv [OF assms(1)] others_thread(1) [OF assms(2), of c] by (simp add: slot_inv_def)
  show "weighed (others_of ?T c)" by (rule weighed_others) simp
qed

lemma one_thread:
  assumes "slot_reach N st0 st c" "t < N"
  obtains r where "slot_ok (add_pc (c t) r) st" "weighed r" "others_of {..<N} c = add_pc (c t) r"
proof
  note o = others_thread(1) [OF assms(2), of c]
  show "others_of {..<N} c = add_pc (c t) (others_of ({..<N} - {t}) c)" by (rule o)
  then show "slot_ok (add_pc (c t) (others_of ({..<N} - {t}) c)) st"
    using slot_reach_inv [OF assms(1)] by (simp add: slot_inv_def)
  show "weighed (others_of ({..<N} - {t}) c)" by (rule weighed_others) simp
qed

lemma pc_classes:
  "pops_queue p \<Longrightarrow> 0 < pc_owns p \<or> (pc_firm p \<and> 0 < pc_sends p)"
  "uses_ring p \<Longrightarrow> 0 < pc_owns p \<or> (pc_firm p \<and> 0 < pc_recvs p)"
  "deletes p \<Longrightarrow> 0 < pc_owns p" "has_session p x \<Longrightarrow> pc_firm p \<and> pc_owns p = 0 \<and> pc_knows p = {x}"
  by (cases p; simp)+

lemma slot_exclusive:
  assumes "slot_reach N st0 st c" "t < N" "u < N" "t \<noteq> u"
  shows "\<not> (pops_queue (c t) \<and> pops_queue (c u))" "\<not> (uses_ring (c t) \<and> uses_ring (c u))" "\<not> (deletes (c t) \<and> deletes (c u))"
    "\<not> (deletes (c t) \<and> (pops_queue (c u) \<or> uses_ring (c u) \<or> has_session (c u) x))"
proof -
  obtain r where r: "slot_ok (add_pc (c t) (add_pc (c u) r)) st" by (rule two_threads [OF assms])
  note D = slot_okD [OF r]
  have o: "pc_owns (c t) + pc_owns (c u) \<le> 1" using D(1) by (simp add: add_pc_def)
  have f: "\<not> (0 < pc_owns (c t) \<and> pc_firm (c u)) \<and> \<not> (0 < pc_owns (c u) \<and> pc_firm (c t))"
  proof -
    have "sl_free st + pc_owns (c t) + pc_owns (c u) + ot_owns r = 1 \<Longrightarrow> \<not> pc_firm (c t) \<and> \<not> pc_firm (c u)"
      using D(3) by (simp add: add_pc_def)
    then show ?thesis using D(1) by (auto simp: add_pc_def)
  qed
  have s: "pc_sends (c t) + pc_sends (c u) \<le> 1" using D(5) by (simp add: add_pc_def)
  have v: "pc_recvs (c t) + pc_recvs (c u) \<le> 1" using D(6) by (simp add: add_pc_def)
  note C = pc_classes [of "c t"] pc_classes [of "c u"]
  show "\<not> (pops_queue (c t) \<and> pops_queue (c u))" using C(1,5) o f s by fastforce
  show "\<not> (uses_ring (c t) \<and> uses_ring (c u))" using C(2,6) o f v by fastforce
  show "\<not> (deletes (c t) \<and> deletes (c u))" using C(3,7) o by fastforce
  show "\<not> (deletes (c t) \<and> (pops_queue (c u) \<or> uses_ring (c u) \<or> has_session (c u) x))"
    using C(3) pc_classes(1,2,4) [of "c u"] o f by fastforce
qed

lemma slot_found:
  assumes "slot_reach N st0 st c" "t < N" "has_session (c t) sid"
  shows "ss_ID (sl_session st) = sid" "ss_IOcount (sl_session st) AND 0x80000000 = 0" "sl_free st = 0"
    "0 < unat (ss_IOcount (sl_session st))"
proof -
  obtain r where r: "slot_ok (add_pc (c t) r) st" "others_of {..<N} c = add_pc (c t) r" by (rule one_thread [OF assms(1,2)])
  note D = slot_okD [OF r(1)]
  note C = pc_classes(4) [OF assms(3)]
  show "ss_ID (sl_session st) = sid" using D(7) C by simp
  have "sl_free st + pc_owns (c t) + ot_owns r \<noteq> 1" using D(3) C by blast
  then have own: "sl_free st + pc_owns (c t) + ot_owns r = 0" using D(1) by linarith
  then show "sl_free st = 0" by simp
  have b: "slot_refs N st c < 2 ^ 31" using slot_reach_inv [OF assms(1)] by linarith
  have n: "slot_refs N st c \<ge> 1"
  proof -
    have "pc_refs (c t) \<le> (\<Sum>t<N. pc_refs (c t))" using assms(2) by (intro member_le_sum) auto
    then show ?thesis using pc_weights(1) [of "c t"] C by (simp add: slot_refs_def)
  qed
  have "ss_IOcount (sl_session st) = of_nat (slot_refs N st c)"
    using D(2) own by (simp add: slot_refs_others r(2) add_pc_def)
  then have u: "unat (ss_IOcount (sl_session st)) = slot_refs N st c" using b by (simp add: unat_of_nat)
  then show "0 < unat (ss_IOcount (sl_session st))" using n by simp
  show "ss_IOcount (sl_session st) AND 0x80000000 = 0" by (rule no_flag) (use u b in simp)
qed

lemma slot_free_once:
  assumes "slot_reach N st0 st c"
  shows "sl_free st \<le> 1" "count_list (sl_gone st) x \<le> count_list (sl_given st) x"
  using slot_reach_inv [OF assms] by (auto simp: slot_inv_def slot_ok_def Let_def)

lemma slot_farewell:
  assumes "slot_reach N st0 st c" "\<And>t. t < N \<Longrightarrow> c t = Slot_idle" "sl_free st = 1"
  shows "count_list (sl_gone st) x = count_list (sl_given st) x"
proof -
  have "ot_gone (others_of {..<N} c) x = 0" using assms(2) by (simp add: others_of_def)
  then show ?thesis using slot_reach_inv [OF assms(1)] assms(3) by (simp add: slot_inv_def slot_ok_def Let_def)
qed

end
