(* ===== verification/Session_Alone.thy ===== *)
theory Session_Alone
  imports Session_Exclusive
begin

text \<open>
  Schedules of the threads on a slot, and what a thread does when no other makes an access: the steps of \<open>Session_Threads\<close> add up
  to the operations of \<open>Session\<close> and \<open>Network\<close>.
\<close>

section \<open>Schedules\<close>

datatype slot_move = Begin nat slot_call | Go nat

fun slot_run :: "slot_move list \<Rightarrow> slot \<Rightarrow> (nat \<Rightarrow> slot_pc) \<Rightarrow> (slot \<times> (nat \<Rightarrow> slot_pc)) option" where
  "slot_run [] st c = Some (st, c)"
| "slot_run (Begin t call # ms) st c =
     (if c t = Slot_idle then Option.bind (slot_begin call st) (\<lambda>(st', p). slot_run ms st' (c(t := p))) else None)"
| "slot_run (Go t # ms) st c = Option.bind (slot_step (c t) st) (\<lambda>(st', p). slot_run ms st' (c(t := p)))"

lemma slot_run_append: "slot_run (ms @ ns) st c = Option.bind (slot_run ms st c) (\<lambda>(st', c'). slot_run ns st' c')"
  by (induction ms st c rule: slot_run.induct) (simp_all del: fun_upd_apply split: bind_split)

text \<open>The same with the first \<open>N\<close> threads, as long as the references stay below the flag.\<close>

fun slot_try :: "nat \<Rightarrow> slot_move list \<Rightarrow> slot \<Rightarrow> (nat \<Rightarrow> slot_pc) \<Rightarrow> (slot \<times> (nat \<Rightarrow> slot_pc)) option" where
  "slot_try N [] st c = Some (st, c)"
| "slot_try N (Begin t call # ms) st c =
     (if t < N \<and> c t = Slot_idle
      then Option.bind (slot_begin call st) (\<lambda>(st', p).
             if slot_refs N st' (c(t := p)) + 1 < 2 ^ 31 then slot_try N ms st' (c(t := p)) else None)
      else None)"
| "slot_try N (Go t # ms) st c =
     (if t < N
      then Option.bind (slot_step (c t) st) (\<lambda>(st', p).
             if slot_refs N st' (c(t := p)) + 1 < 2 ^ 31 then slot_try N ms st' (c(t := p)) else None)
      else None)"

lemma slot_try_append: "slot_try N (ms @ ns) st c = Option.bind (slot_try N ms st c) (\<lambda>(st', c'). slot_try N ns st' c')"
  by (induction N ms st c rule: slot_try.induct) (simp_all del: fun_upd_apply split: bind_split)

lemma slot_try_reach:
  assumes "slot_reach N st0 st c" "slot_try N ms st c = Some (st', c')"
  shows "slot_reach N st0 st' c'"
  using assms
proof (induction N ms st c rule: slot_try.induct)
  case (2 N t call ms st c)
  then obtain st1 p where p: "t < N" "c t = Slot_idle" "slot_begin call st = Some (st1, p)"
      "slot_refs N st1 (c(t := p)) + 1 < 2 ^ 31" "slot_try N ms st1 (c(t := p)) = Some (st', c')"
    by (auto split: if_splits bind_splits simp del: fun_upd_apply)
  from 2(1) [OF _ p(3) refl p(4) slot_reach_begin [OF 2(2) p(1-4)] p(5)] p(1,2) show ?case by blast
next
  case (3 N t ms st c)
  then obtain st1 p where p: "t < N" "slot_step (c t) st = Some (st1, p)"
      "slot_refs N st1 (c(t := p)) + 1 < 2 ^ 31" "slot_try N ms st1 (c(t := p)) = Some (st', c')"
    by (auto split: if_splits bind_splits simp del: fun_upd_apply)
  from 3(1) [OF p(1,2) refl p(3) slot_reach_access [OF 3(2) p(1-3)] p(4)] show ?case .
qed simp

section \<open>One thread alone\<close>

fun thread_run :: "nat \<Rightarrow> slot \<Rightarrow> slot_pc \<Rightarrow> (slot \<times> slot_pc) option" where
  "thread_run 0 st p = Some (st, p)"
| "thread_run (Suc n) st p = Option.bind (slot_step p st) (\<lambda>(st', p'). thread_run n st' p')"

lemma thread_run_add: "thread_run (m + n) st p = Option.bind (thread_run m st p) (\<lambda>(st', p'). thread_run n st' p')"
  by (induction m st p rule: thread_run.induct) (simp_all split: bind_split)

lemma slot_run_alone:
  "thread_run n st (c t) = Some (st', p) \<Longrightarrow> slot_run (replicate n (Go t)) st c = Some (st', c(t := p))"
  by (induction n arbitrary: st c) (auto split: bind_splits)

text \<open>One more step in front.\<close>

definition reaches :: "slot \<times> slot_pc \<Rightarrow> slot \<times> slot_pc \<Rightarrow> bool" where
  "reaches a b \<longleftrightarrow> (\<exists>n. thread_run n (fst a) (snd a) = Some b)"

lemma reaches_refl [simp]: "reaches a a"
  unfolding reaches_def by (rule exI [of _ 0]) simp

lemma reachesI: "thread_run n st p = Some b \<Longrightarrow> reaches (st, p) b"
  unfolding reaches_def by auto

lemma reaches_step: "slot_step p st = Some a \<Longrightarrow> reaches a b \<Longrightarrow> reaches (st, p) b"
  unfolding reaches_def by (cases a) (auto intro: exI [of _ "Suc _"])

lemma reaches_trans: "reaches a b \<Longrightarrow> reaches b d \<Longrightarrow> reaches a d"
  unfolding reaches_def using thread_run_add by (metis Option.bind.bind_lunit case_prod_conv prod.collapse)

lemma gather_run:
  fixes st h :: slot
  assumes "sendIO_gather h m i (sl_session st) buf = Some (s', buf')" "ser_at st = ser_at h"
  shows "\<exists>j. \<not> j < m \<and> reaches (st, Send_loop m i buf) (sl_put st s', Send_loop m j buf')"
proof -
  have "\<forall>st1::slot. ser_at st1 = ser_at h \<longrightarrow> sl_session st1 = sl_session st \<longrightarrow>
      (\<exists>j. \<not> j < m \<and> reaches (st1, Send_loop m i buf) (sl_put st1 (fst (s', buf')), Send_loop m j (snd (s', buf'))))"
  proof (rule sendIO_gather.raw_induct [OF _ assms(1), where P = "\<lambda>h m i s b r. \<forall>st1::slot. ser_at st1 = ser_at h \<longrightarrow> sl_session st1 = s \<longrightarrow>
      (\<exists>j. \<not> j < m \<and> reaches (st1, Send_loop m i b) (sl_put st1 (fst r), Send_loop m j (snd r)))"])
    fix rec :: "slot \<Rightarrow> u64 \<Rightarrow> u64 \<Rightarrow> session \<Rightarrow> (u64 \<times> u32) list \<Rightarrow> (session \<times> (u64 \<times> u32) list) option"
    fix h m i s buffer r
    assume IH: "\<And>h m i s b r. rec h m i s b = Some r \<Longrightarrow> \<forall>st1::slot. ser_at st1 = ser_at h \<longrightarrow> sl_session st1 = s \<longrightarrow>
        (\<exists>j. \<not> j < m \<and> reaches (st1, Send_loop m i b) (sl_put st1 (fst r), Send_loop m j (snd r)))"
      and body: "(if i < m then
        Option.bind (lfq_pop (ss_sendBuffer s)) (\<lambda>r.
          let s1 = s\<lparr>ss_sendBuffer := fst r\<rparr> in
          if snd r = None then rec h m (i - 1 + 1) s1 buffer
          else if 100 \<le> i then None
          else Option.bind (snd r) (\<lambda>temp.
               Option.bind (ser_at h temp) (\<lambda>p.
               Option.bind (rb_push (ss_sendedBuffer s1) (le_bytes 8 temp) 8) (\<lambda>sd.
                 rec h m (i + 1) (s1\<lparr>ss_sendedBuffer := fst sd\<rparr>)
                   (buffer @ [(sz_getHeadPtr p, ucast (sz_size p))])))))
      else Some (s, buffer)) = Some r"
    show "\<forall>st1::slot. ser_at st1 = ser_at h \<longrightarrow> sl_session st1 = s \<longrightarrow>
        (\<exists>j. \<not> j < m \<and> reaches (st1, Send_loop m i buffer) (sl_put st1 (fst r), Send_loop m j (snd r)))"
    proof (intro allI impI)
      fix st1 :: slot
      assume h: "ser_at st1 = ser_at h" and s: "sl_session st1 = s"
      have hp: "ser_at (sl_put st1 x) = ser_at h" for x
        unfolding h [symmetric] by (simp add: ser_at_def fun_eq_iff)
      show "\<exists>j. \<not> j < m \<and> reaches (st1, Send_loop m i buffer) (sl_put st1 (fst r), Send_loop m j (snd r))"
      proof (cases "i < m")
        case False
        then have "sl_put st1 (fst r) = st1" "snd r = buffer" using body s by auto
        then show ?thesis using False by auto
      next
        case True
        obtain q x where q: "lfq_pop (ss_sendBuffer s) = Some (q, x)" using body True by (auto split: bind_splits)
        show ?thesis
        proof (cases x)
          case None
          let ?st2 = "sl_put st1 (s\<lparr>ss_sendBuffer := q\<rparr>)"
          have "rec h m (i - 1 + 1) (s\<lparr>ss_sendBuffer := q\<rparr>) buffer = Some r" using body True q None by (simp add: Let_def)
          from IH [OF this, rule_format, of ?st2] obtain j where j: "\<not> j < m" "reaches (?st2, Send_loop m (i - 1 + 1) buffer) (sl_put ?st2 (fst r), Send_loop m j (snd r))"
            using hp by auto
          have "slot_step (Send_loop m i buffer) st1 = Some (?st2, Send_loop m (i - 1 + 1) buffer)"
            using True q None s by (simp add: slot_step_def Let_def)
          from reaches_step [OF this j(2)] j(1) show ?thesis by auto
        next
          case (Some temp)
          obtain p sd n where p: "ser_at h temp = Some p" "rb_push (ss_sendedBuffer s) (le_bytes 8 temp) 8 = Some (sd, n)" "\<not> 100 \<le> i"
              "rec h m (i + 1) (s\<lparr>ss_sendBuffer := q, ss_sendedBuffer := sd\<rparr>) (buffer @ [(sz_getHeadPtr p, ucast (sz_size p))]) = Some r"
            using body True q Some by (auto simp: Let_def split: if_splits bind_splits)
          let ?st2 = "sl_put st1 (s\<lparr>ss_sendBuffer := q, ss_sendedBuffer := sd\<rparr>)" and ?b = "buffer @ [(sz_getHeadPtr p, ucast (sz_size p))]"
          from IH [OF p(4), rule_format, of ?st2] obtain j where j: "\<not> j < m" "reaches (?st2, Send_loop m (i + 1) ?b) (sl_put ?st2 (fst r), Send_loop m j (snd r))"
            using hp by auto
          have "slot_step (Send_loop m i buffer) st1 = Some (?st2, Send_loop m (i + 1) ?b)"
            using True q Some s p h by (simp add: slot_step_def Let_def)
          from reaches_step [OF this j(2)] j(1) show ?thesis by auto
        qed
      qed
    qed
  qed
  then show ?thesis using assms(2) by simp
qed

text \<open>\<open>sendIO\<close> and \<open>recvIO\<close>: the flag of their result says that the last reference went and \<open>deleteSession\<close> follows.\<close>

lemma send_alone:
  assumes "sendIO (sl_session st) st = Some (s', w', del)"
  shows "reaches (st, Send_test) (sl_put w' s', if del then Del_cas 1 else Release 0)"
proof -
  let ?s = "sl_session st"
  let ?sf = "?s\<lparr>ss_sendFlag := 1\<rparr>"
  let ?n = "scast (lfq_sizeFn (ss_sendBuffer ?s)) :: u64"
  consider (cancel) "hasCancelIOFlag ?s" | (busy) "\<not> hasCancelIOFlag ?s" "ss_sendFlag ?s = 1"
    | (empty) "\<not> hasCancelIOFlag ?s" "ss_sendFlag ?s \<noteq> 1" "?n = 0" | (send) "\<not> hasCancelIOFlag ?s" "ss_sendFlag ?s \<noteq> 1" "?n \<noteq> 0" by blast
  then show ?thesis
  proof cases
    case cancel
    then have "s' = ?s" "w' = st" "\<not> del" using assms sendIO_idle [of ?s st] by auto
    then show ?thesis using cancel by (intro reachesI [of 1]) (simp add: slot_step_def)
  next
    case busy
    then have "s' = ?s" "w' = st" "\<not> del" using assms sendIO_idle [of ?s st] by auto
    moreover have "?sf = ?s" using busy(2) by (cases ?s) simp
    ultimately have "s' = ?sf" "w' = st" "\<not> del" by simp_all
    then show ?thesis using busy by (intro reachesI [of 2]) (simp add: slot_step_def Let_def hasCancelIOFlag_def numeral_2_eq_2)
  next
    case empty
    then have "s' = ?s\<lparr>ss_sendFlag := 0\<rparr>" "w' = st" "\<not> del" 
      using assms unfolding sendIO_def Let_def by auto
    then show ?thesis using empty
      by (intro reachesI [of 4]) (simp add: slot_step_def Let_def hasCancelIOFlag_def eval_nat_numeral)
  next
    case send
    let ?st2 = "sl_put st (fst (incrementIO ?sf))"
    obtain s1 buffer w1 ret where g: "sendIO_gather st ?n 0 (fst (incrementIO ?sf)) [] = Some (s1, buffer)"
      and o: "os_io st (WSASend (ss_socket s1) buffer) = Some (w1, ret)"
      and k: "(if ret \<noteq> 0 \<and> ret \<noteq> WSA_IO_PENDING then
               let s2 = (if ret \<noteq> 10054 \<and> ret \<noteq> 10053 then s1\<lparr>ss_sendFlag := 0\<rparr> else s1);
                   s3 = fst (cancelIORegist s2);
                   w2 = os_log w1 (CancelIoEx (ss_socket s3) Recv_io);
                   (s4, c) = decrementIO s3
               in Some (s4, w2, c = 0)
             else do {
               s2 \<leftarrow> iocp_owe s1 Send_io;
               (if ret = WSA_IO_PENDING \<and> hasCancelIOFlag s2
                then Some (s2, os_log w1 (CancelIoEx (ss_socket s2) Send_io), False)
                else Some (s2, w1, False)) }) = Some (s', w', del)"
      using assms send by (auto simp: sendIO_def Let_def split: bind_splits)
    have h: "ser_at ?st2 = ser_at st" by (simp add: ser_at_def fun_eq_iff)
    have "sendIO_gather st ?n 0 (sl_session ?st2) [] = Some (s1, buffer)" using g by simp
    from gather_run [OF this h] obtain j where j: "\<not> j < ?n" "reaches (?st2, Send_loop ?n 0 []) (sl_put ?st2 s1, Send_loop ?n j buffer)"
      by blast
    have "reaches (st, Send_test) (?st2, Send_loop ?n 0 [])"
      using send by (intro reachesI [of 4]) (simp add: slot_step_def Let_def hasCancelIOFlag_def eval_nat_numeral)
    then have 1: "reaches (st, Send_test) (sl_put st s1, Send_loop ?n j buffer)"
      using reaches_trans [OF _ j(2)] by simp
    have o': "os_io (sl_put st s1) (WSASend (ss_socket s1) buffer) = Some (sl_put w1 s1, ret)"
      using o by (auto simp: os_io_def os_log_def split: list.splits)
    have 2: "reaches (sl_put st s1, Send_loop ?n j buffer) (sl_put w' s', if del then Del_cas 1 else Release 0)"
    proof (cases "ret \<noteq> 0 \<and> ret \<noteq> WSA_IO_PENDING")
      case True
      let ?s2 = "if ret \<noteq> 10054 \<and> ret \<noteq> 10053 then s1\<lparr>ss_sendFlag := 0\<rparr> else s1"
      have e: "slot_step (Send_loop ?n j buffer) (sl_put st s1) = Some (sl_put w1 s1, if ret \<noteq> 10054 \<and> ret \<noteq> 10053 then Send_fail_flag else Send_fail)"
        using j(1) o' True by (simp add: slot_step_def Let_def)
      have "reaches (sl_put w1 s1, if ret \<noteq> 10054 \<and> ret \<noteq> 10053 then Send_fail_flag else Send_fail) (sl_put w1 ?s2, Send_fail)"
      proof (cases "ret \<noteq> 10054 \<and> ret \<noteq> 10053")
        case True
        then show ?thesis by (auto intro!: reachesI [of 1] simp: slot_step_def)
      qed auto
      moreover have "reaches (sl_put w1 ?s2, Send_fail) (sl_put w' s', if del then Del_cas 1 else Release 0)"
        using k True
        by (intro reachesI [of 2]) (auto simp: slot_step_def Let_def cancelIORegist_def decrementIO_def os_log_def numeral_2_eq_2)
      ultimately show ?thesis using reaches_step [OF e] reaches_trans by blast
    next
      case False
      then obtain s2 where s2: "iocp_owe s1 Send_io = Some s2" and r: "s' = s2" "\<not> del"
        "w' = (if ret = WSA_IO_PENDING \<and> hasCancelIOFlag s2 then os_log w1 (CancelIoEx (ss_socket s2) Send_io) else w1)"
        using k by (auto split: bind_splits if_splits)
      have e: "slot_step (Send_loop ?n j buffer) (sl_put st s1) = Some (sl_put w1 s2, if ret = WSA_IO_PENDING then Send_check else Release 0)"
        using j(1) o' False s2 by (simp add: slot_step_def Let_def)
      have "reaches (sl_put w1 s2, if ret = WSA_IO_PENDING then Send_check else Release 0) (sl_put w' s', Release 0)"
      proof (cases "ret = WSA_IO_PENDING")
        case True
        then show ?thesis using r by (intro reachesI [of 1]) (auto simp: slot_step_def Let_def os_log_def)
      qed (use r in simp)
      from reaches_step [OF e this] r(2) show ?thesis by simp
    qed
    from reaches_trans [OF 1 2] show ?thesis .
  qed
qed

lemma recv_alone:
  assumes "recvIO (sl_session st) st = Some (s', w', del)"
  shows "reaches (st, Recv_test) (sl_put w' s', if del then Del_cas 1 else Release 0)"
proof (cases "hasCancelIOFlag (sl_session st)")
  case True
  then have "s' = sl_session st" "w' = st" "\<not> del" using assms recvIO_cancelled [OF True, of st] by auto
  then show ?thesis using True by (intro reachesI [of 1]) (simp add: slot_step_def)
next
  case False
  let ?s = "sl_session st" and ?buf = "recvIO_buffers (ss_recvBuffer (sl_session st))"
  let ?s1 = "fst (incrementIO ?s)"
  obtain w1 ret where o: "os_io st (WSARecv (ss_socket ?s) ?buf) = Some (w1, ret)"
    using assms False by (auto simp: recvIO_def Let_def incrementIO_def split: bind_splits)
  have o': "os_io (sl_put st s) (WSARecv (ss_socket ?s) ?buf) = Some (sl_put w1 s, ret)" for s
    using o by (auto simp: os_io_def os_log_def split: list.splits)
  have "reaches (st, Recv_test) (sl_put st ?s1, Recv_call)"
    using False by (intro reachesI [of 2]) (simp add: slot_step_def Let_def numeral_2_eq_2)
  moreover have "reaches (sl_put st ?s1, Recv_call) (sl_put w' s', if del then Del_cas 1 else Release 0)"
  proof (cases "ret \<noteq> 0 \<and> ret \<noteq> WSA_IO_PENDING")
    case True
    then show ?thesis using assms False o o' [of ?s1]
      by (intro reachesI [of 3])
         (auto simp: recvIO_def slot_step_def Let_def incrementIO_def cancelIORegist_def decrementIO_def os_log_def eval_nat_numeral)
  next
    case ok: False
    then obtain s2 where s2: "iocp_owe ?s1 Recv_io = Some s2" and r: "s' = s2" "\<not> del"
        "w' = (if ret = WSA_IO_PENDING \<and> hasCancelIOFlag s2 then os_log w1 (CancelIoEx (ss_socket s2) Recv_io) else w1)"
      using assms False o by (auto simp: recvIO_def Let_def incrementIO_def split: bind_splits if_splits)
    have e: "slot_step Recv_call (sl_put st ?s1) = Some (sl_put w1 s2, if ret = WSA_IO_PENDING then Recv_check else Release 0)"
      using o' [of ?s1] ok s2 by (simp add: slot_step_def Let_def incrementIO_def)
    have "reaches (sl_put w1 s2, if ret = WSA_IO_PENDING then Recv_check else Release 0) (sl_put w' s', Release 0)"
    proof (cases "ret = WSA_IO_PENDING")
      case True
      then show ?thesis using r by (intro reachesI [of 1]) (auto simp: slot_step_def Let_def os_log_def)
    qed (use r in simp)
    from reaches_step [OF e this] r(2) show ?thesis by simp
  qed
  ultimately show ?thesis by (rule reaches_trans)
qed

text \<open>The accept thread does \<open>session::init\<close> and announces the connection.\<close>

lemma accept_alone:
  "reaches (st, Acc_id sid sock port ip)
     ((sl_put st (session_init (sl_session st) sid sock port ip))\<lparr>sl_given := sid # sl_given st\<rparr>, Recv_test)"
  by (rule reachesI [of 8]) (simp add: eval_nat_numeral slot_step_def session_init_def incrementIO_def Let_def)

end
