(* ===== verification/Packet_Stranded.thy ===== *)
theory Packet_Stranded
  imports Session_Alone Completions
begin

text \<open>
  A schedule of two workers after which a packet stays in the queue of a connection although nothing is being sent and no
  thread is left that would send it: \<open>sendIO\<close> finds the queue empty while it holds \<open>sendFlag\<close>, another worker queues a packet and
  turns away because the flag is set, and then the first one resets the flag.
\<close>

section \<open>Putting schedules together\<close>

definition runs :: "slot \<times> (nat \<Rightarrow> slot_pc) \<Rightarrow> slot \<times> (nat \<Rightarrow> slot_pc) \<Rightarrow> bool" where
  "runs a b \<longleftrightarrow> (\<exists>ms. slot_run ms (fst a) (snd a) = Some b)"

lemma runs_trans: "runs a b \<Longrightarrow> runs b d \<Longrightarrow> runs a d"
  unfolding runs_def using slot_run_append by (metis Option.bind.bind_lunit case_prod_conv prod.collapse)

lemma runs_reaches: "reaches (st, c t) (st', p) \<Longrightarrow> runs (st, c) (st', c(t := p))"
  unfolding runs_def reaches_def using slot_run_alone by fastforce

lemma runs_steps: "thread_run n st (c t) = Some (st', p) \<Longrightarrow> runs (st, c) (st', c(t := p))"
  by (rule runs_reaches) (rule reachesI)

lemma runs_begin: "c t = Slot_idle \<Longrightarrow> slot_begin call st = Some (st', p) \<Longrightarrow> runs (st, c) (st', c(t := p))"
  unfolding runs_def by (rule exI [of _ "[Begin t call]"]) simp

section \<open>The pieces\<close>

lemma recv_arrive_nothing:
  assumes "rb_inv (ss_recvBuffer s)"
  shows "recv_arrive s [] = Some s"
proof -
  note I = assms [unfolded rb_inv_def]
  have "unat (rb_tail (ss_recvBuffer s)) = (unat (rb_tailPtr (ss_recvBuffer s)) + 1) mod unat (rb_bufferSize (ss_recvBuffer s))"
    using rb_tail_of_nat [OF assms, of "rb_tailPtr (ss_recvBuffer s)"] I by (simp add: rb_tail_def rb_tail_of_def)
  then have "unat (rb_tail (ss_recvBuffer s)) < unat (rb_bufferSize (ss_recvBuffer s))" using I by simp
  then show ?thesis using I by (simp add: recv_arrive_def rb_fill_def mem_write_def Let_def)
qed

lemma sendIO_overlapped:
  assumes "sendIO s w = Some (s', w', del)"
  shows "ss_sendOverlapped s' = ss_sendOverlapped s" "ss_recvOverlapped s' = ss_recvOverlapped s"
proof -
  have f: "ss_sendOverlapped s1 = ss_sendOverlapped s \<and> ss_recvOverlapped s1 = ss_recvOverlapped s"
    if "sendIO_gather w n 0 (fst (incrementIO (s\<lparr>ss_sendFlag := 1\<rparr>))) [] = Some (s1, b)" for n s1 b
    by (subst (1 2) gather_frame [OF that, simplified]) (simp add: incrementIO_def Let_def)
  have "ss_sendOverlapped s' = ss_sendOverlapped s \<and> ss_recvOverlapped s' = ss_recvOverlapped s"
    using assms f
    by (auto simp: sendIO_def Let_def cancelIORegist_def decrementIO_def iocp_owe_def split: if_splits bind_splits)
  then show "ss_sendOverlapped s' = ss_sendOverlapped s" "ss_recvOverlapped s' = ss_recvOverlapped s" by blast+
qed

lemma slot_heap [simp]:
  "ser_at (sl_put st s) p = ser_at st p" "ser_at (os_log st x) p = ser_at st p" "ser_at (st\<lparr>os_answers := as\<rparr>) p = ser_at (st :: slot) p"
  "valid_ptrs (sl_put st s) ps = valid_ptrs st ps" "ptr_size (sl_put st s) p = ptr_size st p" "sum_sizes (sl_put st s) ps = sum_sizes st ps"
  "valid_ptrs (os_log st x) ps = valid_ptrs st ps" "ptr_size (os_log st x) p = ptr_size st p"
  "valid_ptrs (st\<lparr>os_answers := as\<rparr>) ps = valid_ptrs st ps" "ptr_size (st\<lparr>os_answers := as\<rparr>) p = ptr_size st p"
proof -
  show 1: "ser_at (sl_put st s) p = ser_at st p" "ser_at (os_log st x) p = ser_at st p" "ser_at (st\<lparr>os_answers := as\<rparr>) p = ser_at st p" for p
    by (simp_all add: ser_at_def os_log_def)
  then show 2: "ptr_size (sl_put st s) p = ptr_size st p" "ptr_size (os_log st x) p = ptr_size st p"
    "ptr_size (st\<lparr>os_answers := as\<rparr>) p = ptr_size st p" for p
    by (simp_all add: ptr_size_def)
  show "valid_ptrs (sl_put st s) ps = valid_ptrs st ps" "valid_ptrs (os_log st x) ps = valid_ptrs st ps"
    "valid_ptrs (st\<lparr>os_answers := as\<rparr>) ps = valid_ptrs st ps"
    using 1 by (simp_all add: valid_ptrs_def)
  show "sum_sizes (sl_put st s) ps = sum_sizes st ps" using 2 by (induction ps) simp_all
qed

text \<open>What a step needs to know of the session: \<open>qs\<close> is queued, \<open>ds\<close> is being sent, \<open>n\<close> references, \<open>io\<close> is owed.\<close>

definition conn :: "slot \<Rightarrow> u64 list \<Rightarrow> u64 list \<Rightarrow> u16 \<Rightarrow> u32 \<Rightarrow> io_op list \<Rightarrow> u64 set \<Rightarrow> bool" where
  "conn st qs ds f n io ov \<longleftrightarrow> (let s = sl_session st in send_rep s qs ds \<and> ss_sendFlag s = f \<and> ss_IOcount s = n \<and> ss_inflight s = io \<and>
     \<not> hasCancelIOFlag s \<and> rb_inv (ss_recvBuffer s) \<and> {ss_sendOverlapped s, ss_recvOverlapped s} = ov)"

text \<open>The thread \<open>t\<close> takes the slot from \<open>st\<close> to \<open>st'\<close> and itself to the state \<open>p\<close>.\<close>

definition moves :: "slot \<Rightarrow> (nat \<Rightarrow> slot_pc) \<Rightarrow> nat \<Rightarrow> slot \<Rightarrow> slot_pc \<Rightarrow> bool" where
  "moves st c t st' p \<longleftrightarrow> runs (st, c) (st', c(t := p))"

lemma moves_trans: "moves st c t st1 p \<Longrightarrow> moves st1 (c(t := p)) t st2 q \<Longrightarrow> moves st c t st2 q"
  unfolding moves_def using runs_trans by fastforce

lemma moves_step: "slot_step (c t) st = Some (st', p) \<Longrightarrow> moves st c t st' p"
  unfolding moves_def by (rule runs_steps [of 1]) simp

lemma post_moves:
  assumes c: "c t = Slot_idle" and s: "conn st qs ds f n io ov" and v: "Post_io v \<in> set io" "v \<notin> ov"
    "v = p OR 0x4000000000000000" "unat p < 2 ^ 60" "length qs < 255"
  obtains st' where "moves st c t st' Send_test" "conn st' (qs @ [p]) ds f n (remove1 (Post_io v) io) ov"
    "ser_at st' = ser_at st" "os_answers st' = os_answers st"
proof -
  let ?s = "sl_session st"
  let ?s1 = "?s\<lparr>ss_inflight := remove1 (Post_io v) io\<rparr>"
  note S = s [unfolded conn_def Let_def]
  have r: "send_rep ?s1 qs ds" "completion_op ?s v = Post_io v" using S v(2) by (auto simp: completion_op_def)
  obtain q where q: "collectSendPacket ?s1 p = Some (?s1\<lparr>ss_sendBuffer := q\<rparr>, True)" "send_rep (?s1\<lparr>ss_sendBuffer := q\<rparr>) (qs @ [p]) ds"
    by (rule collect_room [OF r(1) v(5)])
  have b: "slot_begin (Call_worker True 0 v []) st = Some (sl_put st ?s1, Post_push p)"
    using S v r(2) post_stamp [OF v(4)] recv_arrive_nothing [of ?s] by (simp add: Let_def worker_entry_def)
  have "moves st c t (sl_put st ?s1) (Post_push p)" unfolding moves_def by (rule runs_begin [where c = c and t = t, OF c b])
  moreover have "moves (sl_put st ?s1) (c(t := Post_push p)) t (sl_put st (?s1\<lparr>ss_sendBuffer := q\<rparr>)) Send_test"
    by (rule moves_step) (simp add: slot_step_def q(1))
  ultimately have m: "moves st c t (sl_put st (?s1\<lparr>ss_sendBuffer := q\<rparr>)) Send_test" by (rule moves_trans)
  show thesis
    by (rule that [OF m]) (use S q(2) in \<open>simp_all add: conn_def Let_def hasCancelIOFlag_def fun_eq_iff\<close>)
qed

lemma test_moves:
  assumes "c t = Send_test" "conn st qs ds f n io ov"
  shows "moves st c t st Send_flag"
  by (rule moves_step) (use assms in \<open>simp add: slot_step_def conn_def Let_def\<close>)

text \<open>The four accesses of a thread that has queued its packet, as far as they change the session.\<close>

lemma flag_moves:
  assumes "c t = Send_flag" "conn st qs ds f n io ov"
  obtains st' where "moves st c t st' (if f = 1 then Release 0 else Send_size)" "conn st' qs ds 1 n io ov"
    "ser_at st' = ser_at st" "os_answers st' = os_answers st"
  by (rule that [OF moves_step, of "sl_put st ((sl_session st)\<lparr>ss_sendFlag := 1\<rparr>)"])
     (use assms in \<open>simp_all add: slot_step_def conn_def Let_def hasCancelIOFlag_def fun_eq_iff\<close>)

lemma size_moves:
  assumes "c t = Send_size" "conn st [] ds f n io ov"
  shows "moves st c t st Send_reset"
  by (rule moves_step) (use assms send_size(1) [of "sl_session st" "[]"] in \<open>auto simp: slot_step_def conn_def Let_def\<close>)

lemma reset_moves:
  assumes "c t = Send_reset" "conn st qs ds f n io ov"
  obtains st' where "moves st c t st' (Release 0)" "conn st' qs ds 0 n io ov" "ser_at st' = ser_at st" "os_answers st' = os_answers st"
  by (rule that [OF moves_step, of "sl_put st ((sl_session st)\<lparr>ss_sendFlag := 0\<rparr>)"])
     (use assms in \<open>simp_all add: slot_step_def conn_def Let_def hasCancelIOFlag_def fun_eq_iff\<close>)

lemma release_moves:
  assumes "c t = Release 0" "conn st qs ds f n io ov" "n \<noteq> 1"
  obtains st' where "moves st c t st' Slot_idle" "conn st' qs ds f (n - 1) io ov" "ser_at st' = ser_at st" "os_answers st' = os_answers st"
  by (rule that [OF moves_step, of "sl_put st ((sl_session st)\<lparr>ss_IOcount := n - 1\<rparr>)"])
     (use assms in \<open>simp_all add: slot_step_def conn_def Let_def hasCancelIOFlag_def fun_eq_iff decrementIO_def\<close>)

text \<open>A whole \<open>sendIO\<close> and the completion of the send, by one thread.\<close>

lemma send_moves:
  assumes c: "c t = Send_test" and s: "conn st qs [] f n io ov" "f \<noteq> 1" "qs \<noteq> []" "length qs \<le> 100" "valid_ptrs st qs" "length io < 2 ^ 30"
    and a: "os_answers st = 0 # as"
  obtains st' where "moves st c t st' (Release 0)" "conn st' [] qs 1 (n + 1) (Send_io # io) ov" "ser_at st' = ser_at st"
proof -
  let ?s = "sl_session st"
  note S = s(1) [unfolded conn_def Let_def]
  have i: "\<not> hasCancelIOFlag ?s" "ss_sendFlag ?s \<noteq> 1" "send_rep ?s qs []" "length (ss_inflight ?s) < 2 ^ 30" and z: "(0::u32) = 0 \<or> (0::u32) = WSA_IO_PENDING"
    using S s by simp_all
  let ?w = "os_log (st\<lparr>os_answers := as\<rparr>) (WSASend (ss_socket ?s) (map (wsabuf st) qs))"
  obtain s' where s': "sendIO ?s st = Some (s', ?w, False)" "send_rep s' [] qs" "ss_sendFlag s' = 1" "ss_IOcount s' = ss_IOcount ?s + 1"
    "ss_inflight s' = Send_io # ss_inflight ?s" "ss_cancelIOFlag s' = ss_cancelIOFlag ?s" "ss_recvBuffer s' = ss_recvBuffer ?s"
    "ss_ID s' = ss_ID ?s" "ss_socket s' = ss_socket ?s"
    by (rule sendIO_spec [OF i(1-3) s(3-5) a z i(4)])
  note o = sendIO_overlapped [OF s'(1)]
  have m: "moves st c t (sl_put ?w s') (Release 0)"
    using runs_reaches [of st c t] send_alone [OF s'(1)] by (simp add: moves_def c)
  show thesis
    by (rule that [OF m]) (use S s' o in \<open>simp_all add: conn_def Let_def hasCancelIOFlag_def fun_eq_iff\<close>)
qed

lemma sent_moves:
  assumes c: "c t = Slot_idle" and s: "conn st qs ps f n io ov" "Send_io \<in> set io" "ps \<noteq> []" "length ps < 100" "qs = []"
    and h: "valid_ptrs st ps" "unat (m :: u32) = sum_sizes st ps" "\<And>p. p \<in> set ps \<Longrightarrow> ptr_size st p \<noteq> 0"
  obtains st' where "moves st c t st' (Release 0)" "conn st' [] [] 0 n (remove1 Send_io io) ov"
proof -
  let ?s = "sl_session st"
  let ?s1 = "?s\<lparr>ss_inflight := remove1 Send_io io\<rparr>"
  note S = s(1) [unfolded conn_def Let_def s(5)]
  have m: "m \<noteq> 0"
  proof -
    obtain p qs where "ps = p # qs" using s(3) by (cases ps) auto
    then have "0 < sum_sizes st ps" using h(3) [of p] by (simp add: unat_gt_0)
    then show ?thesis using h(2) by auto
  qed
  have op: "completion_op ?s (ss_sendOverlapped ?s) = Send_io" by (simp add: completion_op_def)
  have b: "slot_begin (Call_worker True m (ss_sendOverlapped ?s) []) st = Some (sl_put st ?s1, Sent_packets m)"
    using S s(2) m recv_arrive_nothing [of ?s] by (simp add: op Let_def worker_entry_def sendOverlappedCheck_def)
  have rs: "send_rep ?s1 [] ps" using S by simp
  obtain s2 h2 where s2: "sended ?s1 (sl_put st ?s1) m = Some (s2, h2, 0, of_nat (length ps))" "send_rep s2 [] []"
      "s2 = ?s1\<lparr>ss_sendedBuffer := ss_sendedBuffer s2\<rparr>"
    by (rule sended_spec [OF rs, of "sl_put st ?s1" m]) (use s h in simp_all)
  have l: "of_nat (length ps) \<noteq> (-1 :: u32)"
  proof
    assume "of_nat (length ps) = (-1 :: u32)"
    then have "of_nat (length ps + 1) = (0 :: u32)" by simp
    then have "unat (of_nat (length ps + 1) :: u32) = 0" by (simp only: unat_0)
    then show False using s(4) by (simp add: unat_of_nat del: of_nat_add of_nat_Suc)
  qed
  have sz: "lfq_sizeFn (ss_sendBuffer s2) = 0"
    using lfq.size_law [of "ss_sendBuffer s2" "[]" 255] s2(2) by (simp add: send_rep_def)
  let ?s3 = "s2\<lparr>ss_sendFlag := 0\<rparr>"
  have "thread_run 3 (sl_put st ?s1) (Sent_packets m) = Some (sl_put h2 ?s3, Release 0)"
    using s2(1) l sz by (simp add: eval_nat_numeral slot_step_def)
  then have "moves (sl_put st ?s1) (c(t := Sent_packets m)) t (sl_put h2 ?s3) (Release 0)"
    unfolding moves_def by (intro runs_steps [of 3]) simp
  moreover have "moves st c t (sl_put st ?s1) (Sent_packets m)"
    unfolding moves_def by (rule runs_begin [where c = c and t = t, OF c b])
  ultimately have M: "moves st c t (sl_put h2 ?s3) (Release 0)" using moves_trans by blast
  have "ss_IOcount s2 = n" "ss_inflight s2 = remove1 Send_io io" "ss_cancelIOFlag s2 = ss_cancelIOFlag ?s" "ss_recvBuffer s2 = ss_recvBuffer ?s"
    "ss_sendOverlapped s2 = ss_sendOverlapped ?s" "ss_recvOverlapped s2 = ss_recvOverlapped ?s"
    by (subst s2(3), simp add: S)+
  then show thesis
    by (intro that [OF M]) (use S s2(2) in \<open>simp add: conn_def Let_def hasCancelIOFlag_def fun_eq_iff\<close>)
qed

section \<open>The schedule\<close>

lemma packet_strands:
  fixes st :: slot and c :: "nat \<Rightarrow> slot_pc"
  defines "v \<equiv> \<lambda>p :: u64. p OR 0x4000000000000000"
  assumes c: "c 0 = Slot_idle" "c 1 = Slot_idle"
    and s: "conn st [] [] 0 4 [Post_io (v p3), Post_io (v p2), Post_io (v p1), Recv_io] ov"
    and p: "unat p1 < 2 ^ 60" "unat p2 < 2 ^ 60" "unat p3 < 2 ^ 60" "v p1 \<notin> ov" "v p2 \<notin> ov" "v p3 \<notin> ov" "distinct [p1, p2, p3]"
    and h: "valid_ptrs st [p1, p2]" "ptr_size st p1 \<noteq> 0" "ptr_size st p2 \<noteq> 0" "unat (ptr_size st p1) + unat (ptr_size st p2) < 2 ^ 32"
      "os_answers st = 0 # as"
  shows "\<exists>st'. runs (st, c) (st', c) \<and> conn st' [p3] [] 0 1 [Recv_io] ov"
proof -
  have d: "v p3 \<noteq> v p2" "v p3 \<noteq> v p1" "v p2 \<noteq> v p1"
    using p post_stamp(2) [of p1] post_stamp(2) [of p2] post_stamp(2) [of p3] unfolding v_def by force+
  obtain st1 where 1: "moves st c 0 st1 Send_test" "conn st1 [p1] [] 0 4 [Post_io (v p3), Post_io (v p2), Recv_io] ov"
    "ser_at st1 = ser_at st" "os_answers st1 = os_answers st"
    using post_moves [where c = c and t = 0, OF c(1) s, where v = "v p1" and p = p1] p d by (auto simp: v_def)
  let ?c1 = "c(0 := Send_flag)"
  have A: "moves st c 0 st1 Send_flag" by (rule moves_trans [OF 1(1) test_moves [where c = "c(0 := Send_test)" and t = 0, OF _ 1(2)]]) simp
  have c1: "?c1 1 = Slot_idle" using c by simp
  obtain st2 where 2: "moves st1 ?c1 1 st2 Send_test" "conn st2 [p1, p2] [] 0 4 [Post_io (v p3), Recv_io] ov"
    "ser_at st2 = ser_at st" "os_answers st2 = os_answers st"
    using post_moves [where c = ?c1 and t = 1, OF c1 1(2), where v = "v p2" and p = p2] p d 1(3,4) by (auto simp: v_def)
  have v2: "valid_ptrs st2 [p1, p2]" "os_answers st2 = 0 # as" using h 2(3,4) by (simp_all add: valid_ptrs_def)
  obtain st3 where 3: "moves st2 (?c1(1 := Send_test)) 1 st3 (Release 0)"
    "conn st3 [] [p1, p2] 1 5 [Send_io, Post_io (v p3), Recv_io] ov" "ser_at st3 = ser_at st"
    using send_moves [where c = "?c1(1 := Send_test)" and t = 1, OF _ 2(2) _ _ _ v2(1) _ v2(2)] 2(3) by auto
  obtain st4 where 4: "moves st3 (?c1(1 := Release 0)) 1 st4 Slot_idle"
    "conn st4 [] [p1, p2] 1 4 [Send_io, Post_io (v p3), Recv_io] ov" "ser_at st4 = ser_at st"
    using release_moves [where c = "?c1(1 := Release 0)" and t = 1, OF _ 3(2)] 3(3) by auto
  have B: "moves st1 ?c1 1 st4 Slot_idle"
    using moves_trans [OF moves_trans [OF 2(1) 3(1)]] 4(1) by (simp add: fun_upd_upd)
  let ?m = "ptr_size st p1 + ptr_size st p2"
  have sz: "ptr_size st4 = ptr_size st" using 4(3) by (simp add: ptr_size_def fun_eq_iff)
  have m: "unat ?m = sum_sizes st4 [p1, p2]" using h(4) by (simp add: sz unat_add_lem [THEN iffD1])
  have v4: "valid_ptrs st4 [p1, p2]" using h(1) 4(3) by (simp add: valid_ptrs_def)
  have c4: "?c1 1 = Slot_idle" using c by simp
  obtain st5 where 5: "moves st4 ?c1 1 st5 (Release 0)" "conn st5 [] [] 0 4 [Post_io (v p3), Recv_io] ov"
    using sent_moves [where c = ?c1 and t = 1, OF c4 4(2) _ _ _ _ v4 m] h by (auto simp: sz)
  obtain st6 where 6: "moves st5 (?c1(1 := Release 0)) 1 st6 Slot_idle" "conn st6 [] [] 0 3 [Post_io (v p3), Recv_io] ov"
    using release_moves [where c = "?c1(1 := Release 0)" and t = 1, OF _ 5(2)] by auto
  have C: "moves st4 ?c1 1 st6 Slot_idle" by (rule moves_trans [OF 5(1) 6(1)])
  obtain st7 where 7: "moves st6 ?c1 0 st7 Send_size" "conn st7 [] [] 1 3 [Post_io (v p3), Recv_io] ov"
    using flag_moves [where c = ?c1 and t = 0, OF _ 6(2)] by auto
  have 8: "moves st7 (?c1(0 := Send_size)) 0 st7 Send_reset" by (rule size_moves [OF _ 7(2)]) simp
  have D: "moves st6 ?c1 0 st7 Send_reset" by (rule moves_trans [OF 7(1) 8])
  let ?c2 = "c(0 := Send_reset)"
  have c2: "?c2 1 = Slot_idle" using c by simp
  obtain st9 where 9: "moves st7 ?c2 1 st9 Send_test" "conn st9 [p3] [] 1 3 [Recv_io] ov"
    using post_moves [where c = ?c2 and t = 1, OF c2 7(2), where v = "v p3" and p = p3] p by (auto simp: v_def)
  have 10: "moves st9 (?c2(1 := Send_test)) 1 st9 Send_flag" by (rule test_moves [OF _ 9(2)]) simp
  obtain st11 where 11: "moves st9 (?c2(1 := Send_flag)) 1 st11 (Release 0)" "conn st11 [p3] [] 1 3 [Recv_io] ov"
    using flag_moves [where c = "?c2(1 := Send_flag)" and t = 1, OF _ 9(2)] by auto
  obtain st12 where 12: "moves st11 (?c2(1 := Release 0)) 1 st12 Slot_idle" "conn st12 [p3] [] 1 2 [Recv_io] ov"
    using release_moves [where c = "?c2(1 := Release 0)" and t = 1, OF _ 11(2)] by auto
  have E: "moves st7 ?c2 1 st12 Slot_idle"
    using moves_trans [OF moves_trans [OF moves_trans [OF 9(1) 10] _] _] 11(1) 12(1) by (simp add: fun_upd_upd)
  obtain st13 where 13: "moves st12 ?c2 0 st13 (Release 0)" "conn st13 [p3] [] 0 2 [Recv_io] ov"
    using reset_moves [where c = ?c2 and t = 0, OF _ 12(2)] by auto
  obtain st14 where 14: "moves st13 (?c2(0 := Release 0)) 0 st14 Slot_idle" "conn st14 [p3] [] 0 1 [Recv_io] ov"
    using release_moves [where c = "?c2(0 := Release 0)" and t = 0, OF _ 13(2)] by auto
  have F: "moves st12 ?c2 0 st14 Slot_idle" by (rule moves_trans [OF 13(1) 14(1)])
  have i: "?c1(1 := Slot_idle) = ?c1" "?c2(1 := Slot_idle) = ?c2" "?c1(0 := Send_reset) = ?c2" "?c2(0 := Slot_idle) = c"
    using c by (auto simp: fun_eq_iff)
  have "runs (st, c) (st14, c)"
    by (rule runs_trans [OF runs_trans [OF runs_trans [OF runs_trans [OF runs_trans [OF
      A [unfolded moves_def] B [unfolded moves_def i]] C [unfolded moves_def i]] D [unfolded moves_def i]]
      E [unfolded moves_def i]] F [unfolded moves_def i]])
  then show ?thesis using 14(2) by blast
qed

end
