(* ===== verification/Overtaking.thy ===== *)
theory Overtaking
  imports Concurrent_Queue
begin

text \<open>
  A schedule in which packets overtake each other. The compare-and-exchange with which \<open>push\<close> links its node expects an empty key, and an empty key
  carries no push number: a thread that is stopped before it finds the old tail recycled, empty again and in no list, and links its packet there.
  The schedule works on every empty queue with room for three packets. The lemmas follow one call at a time; \<open>queue_view\<close> is what they
  need of the queue.
\<close>

section \<open>What one call needs and leaves\<close>

definition queue_view :: "lfq \<Rightarrow> u64 \<Rightarrow> u64 \<Rightarrow> u32 \<Rightarrow> u64 \<Rightarrow> (u64 \<rightharpoonup> node) \<Rightarrow> bool" where
  "queue_view q h t n fr m \<longleftrightarrow> lq_head q = h \<and> lq_tail q = t \<and> lq_size q = n \<and> MAKE_NODEPTR (np_topKey (lq_np q)) = fr \<and> lq_mem q = m"

text \<open>Seven accesses of \<open>push\<close>: a node from the pool, with the packet and an empty key.\<close>

lemma push_takes:
  assumes v: "queue_view q h tp n a m" and pc: "c t = Push_number x" and a: "a \<noteq> 0" "unat a < 2 ^ 48" "m a = Some nd"
  obtains q' k where "queue_run (replicate 7 t) q c = Some (q', c(t := Push_tail k))" "MAKE_NODEPTR k = a" "k \<noteq> 0"
    "queue_view q' h tp n (MAKE_NODEPTR (nd_poolNext nd)) (m(a \<mapsto> nd\<lparr>nd_value := x, nd_key := 0\<rparr>))"
proof -
  let ?k = "MAKE_KEY a (lq_pushs q + 1)"
  let ?q = "q\<lparr>lq_pushs := lq_pushs q + 1, lq_np := (lq_np q)\<lparr>np_topKey := nd_poolNext nd, np_useSize := np_useSize (lq_np q) + 1,
      np_mem := m(a \<mapsto> nd\<lparr>nd_value := x, nd_key := 0\<rparr>)\<rparr>\<rparr>"
  have "queue_run (replicate 7 t) q c = Some (?q, c(t := Push_tail ?k))"
    using v pc a(1,3) by (simp add: queue_view_def numeral_eq_Suc queue_pc_step_def Let_def cas_def nd_upd_def)
  moreover have "queue_view ?q h tp n (MAKE_NODEPTR (nd_poolNext nd)) (m(a \<mapsto> nd\<lparr>nd_value := x, nd_key := 0\<rparr>))"
    using v by (simp add: queue_view_def)
  ultimately show thesis using that NODEPTR_KEY [OF a(2)] KEY_nonzero [OF a(2,1)] by blast
qed

text \<open>Three more: the tail and the test that its key is empty.\<close>

lemma push_tests:
  assumes "queue_view q h tp n a m" "c t = Push_tail k" "m (MAKE_NODEPTR tp) = Some nd" "nd_key nd = 0"
  shows "queue_run (replicate 3 t) q c = Some (q, c(t := Push_link k tp))"
  using assms by (simp add: queue_view_def numeral_eq_Suc queue_pc_step_def)

text \<open>The last three: the packet is linked behind the tail that was read, and the tail moves only if it is still that one.\<close>

lemma push_links:
  assumes "queue_view q h tp n a m" "c t = Push_link k old" "m (MAKE_NODEPTR old) = Some nd" "nd_key nd = 0"
  obtains q' where "queue_run (replicate 3 t) q c = Some (q', c(t := Push_done True))"
    "queue_view q' h (if tp = old then k else tp) (n + 1) a (m(MAKE_NODEPTR old \<mapsto> nd\<lparr>nd_key := k\<rparr>))"
proof -
  let ?q = "q\<lparr>lq_np := (lq_np q)\<lparr>np_mem := m(MAKE_NODEPTR old \<mapsto> nd\<lparr>nd_key := k\<rparr>)\<rparr>,
    lq_tail := (if tp = old then k else tp), lq_size := n + 1\<rparr>"
  have "queue_run (replicate 3 t) q c = Some (?q, c(t := Push_done True))"
    using assms by (simp add: queue_view_def numeral_eq_Suc queue_pc_step_def nd_upd_def cas_def)
  then show thesis by (rule that) (use assms(1) in \<open>simp add: queue_view_def\<close>)
qed

lemma push_finishes:
  assumes "queue_view q h tp n a m" "c t = Push_tail k" "m (MAKE_NODEPTR tp) = Some nd" "nd_key nd = 0"
  obtains q' where "queue_run (replicate 6 t) q c = Some (q', c(t := Push_done True))"
    "queue_view q' h k (n + 1) a (m(MAKE_NODEPTR tp \<mapsto> nd\<lparr>nd_key := k\<rparr>))"
proof -
  have r: "replicate 6 t = replicate 3 t @ replicate 3 t" by (simp flip: replicate_add)
  obtain q' where q': "queue_run (replicate 3 t) q (c(t := Push_link k tp)) = Some (q', c(t := Push_done True))"
    "queue_view q' h k (n + 1) a (m(MAKE_NODEPTR tp \<mapsto> nd\<lparr>nd_key := k\<rparr>))"
    using push_links [OF assms(1) _ assms(3,4), of "c(t := Push_link k tp)" t k] by auto
  show thesis by (rule that [OF _ q'(2)]) (simp only: r queue_run_append push_tests [where t = t and c = c, OF assms] bind.bind_lunit prod.case q'(1))
qed

text \<open>A whole \<open>pop\<close>: twelve accesses, or seventeen when the tail lags behind and has to be moved first.\<close>

lemma np_Free_once:
  assumes "np_mem p a = Some n"
  shows "np_Free p a = Some (p\<lparr>np_mem := (np_mem p)(a \<mapsto> n\<lparr>nd_poolNext := np_topKey p\<rparr>), np_pushCount := np_pushCount p + 1,
    np_topKey := MAKE_KEY a (np_pushCount p + 1), np_useSize := np_useSize p - 1\<rparr>, True)"
  using assms by (subst np_Free.simps) (simp add: Let_def cas_def)

lemma pop_sets:
  assumes v: "queue_view q h tp n fr m" and pc: "c t = Pop_set h k"
    and d: "m (MAKE_NODEPTR h) = Some nd" "unat (MAKE_NODEPTR h) < 2 ^ 48"
    and e: "m (MAKE_NODEPTR k) = Some nk" "MAKE_NODEPTR h \<noteq> MAKE_NODEPTR k"
  obtains q' pk where "queue_run (replicate 7 t) q c = Some (q', c(t := Pop_done (Some (nd_value nk))))" "MAKE_NODEPTR pk = fr"
    "queue_view q' k tp n (MAKE_NODEPTR h) (m(MAKE_NODEPTR h \<mapsto> nd\<lparr>nd_poolNext := pk\<rparr>))"
proof -
  have m: "lq_mem q = m" using v by (simp add: queue_view_def)
  note r = pop_from_set [of q h nd k nk c t, unfolded m, OF d(1) e pc]
  show thesis
    by (rule that [OF r, of "np_topKey (lq_np q)"])
      (use v d in \<open>simp_all add: queue_view_def np_Free_once NODEPTR_KEY\<close>)
qed

lemma pop_whole:
  assumes v: "queue_view q h tp n fr m" and pc: "c t = Pop_size" and n: "\<not> sint (n - 1) < 0"
    and d: "m (MAKE_NODEPTR h) = Some nd" "unat (MAKE_NODEPTR h) < 2 ^ 48" "nd_key nd = k" "k \<noteq> 0" "h \<noteq> tp"
    and e: "m (MAKE_NODEPTR k) = Some nk" "MAKE_NODEPTR h \<noteq> MAKE_NODEPTR k"
  obtains q' pk where "queue_run (replicate 12 t) q c = Some (q', c(t := Pop_done (Some (nd_value nk))))" "MAKE_NODEPTR pk = fr"
    "queue_view q' k tp (n - 1) (MAKE_NODEPTR h) (m(MAKE_NODEPTR h \<mapsto> nd\<lparr>nd_poolNext := pk\<rparr>))"
proof -
  let ?q = "q\<lparr>lq_size := n - 1\<rparr>"
  have r: "replicate 12 t = replicate 5 t @ replicate 7 t" by (simp flip: replicate_add)
  have s: "queue_run (replicate 5 t) q c = Some (?q, c(t := Pop_set h k))"
    using pop_to_set [of q nd c t] v pc n d by (simp add: queue_view_def)
  have v1: "queue_view ?q h tp (n - 1) fr m" using v by (simp add: queue_view_def)
  obtain q' pk where q': "queue_run (replicate 7 t) ?q (c(t := Pop_set h k)) = Some (q', c(t := Pop_done (Some (nd_value nk))))"
    "MAKE_NODEPTR pk = fr" "queue_view q' k tp (n - 1) (MAKE_NODEPTR h) (m(MAKE_NODEPTR h \<mapsto> nd\<lparr>nd_poolNext := pk\<rparr>))"
    using pop_sets [OF v1 _ d(1,2) e, of "c(t := Pop_set h k)" t] by auto
  show thesis by (rule that [OF _ q'(2,3)]) (simp only: r queue_run_append s bind.bind_lunit prod.case q'(1))
qed

lemma pop_lagging:
  assumes v: "queue_view q h h n fr m" and pc: "c t = Pop_size" and n: "\<not> sint (n - 1) < 0"
    and d: "m (MAKE_NODEPTR h) = Some nd" "unat (MAKE_NODEPTR h) < 2 ^ 48" "nd_key nd = k" "k \<noteq> 0"
    and e: "m (MAKE_NODEPTR k) = Some nk" "MAKE_NODEPTR h \<noteq> MAKE_NODEPTR k"
  obtains q' pk where "queue_run (replicate 17 t) q c = Some (q', c(t := Pop_done (Some (nd_value nk))))" "MAKE_NODEPTR pk = fr"
    "queue_view q' k k (n - 1) (MAKE_NODEPTR h) (m(MAKE_NODEPTR h \<mapsto> nd\<lparr>nd_poolNext := pk\<rparr>))"
proof -
  let ?q = "q\<lparr>lq_size := n - 1, lq_tail := k\<rparr>"
  have r: "replicate 17 t = replicate 10 t @ replicate 7 t" by (simp flip: replicate_add)
  have hk: "h \<noteq> k" using e(2) by auto
  have s: "queue_run (replicate 10 t) q c = Some (?q, c(t := Pop_set h k))"
    using v pc n d(1,3,4) hk by (simp add: queue_view_def numeral_eq_Suc queue_pc_step_def Let_def cas_def)
  have v1: "queue_view ?q h k (n - 1) fr m" using v by (simp add: queue_view_def)
  obtain q' pk where q': "queue_run (replicate 7 t) ?q (c(t := Pop_set h k)) = Some (q', c(t := Pop_done (Some (nd_value nk))))"
    "MAKE_NODEPTR pk = fr" "queue_view q' k k (n - 1) (MAKE_NODEPTR h) (m(MAKE_NODEPTR h \<mapsto> nd\<lparr>nd_poolNext := pk\<rparr>))"
    using pop_sets [OF v1 _ d(1,2) e, of "c(t := Pop_set h k)" t] by auto
  show thesis by (rule that [OF _ q'(2,3)]) (simp only: r queue_run_append s bind.bind_lunit prod.case q'(1))
qed

section \<open>The schedule\<close>

text \<open>
  Four pushes and four pops, each by a thread of its own, the pops one after the other. Thread 0 is stopped before it links \<open>x\<close>; then \<open>y\<close> is pushed and
  popped, which recycles the tail that 0 has read, and thread 2 takes that node for \<open>z\<close> and is stopped before it reads the tail.
\<close>

definition overtake_threads :: "u64 \<Rightarrow> u64 \<Rightarrow> u64 \<Rightarrow> u64 \<Rightarrow> nat \<Rightarrow> queue_pc" where
  "overtake_threads x y z w t = (if t = 0 then Push_number x else if t = 1 then Push_number y else if t = 2 then Push_number z
     else if t = 7 then Push_number w else Pop_size)"

definition overtake_before :: "nat list" where
  "overtake_before = replicate 7 0 @ replicate 3 0 @ replicate 7 1 @ replicate 6 1 @ replicate 12 3 @ replicate 7 2 @ replicate 3 0"

definition overtake_after :: "nat list" where
  "overtake_after = replicate 7 7 @ replicate 6 7 @ replicate 6 2 @ replicate 12 4 @ replicate 12 5 @ replicate 17 6"

lemma empty_queue_nodes:
  assumes "lfq_rep q [] n" "3 \<le> n"
  obtains T a b e nD na nb ne where "queue_view q T T 0 a (lq_mem q)"
    "lq_mem q (MAKE_NODEPTR T) = Some nD" "lq_mem q a = Some na" "lq_mem q b = Some nb" "lq_mem q e = Some ne"
    "MAKE_NODEPTR (nd_poolNext na) = b" "MAKE_NODEPTR (nd_poolNext nb) = e" "nd_key nD = 0"
    "distinct [MAKE_NODEPTR T, a, b, e]" "\<forall>p \<in> {MAKE_NODEPTR T, a, b, e}. p \<noteq> 0 \<and> unat p < 2 ^ 48"
proof -
  obtain ks fs where c: "lfq_chain q ks fs" "node_values (lq_mem q) (tl ks) = []" "n + 1 = length ks + length fs"
    using assms(1) by (auto simp: lfq_rep_def)
  have "ks \<noteq> []" by (rule lfq_chainD(1) [OF c(1)])
  then obtain T where T: "ks = [T]" using c(2) by (cases ks) (auto simp: node_values_def)
  then obtain a b e fs' where fs: "fs = a # b # e # fs'"
    using c(3) assms(2) by (cases fs; cases "tl fs"; cases "tl (tl fs)") auto
  note C = c(1) [unfolded lfq_chain_def T fs]
  obtain nD na nb ne where n: "lq_mem q (MAKE_NODEPTR T) = Some nD" "nd_key nD = 0" "lq_mem q a = Some na" "lq_mem q b = Some nb"
    "lq_mem q e = Some ne" "MAKE_NODEPTR (nd_poolNext na) = b" "MAKE_NODEPTR (nd_poolNext nb) = e"
    using C by (auto simp: np_rep_def split: option.splits)
  have ad: "\<forall>p \<in> dom (lq_mem q). p \<noteq> 0 \<and> unat p < 2 ^ 48" using C by (simp add: np_rep_def)
  have v: "queue_view q T T 0 a (lq_mem q)" using C by (simp add: queue_view_def np_rep_def)
  have d: "distinct [MAKE_NODEPTR T, a, b, e]" using C by (auto simp: np_rep_def)
  have "{MAKE_NODEPTR T, a, b, e} \<subseteq> dom (lq_mem q)" using n(1,3-5) by (simp add: domI)
  then have "\<forall>p \<in> {MAKE_NODEPTR T, a, b, e}. p \<noteq> 0 \<and> unat p < 2 ^ 48" using ad by (meson subsetD)
  then show thesis by (rule that [OF v n(1,3-7,2) d])
qed

text \<open>
  Where the first part ends: the list is the node \<open>b\<close> alone, \<open>D\<close> is in no list but has \<open>x\<close> linked behind it, and thread 2 holds the key of \<open>D\<close>.
\<close>

definition overtaken :: "lfq \<Rightarrow> u64 \<Rightarrow> u64 \<Rightarrow> u64 \<Rightarrow> u64 \<Rightarrow> u64 \<Rightarrow> u64 \<Rightarrow> u64 \<Rightarrow> u64 \<Rightarrow> bool" where
  "overtaken q x z D a b e k1 k2 \<longleftrightarrow>
     (\<exists>m k0 nD na nb ne. queue_view q k1 k1 1 e m \<and> m D = Some nD \<and> nd_value nD = z \<and> nd_key nD = k0 \<and>
        m a = Some na \<and> nd_value na = x \<and> m b = Some nb \<and> nd_key nb = 0 \<and> m e = Some ne \<and>
        MAKE_NODEPTR k0 = a \<and> MAKE_NODEPTR k1 = b \<and> MAKE_NODEPTR k2 = D \<and> k0 \<noteq> 0 \<and> k2 \<noteq> 0 \<and>
        distinct [D, a, b, e] \<and> (\<forall>p \<in> {D, a, b, e}. p \<noteq> 0 \<and> unat p < 2 ^ 48))"

lemma overtake_begin:
  assumes q: "lfq_rep q [] n" "3 \<le> n"
  obtains q1 d1 D a b e k1 k2 where "queue_run overtake_before q (overtake_threads x y z w) = Some (q1, d1)"
    "overtaken q1 x z D a b e k1 k2" "d1 3 = Pop_done (Some y)" "d1 0 = Push_done True" "d1 7 = Push_number w"
    "d1 2 = Push_tail k2" "\<forall>t \<in> {4, 5, 6}. d1 t = Pop_size"
proof -
  obtain T a b e nD na nb ne where v0: "queue_view q T T 0 a (lq_mem q)"
    and m: "lq_mem q (MAKE_NODEPTR T) = Some nD" "lq_mem q a = Some na" "lq_mem q b = Some nb" "lq_mem q e = Some ne"
    and nx: "MAKE_NODEPTR (nd_poolNext na) = b" "MAKE_NODEPTR (nd_poolNext nb) = e" "nd_key nD = 0"
    and di: "distinct [MAKE_NODEPTR T, a, b, e]" and ad: "\<forall>p \<in> {MAKE_NODEPTR T, a, b, e}. p \<noteq> 0 \<and> unat p < 2 ^ 48"
    by (rule empty_queue_nodes [OF q])
  let ?D = "MAKE_NODEPTR T" and ?c0 = "overtake_threads x y z w"
  have A: "?D \<noteq> 0" "a \<noteq> 0" "b \<noteq> 0" "e \<noteq> 0" "unat ?D < 2 ^ 48" "unat a < 2 ^ 48" "unat b < 2 ^ 48" "unat e < 2 ^ 48"
    using ad by simp_all
  have N: "?D \<noteq> a" "?D \<noteq> b" "?D \<noteq> e" "a \<noteq> b" "a \<noteq> e" "b \<noteq> e" "a \<noteq> ?D" "b \<noteq> ?D" "e \<noteq> ?D" "b \<noteq> a" "e \<noteq> a" "e \<noteq> b"
    using di by auto
  note S = m nx N
  obtain q1 k0 where r1: "queue_run (replicate 7 0) q ?c0 = Some (q1, ?c0(0 := Push_tail k0))" and k0: "MAKE_NODEPTR k0 = a" "k0 \<noteq> 0"
    and v1: "queue_view q1 T T 0 b ((lq_mem q)(a \<mapsto> na\<lparr>nd_value := x, nd_key := 0\<rparr>))"
    by (rule push_takes [OF v0 _ A(2,6) m(2), where t = 0 and c = ?c0 and x = x]) (simp_all add: overtake_threads_def nx)
  let ?m1 = "(lq_mem q)(a \<mapsto> na\<lparr>nd_value := x, nd_key := 0\<rparr>)" and ?c1 = "?c0(0 := Push_tail k0)"
  have r2: "queue_run (replicate 3 0) q1 ?c1 = Some (q1, ?c1(0 := Push_link k0 T))"
    by (rule push_tests [OF v1, where nd = nD]) (simp_all add: S)
  let ?c2 = "?c1(0 := Push_link k0 T)"
  obtain q3 k1 where r3: "queue_run (replicate 7 1) q1 ?c2 = Some (q3, ?c2(1 := Push_tail k1))" and k1: "MAKE_NODEPTR k1 = b" "k1 \<noteq> 0"
    and v3: "queue_view q3 T T 0 e (?m1(b \<mapsto> nb\<lparr>nd_value := y, nd_key := 0\<rparr>))"
    by (rule push_takes [OF v1 _ A(3,7), where t = 1 and c = ?c2 and x = y and nd = nb]) (simp_all add: overtake_threads_def S)
  let ?m3 = "?m1(b \<mapsto> nb\<lparr>nd_value := y, nd_key := 0\<rparr>)" and ?c3 = "?c2(1 := Push_tail k1)"
  obtain q4 where r4: "queue_run (replicate 6 1) q3 ?c3 = Some (q4, ?c3(1 := Push_done True))"
    and v4: "queue_view q4 T k1 1 e (?m3(?D \<mapsto> nD\<lparr>nd_key := k1\<rparr>))"
    by (rule push_finishes [OF v3, where t = 1 and c = ?c3 and k = k1 and nd = nD]) (simp_all add: S)
  let ?m4 = "?m3(?D \<mapsto> nD\<lparr>nd_key := k1\<rparr>)" and ?c4 = "?c3(1 := Push_done True)"
  have T1: "T \<noteq> k1" using k1(1) N by auto
  obtain q5 p5 where r5: "queue_run (replicate 12 3) q4 ?c4 = Some (q5, ?c4(3 := Pop_done (Some y)))" and p5: "MAKE_NODEPTR p5 = e"
    and v5: "queue_view q5 k1 k1 0 ?D (?m4(?D \<mapsto> nD\<lparr>nd_key := k1, nd_poolNext := p5\<rparr>))"
    by (rule pop_whole [OF v4, where t = 3 and c = ?c4 and nd = "nD\<lparr>nd_key := k1\<rparr>" and k = k1 and nk = "nb\<lparr>nd_value := y, nd_key := 0\<rparr>"])
      (use A(5) k1 T1 in \<open>simp_all add: S overtake_threads_def\<close>)
  let ?m5 = "?m4(?D \<mapsto> nD\<lparr>nd_key := k1, nd_poolNext := p5\<rparr>)" and ?c5 = "?c4(3 := Pop_done (Some y))"
  obtain q6 k2 where r6: "queue_run (replicate 7 2) q5 ?c5 = Some (q6, ?c5(2 := Push_tail k2))" and k2: "MAKE_NODEPTR k2 = ?D" "k2 \<noteq> 0"
    and v6: "queue_view q6 k1 k1 0 e (?m5(?D \<mapsto> nD\<lparr>nd_poolNext := p5, nd_value := z, nd_key := 0\<rparr>))"
    by (rule push_takes [OF v5 _ A(1,5), where t = 2 and c = ?c5 and x = z and nd = "nD\<lparr>nd_key := k1, nd_poolNext := p5\<rparr>"])
      (simp_all add: overtake_threads_def p5)
  let ?m6 = "?m5(?D \<mapsto> nD\<lparr>nd_poolNext := p5, nd_value := z, nd_key := 0\<rparr>)" and ?c6 = "?c5(2 := Push_tail k2)"
  obtain q7 where r7: "queue_run (replicate 3 0) q6 ?c6 = Some (q7, ?c6(0 := Push_done True))"
    and v7: "queue_view q7 k1 k1 1 e (?m6(?D \<mapsto> nD\<lparr>nd_poolNext := p5, nd_value := z, nd_key := k0\<rparr>))"
    by (rule push_links [OF v6, where t = 0 and c = ?c6 and k = k0 and old = T and nd = "nD\<lparr>nd_poolNext := p5, nd_value := z, nd_key := 0\<rparr>"])
      (use T1 in simp_all)
  let ?m7 = "?m6(?D \<mapsto> nD\<lparr>nd_poolNext := p5, nd_value := z, nd_key := k0\<rparr>)" and ?c7 = "?c6(0 := Push_done True)"
  have o: "overtaken q7 x z ?D a b e k1 k2"
    unfolding overtaken_def using v7 k0 k1 k2 di ad by (intro exI conjI) (assumption | simp add: S)+
  show thesis
  proof (rule that [OF _ o])
    show "queue_run overtake_before q ?c0 = Some (q7, ?c7)"
      unfolding overtake_before_def by (simp only: queue_run_append r1 r2 r3 r4 r5 r6 r7 bind.bind_lunit prod.case)
  qed (simp_all add: overtake_threads_def)
qed

lemma overtake_end:
  assumes "overtaken q x z D a b e k1 k2" and c: "c 7 = Push_number w" "c 2 = Push_tail k2" "\<forall>t \<in> {4, 5, 6}. c t = Pop_size"
  obtains q' d where "queue_run overtake_after q c = Some (q', d)" "d 7 = Push_done True" "d 2 = Push_done True"
    "d 4 = Pop_done (Some w)" "d 5 = Pop_done (Some z)" "d 6 = Pop_done (Some x)"
proof -
  obtain m k0 nD na nb ne where v7: "queue_view q k1 k1 1 e m"
    and S: "m D = Some nD" "nd_value nD = z" "nd_key nD = k0" "m a = Some na" "nd_value na = x" "m b = Some nb" "nd_key nb = 0" "m e = Some ne"
    and k: "MAKE_NODEPTR k0 = a" "MAKE_NODEPTR k1 = b" "MAKE_NODEPTR k2 = D" "k0 \<noteq> 0" "k2 \<noteq> 0"
    and di: "distinct [D, a, b, e]" and ad: "\<forall>p \<in> {D, a, b, e}. p \<noteq> 0 \<and> unat p < 2 ^ 48"
    using assms(1) unfolding overtaken_def by (elim exE conjE) (rule that)
  have A: "e \<noteq> 0" "unat D < 2 ^ 48" "unat b < 2 ^ 48" "unat e < 2 ^ 48" using ad by simp_all
  have N: "D \<noteq> a" "D \<noteq> b" "D \<noteq> e" "a \<noteq> b" "a \<noteq> e" "b \<noteq> e" "a \<noteq> D" "b \<noteq> D" "e \<noteq> D" "b \<noteq> a" "e \<noteq> a" "e \<noteq> b"
    using di by auto
  note S = S N
  obtain q8 k7 where r8: "queue_run (replicate 7 7) q c = Some (q8, c(7 := Push_tail k7))" and k7: "MAKE_NODEPTR k7 = e" "k7 \<noteq> 0"
    and v8: "queue_view q8 k1 k1 1 (MAKE_NODEPTR (nd_poolNext ne)) (m(e \<mapsto> ne\<lparr>nd_value := w, nd_key := 0\<rparr>))"
    by (rule push_takes [OF v7 _ A(1,4), where t = 7 and c = c and x = w and nd = ne]) (simp_all add: S c)
  let ?m8 = "m(e \<mapsto> ne\<lparr>nd_value := w, nd_key := 0\<rparr>)" and ?c8 = "c(7 := Push_tail k7)"
  obtain q9 where r9: "queue_run (replicate 6 7) q8 ?c8 = Some (q9, ?c8(7 := Push_done True))"
    and v9: "queue_view q9 k1 k7 2 (MAKE_NODEPTR (nd_poolNext ne)) (?m8(b \<mapsto> nb\<lparr>nd_key := k7\<rparr>))"
    by (rule push_finishes [OF v8, where t = 7 and c = ?c8 and k = k7 and nd = "nb"]) (simp_all add: S k)
  let ?m9 = "?m8(b \<mapsto> nb\<lparr>nd_key := k7\<rparr>)" and ?c9 = "?c8(7 := Push_done True)"
  have K: "k1 \<noteq> k2" "k7 \<noteq> k2" "k2 \<noteq> k0" using k k7 N by auto
  obtain q10 where r10: "queue_run (replicate 6 2) q9 ?c9 = Some (q10, ?c9(2 := Push_done True))"
    and v10: "queue_view q10 k1 k2 3 (MAKE_NODEPTR (nd_poolNext ne)) (?m9(e \<mapsto> ne\<lparr>nd_value := w, nd_key := k2\<rparr>))"
    by (rule push_finishes [OF v9, where t = 2 and c = ?c9 and k = k2 and nd = "ne\<lparr>nd_value := w, nd_key := 0\<rparr>"]) (simp_all add: S k7 c)
  let ?m10 = "?m9(e \<mapsto> ne\<lparr>nd_value := w, nd_key := k2\<rparr>)" and ?c10 = "?c9(2 := Push_done True)"
  obtain q11 p11 where r11: "queue_run (replicate 12 4) q10 ?c10 = Some (q11, ?c10(4 := Pop_done (Some w)))"
    and v11: "queue_view q11 k7 k2 2 b (?m10(b \<mapsto> nb\<lparr>nd_key := k7, nd_poolNext := p11\<rparr>))"
    by (rule pop_whole [OF v10, where t = 4 and c = ?c10 and nd = "nb\<lparr>nd_key := k7\<rparr>" and k = k7
          and nk = "ne\<lparr>nd_value := w, nd_key := k2\<rparr>"])
      (use A(3) k k7 K in \<open>simp_all add: S c\<close>)
  let ?m11 = "?m10(b \<mapsto> nb\<lparr>nd_key := k7, nd_poolNext := p11\<rparr>)" and ?c11 = "?c10(4 := Pop_done (Some w))"
  obtain q12 p12 where r12: "queue_run (replicate 12 5) q11 ?c11 = Some (q12, ?c11(5 := Pop_done (Some z)))"
    and v12: "queue_view q12 k2 k2 1 e (?m11(e \<mapsto> ne\<lparr>nd_value := w, nd_key := k2, nd_poolNext := p12\<rparr>))"
    by (rule pop_whole [OF v11, where t = 5 and c = ?c11 and nd = "ne\<lparr>nd_value := w, nd_key := k2\<rparr>" and k = k2
          and nk = "nD"])
      (use A(4) k k7 K in \<open>simp_all add: S c\<close>)
  let ?m12 = "?m11(e \<mapsto> ne\<lparr>nd_value := w, nd_key := k2, nd_poolNext := p12\<rparr>)" and ?c12 = "?c11(5 := Pop_done (Some z))"
  obtain q13 p13 where r13: "queue_run (replicate 17 6) q12 ?c12 = Some (q13, ?c12(6 := Pop_done (Some x)))"
    by (rule pop_lagging [OF v12, where t = 6 and c = ?c12 and nd = "nD" and k = k0
          and nk = "na"])
      (use A(2) k K in \<open>simp_all add: S c\<close>)
  show thesis
  proof (rule that)
    show "queue_run overtake_after q c = Some (q13, ?c12(6 := Pop_done (Some x)))"
      unfolding overtake_after_def by (simp only: queue_run_append r8 r9 r10 r11 r12 r13 bind.bind_lunit prod.case)
  qed simp_all
qed

end
