(* ===== verification/Packet_Bits.thy ===== *)
theory Packet_Bits
  imports Packet_Crypto
begin

text \<open>
  What the checksum of a packet detects. The cipher is chained with \<open>XOR\<close>, and the checksum is the sum of the payload modulo 256: a change of the
  last byte on the wire changes exactly one byte of the payload and is always detected; but a flip of the top bit of an earlier byte flips
  the top bits of the byte at its place and of the one two places on, and the two changes of the sum cancel.
\<close>

section \<open>Bytes and sums\<close>

text \<open>For a byte, flipping the top bit is adding \<open>128\<close>, so it commutes with addition.\<close>

lemma xor_top_bit: "(b :: byte) XOR 0x80 = b + 0x80"
proof -
  have "\<forall>b :: byte. b XOR 0x80 = b + 0x80" by code_simp
  then show ?thesis by blast
qed

definition flip :: "byte \<Rightarrow> byte" where
  "flip b = b XOR 0x80"

lemma flip_add: "flip a + b = flip (a + b)" "a + flip b = flip (a + b)"
  by (simp_all add: flip_def xor_top_bit)

lemma flip_xor: "flip a XOR b = flip (a XOR b)" "a XOR flip b = flip (a XOR b)" "flip (flip a) = a"
  by (simp_all add: flip_def ac_simps)

lemma xor_neq: "b \<noteq> 0 \<Longrightarrow> a XOR b \<noteq> a" for a b :: byte
proof
  assume "a XOR b = a" "b \<noteq> 0"
  then have "a XOR (a XOR b) = a XOR a" by (simp only:)
  then have "b = 0" by simp
  then show False using \<open>b \<noteq> 0\<close> by simp
qed

lemma flip_neq: "flip a \<noteq> a"
  unfolding flip_def by (rule xor_neq) simp

lemma sum_list_update_word:
  fixes xs :: "byte list"
  assumes "k < length xs"
  shows "sum_list (xs[k := y]) = sum_list xs - xs ! k + y"
  using assms by (induction xs arbitrary: k) (simp_all split: nat.splits)

section \<open>The cipher\<close>

lemma dec_loop_snoc_nonempty: "dec_loop sk dk i pP pE (xs @ [y]) \<noteq> []"
  using length_dec_loop [of sk dk i pP pE "xs @ [y]"] by (metis Zero_not_Suc length_append_singleton list.size(3))

lemma dec_loop_append:
  "dec_loop sk dk i pP pE (xs @ [y]) = dec_loop sk dk i pP pE xs @ [last (dec_loop sk dk i pP pE (xs @ [y]))]"
  by (induction xs arbitrary: i pP pE) (simp_all add: Let_def dec_loop_snoc_nonempty)

text \<open>The last byte of the input decides only the last byte of the output, and decides it.\<close>

lemma dec_loop_last:
  "last (dec_loop sk dk i pP pE (xs @ [y])) = last (dec_loop sk dk i pP pE (xs @ [x])) XOR (x XOR y)"
proof (induction xs arbitrary: i pP pE)
  case Nil
  have "(a XOR b) XOR c = ((d XOR b) XOR c) XOR (d XOR a)" for a b c d :: byte
    by (rule bit_word_eqI) (auto simp: bit_simps)
  then show ?case by (simp add: Let_def byte_arith)
next
  case (Cons a xs)
  show ?case using Cons.IH by (simp add: Let_def dec_loop_snoc_nonempty)
qed

lemma dec_loop_flip:
  assumes "j + 2 < length ts"
  shows "dec_loop sk dk i pP pE (ts[j := flip (ts ! j)]) =
    (dec_loop sk dk i pP pE ts)[j := flip (dec_loop sk dk i pP pE ts ! j),
                                j + 2 := flip (dec_loop sk dk i pP pE ts ! (j + 2))]"
  using assms
proof (induction ts arbitrary: i pP pE j)
  case (Cons t ts)
  show ?case
  proof (cases j)
    case (Suc k)
    then show ?thesis using Cons by (simp add: Let_def)
  next
    case 0
    then obtain u v ws where ts: "ts = u # v # ws" using Cons.prems by (cases ts; cases "tl ts") auto
    show ?thesis unfolding 0 ts by (simp add: Let_def byte_arith flip_add flip_xor)
  qed
qed simp

section \<open>A block with one byte changed\<close>

lemma crypt_put_byte:
  assumes "crypt_ok s h n" "k \<le> n"
  shows "s\<lparr>sz_mem := (sz_mem s)[4 + k := y]\<rparr> = crypt_put s ((crypt_span s n)[k := y])"
proof -
  have m: "5 + n \<le> length (sz_mem s)" by (rule crypt_okD(7) [OF assms(1)])
  let ?b = "take (n + 1) (drop 4 (sz_mem s))"
  have "sz_mem s = take 4 (sz_mem s) @ ?b @ drop (5 + n) (sz_mem s)"
    using append_take_drop_id [of "n + 1" "drop 4 (sz_mem s)"] by simp
  then have "(sz_mem s)[4 + k := y] = (take 4 (sz_mem s) @ ?b @ drop (5 + n) (sz_mem s))[4 + k := y]" by simp
  also have "\<dots> = take 4 (sz_mem s) @ ?b[k := y] @ drop (5 + n) (sz_mem s)"
    using m assms(2) by (simp add: list_update_append min_def)
  finally show ?thesis using m by (simp add: crypt_put_def crypt_span_def min_def)
qed

lemma decryption_changed:
  assumes c: "crypt_ok s h n" and t: "sz_to s = 5 + n" and k: "k \<le> n"
    and d: "dec_loop sk (nh_randKey h) 0 0 0 ((crypt_span s n)[k := y]) = cs # p"
  shows "decryption (s\<lparr>sz_mem := (sz_mem s)[4 + k := y]\<rparr>) sk =
    Some (crypt_put (s\<lparr>sz_mem := (sz_mem s)[4 + k := y]\<rparr>) ((cs - sum_list p) # p), cs = sum_list p)"
proof -
  let ?bs = "(crypt_span s n)[k := y]"
  have len: "length ?bs = n + 1" using crypt_okD(5) [OF c] by simp
  note P = crypt_put_ok [OF c len]
  have t': "sz_to (crypt_put s ?bs) = 5 + n" using t by (simp add: crypt_put_def)
  have r: "nh_randKey (h\<lparr>nh_checkSum := hd ?bs\<rparr>) = nh_randKey h" by simp
  show ?thesis
    unfolding crypt_put_byte [OF c k]
    by (rule decryption_spec [OF P(1) t']) (simp only: P(2) r d)
qed

lemma span_byte: "crypt_ok s h n \<Longrightarrow> k \<le> n \<Longrightarrow> crypt_span s n ! k = sz_mem s ! (4 + k)"
  using crypt_okD(7) [of s h n] by (simp add: crypt_span_def nth_drop [of 4])

lemma last_byte_detected:
  assumes c: "crypt_ok s h n" and t: "sz_to s = 5 + n"
    and d: "dec_loop sk (nh_randKey h) 0 0 0 (crypt_span s n) = cs # p" and ok: "cs = sum_list p"
    and n: "0 < n" and y: "y \<noteq> sz_mem s ! (4 + n)"
  shows "\<exists>s'. decryption (s\<lparr>sz_mem := (sz_mem s)[4 + n := y]\<rparr>) sk = Some (s', False)"
proof -
  let ?bs = "crypt_span s n"
  have len: "length ?bs = n + 1" by (rule crypt_okD(5) [OF c])
  then obtain xs x where bs: "?bs = xs @ [x]" "length xs = n" by (cases ?bs rule: rev_cases) auto
  have "?bs ! n = x" unfolding bs(1) using bs(2) by (simp add: nth_append)
  then have x: "x = sz_mem s ! (4 + n)" using span_byte [OF c order.refl] by simp
  let ?D = "\<lambda>ts. dec_loop sk (nh_randKey h) 0 0 0 ts"
  have eq: "cs # p = ?D xs @ [last (cs # p)]" using dec_loop_append [of sk "nh_randKey h" 0 0 0 xs x] d bs by simp
  have "length p = n" using d len length_dec_loop [of sk "nh_randKey h" 0 0 0 ?bs] by simp
  then have p: "p \<noteq> []" using n by auto
  have new: "?D (?bs[n := y]) = cs # butlast p @ [last p XOR (x XOR y)]"
  proof -
    have b: "?D xs = cs # butlast p" using eq p by (metis butlast.simps(2) butlast_snoc)
    have "?bs[n := y] = xs @ [y]" unfolding bs(1) by (simp add: list_update_append bs(2))
    then show ?thesis
      using dec_loop_append [of sk "nh_randKey h" 0 0 0 xs y] dec_loop_last [of sk "nh_randKey h" 0 0 0 xs y x] d bs b p by simp
  qed
  have "x XOR y \<noteq> 0"
  proof
    assume "x XOR y = 0"
    then have "x XOR (x XOR y) = x" by (simp only: xor.right_neutral)
    then show False using y x by simp
  qed
  then have ne: "last p XOR (x XOR y) \<noteq> last p" by (rule xor_neq)
  have "sum_list p = sum_list (butlast p) + last p" using p by (subst append_butlast_last_id [OF p, symmetric]) (simp del: append_butlast_last_id)
  then have "cs \<noteq> sum_list (butlast p @ [last p XOR (x XOR y)])" using ok ne by simp
  then show ?thesis using decryption_changed [OF c t order.refl new] by (simp only: simp_thms) blast
qed

lemma flip_undetected:
  assumes c: "crypt_ok s h n" and t: "sz_to s = 5 + n"
    and d: "dec_loop sk (nh_randKey h) 0 0 0 (crypt_span s n) = cs # p" and ok: "cs = sum_list p"
    and j: "j + 2 \<le> n"
  defines "s1 \<equiv> s\<lparr>sz_mem := (sz_mem s)[4 + j := sz_mem s ! (4 + j) XOR 0x80]\<rparr>"
  shows "\<exists>p'. decryption s1 sk = Some (crypt_put s1 (0 # p'), True) \<and> length p' = n \<and> p' \<noteq> p"
proof -
  let ?bs = "crypt_span s n" and ?q = "cs # p"
  have len: "length ?bs = n + 1" by (rule crypt_okD(5) [OF c])
  then have lq: "length p = n" using d length_dec_loop [of sk "nh_randKey h" 0 0 0 ?bs] by simp
  have b: "sz_mem s ! (4 + j) XOR 0x80 = flip (?bs ! j)" using span_byte [OF c, of j] j by (simp add: flip_def)
  have new: "dec_loop sk (nh_randKey h) 0 0 0 (?bs[j := sz_mem s ! (4 + j) XOR 0x80]) = ?q[j := flip (?q ! j), j + 2 := flip (?q ! (j + 2))]"
    unfolding b using dec_loop_flip [of j ?bs sk "nh_randKey h" 0 0 0] j len by (simp add: d)
  define p' where "p' = (case j of 0 \<Rightarrow> p | Suc k \<Rightarrow> p[k := flip (p ! k)])[j + 1 := flip (p ! (j + 1))]"
  define cs' where "cs' = (if j = 0 then flip cs else cs)"
  have q': "?q[j := flip (?q ! j), j + 2 := flip (?q ! (j + 2))] = cs' # p'"
    by (simp add: p'_def cs'_def split: nat.splits)
  have f: "flip a = a + 0x80" for a by (simp add: flip_def xor_top_bit)
  have "cs' = sum_list p'"
    using ok j lq by (cases j) (simp_all add: p'_def cs'_def sum_list_update_word f)
  moreover have "length p' = n" using lq by (simp add: p'_def split: nat.splits)
  moreover have "p' ! (j + 1) \<noteq> p ! (j + 1)" using j lq flip_neq by (simp add: p'_def split: nat.splits)
  ultimately show ?thesis
    using decryption_changed [OF c t _ new [unfolded q']] j unfolding s1_def by (intro exI [of _ p']) auto
qed

end
