(* ===== verification/Endless_Loop.thy ===== *)
theory Endless_Loop
  imports Login_Table Login_Stream
begin

text \<open>
  A header with the size -5 at the front of a receive buffer: the loop over the frames never takes a byte, whatever \<open>OnRecv\<close> does with the empty
  packet, so it never returns. \<open>OnRecv\<close> leaves every receive buffer alone (\<open>OnRecv_rings\<close>), which makes the header an
  invariant of the loop; and on blocks whose old contents it turns away, every turn runs to its end and the next one follows.
\<close>

section \<open>The receive buffers\<close>

definition rings :: "'a network_scheme \<Rightarrow> ringBuffer list" where
  "rings st = map ss_recvBuffer (nw_sessionArray st)"

lemma rings_same: "nw_sessionArray st' = nw_sessionArray st \<Longrightarrow> rings st' = rings st"
  by (simp add: rings_def)

lemma rings_more: "pheap.more st' = pheap.more st \<Longrightarrow> rings st' = rings st"
  by (rule rings_same) (rule network_of_more)

lemma rings_put:
  assumes "i < length (nw_sessionArray st)" "ss_recvBuffer s = ss_recvBuffer (nw_sessionArray st ! i)"
  shows "rings (session_put st i s) = rings st"
  using assms by (simp add: rings_def session_put_def map_update list_update_same_conv)

lemma rings_log [simp]: "rings (os_log st c) = rings st"
  by (rule rings_same) (simp add: os_log_def)

lemma disconnectReq_rings:
  assumes "net_inv refs st" "slot_used st sid" "disconnectReq od sid st = Some st'"
  shows "rings st' = rings st"
  using disconnectReq_spec [OF assms(1,2), of od] assms(2,3) by (auto simp: rings_put slot_used_def split: if_splits)

lemma sendReq_rings:
  assumes inv: "net_inv refs st" and used: "slot_used st sid" and r: "sendReq od sid p st = Some st'"
  shows "rings st' = rings st"
proof (cases "connected st sid")
  case True
  note N = sendReq_needs [OF inv used True r]
  then obtain ser where ser: "ser_at st p = Some ser" by blast
  have "unat (GET_INDEX sid) < length (nw_sessionArray st)" using used by (simp add: slot_used_def)
  moreover have "rings (ser_put x q y) = rings x" for x :: "'a network_scheme" and q y by (rule rings_same) simp
  ultimately show ?thesis using sendReq_spec [OF inv used ser N(2), of od] r True by (auto simp: rings_put)
next
  case False
  have "findSession od sid st = Some (st, None)" using find_spec [OF inv used, of od] False by simp
  then show ?thesis using r by (simp add: sendReq_def)
qed

lemma sendReq_packet_rings:
  assumes inv: "net_inv refs st" and used: "slot_used st sid" and r: "sendReq_packet od sid k st = Some st'"
  shows "rings st' = rings st"
proof -
  obtain st0 p where c: "packet_copy st k = Some (st0, p)" using r by (auto simp: sendReq_packet_def split: bind_splits)
  note E = sendReq_packet_eq [OF c]
  obtain st5 out where s5: "sendReq od sid (pk_buffer k) st0 = Some st5" and d: "packet_delete st5 p = Some (st', out)"
    using r by (auto simp: E(1) split: bind_splits)
  have n0: "neutral st st0" by (rule neutral_heap [OF E(2)])
  have "rings st5 = rings st0"
    by (rule sendReq_rings [OF neutral_inv [OF inv n0] _ s5]) (simp add: used used_more [OF E(2)])
  then show ?thesis using rings_more [OF E(2)] rings_more [OF packet_delete_more [OF d]] by simp
qed

text \<open>A response is written in the heap, and then sent.\<close>

lemma send_response_parts:
  assumes "send_response sid acc st = Some st'"
  obtains x k y out where "nw_sessionArray x = nw_sessionArray st" "nw_indexStack x = nw_indexStack st"
    "sendReq_packet OnDisconnect sid k x = Some y" "packet_delete y k = Some (st', out)"
proof -
  obtain st1 k st2 st3 key st4 st5 st6 out where
    s: "packet_new st = Some (st1, k)" "write_response (ls_env st1) acc (map (ls_stack st1) [0..<20]) st1 k = Some st2"
      "getRandKey st2 = Some (st3, key)" "packet_setHeader st3 k key = Some st4"
      "packet_encryption st4 k getStatickey = Some st5" "sendReq_packet OnDisconnect sid k st5 = Some st6"
      "packet_delete st6 k = Some (st', out)"
    using assms by (auto simp: send_response_def split: bind_splits)
  have m1: "pheap.more st1 = pheap.more st"
    using s(1) by (auto simp: packet_new_def pool_Alloc_def ser_inc_def ser_call_def ser_put_def split: bind_splits list.splits prod.splits)
  have m2: "pheap.more st2 = pheap.more st1"
    using s(2) by (auto simp: write_response_def packet_setWstring_def split: bind_splits dest!: packet_out_more)
  have m5: "pheap.more st4 = pheap.more st3" "pheap.more st5 = pheap.more st4"
    using s(4,5) by (auto simp: packet_setHeader_def packet_encryption_def dest: ser_call_more)
  have "nw_sessionArray st3 = nw_sessionArray st2" "nw_indexStack st3 = nw_indexStack st2"
    using s(3) by (auto simp: getRandKey_def split: list.splits)
  then have "nw_sessionArray st5 = nw_sessionArray st" "nw_indexStack st5 = nw_indexStack st"
    using network_of_more [OF m1] network_of_more [OF m2] network_of_more [OF m5(1)] network_of_more [OF m5(2)] by simp_all
  then show thesis by (rule that [OF _ _ s(6,7)])
qed

text \<open>What \<open>OnRecv\<close> comes to: the client is disconnected, or it gets a response.\<close>

lemma OnRecv_parts:
  assumes r: "OnRecv sid p st = Some st'"
  obtains (turned_away) x where "nw_sessionArray x = nw_sessionArray st" "nw_indexStack x = nw_indexStack st"
      "disconnectReq OnDisconnect sid x = Some st'"
    | (served) x acc where "nw_sessionArray x = nw_sessionArray st" "nw_indexStack x = nw_indexStack st"
      "send_response sid acc x = Some st'"
proof -
  obtain st1 c1 st2 c2 st3 c3 st4 ok where
    c: "ser_call st p shr_char = Some (st1, c1)" "ser_call st1 p shr_short = Some (st2, c2)"
      "ser_call st2 p shr_char = Some (st3, c3)" "ser_call st3 p (\<lambda>s. decryption s getStatickey) = Some (st4, ok)"
    using r by (auto simp: OnRecv_def split: bind_splits)
  have m4: "pheap.more st4 = pheap.more st" using c [THEN ser_call_more] by simp
  show thesis
  proof (cases ok)
    case False
    then have "disconnectReq OnDisconnect sid st4 = Some st'" using r c by (simp add: OnRecv_def)
    then show thesis by (rule turned_away [OF network_of_more [OF m4]])
  next
    case True
    obtain st5 cs st6 ty where
      d: "ser_call st4 p shr_char = Some (st5, cs)" "ser_call st5 p shr_ushort = Some (st6, ty)"
      using r c True by (auto simp: OnRecv_def split: bind_splits)
    have m6: "pheap.more st6 = pheap.more st" using m4 d [THEN ser_call_more] by simp
    show thesis
    proof (cases "ty = 101")
      case False
      then have "disconnectReq OnDisconnect sid st6 = Some st'" using r c True d by (simp add: OnRecv_def)
      then show thesis by (rule turned_away [OF network_of_more [OF m6]])
    next
      case ty: True
      obtain st7 acc ser st8 st9 where
        e: "ser_call st6 p shr_ulonglong = Some (st7, acc)" "sessionKeyCheckByDatabase acc st7 = Some (st8, True)"
          "redisUpdate acc p (sz_getHeadPtr ser) st8 = Some st9" "send_response sid acc st9 = Some st'"
        using r c True d ty by (auto simp: OnRecv_def sessionKeyCheckByDatabase_def split: bind_splits)
      have m7: "pheap.more st7 = pheap.more st" using m6 ser_call_more [OF e(1)] by simp
      have "nw_sessionArray st9 = nw_sessionArray st7" "nw_indexStack st9 = nw_indexStack st7"
        using e(2,3) by (auto simp: sessionKeyCheckByDatabase_def redisUpdate_def split: bind_splits)
      then show thesis using served [of st9 acc] network_of_more [OF m7] e(4) by simp
    qed
  qed
qed

lemma OnRecv_rings:
  assumes inv: "net_inv refs st" and used: "slot_used st sid" and r: "OnRecv sid p st = Some st'"
  shows "rings st' = rings st"
  using r
proof (cases rule: OnRecv_parts)
  case (turned_away x)
  have n: "neutral st x" by (rule neutral_same_array [OF turned_away(1,2)])
  show ?thesis
    using disconnectReq_rings [OF neutral_inv [OF inv n] neutral_used [OF inv n used] turned_away(3)] rings_same [OF turned_away(1)] by simp
next
  case (served x acc)
  obtain y k z out where y: "nw_sessionArray y = nw_sessionArray x" "nw_indexStack y = nw_indexStack x"
    "sendReq_packet OnDisconnect sid k y = Some z" "packet_delete z k = Some (st', out)"
    by (rule send_response_parts [OF served(3)])
  have n: "neutral st y" by (rule neutral_same_array) (simp_all add: y served)
  have "rings z = rings y" by (rule sendReq_packet_rings [OF neutral_inv [OF inv n] neutral_used [OF inv n used] y(3)])
  then show ?thesis using rings_same [OF served(1)] rings_same [OF y(1)] rings_more [OF packet_delete_more [OF y(4)]] by simp
qed

section \<open>The loop does not return\<close>

text \<open>A header with the size -5 makes \<open>recvedPacket\<close> report a packet and take nothing, whatever the block is.\<close>

lemma recvedPacket_nothing:
  assumes r: "recv_rep s bs" and f: "5 \<le> length bs" "frame_size bs = -5" and e: "recvedPacket s h p = Some (s1, h1, go)"
  shows "go" "recv_rep s1 bs"
proof -
  note D = recv_repD [OF r] and T = take_contents_frame [OF r f(1)]
  have n0: "5 + scast (frame_size bs) = (0 :: u64)" using f(2) by simp
  obtain rb where rb: "rb_pop (ss_recvBuffer s) 0 = Some (rb, [])" "rb_inv rb" "rb_contents rb = bs"
    "rb_cap rb = rb_cap (ss_recvBuffer s)"
    using ring.pop_law [OF D(1), of 0] r by (auto simp: recv_rep_def)
  have "go \<and> s1 = s\<lparr>ss_recvBuffer := rb\<rparr>"
    using e T n0 rb(1) by (auto simp: recvedPacket_def Let_def frame_size_def [symmetric] split: bind_splits)
  then show "go" "recv_rep s1 bs" using rb r by (simp_all add: recv_rep_def)
qed

definition stuck :: "nat \<Rightarrow> byte list \<Rightarrow> 'a network_scheme \<Rightarrow> bool" where
  "stuck i bs st \<longleftrightarrow> (\<exists>refs. net_inv refs st) \<and> i < length (nw_sessionArray st) \<and> \<not> on_stack st i \<and> recv_rep (nw_sessionArray st ! i) bs"

lemma recv_rep_ring: "ss_recvBuffer s' = ss_recvBuffer s \<Longrightarrow> recv_rep s' bs = recv_rep s bs"
  by (simp add: recv_rep_def)

lemma stuck_turn:
  assumes I: "stuck i bs st" and f: "5 \<le> length bs" "frame_size bs = -5"
    and t: "recv_turn login_callbacks ti i st = Some (st', go)"
  shows "go" "stuck i bs st'"
proof -
  obtain refs where inv: "net_inv refs st" using I by (auto simp: stuck_def)
  have i: "i < length (nw_sessionArray st)" "\<not> on_stack st i" "recv_rep (nw_sessionArray st ! i) bs" using I by (simp_all add: stuck_def)
  obtain s p h s1 h1 where s: "session_at st i = Some s" and rp: "recvedPacket s h p = Some (s1, h1, go)"
    and m: "pheap.more h1 = pheap.more st" and e: "s1 = s\<lparr>ss_recvBuffer := ss_recvBuffer s1\<rparr>"
    and "\<not> go \<longrightarrow> ser_release (session_put h1 i s1) p = Some st'"
    and g: "go \<longrightarrow> (\<exists>arr st2. OnRecv (ss_ID s1) p ((session_put h1 i s1)\<lparr>nw_recvMessageTPSArr := arr\<rparr>) = Some st2 \<and>
      ser_release st2 p = Some st')"
    by (rule recv_turn_cases [OF t, unfolded login_cb])
  have s': "nw_sessionArray st ! i = s" using s by (auto simp: session_at_def split: if_splits)
  note N = recvedPacket_nothing [OF i(3) [unfolded s'] f rp]
  show "go" by (rule N(1))
  then obtain arr st2 where st2: "OnRecv (ss_ID s1) p ((session_put h1 i s1)\<lparr>nw_recvMessageTPSArr := arr\<rparr>) = Some st2"
    "ser_release st2 p = Some st'"
    using g by blast
  let ?x = "(session_put h1 i s1)\<lparr>nw_recvMessageTPSArr := arr\<rparr>"
  have A: "nw_sessionArray h1 = nw_sessionArray st" "nw_indexStack h1 = nw_indexStack st" using network_of_more [OF m] by simp_all
  have n: "neutral st ?x"
  proof -
    have "neutral st h1" by (rule neutral_same_array) (simp_all add: A)
    moreover have "grow s s1" by (rule grow_same) (subst e, simp)+
    then have "neutral h1 (session_put h1 i s1)" using i(1) by (intro neutral_put) (simp_all add: A s', subst e, simp)
    moreover have "neutral (session_put h1 i s1) ?x" by (rule neutral_same_array) simp_all
    ultimately show ?thesis by (meson neutral_trans)
  qed
  have inv1: "net_inv refs ?x" by (rule neutral_inv [OF inv n])
  have x: "i < length (nw_sessionArray ?x)" "\<not> on_stack ?x i" "nw_sessionArray ?x ! i = s1"
    using i neutral_on_stack [OF n] by (simp_all add: A array_put_nth)
  have "slot_active i (refs i) s1" using net_inv_slot(2) [OF inv1 x(1,2)] x(3) by simp
  then have "unat (GET_INDEX (ss_ID s1)) = i" "ss_IOcount s1 \<noteq> 0" by (auto simp: slot_active_def slot_prof_def)
  then have used: "slot_used ?x (ss_ID s1)" using x by (simp add: slot_used_def)
  have rg: "rings st' = rings ?x"
    using OnRecv_rings [OF inv1 used st2(1)] rings_more [OF ser_release_more [OF st2(2)]] by simp
  have n': "neutral st st'" by (rule login.recv_turn_neutral [OF t inv i(1,2)])
  have l: "i < length (nw_sessionArray st')" "\<not> on_stack st' i" using n' i neutral_on_stack [OF n'] by (simp_all add: neutral_def)
  have "rings st' ! i = rings ?x ! i" by (simp only: rg)
  then have "ss_recvBuffer (nw_sessionArray st' ! i) = ss_recvBuffer s1" using l(1) x(1,3) by (simp add: rings_def)
  then have "recv_rep (nw_sessionArray st' ! i) bs" using N(2) recv_rep_ring by blast
  then show "stuck i bs st'" using l neutral_inv [OF inv n'] unfolding stuck_def by blast
qed

lemma stuck_never_returns:
  assumes "stuck i bs st" "5 \<le> length bs" "frame_size bs = -5"
  shows "recv_loop login_callbacks ti i st \<noteq> Some r"
proof
  assume r: "recv_loop login_callbacks ti i st = Some r"
  have False
    by (rule recv_loop_rule [OF r, of "stuck i bs" "\<lambda>_. False", OF assms(1)]) (use stuck_turn [OF _ assms(2,3)] in auto)
  then show False .
qed

section \<open>The turns\<close>

text \<open>
  What the pool hands out: an unused block whose old contents begin with a header that fits the block and with a checksum byte that does not
  decipher to 0. Only this byte is compared, because the packet has no payload.
\<close>

definition stale_block :: "serializer \<Rightarrow> bool" where
  "stale_block ser \<longleftrightarrow> sz_inv ser \<and> sz_referenceCounter ser = 0 \<and> 5 \<le> unat (sz_bufferSize ser) \<and>
     (let h = nh_of_bytes (take 5 (sz_mem ser)); n = unat (nh_size h)
      in n < 2 ^ 15 \<and> 5 + n \<le> unat (sz_bufferSize ser) \<and>
         hd (dec_loop getStatickey (nh_randKey h) 0 0 0 (take (n + 1) (drop 4 (sz_mem ser)))) \<noteq> 0)"

lemma recvedPacket_minus5:
  assumes r: "recv_rep s bs" and f: "5 \<le> length bs" "frame_size bs = -5"
    and ser: "ser_at h p = Some ser" "fresh_for ser 5"
  obtains s' ser' where "recvedPacket s h p = Some (s', ser_put h p ser', True)" "recv_rep s' bs"
    "sz_inv ser'" "sz_referenceCounter ser' = sz_referenceCounter ser"
    "s' = s\<lparr>ss_recvBuffer := ss_recvBuffer s'\<rparr>" "sz_ho ser' = 0" "sz_to ser' = 5" "sz_mem ser' = sz_mem ser"
    "sz_bufferSize ser' = sz_bufferSize ser"
proof -
  note D = recv_repD [OF r] and T = take_contents_frame [OF r f(1)] and F = ser(2) [unfolded fresh_for_def]
  have n0: "5 + scast (frame_size bs) = (0 :: u64)" using f(2) by simp
  obtain rb where rb: "rb_pop (ss_recvBuffer s) 0 = Some (rb, [])" "rb_inv rb" "rb_contents rb = bs"
    "rb_cap rb = rb_cap (ss_recvBuffer s)"
    using ring.pop_law [OF D(1), of 0] r by (auto simp: recv_rep_def)
  have w: "sz_write ser (sz_getBufferPtr ser) [] = Some ser"
    by (simp add: sz_write_def sz_getBufferPtr_def sz_off_def mem_simps)
  have th: "sz_tailPtr ser = sz_headPtr ser"
  proof -
    have "unat (sz_tailPtr ser - sz_bufferPtr ser) = unat (sz_headPtr ser - sz_bufferPtr ser)"
      using F by (simp add: sz_off_def)
    then show ?thesis by (simp add: word_unat_eq_iff [symmetric])
  qed
  have mr: "sz_moveRear ser (scast (frame_size bs)) = (ser, 0)"
  proof -
    have "sint (scast (frame_size bs) :: u32) = -5" "sint (scast (scast (frame_size bs) :: u32) :: u64) = -5"
      using f(2) by simp_all
    then show ?thesis by (simp add: sz_moveRear_def th Let_def)
  qed
  have h5: "5 \<le> sz_ho ser" using F by simp
  note B = sz_moveFront_back [OF conjunct1 [OF F] h5]
  let ?ser' = "ser\<lparr>sz_headPtr := sz_headPtr ser - 5\<rparr>"
  have o: "sz_ho ?ser' = 0" "sz_to ?ser' = 5" using B(2) F by simp_all
  have "recvedPacket s h p = Some (s\<lparr>ss_recvBuffer := rb\<rparr>, ser_put h p ?ser', True)"
    using T n0 rb(1) ser(1) w mr B(1) by (simp add: recvedPacket_def Let_def frame_size_def [symmetric])
  moreover have "recv_rep (s\<lparr>ss_recvBuffer := rb\<rparr>) bs" using rb r by (simp add: recv_rep_def)
  moreover have "sz_inv ?ser'" using F o by (simp add: sz_inv_def)
  ultimately show thesis using o that [of "s\<lparr>ss_recvBuffer := rb\<rparr>" ?ser'] by simp
qed

lemma OnRecv_stale:
  assumes p: "ser_at st p = Some ser" "sz_inv ser" "sz_ho ser = 0" "sz_to ser = 5" and c: "crypt_ok ser h n"
    and d: "hd (dec_loop getStatickey (nh_randKey h) 0 0 0 (crypt_span ser n)) \<noteq> 0"
  obtains ser' where "OnRecv sid p st = disconnectReq OnDisconnect sid (ser_put st p ser')"
    "sz_referenceCounter ser' = sz_referenceCounter ser"
proof -
  have nz: "p \<noteq> 0" by (rule ser_at_nonnull [OF p(1)])
  have h5: "5 \<le> sz_to ser" using p(4) by simp
  obtain c3 r where h: "do { (st1, code) \<leftarrow> ser_call st p shr_char; (st2, payloadSize) \<leftarrow> ser_call st1 p shr_short; ser_call st2 p shr_char } =
       Some (ser_put st p r, c3)" and r4: "reading ser r 4"
    by (rule reads_header [OF p(2,3) h5 p(1)])
  then obtain st1 c1 st2 c2 where h': "ser_call st p shr_char = Some (st1, c1)" "ser_call st1 p shr_short = Some (st2, c2)"
    "ser_call st2 p shr_char = Some (ser_put st p r, c3)"
    by (auto split: bind_splits)
  note rc = reading_crypt_ok [OF r4 c]
  obtain cs ds where cs: "dec_loop getStatickey (nh_randKey h) 0 0 0 (crypt_span r n) = cs # ds"
    using crypt_okD(5) [OF rc(1)] length_dec_loop [of getStatickey "nh_randKey h" 0 0 0 "crypt_span r n"]
    by (cases "dec_loop getStatickey (nh_randKey h) 0 0 0 (crypt_span r n)") auto
  have "cs \<noteq> 0" using d cs rc(2) by simp
  moreover have t: "sz_to r = 5 + 0" using rc(3) p(4) by simp
  ultimately have "decryption r getStatickey = Some (crypt_put r (cs # ds), False)"
    using decryption_part [OF rc(1) t _ cs] by simp
  then have "ser_call (ser_put st p r) p (\<lambda>s. decryption s getStatickey) = Some (ser_put st p (crypt_put r (cs # ds)), False)"
    by (simp add: ser_call_def ph_simps nz)
  then have "OnRecv sid p st = disconnectReq OnDisconnect sid (ser_put st p (crypt_put r (cs # ds)))"
    by (simp add: OnRecv_def h')
  moreover have "sz_referenceCounter (crypt_put r (cs # ds)) = sz_referenceCounter ser" using r4 by (simp add: reading_def crypt_put_def)
  ultimately show thesis by (rule that)
qed

lemma recv_turn_block:
  assumes "ph_supply st = p # ps" "ser_at st p = Some ser" "session_at st i = Some s"
    and "recvedPacket s (ser_put (st\<lparr>ph_supply := ps\<rparr>) p (recv_block ser)) p = Some (s1, h1, True)"
    and "0 \<le> sint ti" "unat ti < length (nw_recvMessageTPSArr (session_put h1 i s1))"
  defines "arr \<equiv> nw_recvMessageTPSArr (session_put h1 i s1)"
  shows "recv_turn cb ti i st =
     do { st2 \<leftarrow> cb_OnRecv cb (ss_ID s1) p ((session_put h1 i s1)\<lparr>nw_recvMessageTPSArr := arr[unat ti := arr ! unat ti + 1]\<rparr>);
          st3 \<leftarrow> ser_release st2 p; Some (st3, True) }"
proof -
  have nz: "p \<noteq> 0" by (rule ser_at_nonnull [OF assms(2)])
  let ?h = "st\<lparr>ph_supply := ps\<rparr>"
  let ?c = "(sz_clear ser)\<lparr>sz_referenceCounter := sz_referenceCounter ser + 1\<rparr>"
  have at1: "ser_at (ser_put ?h p (sz_clear ser)) p = Some (sz_clear ser)" by (simp add: ph_simps nz)
  have inc: "ser_inc (ser_put ?h p (sz_clear ser)) p 1 = Some (ser_put ?h p ?c, sz_referenceCounter ser + 1)"
    using ser_inc_Some [OF at1, of 1] by (simp add: ph_simps sz_clear_def)
  have beg: "ser_call (ser_put ?h p ?c) p (\<lambda>s. Some (sz_begin s, ())) = Some (ser_put ?h p (recv_block ser), ())"
    by (simp add: ser_call_def ph_simps nz recv_block_def)
  have s: "session_at ?h i = Some s" using assms(3) by (auto simp: session_at_def split: if_splits)
  have tps: "tps_add arr ti 1 = Some (arr[unat ti := arr ! unat ti + 1])" using assms(5,6) by (simp add: tps_add_def arr_def)
  show ?thesis
    by (simp add: recv_turn_def serializerAlloc_spec [OF assms(1,2)] inc beg s assms(4) Let_def tps [unfolded arr_def] arr_def)
qed

lemma stale_turn:
  assumes inv: "net_inv refs st" and c: "connected st sid"
    and s: "session_at st (unat (GET_INDEX sid)) = Some s" "recv_rep s bs" and f: "5 \<le> length bs" "frame_size bs = -5"
    and p: "ph_supply st = p # ps" "ser_at st p = Some ser" "stale_block ser"
    and ti: "0 \<le> sint ti" "unat ti < length (nw_recvMessageTPSArr st)"
  defines "i \<equiv> unat (GET_INDEX sid)"
  obtains st' s' where "recv_turn login_callbacks ti i st = Some (st', True)" "ph_supply st' = ps"
    "\<forall>q. q \<noteq> p \<longrightarrow> ser_at st' q = ser_at st q" "session_at st' i = Some s'" "recv_rep s' bs" "hasCancelIOFlag s'" "ss_socket s' = ss_socket s"
    "length (nw_recvMessageTPSArr st') = length (nw_recvMessageTPSArr st)"
    "os_calls st' = [CancelIoEx (ss_socket s) Send_io, CancelIoEx (ss_socket s) Recv_io] @ os_calls st"
proof -
  have nz: "p \<noteq> 0" by (rule ser_at_nonnull [OF p(2)])
  have i: "i < length (nw_sessionArray st)" "nw_sessionArray st ! i = s" using session_atD [OF s(1)] by (simp_all add: i_def)
  have id: "ss_ID s = sid" using c i(2) by (simp add: connected_def i_def)
  define h n where "h = nh_of_bytes (take 5 (sz_mem ser))" and "n = unat (nh_size h)"
  have S: "sz_inv ser" "sz_referenceCounter ser = 0" "5 \<le> unat (sz_bufferSize ser)" "n < 2 ^ 15" "5 + n \<le> unat (sz_bufferSize ser)"
    "hd (dec_loop getStatickey (nh_randKey h) 0 0 0 (take (n + 1) (drop 4 (sz_mem ser)))) \<noteq> 0"
    using p(3) by (simp_all add: stale_block_def h_def n_def Let_def)
  let ?h = "ser_put (st\<lparr>ph_supply := ps\<rparr>) p (recv_block ser)"
  have at: "ser_at ?h p = Some (recv_block ser)" by (simp add: ph_simps nz)
  note B = recv_block_spec [OF S(1,3,3)]
  obtain s1 ser1 where R: "recvedPacket s ?h p = Some (s1, ser_put ?h p ser1, True)" "recv_rep s1 bs" "sz_inv ser1"
    "sz_referenceCounter ser1 = sz_referenceCounter (recv_block ser)" "s1 = s\<lparr>ss_recvBuffer := ss_recvBuffer s1\<rparr>"
    "sz_ho ser1 = 0" "sz_to ser1 = 5" "sz_mem ser1 = sz_mem (recv_block ser)" "sz_bufferSize ser1 = sz_bufferSize (recv_block ser)"
    by (rule recvedPacket_minus5 [OF s(2) f at B(1)])
  have id1: "ss_ID s1 = sid" "ss_socket s1 = ss_socket s" by (subst R(5), simp add: id)+
  let ?w = "session_put (ser_put ?h p ser1) i s1"
  let ?arr = "nw_recvMessageTPSArr st"
  have a: "nw_recvMessageTPSArr ?w = ?arr" by (simp add: session_put_def ser_put_def)
  let ?x = "?w\<lparr>nw_recvMessageTPSArr := ?arr[unat ti := ?arr ! unat ti + 1]\<rparr>"
  have turn: "recv_turn login_callbacks ti i st = do { st2 \<leftarrow> OnRecv sid p ?x; st3 \<leftarrow> ser_release st2 p; Some (st3, True) }"
    using recv_turn_block [OF p(1,2) s(1) [folded i_def] R(1) ti(1), of login_callbacks] ti(2) unfolding a id1 by simp
  have nx: "neutral st ?x"
  proof -
    have "neutral st (ser_put ?h p ser1)" by (rule neutral_same_array) simp_all
    moreover have "grow s s1" by (rule grow_same) (subst R(5), simp)+
    then have "neutral (ser_put ?h p ser1) ?w" using i by (intro neutral_put) (simp_all, subst R(5), simp)
    moreover have "neutral ?w ?x" by (rule neutral_same_array) simp_all
    ultimately show ?thesis by (meson neutral_trans)
  qed
  have atx: "ser_at ?x p = Some ser1" using nz by (simp add: ser_at_def ser_put_def session_put_def)
  have ok: "crypt_ok ser1 h n" and sp: "crypt_span ser1 n = take (n + 1) (drop 4 (sz_mem ser))"
    using R(3,8,9) B(3,4) S by (simp_all add: crypt_ok_def crypt_span_def h_def n_def)
  obtain ser2 where O: "OnRecv sid p ?x = disconnectReq OnDisconnect sid (ser_put ?x p ser2)" "sz_referenceCounter ser2 = sz_referenceCounter ser1"
    by (rule OnRecv_stale [OF atx R(3,6,7) ok]) (use S(6) sp in simp)
  let ?y = "ser_put ?x p ser2"
  have ny: "neutral st ?y" by (rule neutral_trans [OF nx neutral_same_array]) simp_all
  have cy: "connected ?y sid" by (rule neutral_used_conn [OF inv ny c])
  have yi: "nw_sessionArray ?y ! i = s1" using i(1) by (simp add: array_put_nth)
  let ?s2 = "s1\<lparr>ss_cancelIOFlag := 1\<rparr>"
  let ?z = "os_log (os_log (session_put ?y i ?s2) (CancelIoEx (ss_socket s) Recv_io)) (CancelIoEx (ss_socket s) Send_io)"
  have dr: "disconnectReq OnDisconnect sid ?y = Some ?z"
    using disconnectReq_spec [OF neutral_inv [OF inv ny] connected_used [OF neutral_inv [OF inv ny] cy], of OnDisconnect] cy
    by (simp only: i_def [symmetric] yi id1(2) if_True)
  have atz: "ser_at ?z p = Some ser2" using nz by (simp add: ser_at_def ser_put_def session_put_def os_log_def)
  have rc: "sz_referenceCounter ser2 = 1" using O(2) R(4) B(2) S(2) by simp
  let ?r = "serializerFree (ser_put ?z p (ser2\<lparr>sz_referenceCounter := 0\<rparr>)) p"
  have "ser_release ?z p = Some ?r" using ser_release_Some [OF atz] rc by simp
  then have t: "recv_turn login_callbacks ti i st = Some (?r, True)" using turn O(1) dr by simp
  have rr: "recv_rep ?s2 bs" using R(2) by (simp add: recv_rep_def)
  show thesis
    by (rule that [OF t _ _ _ rr])
      (use i(1) id1(2) in \<open>simp_all add: serializerFree_def pool_Free_def ser_at_def ser_put_def session_put_def os_log_def session_at_def hasCancelIOFlag_def\<close>)
qed

lemma stale_turns:
  assumes "net_inv refs st" "connected st sid" "session_at st (unat (GET_INDEX sid)) = Some s" "recv_rep s bs"
    and f: "5 \<le> length bs" "frame_size bs = -5"
    and "ph_supply st = ps @ qs" "distinct ps" "\<forall>p \<in> set ps. \<exists>ser. ser_at st p = Some ser \<and> stale_block ser"
    and ti: "0 \<le> sint ti" "unat ti < length (nw_recvMessageTPSArr st)"
  shows "\<exists>st' s'. recv_turns login_callbacks ti (unat (GET_INDEX sid)) (length ps) st = Some st' \<and> ph_supply st' = qs \<and>
    session_at st' (unat (GET_INDEX sid)) = Some s' \<and> recv_rep s' bs \<and> (ps \<noteq> [] \<longrightarrow> hasCancelIOFlag s') \<and>
    os_calls st' = concat (replicate (length ps) [CancelIoEx (ss_socket s) Send_io, CancelIoEx (ss_socket s) Recv_io]) @ os_calls st"
  using assms
proof (induction ps arbitrary: st s)
  case (Cons p ps)
  let ?i = "unat (GET_INDEX sid)"
  obtain ser where ser: "ser_at st p = Some ser" "stale_block ser" using Cons.prems(9) by auto
  obtain st1 s1 where T: "recv_turn login_callbacks ti ?i st = Some (st1, True)" "ph_supply st1 = ps @ qs"
    "\<forall>q. q \<noteq> p \<longrightarrow> ser_at st1 q = ser_at st q" "session_at st1 ?i = Some s1" "recv_rep s1 bs" "hasCancelIOFlag s1" "ss_socket s1 = ss_socket s"
    "length (nw_recvMessageTPSArr st1) = length (nw_recvMessageTPSArr st)"
    "os_calls st1 = [CancelIoEx (ss_socket s) Send_io, CancelIoEx (ss_socket s) Recv_io] @ os_calls st"
    by (rule stale_turn [OF Cons.prems(1-4) f _ ser Cons.prems(10,11)]) (use Cons.prems(7) in simp)
  have i: "?i < length (nw_sessionArray st)" "\<not> on_stack st ?i" using Cons.prems(2) by (simp_all add: connected_def)
  have n: "neutral st st1" by (rule login.recv_turn_neutral [OF T(1) Cons.prems(1) i])
  have b: "\<forall>q \<in> set ps. \<exists>ser. ser_at st1 q = Some ser \<and> stale_block ser" using Cons.prems(8,9) T(3) by (metis distinct.simps(2) list.set_intros(2))
  have l: "unat ti < length (nw_recvMessageTPSArr st1)" using Cons.prems(11) T(8) by simp
  obtain st' s' where R: "recv_turns login_callbacks ti ?i (length ps) st1 = Some st'" "ph_supply st' = qs"
    "session_at st' ?i = Some s'" "recv_rep s' bs" "ps \<noteq> [] \<longrightarrow> hasCancelIOFlag s'"
    "os_calls st' = concat (replicate (length ps) [CancelIoEx (ss_socket s1) Send_io, CancelIoEx (ss_socket s1) Recv_io]) @ os_calls st1"
    using Cons.IH [OF neutral_inv [OF Cons.prems(1) n] neutral_used_conn [OF Cons.prems(1) n Cons.prems(2)] T(4,5) f T(2) _ b ti(1) l]
      Cons.prems(8) by auto
  have h: "hasCancelIOFlag s'" using R(1,3,5) T(4,6) by (cases ps) auto
  have "recv_turns login_callbacks ti ?i (length (p # ps)) st = Some st'" using T(1) R(1) by simp
  moreover have "concat (replicate k [x, y]) @ [x, y] = [x, y] @ concat (replicate k [x, y])" for k and x y :: os_call
    by (induction k) simp_all
  then have "os_calls st' = concat (replicate (length (p # ps)) [CancelIoEx (ss_socket s) Send_io, CancelIoEx (ss_socket s) Recv_io]) @ os_calls st"
    using R(6) T(7,9) by simp
  ultimately show ?case using R(2-4) h by blast
qed simp

end
