(* ===== verification/Examples.thy ===== *)
theory Examples
  imports Login_Stream Login_Table Single_Consumer Packet_Stranded Overtaking Packet_Bits Endless_Loop
begin

text \<open>
  Concrete states for the instances of the properties: small buffers written out, and a run of the server that
  is started by its own operations.
\<close>

section \<open>Buffers\<close>

definition ex_ring :: ringBuffer where
  "ex_ring = \<lparr>rb_bufferSize = 8, rb_maxSize = 7, rb_buffer = [1, 2, 3, 4, 5, 6, 7, 8], rb_headPtr = 5, rb_tailPtr = 1\<rparr>"

lemma ex_ring_inv: "rb_inv ex_ring"
  by (auto simp: rb_inv_def ex_ring_def intro!: exI [of _ 3])

lemma ex_ring_size: "rb_size ex_ring = 4" "rb_bufferSize ex_ring = 8"
  by (simp_all add: rb_size_def ex_ring_def)

lemma ex_ring_contents: "rb_contents ex_ring = [7, 8, 1, 2]"
  unfolding rb_contents_def ex_ring_size cyc_read_def by (simp add: ex_ring_def upt_rec)

text \<open>An allocator that always has room, with two different addresses for the two kinds of memory.\<close>

definition ex_env :: mem_env where
  "ex_env = \<lparr>env_alloc = (\<lambda>heap n. if heap then 0x20000 else 0x10000), env_raw = (\<lambda>i. 0xCD)\<rparr>"

definition ex_ser :: "u64 \<Rightarrow> serializer" where
  "ex_ser n = serializer_new_size ex_env n"

lemma ex_ser:
  assumes "unat n < 2 ^ 31"
  shows "sz_inv (ex_ser n)" "sz_data (ex_ser n) = []" "sz_room (ex_ser n) = unat n" "sz_ho (ex_ser n) = 0"
    "sz_to (ex_ser n) = 0" "sz_bufferSize (ex_ser n) = n" "sz_referenceCounter (ex_ser n) = 0"
proof -
  have a: "env_alloc ex_env False n \<noteq> 0" by (simp add: ex_env_def)
  show "sz_inv (ex_ser n)" "sz_data (ex_ser n) = []" "sz_room (ex_ser n) = unat n"
    using serializer_new_size_spec [OF a assms] by (simp_all add: ex_ser_def)
  show "sz_ho (ex_ser n) = 0" "sz_to (ex_ser n) = 0" "sz_bufferSize (ex_ser n) = n" "sz_referenceCounter (ex_ser n) = 0"
    by (simp_all add: ex_ser_def serializer_new_size_def sz_off_def Let_def)
qed

text \<open>A block of 1024 bytes that holds the bytes \<open>d\<close>.\<close>

lemma ex_block:
  assumes "length d \<le> 1024"
  obtains s where "sz_put ex_env (ex_ser 1024) d = Some s" "sz_inv s" "sz_data s = d" "sz_ho s = 0"
    "sz_to s = length d" "sz_bufferSize s = 1024" "sz_referenceCounter s = 0"
  using sz_put_spec [of "ex_ser 1024" d ex_env] ex_ser [of 1024] assms by auto

text \<open>A block that holds one byte.\<close>

definition ex_one :: serializer where
  "ex_one = the (sz_put ex_env (ex_ser 1024) [7])"

lemma ex_one: "sz_inv ex_one" "sz_data ex_one = [7]" "sz_ho ex_one = 0" "sz_to ex_one = 1" "sz_referenceCounter ex_one = 0"
  "sz_size ex_one = 1" "sz_bufferSize ex_one = 1024"
proof -
  obtain s where s: "sz_put ex_env (ex_ser 1024) [7] = Some s" "sz_inv s" "sz_data s = [7]" "sz_ho s = 0" "sz_to s = length [7::byte]"
    "sz_bufferSize s = 1024" "sz_referenceCounter s = 0"
    by (rule ex_block [of "[7]"]) simp_all
  have e: "ex_one = s" by (simp add: ex_one_def s(1))
  show "sz_inv ex_one" "sz_data ex_one = [7]" "sz_ho ex_one = 0" "sz_to ex_one = 1" "sz_referenceCounter ex_one = 0"
    "sz_bufferSize ex_one = 1024"
    using s by (simp_all add: e)
  have "unat (sz_size ex_one) = 1" using unat_sz_size [of ex_one] s by (simp add: e)
  then show "sz_size ex_one = 1" by (simp add: word_unat_eq_iff)
qed

section \<open>Queues\<close>

definition ex_malloc :: "nat \<Rightarrow> u64" where
  "ex_malloc i = of_nat (64 * (i + 1))"

lemma ex_malloc: "good_malloc ex_malloc 256"
proof -
  have u: "unat (ex_malloc i) = 64 * (i + 1)" if "i < 256" for i
    using that unfolding ex_malloc_def by (simp only: unat_of_nat) simp
  show ?thesis
    unfolding good_malloc_def
  proof (intro conjI inj_onI allI impI)
    fix i j assume ij: "i \<in> {0..<256::nat}" "j \<in> {0..<256::nat}" and e: "ex_malloc i = ex_malloc j"
    have "unat (ex_malloc i) = unat (ex_malloc j)" by (simp only: e)
    then have "64 * (i + 1) = 64 * (j + 1)" using ij by (simp only: u atLeastLessThan_iff)
    then show "i = j" by simp
  next
    fix i :: nat assume i: "i < 256"
    show "unat (ex_malloc i) < 2 ^ 48" unfolding u [OF i] using i by simp
    have "unat (ex_malloc i) \<noteq> 0" unfolding u [OF i] by simp
    then show "ex_malloc i \<noteq> 0" by auto
  qed
qed

section \<open>A run of the server\<close>

text \<open>Uninitialised members, with two different addresses for the two \<open>OVERLAPPED\<close> structures.\<close>

definition ex_junk :: session where
  "ex_junk = \<lparr>ss_ID = 0, ss_core = 0, ss_socket = 0, ss_port = 0, ss_ip = 0, ss_sendFlag = 0, ss_IOcount = 0,
     ss_cancelIOFlag = 0, ss_sendBuffer = \<lparr>lq_pushs = 0, lq_head = 0, lq_tail = 0, lq_np = nodePool_empty 0, lq_size = 0\<rparr>,
     ss_sendOverlapped = 0x1000000000000001, ss_recvOverlapped = 0x1000000000000002,
     ss_sendedBuffer = ex_ring, ss_recvBuffer = ex_ring, ss_releaseFlag = 0, ss_inflight = []\<rparr>"

definition ex_start_env :: start_env where
  "ex_start_env = \<lparr>se_WSAStartup = 0, se_socket = 3, se_bind = 0, se_listen = 0, se_IOCP = 9, se_GetLastError = 0,
     se_session = (\<lambda>i. session_new ex_junk (\<lambda>_. 0xCC) (\<lambda>_. node_new) 0 ex_malloc), se_counter = (\<lambda>_. 0),
     se_acceptThread = 20, se_workerThread = (\<lambda>i. if i = 0 then 30 else if i = 1 then 31 else 32), se_networkThread = 40\<rparr>"

text \<open>
  Before the start: a heap with 64 free blocks of 1024 bytes for packets, a database that is connected and
  has no rows, and an operating system that lets every operation begin.
\<close>

definition ex_boot :: loginServer where
  "ex_boot = \<lparr>ph_ser = (\<lambda>_. Some (ex_ser 1024)), ph_supply = map (\<lambda>i. of_nat (4096 * (i + 1))) [0..<64], ph_freed = [],
     os_answers = replicate 16 0, os_calls = [],
     nw_runningThreadCount = 0, nw_workerThreadCount = 0, nw_acceptTPSArr = 0, nw_recvMessageTPSArr = [], nw_sendMessageTPSArr = [],
     nw_acceptTotal = 0, nw_acceptTPS = 0, nw_recvMessageTPS = 0, nw_sendMessageTPS = 0, nw_sessionArray = [], nw_indexStack = [],
     nw_listen_socket = INVALID_SOCKET, nw_IOCP = 0, nw_hAcceptThread = 0, nw_hNetworkThread = 0, nw_threadIndexMap = [],
     nw_sessionCount = 0, nw_maxSession = 0, nw_isRun = False,
     ls_timeoutThreshold = 10000, ls_IOThreadSize = 10, ls_run = True, ls_connectionMap = [], ls_conns = Map.empty,
     ls_connSupply = [0x100, 0x200, 0x300], ls_mysql = \<lparr>my_conn = 5, my_mysqlConnect = 5, my_new = [], my_connects = [],
       my_queries = replicate 64 0, my_results = replicate 64 [], my_closed = [], my_calls = []\<rparr>,
     ls_redis = \<lparr>rd_TLSRedisClient = 7, rd_new = 0, rd_replies = [], rd_calls = []\<rparr>, ls_tick = 500, ls_rand = replicate 64 41, ls_stack = (\<lambda>i. 0), ls_env = ex_env\<rparr>"

text \<open>Started with two slots and three worker threads.\<close>

definition ex_started :: loginServer where
  "ex_started = fst (the (start login_callbacks ex_start_env 0 2 3 1 ex_boot))"

text \<open>A client has connected.\<close>

definition ex_accepted :: loginServer where
  "ex_accepted = the (accept_step login_callbacks 77 0x0100007F 4000 ex_started)"

lemma ex_fresh: "fresh_sessions ex_start_env n"
  unfolding fresh_sessions_def
  by (intro allI impI exI conjI) (rule ex_malloc, simp add: ex_start_env_def)

lemma ex_start_ok: "start_ok ex_start_env"
  by (simp add: start_ok_def ex_start_env_def)

lemma session_overlapped:
  assumes "session_new junk raw nraw pc malloc = Some s"
  shows "ss_sendOverlapped s = ss_sendOverlapped junk" "ss_recvOverlapped s = ss_recvOverlapped junk"
    "ss_cancelIOFlag s = ss_cancelIOFlag junk" "ss_sendFlag s = 0" "ss_ID s = 0"
  using assms by (auto simp: session_new_def session_make_def split: bind_splits)

lemma ex_started:
  shows "start login_callbacks ex_start_env 0 2 3 1 ex_boot = Some (ex_started, True)" "net_inv (\<lambda>_. 0) ex_started"
    "length (nw_sessionArray ex_started) = 2" "nw_maxSession ex_started = 2" "nw_indexStack ex_started = [0, 1]" "nw_isRun ex_started"
    "nw_sessionCount ex_started = 0" "length (nw_recvMessageTPSArr ex_started) = 3" "length (nw_sendMessageTPSArr ex_started) = 3"
    "ph_ser ex_started = ph_ser ex_boot" "ph_supply ex_started = ph_supply ex_boot" "os_answers ex_started = os_answers ex_boot"
    "network.more ex_started = network.more ex_boot"
    "i < 2 \<Longrightarrow> send_rep (nw_sessionArray ex_started ! i) [] [] \<and> recv_rep (nw_sessionArray ex_started ! i) [] \<and>
       ss_sendOverlapped (nw_sessionArray ex_started ! i) = 0x1000000000000001 \<and>
       ss_recvOverlapped (nw_sessionArray ex_started ! i) = 0x1000000000000002 \<and>
       ss_IOcount (nw_sessionArray ex_started ! i) = 0 \<and> ss_inflight (nw_sessionArray ex_started ! i) = [] \<and>
       ss_ID (nw_sessionArray ex_started ! i) = 0"
proof -
  have e: "nw_indexStack ex_boot = []" by (simp add: ex_boot_def)
  obtain st' where s: "start login_callbacks ex_start_env 0 2 3 1 ex_boot = Some (st', True)" "net_inv (\<lambda>_. 0) st'"
    "length (nw_sessionArray st') = unat (2::u16)" "nw_maxSession st' = of_nat (unat (2::u16))"
    "nw_indexStack st' = map of_nat [0..<unat (2::u16)]" "nw_isRun st'"
    "\<forall>s \<in> set (nw_sessionArray st'). send_rep s [] [] \<and> recv_rep s [] \<and> ss_IOcount s = 0 \<and> ss_inflight s = []"
    "length (nw_recvMessageTPSArr st') = unat (3::byte)" "length (nw_sendMessageTPSArr st') = unat (3::byte)" "nw_sessionCount st' = 0"
    "ph_ser st' = ph_ser ex_boot" "ph_supply st' = ph_supply ex_boot" "os_answers st' = os_answers ex_boot"
    "network.more st' = network.more ex_boot"
    "\<And>i. i < unat (2::u16) \<Longrightarrow> \<exists>s. se_session ex_start_env i = Some s \<and> nw_sessionArray st' ! i = s\<lparr>ss_core := 0\<rparr>"
    by (rule start_spec [OF ex_start_ok ex_fresh e]) blast
  have st: "ex_started = st'" by (simp add: ex_started_def s(1))
  show "start login_callbacks ex_start_env 0 2 3 1 ex_boot = Some (ex_started, True)" "net_inv (\<lambda>_. 0) ex_started"
    "length (nw_sessionArray ex_started) = 2" "nw_maxSession ex_started = 2" "nw_indexStack ex_started = [0, 1]" "nw_isRun ex_started"
    "nw_sessionCount ex_started = 0" "length (nw_recvMessageTPSArr ex_started) = 3" "length (nw_sendMessageTPSArr ex_started) = 3"
    "ph_ser ex_started = ph_ser ex_boot" "ph_supply ex_started = ph_supply ex_boot" "os_answers ex_started = os_answers ex_boot"
    "network.more ex_started = network.more ex_boot"
    using s(1-14) by (simp_all add: st upt_rec)
  assume i: "i < 2"
  then obtain s0 where s0: "se_session ex_start_env i = Some s0" "nw_sessionArray st' ! i = s0\<lparr>ss_core := 0\<rparr>"
    using s(15) [of i] by auto
  then have "session_new ex_junk (\<lambda>_. 0xCC) (\<lambda>_. node_new) 0 ex_malloc = Some s0" by (simp add: ex_start_env_def)
  then have "ss_sendOverlapped s0 = 0x1000000000000001" "ss_recvOverlapped s0 = 0x1000000000000002"
    "ss_ID s0 = 0"
    using session_overlapped by (simp_all add: ex_junk_def)
  moreover have "nw_sessionArray st' ! i \<in> set (nw_sessionArray st')" using i s(3) by simp
  ultimately show "send_rep (nw_sessionArray ex_started ! i) [] [] \<and> recv_rep (nw_sessionArray ex_started ! i) [] \<and>
       ss_sendOverlapped (nw_sessionArray ex_started ! i) = 0x1000000000000001 \<and>
       ss_recvOverlapped (nw_sessionArray ex_started ! i) = 0x1000000000000002 \<and>
       ss_IOcount (nw_sessionArray ex_started ! i) = 0 \<and> ss_inflight (nw_sessionArray ex_started ! i) = [] \<and>
       ss_ID (nw_sessionArray ex_started ! i) = 0"
    using s(7) s0(2) by (simp add: st)
qed

lemma app_more:
  assumes "network.more (st' :: loginServer) = network.more st"
  shows "ls_connSupply st' = ls_connSupply st \<and> ls_connectionMap st' = ls_connectionMap st \<and> ls_tick st' = ls_tick st \<and>
    ls_rand st' = ls_rand st \<and> ls_stack st' = ls_stack st \<and> ls_mysql st' = ls_mysql st \<and> ls_redis st' = ls_redis st \<and>
    ls_conns st' = ls_conns st \<and> ls_timeoutThreshold st' = ls_timeoutThreshold st \<and> ls_run st' = ls_run st"
  using assms by (cases st, cases st') simp

lemma ex_app:
  "ls_connSupply ex_started = [0x100, 0x200, 0x300]" "ls_connectionMap ex_started = []" "ls_tick ex_started = 500"
  "ls_rand ex_started = replicate 64 41" "ls_stack ex_started = (\<lambda>_. 0)" "ls_mysql ex_started = ls_mysql ex_boot"
  "ls_redis ex_started = ls_redis ex_boot" "ls_conns ex_started = Map.empty" "ls_timeoutThreshold ex_started = 10000"
  "ls_run ex_started"
  using app_more [OF ex_started(13)] by (simp_all add: ex_boot_def del: upt_rec_numeral)

definition ex_client :: session where
  "ex_client = accepted_session (nw_sessionArray ex_started ! 0) 0 77 4000 0x0100007F"

lemma ex_client:
  shows "send_rep ex_client [] []" "recv_rep ex_client []" "ss_IOcount ex_client = 1" "ss_inflight ex_client = [Recv_io]"
    "ss_sendFlag ex_client = 0" "ss_ID ex_client = 0" "ss_socket ex_client = 77" "\<not> hasCancelIOFlag ex_client"
    "ss_sendOverlapped ex_client = 0x1000000000000001" "ss_recvOverlapped ex_client = 0x1000000000000002"
  using ex_started(14) [of 0]
  by (simp_all add: ex_client_def accepted_session_def send_rep_def recv_rep_def hasCancelIOFlag_def)

lemma ex_accepted:
  shows "accept_step login_callbacks 77 0x0100007F 4000 ex_started = Some ex_accepted" "net_inv (\<lambda>_. 0) ex_accepted"
    "connected ex_accepted 0" "session_at ex_accepted 0 = Some ex_client" "nw_sessionArray ex_accepted ! 0 = ex_client"
    "length (nw_sessionArray ex_accepted) = 2" "nw_indexStack ex_accepted = [1]" "ls_connectionMap ex_accepted = [(0, 0x100)]"
    "ls_conns ex_accepted 0x100 = Some (connectionData_new 500 0x0100007F)" "ls_tick ex_accepted = 500"
    "ls_timeoutThreshold ex_accepted = 10000"
    "ph_ser ex_accepted = ph_ser ex_boot" "ph_supply ex_accepted = ph_supply ex_boot" "os_answers ex_accepted = replicate 15 0"
    "length (nw_recvMessageTPSArr ex_accepted) = 3" "length (nw_sendMessageTPSArr ex_accepted) = 3"
    "ls_rand ex_accepted = replicate 64 41" "ls_stack ex_accepted = (\<lambda>_. 0)" "ls_mysql ex_accepted = ls_mysql ex_boot"
    "ls_redis ex_accepted = ls_redis ex_boot"
proof -
  have "replicate 16 0 = (0::u32) # replicate 15 0" by (simp add: numeral_eq_Suc)
  then have ans: "os_answers ex_started = 0 # replicate 15 0" by (simp add: ex_started(12) ex_boot_def del: upt_rec_numeral)
  have sid: "MAKE_SESSION_ID (nw_sessionCount ex_started) 0 = 0" by (simp add: MAKE_SESSION_ID_def ex_started(7))
  have inv: "(77::u64) \<noteq> INVALID_SOCKET" "(0::u32) = 0 \<or> (0::u32) = WSA_IO_PENDING" by simp_all
  obtain st' where s: "accept_step login_callbacks 77 0x0100007F 4000 ex_started = Some st'"
    "nw_sessionArray st' = (nw_sessionArray ex_started)[unat (0::u16) := accepted_session (nw_sessionArray ex_started ! unat (0::u16)) 0 77 4000 0x0100007F]"
    "nw_indexStack st' = [1]" "connected st' 0"
    "ls_connectionMap st' = AList.update 0 0x100 (ls_connectionMap ex_started)"
    "ls_conns st' 0x100 = Some (connectionData_new (ls_tick ex_started) 0x0100007F)"
    "ph_ser st' = ph_ser ex_started" "ph_supply st' = ph_supply ex_started" "os_answers st' = replicate 15 0"
    "nw_recvMessageTPSArr st' = nw_recvMessageTPSArr ex_started" "nw_sendMessageTPSArr st' = nw_sendMessageTPSArr ex_started"
    "ls_mysql st' = ls_mysql ex_started" "ls_redis st' = ls_redis ex_started"
    "ls_rand st' = ls_rand ex_started" "ls_stack st' = ls_stack ex_started" "ls_tick st' = ls_tick ex_started"
    "ls_timeoutThreshold st' = ls_timeoutThreshold ex_started"
    by (rule accept_spec [OF ex_started(2,5) inv(1) ex_app(1) ans inv(2), unfolded sid]) blast
  have e: "ex_accepted = st'" by (simp add: ex_accepted_def s(1))
  show "accept_step login_callbacks 77 0x0100007F 4000 ex_started = Some ex_accepted" using s(1) e by simp
  then show "net_inv (\<lambda>_. 0) ex_accepted" by (rule login.accept_inv [OF ex_started(2)])
  have arr: "nw_sessionArray ex_accepted = (nw_sessionArray ex_started)[0 := ex_client]" using s(2) by (simp add: e ex_client_def)
  show "nw_sessionArray ex_accepted ! 0 = ex_client" "length (nw_sessionArray ex_accepted) = 2"
    "session_at ex_accepted 0 = Some ex_client"
    using ex_started(3) by (simp_all add: arr session_at_def)
  show "connected ex_accepted 0" "nw_indexStack ex_accepted = [1]" "ls_connectionMap ex_accepted = [(0, 0x100)]"
    "ls_conns ex_accepted 0x100 = Some (connectionData_new 500 0x0100007F)" "ls_tick ex_accepted = 500"
    "ls_timeoutThreshold ex_accepted = 10000"
    "ph_ser ex_accepted = ph_ser ex_boot" "ph_supply ex_accepted = ph_supply ex_boot" "os_answers ex_accepted = replicate 15 0"
    "length (nw_recvMessageTPSArr ex_accepted) = 3" "length (nw_sendMessageTPSArr ex_accepted) = 3"
    "ls_rand ex_accepted = replicate 64 41" "ls_stack ex_accepted = (\<lambda>_. 0)" "ls_mysql ex_accepted = ls_mysql ex_boot"
    "ls_redis ex_accepted = ls_redis ex_boot"
    using s(3-17) ex_app ex_started(8-11) by (simp_all add: e)
qed

lemma ex_accepted_reach: "server_reach ex_started ex_accepted"
  by (rule server_net [OF server_start step_accept [OF ex_accepted(1)]])

lemma ex_accepted_more: "nw_sessionCount ex_accepted = 1" "ls_connSupply ex_accepted = [0x200, 0x300]" "nw_maxSession ex_accepted = 2"
  "ls_run ex_accepted" "nw_sessionArray ex_accepted ! 1 = nw_sessionArray ex_started ! 1"
proof -
  have ans: "os_answers ex_started = 0 # replicate 15 0" by (simp add: ex_started(12) ex_boot_def numeral_eq_Suc del: upt_rec_numeral)
  have ok: "(77::u64) \<noteq> INVALID_SOCKET" "(0::u32) = 0 \<or> (0::u32) = WSA_IO_PENDING" by simp_all
  obtain st' where s: "accept_step login_callbacks 77 0x0100007F 4000 ex_started = Some st'"
    "nw_sessionCount st' = nw_sessionCount ex_started + 1" "ls_connSupply st' = [0x200, 0x300]" "nw_maxSession st' = nw_maxSession ex_started"
    "ls_run st' = ls_run ex_started"
    "nw_sessionArray st' = (nw_sessionArray ex_started)[unat (0::u16) := accepted_session (nw_sessionArray ex_started ! unat (0::u16))
       (MAKE_SESSION_ID (nw_sessionCount ex_started) 0) 77 4000 0x0100007F]"
    by (rule accept_spec [OF ex_started(2,5) ok(1) ex_app(1) ans ok(2)]) blast
  have "ex_accepted = st'" by (simp add: ex_accepted_def s(1))
  then show "nw_sessionCount ex_accepted = 1" "ls_connSupply ex_accepted = [0x200, 0x300]" "nw_maxSession ex_accepted = 2"
    "ls_run ex_accepted" "nw_sessionArray ex_accepted ! 1 = nw_sessionArray ex_started ! 1"
    using s(2-6) ex_started(4,7) ex_app(10) by simp_all
qed

section \<open>A request\<close>

text \<open>Every payload of up to 1000 bytes has a block that carries it.\<close>

lemma ex_wire:
  assumes "length d \<le> 1000"
  obtains w where "wire_block w 0x32 d"
proof -
  have b: "sz_inv (ex_ser 1024)" "5 \<le> unat (sz_bufferSize (ex_ser 1024))" using ex_ser [of 1024] by simp_all
  note f = response_begin(1) [OF b, of 0] response_begin(2) [OF b]
  have n: "5 + length ([] :: byte list) + length d \<le> unat (sz_bufferSize ((sz_begin (ex_ser 1024))\<lparr>sz_referenceCounter := 0\<rparr>))"
    using assms f(2) ex_ser [of 1024] by simp
  obtain s where s: "filled s ([] @ d)" by (rule filled_put [OF f(1) n, of ex_env]) blast
  have fs: "filled s d" "length d < 2 ^ 15" using s assms by simp_all
  obtain s2 where "wire_block s2 0x32 d"
    by (rule filled_wire [OF fs, where p = 1 and h = ex_boot and key = 7 and sk = "0x32"]) simp_all
  then show thesis by (rule that)
qed

definition ex_key :: "byte list" where
  "ex_key = replicate 64 0x41"

lemma ex_request:
  obtains w where "wire_block w 0x32 (login_request 4711 ex_key [])" "request_frame (sz_data w) (4711, ex_key)"
    "length (sz_data w) = 79" "parse_frames (sz_data w) = Some ([sz_data w], [])"
proof -
  have l: "length (login_request 4711 ex_key []) = 74" by (simp add: login_request_def ex_key_def)
  then have "length (login_request 4711 ex_key []) \<le> 1000" by simp
  then obtain w where w: "wire_block w 0x32 (login_request 4711 ex_key [])" by (rule ex_wire)
  have "length (sz_data w) = 79" using w l by (simp add: wire_block_def)
  moreover have "request_frame (sz_data w) (4711, ex_key)"
    using w unfolding request_frame_def by (auto simp: ex_key_def)
  moreover have "parse_frames (sz_data w) = Some ([sz_data w], [])"
    using parse_wire [of "[(w, login_request 4711 ex_key [])]" "0x32"] w by simp
  ultimately show thesis using w that by blast
qed

lemma ex_pool: "pool_ready 64 ex_accepted"
  unfolding pool_ready_def
proof (intro conjI ballI)
  have s: "ph_supply ex_accepted = map (\<lambda>i. of_nat (4096 * (i + 1))) [0..<64]" by (simp only: ex_accepted(13) ex_boot_def) simp
  have u: "unat (of_nat (4096 * (i + 1)) :: u64) = 4096 * (i + 1)" if "i < 64" for i :: nat
    using that by (simp only: unat_of_nat) simp
  show "64 \<le> length (ph_supply ex_accepted)" by (simp add: s del: upt_rec_numeral)
  have "inj_on (\<lambda>i. of_nat (4096 * (i + 1)) :: u64) {0..<64}"
  proof (rule inj_onI)
    fix i j :: nat assume ij: "i \<in> {0..<64}" "j \<in> {0..<64}" and e: "(of_nat (4096 * (i + 1)) :: u64) = of_nat (4096 * (j + 1))"
    have "unat (of_nat (4096 * (i + 1)) :: u64) = unat (of_nat (4096 * (j + 1)) :: u64)" by (simp only: e)
    then have "4096 * (i + 1) = 4096 * (j + 1)" using ij by (simp only: u atLeastLessThan_iff)
    then show "i = j" by simp
  qed
  then show "distinct (ph_supply ex_accepted)" by (simp only: s distinct_map distinct_upt set_upt)
  fix p assume "p \<in> set (ph_supply ex_accepted)"
  then obtain i where i: "i < 64" "p = of_nat (4096 * (i + 1))" by (auto simp: s simp del: upt_rec_numeral of_nat_mult of_nat_add)
  then have "p \<noteq> 0" using u [of i] by auto
  then have "ser_at ex_accepted p = Some (ex_ser 1024)" by (simp add: ser_at_def ex_accepted(12)) (simp add: ex_boot_def)
  then show "\<exists>ser. ser_at ex_accepted p = Some ser \<and> sz_inv ser \<and> 255 \<le> unat (sz_bufferSize ser) \<and> sz_referenceCounter ser = 0"
    using ex_ser [of 1024] by simp
qed

lemma ex_db: "n \<le> 64 \<Longrightarrow> db_ready n (ls_mysql ex_accepted)"
proof -
  have "db_ready 64 (ls_mysql ex_boot)" by (auto simp: db_ready_def ex_boot_def in_set_replicate)
  then show "n \<le> 64 \<Longrightarrow> db_ready n (ls_mysql ex_accepted)" using db_less by (simp add: ex_accepted(19))
qed

section \<open>A queue with four nodes\<close>

definition ex_nodes :: "u64 \<rightharpoonup> node" where
  "ex_nodes = [64 \<mapsto> \<lparr>nd_value = 0, nd_key = 0, nd_poolNext = 0\<rparr>,
     128 \<mapsto> \<lparr>nd_value = 0, nd_key = 0, nd_poolNext = 64\<rparr>,
     192 \<mapsto> \<lparr>nd_value = 0, nd_key = 0, nd_poolNext = MAKE_KEY 128 1\<rparr>,
     256 \<mapsto> \<lparr>nd_value = 0, nd_key = 0, nd_poolNext = MAKE_KEY 192 2\<rparr>]"

definition ex_queue :: lfq where
  "ex_queue = \<lparr>lq_pushs = 0, lq_head = 256, lq_tail = 256,
     lq_np = \<lparr>np_maxSize = 4, np_useSize = 1, np_topKey = MAKE_KEY 192 2, np_pushCount = 4, np_heap = 0, np_mem = ex_nodes\<rparr>,
     lq_size = 0\<rparr>"

lemma ex_queue_start: "lfq_new (\<lambda>_. node_new) 0 ex_malloc 4 = Some ex_queue"
proof -
  let ?p = "\<lparr>np_maxSize = 4, np_useSize = 0, np_topKey = MAKE_KEY 256 3, np_pushCount = 4, np_heap = 0, np_mem = ex_nodes\<rparr>"
  have "[0..<4] = [0, 1, 2, 3::nat]" by (simp add: upt_rec)
  then have "map ex_malloc [0..<nat (sint (4::u32))] = [64, 128, 192, 256]" by (simp add: ex_malloc_def)
  then have "nodePool_new (\<lambda>_. node_new) 0 ex_malloc 4 = Some ?p"
    by (simp add: nodePool_new_def nodePool_empty_def ex_nodes_def node_new_def) (simp add: MAKE_KEY_def)
  moreover have "np_Alloc ?p = Some (?p\<lparr>np_topKey := MAKE_KEY 192 2, np_useSize := 1\<rparr>, 256)"
    by (subst np_Alloc.simps) (simp add: NODEPTR_KEY ex_nodes_def Let_def cas_def)
  ultimately show ?thesis
    by (simp add: lfq_new_def nd_upd_def ex_queue_def ex_nodes_def)
qed

section \<open>Two threads that push and one that pops\<close>

fun sys_run :: "nat list \<Rightarrow> queue_sys \<Rightarrow> queue_sys option" where
  "sys_run [] s = Some s"
| "sys_run (t # ts) s = (case queue_pc_step (qs_pc s t) (qs_q s) of None \<Rightarrow> None
     | Some (q, c) \<Rightarrow> sys_run ts (s\<lparr>qs_q := q, qs_pc := (qs_pc s)(t := c), qs_in := qs_in s @ accepted c, qs_out := qs_out s @ returned c\<rparr>))"

lemma takes_at_most_one: "takes_number c \<le> 1"
  by (cases c rule: takes_number.cases) simp_all

lemma sys_run_reach:
  assumes "queue_reach s0 m s" "sys_run ts s = Some s'"
  shows "\<exists>m' \<le> m + length ts. queue_reach s0 m' s'" "t \<notin> set ts \<Longrightarrow> qs_pc s' t = qs_pc s t"
proof -
  have "(\<exists>m' \<le> m + length ts. queue_reach s0 m' s') \<and> (t \<notin> set ts \<longrightarrow> qs_pc s' t = qs_pc s t)"
    using assms
  proof (induction ts arbitrary: s m)
    case (Cons u ts)
    obtain q c where st: "queue_pc_step (qs_pc s u) (qs_q s) = Some (q, c)"
      and r: "sys_run ts (s\<lparr>qs_q := q, qs_pc := (qs_pc s)(u := c), qs_in := qs_in s @ accepted c, qs_out := qs_out s @ returned c\<rparr>) = Some s'"
      using Cons.prems(2) by (auto split: option.splits)
    obtain m' where m': "m' \<le> m + takes_number (qs_pc s u) + length ts" "queue_reach s0 m' s'"
      and pc: "t \<notin> set ts \<Longrightarrow> qs_pc s' t = (if t = u then c else qs_pc s t)"
      using Cons.IH [OF queue_reach_access [OF Cons.prems(1) st] r] by auto
    have "m' \<le> m + length (u # ts)" using m'(1) takes_at_most_one [of "qs_pc s u"] by simp
    then show ?case using m'(2) pc by auto
  qed auto
  then show "\<exists>m' \<le> m + length ts. queue_reach s0 m' s'" "t \<notin> set ts \<Longrightarrow> qs_pc s' t = qs_pc s t" by blast+
qed

text \<open>Thread 1 pushes while thread 0 is about to link its node, so that thread 0 has to try again; then thread 2 pops.\<close>

definition three_calls :: queue_sys where
  "three_calls = \<lparr>qs_q = ex_queue, qs_pc = (\<lambda>_. Push_done True)(0 := Push_number 7, 1 := Push_number 8, 2 := Pop_size), qs_in = [], qs_out = []\<rparr>"

definition three_schedule :: "nat list" where
  "three_schedule = replicate 10 0 @ replicate 13 1 @ replicate 7 0 @ replicate 12 2"

lemma three_reach: "queue_reach (queue_start ex_queue) 0 three_calls"
proof -
  let ?s = "queue_start ex_queue" let ?c = "\<lambda>_::nat. Push_done True"
  have 0: "queue_reach ?s 0 (?s\<lparr>qs_pc := ?c(0 := Push_number 7)\<rparr>)"
    using queue_reach_push [OF queue_reach_start [of ?s], of 0 7] by (simp add: queue_start_def)
  have 1: "queue_reach ?s 0 (?s\<lparr>qs_pc := ?c(0 := Push_number 7, 1 := Push_number 8)\<rparr>)"
    using queue_reach_push [OF 0, of 1 8] by simp
  have "queue_reach ?s 0 (?s\<lparr>qs_pc := ?c(0 := Push_number 7, 1 := Push_number 8, 2 := Pop_size)\<rparr>)"
    using queue_reach_pop [OF 1, of 2] by simp
  then show ?thesis by (simp add: queue_start_def three_calls_def)
qed

lemma three_run: "case sys_run three_schedule three_calls of None \<Rightarrow> False
  | Some s \<Rightarrow> qs_in s = [7, 8] \<and> qs_out s = [8] \<and> idle (qs_pc s 0) \<and> idle (qs_pc s 1) \<and> idle (qs_pc s 2)"
  by code_simp

section \<open>One slot and two threads\<close>

definition ex_slot :: slot where
  "ex_slot = os.extend (os.truncate ex_boot) (slot.fields (nw_sessionArray ex_started ! 0) 0 1 [] [] 0)"

lemma ex_slot:
  "sl_session ex_slot = nw_sessionArray ex_started ! 0" "sl_index ex_slot = 0" "sl_free ex_slot = 1" "sl_given ex_slot = []"
  "sl_gone ex_slot = []" "sl_lost ex_slot = 0" "ph_ser ex_slot = ph_ser ex_boot" "os_answers ex_slot = os_answers ex_boot"
  by (simp_all add: ex_slot_def os.defs slot.defs)

lemma ex_slot_fresh: "slot_fresh ex_slot"
  using ex_started(14) [of 0] by (simp add: slot_fresh_def ex_slot)

text \<open>A client is accepted by thread 0, and thread 1 finds its session in order to disconnect it; then both go on to the end.\<close>

definition ex_meet :: "slot_move list" where
  "ex_meet = [Begin 0 (Call_accept 0 77 4000 0x0100007F), Go 0, Go 0, Go 0, Go 0, Go 0, Go 0, Go 0, Go 0,
     Begin 1 (Call_request Disconnect 0), Go 1, Go 1]"

definition ex_part :: "slot_move list" where
  "ex_part = [Go 1, Go 0, Go 1, Go 0, Go 0, Go 0, Go 0, Go 0, Go 0, Go 0]"

lemma two_refs: "slot_refs 2 st c = pc_refs (c 0) + pc_refs (c 1) + length (ss_inflight (sl_session st)) + sl_lost st"
  by (simp add: slot_refs_def numeral_2_eq_2)

lemma ex_meet_try:
  "slot_try 2 ex_meet ex_slot (\<lambda>_. Slot_idle) =
     Some ((sl_put ex_slot ((session_init (sl_session ex_slot) 0 77 4000 0x0100007F)\<lparr>ss_IOcount := 2\<rparr>))\<lparr>sl_free := 0, sl_given := [0]\<rparr>,
       (\<lambda>_. Slot_idle)(0 := Recv_test, 1 := Found Disconnect 0))"
  using ex_slot_fresh
  by (simp add: ex_meet_def ex_slot slot_step_def slot_fresh_def incrementIO_def Let_def MAKE_SESSION_ID_def two_refs session_init_def)

lemma ex_meet_reach:
  "\<exists>st. slot_reach 2 ex_slot st ((\<lambda>_. Slot_idle)(0 := Recv_test, 1 := Found Disconnect 0)) \<and> sl_given st = [0]"
  using slot_try_reach [OF slot_reach_start [OF ex_slot_fresh] ex_meet_try] by force

text \<open>Both threads go on: the client is disconnected, and the accept thread, which gives the last reference back, deletes the session.\<close>

lemma ex_part_try:
  "\<exists>st c. slot_try 2 (ex_meet @ ex_part) ex_slot (\<lambda>_. Slot_idle) = Some (st, c) \<and> c 0 = Slot_idle \<and> c 1 = Slot_idle \<and>
     sl_free st = 1 \<and> sl_given st = [0] \<and> sl_gone st = [0]"
proof -
  let ?s = "(session_init (sl_session ex_slot) 0 77 4000 0x0100007F)\<lparr>ss_IOcount := 0x80000000, ss_cancelIOFlag := 1\<rparr>"
  have f: "ss_inflight (sl_session ex_slot) = []" using ex_slot_fresh by (simp add: slot_fresh_def)
  have r: "lfq_rep (ss_sendBuffer ?s) [] 255" "rb_inv (ss_sendedBuffer ?s)" "rb_contents (ss_sendedBuffer ?s) = ptr_bytes []" "rb_inv (ss_recvBuffer ?s)"
    using ex_started(14) [of 0] by (simp_all add: ex_slot send_rep_def recv_rep_def session_init_def incrementIO_def Let_def)
  have c: "\<exists>q d b h'. bufferClear ?s h = Some (?s\<lparr>ss_sendBuffer := q, ss_sendedBuffer := d, ss_recvBuffer := b\<rparr>, h') \<and> pheap.more h' = pheap.more h"
    for h :: slot
  proof -
    have v: "valid_ptrs h ([] @ [])" by simp
    obtain s' h' where b: "bufferClear ?s h = Some (s', h')" by (rule bufferClear_spec [OF r(1-3) v r(4)])
    show ?thesis using b bufferClear_frame [OF b] by metis
  qed
  let ?st1 = "(sl_put ex_slot ((session_init (sl_session ex_slot) 0 77 4000 0x0100007F)\<lparr>ss_IOcount := 2\<rparr>))\<lparr>sl_free := 0, sl_given := [0]\<rparr>"
  let ?st2 = "os_log (os_log (os_log (?st1\<lparr>sl_session := ?s\<rparr>) (CancelIoEx 77 Recv_io)) (CancelIoEx 77 Send_io)) (CloseSocket 77)"
  let ?c = "(\<lambda>_. Slot_idle)(0 := Recv_test, 1 := Found Disconnect 0)"
  have 1: "slot_try 2 [Go 1, Go 0, Go 1, Go 0, Go 0, Go 0, Go 0] ?st1 ?c = Some (?st2, (\<lambda>_. Slot_idle)(0 := Del_clear 0 0))"
    using f
    by (simp add: ex_slot slot_step_def decrementIO_def cancelIORegist_def Let_def two_refs session_init_def incrementIO_def
        hasCancelIOFlag_def cas_def os_log_def fun_eq_iff)
  obtain q d b h' where b: "bufferClear ?s ?st2 = Some (?s\<lparr>ss_sendBuffer := q, ss_sendedBuffer := d, ss_recvBuffer := b\<rparr>, h')"
    "pheap.more h' = pheap.more ?st2" using c [of ?st2] by blast
  note h = slot_of_more [OF b(2)]
  have 2: "slot_try 2 [Go 0, Go 0, Go 0] ?st2 ((\<lambda>_. Slot_idle)(0 := Del_clear 0 0)) =
      Some ((sl_put h' (?s\<lparr>ss_sendBuffer := q, ss_sendedBuffer := d, ss_recvBuffer := b\<rparr>))\<lparr>sl_free := 1, sl_gone := [0]\<rparr>, (\<lambda>_. Slot_idle))"
    using f b(1) h by (simp add: ex_slot slot_step_def two_refs session_init_def incrementIO_def Let_def GET_INDEX_def fun_upd_idem fun_eq_iff)
  have p: "ex_part = [Go 1, Go 0, Go 1, Go 0, Go 0, Go 0, Go 0] @ [Go 0, Go 0, Go 0]" by (simp add: ex_part_def)
  show ?thesis
    unfolding p slot_try_append ex_meet_try using 1 2 h by (simp add: ex_slot del: slot_try.simps)
qed

section \<open>Three posted packets\<close>

definition ex_posted :: slot where
  "ex_posted = ex_slot\<lparr>ph_ser := Map.empty(0x1000 \<mapsto> ex_one, 0x2000 \<mapsto> ex_one), os_answers := [0],
     sl_session := ex_client\<lparr>ss_IOcount := 4,
       ss_inflight := [Post_io (0x3000 OR 0x4000000000000000), Post_io (0x2000 OR 0x4000000000000000),
         Post_io (0x1000 OR 0x4000000000000000), Recv_io]\<rparr>\<rparr>"

lemma ex_posted:
  "conn ex_posted [] [] 0 4 [Post_io (0x3000 OR 0x4000000000000000), Post_io (0x2000 OR 0x4000000000000000),
     Post_io (0x1000 OR 0x4000000000000000), Recv_io] {0x1000000000000001, 0x1000000000000002}"
  "valid_ptrs ex_posted [0x1000, 0x2000]" "ptr_size ex_posted 0x1000 = 1" "ptr_size ex_posted 0x2000 = 1" "os_answers ex_posted = [0]"
  using ex_client by (simp_all add: ex_posted_def conn_def Let_def recv_rep_def hasCancelIOFlag_def valid_ptrs_def ptr_size_def ser_at_def ex_one)

end
