(* ===== verification/Cpp_Redis.thy ===== *)
theory Cpp_Redis
  imports Text "HOL-Library.List_Lexorder" "HOL-Library.Char_ord"
begin

text \<open>
  The parts of the Redis client library whose bodies are in its headers: the command builder of
  \<open>impl/client.ipp\<close> with the type lists of \<open>helpers/variadic_template.hpp\<close>, the messages of
  \<open>impl/types.hpp\<close>, \<open>optional\<close> and \<open>try_convert\<close>, the timed \<open>sync_commit\<close> of client and sentinel, and
  \<open>sentinel_def\<close>. Everything else of the library is declared only, its bodies are in prebuilt files. Where these
  bodies call such a member (\<open>as_string\<close>, \<open>operator<<\<close> of a reply, \<open>try_commit\<close>), it is a parameter.
\<close>

section \<open>Type lists\<close>

text \<open>
  A parameter pack is a list of types; \<open>static_assert\<close> that fails, or a template without a match, is
  \<^term>\<open>None\<close> (the call does not compile).
\<close>

fun back_type :: "'t list \<Rightarrow> 't option" where
  "back_type [] = None"
| "back_type [t] = Some t"
| "back_type (t # ts) = back_type ts"

fun front_type :: "'t list \<Rightarrow> 't option" where
  "front_type [] = None"
| "front_type (t # ts) = Some t"

fun is_type_present :: "'t \<Rightarrow> 't list \<Rightarrow> bool" where
  "is_type_present t1 [] = False"
| "is_type_present t1 [t2] = (t1 = t2)"
| "is_type_present t1 (t2 # ts) = (if t1 = t2 then True else is_type_present t1 ts)"

fun is_different_types :: "'t list \<Rightarrow> bool" where
  "is_different_types [] = True"
| "is_different_types [t] = True"
| "is_different_types (t # ts) = (if is_type_present t ts then False else is_different_types ts)"

lemma back_type_last: "back_type ts = (if ts = [] then None else Some (last ts))"
  by (induction ts rule: back_type.induct) simp_all

lemma front_type_hd: "front_type ts = (if ts = [] then None else Some (hd ts))"
  by (cases ts) simp_all

lemma is_type_present_iff: "is_type_present t ts \<longleftrightarrow> t \<in> set ts"
  by (induction t ts rule: is_type_present.induct) auto

lemma is_different_types_iff: "is_different_types ts \<longleftrightarrow> distinct ts"
  by (induction ts rule: is_different_types.induct) (auto simp: is_type_present_iff)

section \<open>CLIENT KILL\<close>

datatype client_type = normal | master | pubsub | slave

text \<open>
  An argument with its type: \<open>Kill_id n v\<close> is a value of the \<open>n\<close>-th integral type (of which there are several, and
  \<open>bool\<close> is not one of them here since the overload for \<open>bool\<close> is the better match), \<open>Kill_cb n f\<close> an object of the
  \<open>n\<close>-th class type.
\<close>

datatype 'f kill_arg = Kill_type client_type | Kill_skip bool | Kill_id nat u64 | Kill_cb nat 'f

datatype arg_type = T_client_type | T_bool | T_integral nat | T_class nat

fun arg_type_of :: "'f kill_arg \<Rightarrow> arg_type" where
  "arg_type_of (Kill_type t) = T_client_type"
| "arg_type_of (Kill_skip b) = T_bool"
| "arg_type_of (Kill_id n v) = T_integral n"
| "arg_type_of (Kill_cb n f) = T_class n"

fun is_class :: "arg_type \<Rightarrow> bool" where
  "is_class (T_class n) = True"
| "is_class _ = False"

fun client_type_string :: "client_type \<Rightarrow> string" where
  "client_type_string normal = ''normal''"
| "client_type_string master = ''master''"
| "client_type_string pubsub = ''pubsub''"
| "client_type_string slave = ''slave''"

type_synonym 'f kill_cmd = "string list \<times> 'f option"

fun client_kill_unpack_arg :: "'f kill_cmd \<Rightarrow> 'f kill_arg \<Rightarrow> 'f kill_cmd" where
  "client_kill_unpack_arg (cmd, cb) (Kill_type t) = (cmd @ [''TYPE'', client_type_string t], cb)"
| "client_kill_unpack_arg (cmd, cb) (Kill_skip skip) = (cmd @ [''SKIPME'', if skip then ''yes'' else ''no''], cb)"
| "client_kill_unpack_arg (cmd, cb) (Kill_id n i) = (cmd @ [''ID'', to_string i], cb)"
| "client_kill_unpack_arg (cmd, cb) (Kill_cb n f) = (cmd, Some f)"

fun client_kill_impl :: "'f kill_cmd \<Rightarrow> 'f kill_arg list \<Rightarrow> 'f kill_cmd option" where
  "client_kill_impl c [] = None"
| "client_kill_impl c [arg] = Some (client_kill_unpack_arg c arg)"
| "client_kill_impl c (arg # args) =
     (if is_class (arg_type_of arg) then None
      else client_kill_impl (client_kill_unpack_arg c arg) args)"

text \<open>The command and the callback that are given to \<open>send\<close>.\<close>

definition client_kill :: "'f kill_arg list \<Rightarrow> 'f kill_cmd option" where
  "client_kill args =
     (let ts = map arg_type_of args in
      if \<not> is_different_types ts then None
      else case front_type ts of
        None \<Rightarrow> None
      | Some t \<Rightarrow> if is_class t \<and> back_type ts = Some t then None
                 else client_kill_impl ([''CLIENT'', ''KILL''], None) args)"

definition client_kill_addr :: "string \<Rightarrow> u32 \<Rightarrow> 'f kill_arg list \<Rightarrow> 'f kill_cmd option" where
  "client_kill_addr host port args =
     (let ts = map arg_type_of args in
      if \<not> is_different_types ts then None
      else case front_type ts of
        None \<Rightarrow> None
      | Some t \<Rightarrow>
          let cmd = [''CLIENT'', ''KILL''] @ (if \<not> is_class t then [''ADDR''] else [])
                    @ [host @ '':'' @ dec_of_int port]
          in client_kill_impl (cmd, None) args)"

text \<open>Without further arguments the null callback is passed on.\<close>

definition client_kill_host :: "string \<Rightarrow> u32 \<Rightarrow> 'f \<Rightarrow> 'f kill_cmd option" where
  "client_kill_host host port null_callback = client_kill_addr host port [Kill_cb 0 null_callback]"

text \<open>The future version appends its own callback as the last argument.\<close>

definition client_kill_future :: "'f kill_arg list \<Rightarrow> 'f \<Rightarrow> 'f kill_cmd option" where
  "client_kill_future args cb = client_kill (args @ [Kill_cb 0 cb])"

fun filter_words :: "'f kill_arg \<Rightarrow> string list" where
  "filter_words (Kill_type t) = [''TYPE'', client_type_string t]"
| "filter_words (Kill_skip b) = [''SKIPME'', if b then ''yes'' else ''no'']"
| "filter_words (Kill_id n i) = [''ID'', to_string i]"
| "filter_words (Kill_cb n f) = []"

definition callback_of :: "'f kill_arg \<Rightarrow> 'f option" where
  "callback_of a = (case a of Kill_cb n f \<Rightarrow> Some f | _ \<Rightarrow> None)"

lemma unpack_words:
  "client_kill_unpack_arg (cmd, cb) a = (cmd @ filter_words a, if callback_of a = None then cb else callback_of a)"
  by (cases a) (simp_all add: callback_of_def)

lemma callback_of_class: "callback_of a = None \<longleftrightarrow> \<not> is_class (arg_type_of a)"
  by (cases a) (simp_all add: callback_of_def)

text \<open>The call compiles when only the last argument is a callback, and then sends the words of the filters in order.\<close>

lemma client_kill_impl_words:
  "client_kill_impl (cmd, cb) args =
     (if args = [] \<or> (\<exists>a \<in> set (butlast args). is_class (arg_type_of a)) then None
      else Some (cmd @ concat (map filter_words args), if callback_of (last args) = None then cb else callback_of (last args)))"
proof (induction "(cmd, cb)" args arbitrary: cmd cb rule: client_kill_impl.induct)
  case (3 arg a2 args)
  then show ?case by (auto simp: unpack_words callback_of_class)
qed (simp_all add: unpack_words)

lemma client_kill_words:
  "client_kill args = Some (cmd, cb) \<longleftrightarrow>
     args \<noteq> [] \<and> distinct (map arg_type_of args) \<and> \<not> is_class (arg_type_of (hd args)) \<and>
     (\<forall>a \<in> set (butlast args). \<not> is_class (arg_type_of a)) \<and>
     cmd = [''CLIENT'', ''KILL''] @ concat (map filter_words args) \<and> cb = callback_of (last args)"
  (is "?l \<longleftrightarrow> ?r")
proof (cases args)
  case (Cons a as)
  have i: "(if x = None then None else x) = x" for x :: "'f option" by simp
  have b: "hd args = a" "as \<noteq> [] \<Longrightarrow> a \<in> set (butlast args)" using Cons by simp_all
  show ?thesis
    using Cons b
    by (cases "as = []"; cases "is_class (arg_type_of a)")
      (auto simp: client_kill_def Let_def is_different_types_iff front_type_hd back_type_last client_kill_impl_words last_map
        i unpack_words)
qed (simp add: client_kill_def)

text \<open>
  "One distinct value per filter type" is checked on the C++ types of the arguments, so two identifiers of different integer
  types are let through and the command has two ID filters.
\<close>

lemma kill_two_ids:
  "client_kill [Kill_id 0 3, Kill_id 1 4] = Some ([''CLIENT'', ''KILL'', ''ID'', ''3'', ''ID'', ''4''], None)"
  by (simp add: client_kill_def to_string_def dec_of_nat.simps) code_simp

section \<open>Replies and messages\<close>

datatype reply_type = reply_error | reply_bulk_string | reply_simple_string | reply_null | reply_integer | reply_array

fun reply_type_code :: "reply_type \<Rightarrow> nat" where
  "reply_type_code reply_error = 0"
| "reply_type_code reply_bulk_string = 1"
| "reply_type_code reply_simple_string = 2"
| "reply_type_code reply_null = 3"
| "reply_type_code reply_integer = 4"
| "reply_type_code reply_array = 5"

datatype reply = Reply (rp_type: reply_type) (rp_rows: "reply list") (rp_str_val: string) (rp_int_val: u64)

text \<open>
  A \<open>std::multimap\<close> is the list of its pairs in order of their keys, those with equal keys in order of insertion;
  \<open>find\<close> gives the first of them.
\<close>

fun mm_insert :: "string \<Rightarrow> 'v \<Rightarrow> (string \<times> 'v) list \<Rightarrow> (string \<times> 'v) list" where
  "mm_insert k v [] = [(k, v)]"
| "mm_insert k v ((k1, v1) # xs) = (if k < k1 then (k, v) # (k1, v1) # xs else (k1, v1) # mm_insert k v xs)"

record 'v message =
  ms_id :: string
  ms_values :: "(string \<times> 'v) list"

definition message_get_id :: "'v message \<Rightarrow> string" where
  "message_get_id m = ms_id m"

definition message_set_id :: "'v message \<Rightarrow> string \<Rightarrow> 'v message" where
  "message_set_id m i = m\<lparr>ms_id := i\<rparr>"

text \<open>\<^term>\<open>None\<close>: it throws \<open>"value not found"\<close>.\<close>

definition message_find :: "'v message \<Rightarrow> string \<Rightarrow> 'v option" where
  "message_find m key = map_of (ms_values m) key"

definition message_push :: "'v message \<Rightarrow> string \<Rightarrow> 'v \<Rightarrow> 'v message" where
  "message_push m key v = m\<lparr>ms_values := mm_insert key v (ms_values m)\<rparr>"

fun message_push_pairs :: "'v message \<Rightarrow> (string \<times> 'v) list \<Rightarrow> 'v message" where
  "message_push_pairs m [] = m"
| "message_push_pairs m ((k, v) # kvs) = message_push_pairs (m\<lparr>ms_values := mm_insert k v (ms_values m)\<rparr>) kvs"

text \<open>\<open>as_string\<close> throws for a reply that is not a string.\<close>

fun push_range_loop :: "('v \<Rightarrow> string option) \<Rightarrow> nat \<Rightarrow> string \<Rightarrow> 'v message \<Rightarrow> 'v list \<Rightarrow> 'v message option" where
  "push_range_loop as_string i key m [] = Some m"
| "push_range_loop as_string i key m (p # ps) =
     (if i mod 2 = 0
      then Option.bind (as_string p) (\<lambda>key. push_range_loop as_string i key m ps)
      else push_range_loop as_string i key (m\<lparr>ms_values := mm_insert key p (ms_values m)\<rparr>) ps)"

definition message_push_range :: "('v \<Rightarrow> string option) \<Rightarrow> 'v message \<Rightarrow> 'v list \<Rightarrow> 'v message option" where
  "message_push_range as_string m ps = push_range_loop as_string 2 [] m ps"

definition message_get_values :: "'v message \<Rightarrow> (string \<times> 'v) list" where
  "message_get_values m = ms_values m"

fun str_values_loop :: "('v \<Rightarrow> string) \<Rightarrow> (string \<times> string) list \<Rightarrow> (string \<times> 'v) list \<Rightarrow> (string \<times> string) list" where
  "str_values_loop out ret [] = ret"
| "str_values_loop out ret ((k, v) # vs) = str_values_loop out (mm_insert k (out v) ret) vs"

definition message_get_str_values :: "('v \<Rightarrow> string) \<Rightarrow> 'v message \<Rightarrow> (string \<times> string) list" where
  "message_get_str_values out m = str_values_loop out [] (ms_values m)"

definition mm_ok :: "(string \<times> 'v) list \<Rightarrow> bool" where
  "mm_ok xs \<longleftrightarrow> sorted (map fst xs)"

lemma set_mm_insert: "set (mm_insert k v xs) = insert (k, v) (set xs)"
  by (induction xs) (auto split: if_splits)

lemma mm_insert_ok: "mm_ok xs \<Longrightarrow> mm_ok (mm_insert k v xs)"
  unfolding mm_ok_def
proof (induction xs)
  case (Cons x xs)
  obtain k1 v1 where x: "x = (k1, v1)" by fastforce
  show ?case
  proof (cases "k < k1")
    case True
    then have "k \<le> k1" by (rule order.strict_implies_order)
    then show ?thesis using Cons.prems True by (auto simp: x intro: order.trans)
  qed (use Cons in \<open>auto simp: x set_mm_insert not_less\<close>)
qed simp

lemma map_of_mm_insert:
  "mm_ok xs \<Longrightarrow> map_of (mm_insert k v xs) = (\<lambda>k'. if k' = k \<and> map_of xs k = None then Some v else map_of xs k')"
proof (induction xs)
  case (Cons x xs)
  obtain k1 v1 where x: "x = (k1, v1)" by fastforce
  have ok: "mm_ok xs" "\<forall>y \<in> set xs. k1 \<le> fst y" using Cons.prems by (simp_all add: mm_ok_def x)
  have n: "map_of (x # xs) k = None" if "k < k1"
    using ok(2) that by (force simp: x map_of_eq_None_iff)
  show ?case using Cons.IH [OF ok(1)] n by (auto simp: x fun_eq_iff)
qed (auto simp: fun_eq_iff)

lemma mm_insert_last: "mm_ok xs \<Longrightarrow> \<forall>y \<in> set xs. fst y \<le> k \<Longrightarrow> mm_insert k v xs = xs @ [(k, v)]"
  by (induction xs) (auto simp: mm_ok_def)

text \<open>A pushed value is found unless its key was there before; then the earlier value is.\<close>

lemma message_push_find:
  assumes "mm_ok (ms_values m)"
  shows "message_find (message_push m k v) k' = (if k' = k \<and> message_find m k = None then Some v else message_find m k')"
    and "mm_ok (ms_values (message_push m k v))"
  using assms by (simp_all add: message_push_def message_find_def map_of_mm_insert mm_insert_ok)

lemma message_push_pairs_ok: "mm_ok (ms_values m) \<Longrightarrow> mm_ok (ms_values (message_push_pairs m kvs))"
  by (induction m kvs rule: message_push_pairs.induct) (simp_all add: mm_insert_ok)

text \<open>
  The range version of \<open>push\<close> does not count its elements: \<open>i\<close> stays 2, every element is taken for a key and
  nothing is inserted.
\<close>

lemma push_range_nothing:
  "message_push_range as_string m ps = (if \<exists>p \<in> set ps. as_string p = None then None else Some m)"
proof -
  have "push_range_loop as_string 2 key m ps = (if \<exists>p \<in> set ps. as_string p = None then None else Some m)" for key
    by (induction ps arbitrary: key) (auto split: bind_splits)
  then show ?thesis by (simp add: message_push_range_def)
qed

text \<open>The texts of the values come in the same order.\<close>

lemma str_values_map:
  assumes "mm_ok vs"
  shows "message_get_str_values out \<lparr>ms_id = i, ms_values = vs\<rparr> = map (\<lambda>(k, v). (k, out v)) vs"
proof -
  have "str_values_loop out ret vs = ret @ map (\<lambda>(k, v). (k, out v)) vs"
    if "mm_ok (ret @ map (\<lambda>(k, v). (k, out v)) vs)" for ret
    using that
  proof (induction vs arbitrary: ret)
    case (Cons x xs)
    obtain k v where x: "x = (k, v)" by fastforce
    have l: "mm_ok ret" "\<forall>y \<in> set ret. fst y \<le> k" using Cons.prems by (auto simp: mm_ok_def x sorted_append)
    show ?case using Cons.IH [of "ret @ [(k, out v)]"] Cons.prems by (simp add: x mm_insert_last [OF l])
  qed simp
  moreover have "mm_ok (map (\<lambda>(k, v). (k, out v)) vs)" using assms by (simp add: mm_ok_def case_prod_unfold o_def)
  ultimately show ?thesis by (simp add: message_get_str_values_def)
qed

record 'v xstream =
  xs_Stream :: string
  xs_Messages :: "'v message list"

fun xstream_reply_null_loop :: "'v xstream list \<Rightarrow> bool" where
  "xstream_reply_null_loop [] = False"
| "xstream_reply_null_loop (v # vs) = (if xs_Messages v = [] then True else xstream_reply_null_loop vs)"

definition xstream_reply_is_null :: "'v xstream list \<Rightarrow> bool" where
  "xstream_reply_is_null vs = (if vs = [] then True else xstream_reply_null_loop vs)"

lemma xstream_reply_is_null_iff: "xstream_reply_is_null vs \<longleftrightarrow> vs = [] \<or> (\<exists>v \<in> set vs. xs_Messages v = [])"
proof -
  have "xstream_reply_null_loop vs \<longleftrightarrow> (\<exists>v \<in> set vs. xs_Messages v = [])" by (induction vs) auto
  then show ?thesis by (simp add: xstream_reply_is_null_def)
qed

section \<open>Optional values and conversion\<close>

text \<open>The struct that stands in for \<open>std::optional\<close> before C++17, the standard that the compiler reports by default.\<close>

record 'v cpp_optional =
  op_value :: 'v

definition optional_new :: "'v \<Rightarrow> 'v cpp_optional" where
  "optional_new v = \<lparr>op_value = v\<rparr>"

definition value_or :: "'v cpp_optional \<Rightarrow> 'v \<Rightarrow> 'v" where
  "value_or opt v = v"

definition value_or_action :: "'v cpp_optional \<Rightarrow> (unit \<Rightarrow> 'u) \<Rightarrow> 'u" where
  "value_or_action opt action = action ()"

text \<open>It never returns the stored value.\<close>

lemma value_or_ignores: "value_or (optional_new a) v = value_or (optional_new b) v"
  by (simp add: value_or_def)

text \<open>
  \<open>stream >> x\<close> for an \<open>int64_t\<close>: white space, a sign, the longest run of digits. No digits give 0, a value out of range
  the nearest limit; the stream sets its failure bit but does not throw.
\<close>

definition is_space :: "char \<Rightarrow> bool" where
  "is_space c \<longleftrightarrow> (of_char c :: nat) \<in> {9, 10, 11, 12, 13, 32}"

definition stream_int64 :: "string \<Rightarrow> int" where
  "stream_int64 s =
     (let t = dropWhile is_space s;
          neg = (t \<noteq> [] \<and> hd t = CHR ''-'');
          u = (if t \<noteq> [] \<and> (hd t = CHR ''-'' \<or> hd t = CHR ''+'') then tl t else t);
          n = int (nat_of_dec (takeWhile is_digit u));
          x = (if neg then - n else n)
      in max (- (2 ^ 63)) (min (2 ^ 63 - 1) x))"

definition try_convert_to_int :: "string \<Rightarrow> int cpp_optional" where
  "try_convert_to_int value = optional_new (stream_int64 value)"

lemma digits_only: "takeWhile is_digit (dec_of_nat n) = dec_of_nat n"
  using dec_digits [of n] by (simp add: takeWhile_eq_all_conv)

lemma digit_head: "\<exists>c cs. dec_of_nat n = c # cs \<and> is_digit c"
proof -
  have "dec_of_nat n \<noteq> []" by (subst dec_of_nat.simps) simp
  then show ?thesis using dec_digits [of n] by (cases "dec_of_nat n") auto
qed

lemma to_int_of_text:
  assumes "n < 2 ^ 63"
  shows "op_value (try_convert_to_int (dec_of_nat n)) = int n" "op_value (try_convert_to_int (CHR ''-'' # dec_of_nat n)) = - int n"
proof -
  obtain c cs where c: "dec_of_nat n = c # cs" "is_digit c" using digit_head by blast
  have h: "\<not> is_space c" "c \<noteq> CHR ''-''" "c \<noteq> CHR ''+''" using c(2) by (auto simp: is_digit_def is_space_def)
  have d: "takeWhile is_digit (c # cs) = c # cs" "nat_of_dec (c # cs) = n"
    using digits_only [of n] dec_roundtrip [of n] unfolding c(1) by blast+
  have s: "\<not> is_space (CHR ''-'')" by (simp add: is_space_def)
  have b: "int n < 2 ^ 63" using assms by simp
  show "op_value (try_convert_to_int (dec_of_nat n)) = int n"
    "op_value (try_convert_to_int (CHR ''-'' # dec_of_nat n)) = - int n"
    using h s b by (simp_all add: try_convert_to_int_def optional_new_def stream_int64_def c(1) Let_def d del: takeWhile.simps)
qed

text \<open>A text that is no number is converted to 0 and not to an empty value.\<close>

lemma to_int_no_number: "op_value (try_convert_to_int ''abc'') = 0"
  by code_simp

section \<open>The timed commit\<close>

text \<open>
  \<open>wait_for\<close> returns the value of the predicate when it ends. The result is the state with the line that is logged
  after the wait.
\<close>

definition client_sync_commit :: "('s \<Rightarrow> bool) \<Rightarrow> ('s \<Rightarrow> 's) \<Rightarrow> ('s \<Rightarrow> 's) \<Rightarrow> ('s \<Rightarrow> bool) \<Rightarrow> 's \<Rightarrow> 's \<times> string" where
  "client_sync_commit is_reconnecting try_commit wait all_done st =
     (let st1 = (if \<not> is_reconnecting st then try_commit st else st); st2 = wait st1 in
      if \<not> all_done st2 then (st2, ''cpp_redis::client finished waiting for callback'')
      else (st2, ''cpp_redis::client timed out waiting for callback''))"

definition sentinel_sync_commit :: "('s \<Rightarrow> 's) \<Rightarrow> ('s \<Rightarrow> 's) \<Rightarrow> ('s \<Rightarrow> bool) \<Rightarrow> 's \<Rightarrow> 's \<times> string" where
  "sentinel_sync_commit try_commit wait all_done st =
     (let st1 = try_commit st; st2 = wait st1 in
      if \<not> all_done st2 then (st2, ''cpp_redis::sentinel finished waiting for callback'')
      else (st2, ''cpp_redis::sentinel timed out waiting for callback''))"

text \<open>The log says \<open>timed out\<close> exactly when everything was done in time.\<close>

lemma sync_commit_log_swapped:
  "snd (client_sync_commit r t w d st) = ''cpp_redis::client timed out waiting for callback'' \<longleftrightarrow>
     d (fst (client_sync_commit r t w d st))"
  by (simp add: client_sync_commit_def Let_def)

section \<open>Sentinels\<close>

record sentinel_def =
  sd_host :: string
  sd_port :: u64
  sd_timeout_ms :: u32

definition sentinel_def_new :: "string \<Rightarrow> u64 \<Rightarrow> u32 \<Rightarrow> sentinel_def" where
  "sentinel_def_new host port timeout_ms = \<lparr>sd_host = host, sd_port = port, sd_timeout_ms = timeout_ms\<rparr>"

definition get_host :: "sentinel_def \<Rightarrow> string" where "get_host d = sd_host d"
definition get_port :: "sentinel_def \<Rightarrow> u64" where "get_port d = sd_port d"
definition get_timeout_ms :: "sentinel_def \<Rightarrow> u32" where "get_timeout_ms d = sd_timeout_ms d"

definition set_timeout_ms :: "sentinel_def \<Rightarrow> u32 \<Rightarrow> sentinel_def" where
  "set_timeout_ms d t = d\<lparr>sd_timeout_ms := t\<rparr>"

lemma set_timeout_get:
  "get_timeout_ms (set_timeout_ms d t) = t" "get_host (set_timeout_ms d t) = get_host d" "get_port (set_timeout_ms d t) = get_port d"
  by (simp_all add: get_timeout_ms_def set_timeout_ms_def get_host_def get_port_def)

end
