(* ===== verification/Spec2Isabelle.thy ===== *)
theory Spec2Isabelle
  imports Examples Error_Define Cpp_Redis
begin

text \<open>
  A verification library for the login server of this repository: a Windows server on I/O completion ports that
  takes login requests from clients, asks a MySQL database for the session key of the account, puts the key that the client sent into a Redis
  store for the chat server, and answers with the address of that server.

  \<^bold>\<open>The program and its parts.\<close> \<open>testMain.cpp\<close> starts a \<open>loginServer\<close> (\<open>loginServer.h\<close>, \<open>loginServer.cpp\<close>), which derives from
  \<open>Network\<close> (\<open>lib/IOCP netServer/network.*\<close>). \<open>Network\<close> owns an array of \<open>session\<close> objects (\<open>session.*\<close>) and the stack of the free
  slots, an accept thread, worker threads and a statistics thread. A worker takes a completion from the port: received bytes
  go into the session's ring (\<open>ringBuffer.*\<close>), complete frames are cut off into pooled buffers (\<open>serializer.*\<close>) and handed to
  \<open>OnRecv\<close>; a buffer posted by \<open>sendReq\<close> goes into the session's queue (\<open>LockFreeQueue.h\<close>) and from there to \<open>WSASend\<close>; the
  completion of a send releases what was sent. Every pending operation holds one unit of the session's \<open>IOcount\<close>; the last one to give its
  unit back closes the socket, tells the application and returns the slot to the stack. Buffers are shared by reference counts
  (\<open>packet.*\<close>) and carry a header with a checksum and a stream cipher (\<open>define.h\<close>, \<open>serializer.h\<close>). The
  timeout thread of \<open>loginServer\<close> closes idle clients; the two services are behind \<open>mysqlConnector.*\<close> and \<open>redisConnector.*\<close>.

  \<^bold>\<open>Theories.\<close> Every definition has the name of its C++ member with a prefix for the class; the fields of a record are the data members.
  \<^item> \<open>Prelude\<close>: machine types, checked blocks of bytes, little-endian layout. \<open>Text\<close>: \<open>std::to_string\<close>.
  \<^item> \<open>Byte_Fifo\<close>: the interface (locale \<open>byte_fifo\<close>) of a byte queue. \<open>Ring_Buffer\<close>: all of \<open>ringBuffer\<close>, which provides it (\<open>ring\<close>);
    \<open>rb_inv\<close> is its invariant and \<open>rb_contents\<close> its abstraction.
  \<^item> \<open>Serializer\<close>: the buffer, its growth, copies and counter. \<open>Serializer_Codec\<close>: the stream operators, with the
    interface \<open>marshal\<close> of a typed pair and one interpretation per pair. \<open>Packet_Crypto\<close>: header, checksum and cipher;
    \<open>Packet_Bits\<close>: which changes of a packet on the wire the checksum detects.
  \<^item> \<open>Packet\<close>: the heap of serializers and class \<open>packet\<close>.
  \<^item> \<open>Node_Pool\<close> and \<open>Lock_Free_Queue\<close>: the queue of \<open>LockFreeQueue.h\<close> and its pool, with the interfaces \<open>node_pool\<close> and \<open>ptr_queue\<close>;
    \<open>lfq_rep q xs c\<close> relates the linked nodes to the list of what is queued. \<open>Concurrent_Pool\<close>, \<open>Concurrent_Queue\<close>: the same code
    one memory access at a time, for any number of threads. \<open>Queue_Inv\<close>, \<open>Queue_Steps\<close>, \<open>Single_Consumer\<close>: the runs of the queue with
    any number of pushing threads and one popping thread, their invariant \<open>queue_inv\<close>, and what it gives. \<open>Overtaking\<close>: a schedule,
    for every empty queue with room, in which a packet is overtaken.
  \<^item> \<open>Session\<close>: all of \<open>session\<close>; \<open>Session_Facts\<close>: the send path; \<open>Session_Recv\<close>: the receive path against the
    specification \<open>parse_frames\<close> of the framing; \<open>send_rep\<close> and \<open>recv_rep\<close> are the abstractions of the two directions.
  \<^item> \<open>Network\<close>: \<open>Network\<close>, one definition per iteration of a thread and one per request; \<open>Network_Start\<close>: start, stop, destruction.
    \<open>Network_Facts\<close>, \<open>Network_Inv\<close>, \<open>Network_Handlers\<close> (the interface \<open>net_callbacks\<close> of the virtual functions) and
    \<open>Network_Safety\<close> (the transition system \<open>net_step\<close>): the invariant \<open>net_inv\<close> of the session table and its preservation.
  \<^item> \<open>Worker_Loop\<close>, \<open>Completions\<close>, \<open>Frame_Stream\<close>: what each kind of completion does, as the exact state left, and the
    interface \<open>frame_receiver\<close> between the loop over the frames and the application. \<open>Frame_Loop\<close>: the loop as a sequence of turns
    (\<open>recv_turn\<close>, \<open>recv_turns\<close>), and the rule that carries an invariant through it.
  \<^item> \<open>Session_Threads\<close>: the threads that meet on one slot, one access to the session at a time: the requests (\<open>findSession\<close>,
    \<open>disconnectReq\<close>, \<open>sendReq\<close>), the accept thread, \<open>sendIO\<close>, \<open>recvIO\<close>, the three kinds of completion and
    \<open>deleteSession\<close>. The state of a thread is the place where it is in the code (\<open>slot_pc\<close>); \<open>slot_reach N\<close> are the runs of \<open>N\<close> threads.
    \<open>Session_Weights\<close>: the invariant \<open>slot_inv\<close>, which counts who holds a unit of \<open>IOcount\<close> and who owns the queue, the
    ring and the slot. \<open>Session_Exclusive\<close>: every step keeps it, and what follows; that at most one thread pops is the assumption
    of \<open>Single_Consumer\<close>. \<open>Session_Alone\<close>: a thread left alone does what the operations of \<open>Session\<close> do.
    \<open>Packet_Stranded\<close>: a schedule of two workers that leaves a packet in the queue.
  \<^item> \<open>Mysql_Connector\<close>, \<open>Redis_Connector\<close>: the two services, as the calls that they make on the client libraries; \<open>redis_uses\<close> runs a
    sequence of uses of the store. \<open>Error_Define\<close>: the error codes and texts. \<open>Cpp_Redis\<close>: the parts of the
    Redis client library whose bodies are in its headers.
  \<^item> \<open>Login_Server\<close>: the application and \<open>main\<close>; \<open>Login_Facts\<close> (it provides \<open>net_callbacks\<close>), \<open>Login_Response\<close> (one request),
    \<open>Login_Stream\<close> (it provides \<open>frame_receiver\<close>), \<open>Login_Lifecycle\<close> (start, accept, end of a connection), \<open>Login_Timeout\<close> (one
    pass of the timeout thread), \<open>Login_Table\<close> (the runs \<open>server_reach\<close> of the whole server; the table agrees with the sessions),
    \<open>Endless_Loop\<close> (the loop over the frames when a header announces a negative size).
  \<^item> \<open>Examples\<close>: the states at which the properties below are instantiated, reached by running the model's own operations.

  \<^bold>\<open>Reading the model.\<close> An operation that returns \<open>None\<close> has no defined outcome: an access outside an object, a null pointer that is
  dereferenced, a library call that ends the process, or a loop that never ends. The loops are \<open>partial_function (option)\<close>, so
  that the properties that state a result state also that the loop ends; no fuel is used. Integers are words of their C width (64-bit Windows), so wrapping
  is that of the code: the identifier of a session keeps 16 bits of the accept counter, a queue holds 255 packets, a ring 255
  bytes, \<open>sendIO\<close> has room for 100 buffers, and counters of pending operations stay below \<open>2 ^ 30\<close> as hypotheses where a unit is added. What
  Windows, the object pools and the two client libraries return are parameters: lists of their next answers; the calls
  made on them are recorded.

  \<^bold>\<open>Properties.\<close> They follow the course of a connection (the server), then the frames on the wire, then the components from
  the serializer to the services, and last the places where the code falls short of its intention, each as a theorem about the code as it is. A
  theorem with hypotheses is followed by an instance at a concrete state.

  \<^bold>\<open>Not modelled.\<close> \<open>ObjectPool\<close> (its header is not in the repository): what it hands out is a parameter. The bodies of
  cpp_redis and tacopie that are in prebuilt libraries, and the declarations, tables and dictionaries of the MySQL client: no code to translate. Interleavings: inside the queue and its pool, and
  between the threads on one slot, they are modelled on their own, with fewer than \<open>2 ^ 31 - 1\<close> references to a slot, requests that name identifiers
  already given out, and the work on a buffer as one step. In \<open>Network\<close> and above, each iteration of a thread and each request is one step and
  the order of the steps is free; the locks of the connection table are then never contended. Log lines and the console.
\<close>

section \<open>The server\<close>

text \<open>C1. From a successful start on, whatever the threads do in whatever order: the stack of free slots never holds a
  slot twice, a slot on it has no I/O pending, and a slot with pending I/O is not on it, has a counter at least as
  large as the number of pending operations, and has at most one receive and at most one send pending.\<close>

theorem slots_safe:
  assumes "start_ok env" "fresh_sessions env (unat n)" "nw_indexStack st0 = []"
    and "start login_callbacks env self n w r st0 = Some (st1, True)" and "net_reach login_callbacks st1 st"
    and "session_at st i = Some s"
  shows "distinct (nw_indexStack st) \<and> (on_stack st i \<longrightarrow> ss_inflight s = []) \<and>
    (ss_inflight s \<noteq> [] \<longrightarrow> \<not> on_stack st i \<and> length (ss_inflight s) \<le> unat (ss_IOcount s) \<and>
       count_list (ss_inflight s) Send_io \<le> 1 \<and> count_list (ss_inflight s) Recv_io \<le> 1)"
proof -
  obtain st' where "start login_callbacks env self n w r st0 = Some (st', True)" "net_inv (\<lambda>_. 0) st'"
    by (rule start_spec [OF assms(1-3)]) blast
  then have "net_inv (\<lambda>_. 0) st1" using assms(4) by simp
  then have inv: "net_inv (\<lambda>_. 0) st" by (rule login.reach_inv [OF assms(5)])
  note S = net_inv_safe [OF inv]
  show ?thesis using S(1) S(2) [OF _ assms(6)] S(3) [OF assms(6)] by blast
qed

theorem slots_safe_witness:
  "net_reach login_callbacks ex_started ex_accepted \<and> distinct (nw_indexStack ex_accepted) \<and>
   (\<exists>s. session_at ex_accepted 0 = Some s \<and> ss_inflight s = [Recv_io] \<and> \<not> on_stack ex_accepted 0)"
proof -
  have r: "net_reach login_callbacks ex_started ex_accepted"
    by (rule reach_step [OF reach_start step_accept [OF ex_accepted(1)]])
  have e: "nw_indexStack ex_boot = []" by (simp add: ex_boot_def)
  note T = slots_safe [OF ex_start_ok ex_fresh e ex_started(1) r ex_accepted(4)]
  show ?thesis using r T ex_client(4) ex_accepted(4) by auto
qed

text \<open>C2. The table of the application and the sessions of the network core agree in every state that the server can reach, by
  any steps of its threads and any passes of the timeout thread: the table has one entry for every session that
  is connected and no other, and every entry has its connection object.\<close>

theorem table_exact:
  assumes "start_ok env" "fresh_sessions env (unat n)" "nw_indexStack st0 = []" "ls_connectionMap st0 = []"
    and "start login_callbacks env self n w r st0 = Some (st1, True)" and "server_reach st1 st"
  shows "distinct (map fst (ls_connectionMap st)) \<and> (\<forall>sid. sid \<in> fst ` set (ls_connectionMap st) \<longleftrightarrow> connected st sid) \<and>
    (\<forall>(sid, c) \<in> set (ls_connectionMap st). ls_conns st c \<noteq> None)"
proof -
  have "table_ok st" using server_inv [OF assms(6)] start_table [OF assms(1-5)] by blast
  then show ?thesis unfolding table_ok_def by auto
qed

theorem table_exact_witness:
  "server_reach ex_started ex_accepted \<and> {sid. connected ex_accepted sid} = {0}"
proof -
  have e: "nw_indexStack ex_boot = []" "ls_connectionMap ex_boot = []" by (simp_all add: ex_boot_def)
  note T = table_exact [OF ex_start_ok ex_fresh e ex_started(1) ex_accepted_reach]
  then have "connected ex_accepted sid \<longleftrightarrow> sid = 0" for sid by (auto simp: ex_accepted(8))
  then show ?thesis using ex_accepted_reach by blast
qed

text \<open>C3. A client that sends login requests: one receive completion that carries any number of them, behind bytes that were
  already waiting, makes the worker serve all of them in order. Every request gets an entry in the store and one
  posted response that the client can decrypt, the incomplete rest stays in the ring, and the receive is pending again.\<close>

theorem login_stream_served:
  assumes "net_inv (\<lambda>_. 0) st" "connected st sid" "i = unat (GET_INDEX sid)" "s = nw_sessionArray st ! i"
    and "Recv_io \<in> set (ss_inflight s)" "ss_recvOverlapped s \<noteq> ss_sendOverlapped s" "recv_rep s bs"
    and "data \<noteq> []" "length bs + length data < 255"
    and "parse_frames (bs @ data) = Some (fs, r)" "list_all2 request_frame fs es"
    and "0 \<le> sint ti" "unat ti < length (nw_recvMessageTPSArr st)"
    and "n = length (bs @ data) div 5" "length (ss_inflight s) + n < 2 ^ 30" "pool_ready (2 * n + 1) st" "n \<le> length (ls_rand st)"
      "db_ready n (ls_mysql st)"
    and "\<not> hasCancelIOFlag s" "os_answers st = a # as" "a = 0 \<or> a = WSA_IO_PENDING"
  shows "\<exists>st' s' qs.
    do { st1 \<leftarrow> iocp_deliver i (ss_recvOverlapped s) data st;
         worker_step login_callbacks ti True (of_nat (length data)) (Some i) (ss_recvOverlapped s) st1 } = Some (st', True) \<and>
    session_at st' i = Some s' \<and> recv_rep s' r \<and>
    s' = s\<lparr>ss_recvBuffer := ss_recvBuffer s', ss_IOcount := ss_IOcount s + of_nat (length es),
           ss_inflight := Recv_io # posted qs @ remove1 Recv_io (ss_inflight s)\<rparr> \<and>
    list_all2 (answers (ls_stack st) st') qs es \<and> distinct qs \<and> ls_redis st' = fold store_login es (ls_redis st) \<and> connected st' sid"
  by (rule login_batch [OF assms]) blast

theorem login_stream_served_witness:
  "\<exists>data st' s' q.
     do { st1 \<leftarrow> iocp_deliver 0 (ss_recvOverlapped ex_client) data ex_accepted;
          worker_step login_callbacks 0 True (of_nat (length data)) (Some 0) (ss_recvOverlapped ex_client) st1 } = Some (st', True) \<and>
     session_at st' 0 = Some s' \<and> recv_rep s' [] \<and> ss_IOcount s' = 2 \<and> ss_inflight s' = [Recv_io, Post_io (q OR 0x4000000000000000)] \<and>
     answers (\<lambda>_. 0) st' q (4711, ex_key) \<and> ls_redis st' = store_login (4711, ex_key) (ls_redis ex_boot)"
proof -
  obtain w where w: "request_frame (sz_data w) (4711, ex_key)" "length (sz_data w) = 79" "parse_frames (sz_data w) = Some ([sz_data w], [])"
    using ex_request by blast
  have a: "os_answers ex_accepted = 0 # replicate 14 0" by (simp add: ex_accepted(14) numeral_eq_Suc)
  have p: "pool_ready (2 * 15 + 1) ex_accepted" using ex_pool by (simp add: pool_ready_def)
  have g: "(0::nat) = unat (GET_INDEX 0)" by (simp add: GET_INDEX_def)
  have "\<exists>st' s' qs.
    do { st1 \<leftarrow> iocp_deliver 0 (ss_recvOverlapped ex_client) (sz_data w) ex_accepted;
         worker_step login_callbacks 0 True (of_nat (length (sz_data w))) (Some 0) (ss_recvOverlapped ex_client) st1 } = Some (st', True) \<and>
    session_at st' 0 = Some s' \<and> recv_rep s' [] \<and>
    s' = ex_client\<lparr>ss_recvBuffer := ss_recvBuffer s', ss_IOcount := ss_IOcount ex_client + of_nat (length [(4711::u64, ex_key)]),
           ss_inflight := Recv_io # posted qs @ remove1 Recv_io (ss_inflight ex_client)\<rparr> \<and>
    list_all2 (answers (ls_stack ex_accepted) st') qs [(4711, ex_key)] \<and> distinct qs \<and>
    ls_redis st' = fold store_login [(4711, ex_key)] (ls_redis ex_accepted) \<and> connected st' 0"
    by (rule login_stream_served [OF ex_accepted(2,3) g ex_accepted(5) [symmetric] _ _ ex_client(2), where n = 15 and ti = 0, OF _ _ _ _ _ _ _ _ _ _ p _ _ _ a])
      (use w ex_client ex_accepted ex_db in \<open>auto\<close>)
  then obtain st' s' qs where r:
    "do { st1 \<leftarrow> iocp_deliver 0 (ss_recvOverlapped ex_client) (sz_data w) ex_accepted;
         worker_step login_callbacks 0 True (of_nat (length (sz_data w))) (Some 0) (ss_recvOverlapped ex_client) st1 } = Some (st', True)"
    "session_at st' 0 = Some s'" "recv_rep s' []"
    "s' = ex_client\<lparr>ss_recvBuffer := ss_recvBuffer s', ss_IOcount := ss_IOcount ex_client + 1,
           ss_inflight := Recv_io # posted qs @ remove1 Recv_io (ss_inflight ex_client)\<rparr>"
    "list_all2 (answers (\<lambda>_. 0) st') qs [(4711, ex_key)]" "ls_redis st' = store_login (4711, ex_key) (ls_redis ex_boot)"
    by (auto simp: ex_accepted)
  obtain q where q: "qs = [q]" "answers (\<lambda>_. 0) st' q (4711, ex_key)" using r(5) by (auto simp: list_all2_Cons2)
  have "ss_IOcount s' = 2" "ss_inflight s' = [Recv_io, Post_io (q OR 0x4000000000000000)]"
    by (subst r(4), simp add: ex_client q posted_def)+
  then show ?thesis using r q by blast
qed

text \<open>C4. The threads on one slot of the session array, any number of them, one access at a time, from the constructor on: whatever
  they do, at most one takes packets out of the queue, at most one works on the receive buffer and at most one deletes the session. A thread that
  \<open>findSession\<close> has given the session keeps it: the identifier is the one it asked for, the counter is not zero and its flag is clear, the
  index is not on the stack, and no other thread is deleting it.\<close>

theorem session_exclusive:
  assumes "slot_reach N st0 st c" "t < N" "u < N" "t \<noteq> u"
  shows "\<not> (pops_queue (c t) \<and> pops_queue (c u)) \<and> \<not> (uses_ring (c t) \<and> uses_ring (c u)) \<and> \<not> (deletes (c t) \<and> deletes (c u)) \<and>
    (has_session (c t) sid \<longrightarrow> ss_ID (sl_session st) = sid \<and> 0 < unat (ss_IOcount (sl_session st)) \<and>
       ss_IOcount (sl_session st) AND 0x80000000 = 0 \<and> sl_free st = 0 \<and> \<not> deletes (c u))"
  using slot_exclusive(1-3) [OF assms] slot_exclusive(4) [OF assms(1,3,2) assms(4) [symmetric], where x = sid] slot_found [OF assms(1,2), of sid] by auto

theorem session_exclusive_witness:
  "\<exists>st :: slot. ss_ID (sl_session st) = 0 \<and> sl_free st = 0 \<and> sl_given st = [0] \<and> 0 < unat (ss_IOcount (sl_session st))"
proof -
  obtain st where r: "slot_reach 2 ex_slot st ((\<lambda>_. Slot_idle)(0 := Recv_test, 1 := Found Disconnect 0))" "sl_given st = [0]"
    using ex_meet_reach by blast
  have "ss_ID (sl_session st) = 0 \<and> sl_free st = 0 \<and> sl_given st = [0] \<and> 0 < unat (ss_IOcount (sl_session st))"
    using r(2) session_exclusive [OF r(1), of 1 0 0] by simp
  then show ?thesis by blast
qed

text \<open>C5. In the same runs the index of the slot is never on the stack twice, \<open>OnDisconnect\<close> is never called for a connection more often than
  \<open>OnNewConnect\<close>, and when no thread is inside and the slot is free again it has been called exactly once for each connection that was announced.\<close>

theorem farewell_once:
  assumes "slot_reach N st0 st c"
  shows "sl_free st \<le> 1 \<and> mset (sl_gone st) \<subseteq># mset (sl_given st) \<and>
    ((\<forall>t < N. c t = Slot_idle) \<and> sl_free st = 1 \<longrightarrow> mset (sl_gone st) = mset (sl_given st))"
proof -
  have "mset (sl_gone st) = mset (sl_given st)" if "\<forall>t < N. c t = Slot_idle" "sl_free st = 1"
    using slot_farewell [OF assms _ that(2)] that(1) by (auto intro!: multiset_eqI simp: count_mset)
  moreover have "mset (sl_gone st) \<subseteq># mset (sl_given st)"
    using slot_free_once(2) [OF assms] by (intro mset_subset_eqI) (simp add: count_mset)
  ultimately show ?thesis using slot_free_once(1) [OF assms] by blast
qed

theorem farewell_once_witness: "\<exists>st :: slot. mset (sl_gone st) = mset (sl_given st) \<and> sl_given st = [0]"
proof -
  obtain st c where r: "slot_try 2 (ex_meet @ ex_part) ex_slot (\<lambda>_. Slot_idle) = Some (st, c)" "c 0 = Slot_idle" "c 1 = Slot_idle"
    "sl_free st = 1" "sl_given st = [0]"
    using ex_part_try by blast
  have i: "\<forall>t < 2. c t = Slot_idle" using r(2,3) by (auto simp: less_2_cases_iff)
  have "mset (sl_gone st) = mset (sl_given st)"
    using farewell_once [OF slot_try_reach [OF slot_reach_start [OF ex_slot_fresh] r(1)]] i r(4) by blast
  with r(5) show ?thesis by blast
qed

text \<open>C6. \<open>OnRecv\<close> on an accepted login request of a connected client: one query for the account, the session key under the
  account number in the store with an expiry of one second, and one response posted to the client, with the
  account number in it. The reference counter of the request is unchanged, the response has one reference.\<close>

theorem login_answered:
  assumes "net_inv refs st" "connected st sid"
    and "ser_at st p = Some ser" "sz_inv ser" "sz_ho ser = 0" "sz_to ser = 5 + length d"
    and "d = login_request acc key rest" "length key = 64"
    and "wire_block w 0x32 d" "take (5 + length d) (sz_mem ser) = sz_data w"
    and "mysqlConnector_query (ls_mysql st) (login_query acc) (dbResult_new (\<lambda>ns. ns) [''sessionKey'']) = Some (m, res)"
    and "ph_supply st = q # qs" "q \<noteq> p" "ser_at st q = Some s0" "sz_inv s0" "sz_referenceCounter s0 = 0" "164 \<le> unat (sz_bufferSize s0)"
    and "ls_rand st = rk # rs"
    and "length (ss_inflight (nw_sessionArray st ! unat (GET_INDEX sid))) < 2 ^ 30"
  shows "\<exists>ser' resp. OnRecv sid p st =
       Some (os_log (session_put (ser_put (ser_put
                (st\<lparr>ph_supply := qs, ls_rand := rs, ls_mysql := m,
                    ls_redis := redisConnector_set (ls_redis st) (to_string acc) key 1\<rparr>) p ser') q resp) (unat (GET_INDEX sid))
              ((nw_sessionArray st ! unat (GET_INDEX sid))\<lparr>
                 ss_IOcount := ss_IOcount (nw_sessionArray st ! unat (GET_INDEX sid)) + 1,
                 ss_inflight := Post_io (q OR 0x4000000000000000) # ss_inflight (nw_sessionArray st ! unat (GET_INDEX sid))\<rparr>))
              (PostStatus (of_nat (unat (GET_INDEX sid))) (q OR 0x4000000000000000))) \<and>
    wire_block resp 0x32 (response_payload acc (map (ls_stack st) [0..<20])) \<and>
    sz_referenceCounter resp = 1 \<and> sz_referenceCounter ser' = sz_referenceCounter ser"
  by (rule OnRecv_login [OF assms]) blast

theorem login_answered_witness:
  "\<exists>ser st' resp. OnRecv 0 0x800 (ser_put ex_accepted 0x800 ser) = Some st' \<and> ser_at st' 0x1000 = Some resp \<and>
     wire_block resp 0x32 (response_payload 4711 (replicate 20 0)) \<and>
     ls_redis st' = redisConnector_set (ls_redis ex_boot) (to_string 4711) ex_key 1"
proof -
  let ?d = "login_request 4711 ex_key []"
  obtain w where w: "wire_block w 0x32 ?d" "length (sz_data w) = 79" using ex_request by blast
  obtain ser where s: "sz_put ex_env (ex_ser 1024) (sz_data w) = Some ser" "sz_inv ser" "sz_data ser = sz_data w" "sz_ho ser = 0" "sz_to ser = 79"
    using w(2) by (auto intro: ex_block [of "sz_data w"])
  have l: "length ?d = 74" by (simp add: login_request_def ex_key_def)
  have mem: "take (5 + length ?d) (sz_mem ser) = sz_data w" using s(3-5) l by (simp add: sz_data_def)
  let ?st = "ser_put ex_accepted 0x800 ser"
  have sup: "ph_supply ex_accepted = 0x1000 # map (\<lambda>i. of_nat (4096 * (i + 1))) [1..<64]"
    by (simp only: ex_accepted(13) ex_boot_def) (simp add: upt_conv_Cons del: upt_rec_numeral)
  have at: "ser_at ?st 0x800 = Some ser" "ser_at ?st 0x1000 = Some (ex_ser 1024)"
    by (simp_all add: ser_at_def ser_put_def ex_accepted(12)) (simp add: ex_boot_def)
  have dr: "db_ready (Suc 0) (ls_mysql ?st)" using ex_db [of "Suc 0"] by (simp add: ser_put_def)
  obtain m res where m: "mysqlConnector_query (ls_mysql ?st) (login_query 4711) (dbResult_new (\<lambda>ns. ns) [''sessionKey'']) = Some (m, res)"
    by (rule db_query [OF dr])
  have inv: "net_inv (\<lambda>_. 0) ?st" by (rule neutral_inv [OF ex_accepted(2)]) (rule neutral_same_array; simp)
  have c: "connected ?st 0" using ex_accepted(3) by (simp add: connected_def)
  have rk: "ls_rand ?st = 41 # replicate 63 41" by (simp add: ex_accepted(17) numeral_eq_Suc)
  have i: "unat (GET_INDEX 0) = 0" "nw_sessionArray ?st ! 0 = ex_client" by (simp_all add: GET_INDEX_def ex_accepted(5))
  note T = login_answered [OF inv c at(1) s(2,4) _ refl _ w(1) mem m _ _ at(2) _ _ _ rk, unfolded i]
  have stk: "map (ls_stack ?st) [0..<20] = replicate 20 0" by (simp add: ex_accepted(18) map_replicate_const)
  have rd: "ls_redis ?st = ls_redis ex_boot" by (simp add: ser_put_def ex_accepted(20))
  obtain ser' resp where r: "OnRecv 0 0x800 ?st =
       Some (os_log (session_put (ser_put (ser_put
                (?st\<lparr>ph_supply := map (\<lambda>i. of_nat (4096 * (i + 1))) [1..<64], ls_rand := replicate 63 41, ls_mysql := m,
                    ls_redis := redisConnector_set (ls_redis ?st) (to_string 4711) ex_key 1\<rparr>) 0x800 ser') 0x1000 resp) 0
              (ex_client\<lparr>ss_IOcount := ss_IOcount ex_client + 1,
                 ss_inflight := Post_io (0x1000 OR 0x4000000000000000) # ss_inflight ex_client\<rparr>))
              (PostStatus (of_nat 0) (0x1000 OR 0x4000000000000000)))"
    "wire_block resp 0x32 (response_payload 4711 (map (ls_stack ?st) [0..<20]))"
    using T [of "map (\<lambda>i. of_nat (4096 * (i + 1))) [1..<64]"] sup ex_ser [of 1024] ex_client(4) l s(5)
    by (auto simp: ex_key_def ser_put_def simp del: upt_rec_numeral)
  show ?thesis
    by (rule exI [of _ ser], intro exI conjI, rule r(1))
       (use r(2) stk rd in \<open>simp_all add: ser_at_def ser_put_def session_put_def os_log_def\<close>)
qed

text \<open>C7. \<open>OnRecv\<close> on a frame whose checksum is wrong, or whose type is not that of a login request: the I/O of the
  client is cancelled in both directions, and neither the store nor the database is used.\<close>

theorem login_rejected:
  assumes "net_inv refs st" "connected st sid"
    and "ser_at st p = Some ser" "sz_inv ser" "sz_ho ser = 0" "sz_to ser = 5 + n" "crypt_ok ser h n"
    and "dec_loop 0x32 (nh_randKey h) 0 0 0 (crypt_span ser n) = cs # d"
    and "cs \<noteq> sum_list d \<or> 2 \<le> n \<and> (le_word (take 2 d) :: u16) \<noteq> 101"
    and "s = nw_sessionArray st ! unat (GET_INDEX sid)"
  shows "\<exists>ser'. OnRecv sid p st =
      Some (os_log (os_log (session_put (ser_put st p ser') (unat (GET_INDEX sid)) (s\<lparr>ss_cancelIOFlag := 1\<rparr>))
        (CancelIoEx (ss_socket s) Recv_io)) (CancelIoEx (ss_socket s) Send_io)) \<and>
    sz_referenceCounter ser' = sz_referenceCounter ser"
  unfolding assms(10) by (rule OnRecv_reject_closes [OF assms(1-9)]) blast

theorem login_rejected_witness:
  "\<exists>ser st'. OnRecv 0 0x800 (ser_put ex_accepted 0x800 ser) = Some st' \<and>
     os_calls st' = CancelIoEx 77 Send_io # CancelIoEx 77 Recv_io # os_calls ex_accepted \<and> ls_redis st' = ls_redis ex_boot"
proof -
  let ?bs = "nh_bytes (networkHeader_new 2 7 0) @ [0, 0]"
  obtain ser where s: "sz_inv ser" "sz_data ser = ?bs" "sz_ho ser = 0" "sz_to ser = 7" "sz_bufferSize ser = 1024"
    by (rule ex_block [of ?bs]) simp_all
  let ?st = "ser_put ex_accepted 0x800 ser"
  have nh: "nh_bytes (networkHeader_new 2 7 0) = [0x77, 2, 0, 7, 0]" by code_simp
  have mem: "take 7 (sz_mem ser) = ?bs" using s(2-4) by (simp add: sz_data_def)
  then have t5: "take 5 (sz_mem ser) = nh_bytes (networkHeader_new 2 7 0)"
  proof -
    have "take 5 (sz_mem ser) = take 5 (take 7 (sz_mem ser))" by (simp add: min_def)
    then show ?thesis unfolding mem by (simp add: nh)
  qed
  have ok: "crypt_ok ser (networkHeader_new 2 7 0) 2"
    unfolding crypt_ok_def t5 using s by (simp add: networkHeader_new_def)
  have "crypt_span ser 2 = drop 4 (take 7 (sz_mem ser))" by (simp add: crypt_span_def drop_take)
  also have "\<dots> = [0, 0, 0]" unfolding mem by (simp add: nh)
  finally have sp: "crypt_span ser 2 = [0, 0, 0]" .
  have dec: "dec_loop 0x32 7 0 0 0 [0, 0, 0] = [59, 8, 11]" by code_simp
  have inv: "net_inv (\<lambda>_. 0) ?st" by (rule neutral_inv [OF ex_accepted(2)]) (rule neutral_same_array; simp)
  have c: "connected ?st 0" using ex_accepted(3) by (simp add: connected_def)
  have at: "ser_at ?st 0x800 = Some ser" by (simp add: ser_at_def ser_put_def)
  have i: "unat (GET_INDEX 0) = 0" "ex_client = nw_sessionArray ?st ! 0" by (simp_all add: GET_INDEX_def ex_accepted(5))
  show ?thesis
    using login_rejected [OF inv c at s(1,3) _ ok, where s = ex_client, unfolded i(1)] s(4) sp dec i(2) ex_client(7)
    by (force simp: networkHeader_new_def session_put_def os_log_def ser_put_def ex_accepted(20))
qed

text \<open>C8. A worker that gets a posted packet while no send is running hands it to \<open>WSASend\<close> at once, behind the
  packets that were waiting, one buffer for each; the packets move to the buffer of sent ones, the send flag is set, and
  the reference that the posting held becomes that of the send.\<close>

theorem posted_packet_sent:
  assumes "session_at st i = Some s" "\<not> hasCancelIOFlag s" "ss_sendFlag s \<noteq> 1" "send_rep s qs []" "length qs < 100"
    and "1 \<le> unat (ss_IOcount s)" "unat (ss_IOcount s) < 2 ^ 32 - 1" "length (ss_inflight s) < 2 ^ 30"
    and "unat p < 2 ^ 60" "valid_ptrs st (qs @ [p])" and "os_answers st = a # as" "a = 0 \<or> a = WSA_IO_PENDING"
  shows "\<exists>s'. worker_step cb ti True 0 (Some i) (p OR 0x4000000000000000) st =
       Some (session_put (os_log (st\<lparr>os_answers := as\<rparr>) (WSASend (ss_socket s) (map (wsabuf st) (qs @ [p])))) i s', True) \<and>
     send_rep s' [] (qs @ [p]) \<and> ss_sendFlag s' = 1 \<and> ss_IOcount s' = ss_IOcount s \<and> ss_inflight s' = Send_io # ss_inflight s \<and>
     ss_recvBuffer s' = ss_recvBuffer s \<and> ss_ID s' = ss_ID s"
  by (rule post_completion [OF assms]) blast

theorem posted_packet_sent_witness:
  "\<exists>st' s'. worker_step login_callbacks 0 True 0 (Some 0) (0x2000 OR 0x4000000000000000) ex_accepted = Some (st', True) \<and>
     session_at st' 0 = Some s' \<and> send_rep s' [] [0x2000] \<and> ss_inflight s' = [Send_io, Recv_io] \<and>
     hd (os_calls st') = WSASend 77 [wsabuf ex_accepted 0x2000]"
proof -
  have a: "os_answers ex_accepted = 0 # replicate 14 0" by (simp add: ex_accepted(14) numeral_eq_Suc)
  have v: "valid_ptrs ex_accepted ([] @ [0x2000])" by (simp add: ser_at_def ex_accepted(12)) (simp add: ex_boot_def)
  have "\<exists>s'. worker_step login_callbacks 0 True 0 (Some 0) (0x2000 OR 0x4000000000000000) ex_accepted =
       Some (session_put (os_log (ex_accepted\<lparr>os_answers := replicate 14 0\<rparr>) (WSASend (ss_socket ex_client) (map (wsabuf ex_accepted) ([] @ [0x2000])))) 0 s', True) \<and>
     send_rep s' [] ([] @ [0x2000]) \<and> ss_sendFlag s' = 1 \<and> ss_IOcount s' = ss_IOcount ex_client \<and>
     ss_inflight s' = Send_io # ss_inflight ex_client \<and> ss_recvBuffer s' = ss_recvBuffer ex_client \<and> ss_ID s' = ss_ID ex_client"
    by (rule posted_packet_sent [OF ex_accepted(4) ex_client(8) _ ex_client(1) _ _ _ _ _ v a]) (simp_all add: ex_client)
  then show ?thesis using ex_accepted(6) ex_client by (auto simp: os_log_def session_put_def session_at_def)
qed

text \<open>C9. When a send has ended, its packets are counted and released, and the packets that were posted in the meantime go
  out in the next \<open>WSASend\<close>, in the order of posting.\<close>

theorem sent_then_next:
  assumes "session_at st i = Some s" "sendOverlappedCheck s ov" "send_rep s qs ds" "ds \<noteq> []"
    and "valid_ptrs st ds" "unat t = sum_sizes st ds" "\<forall>p \<in> set ds. ptr_size st p \<noteq> 0"
    and "cb_OnSend cb (ss_ID s) t st = Some st" and "0 \<le> sint ti" "unat ti < length (nw_sendMessageTPSArr st)"
    and "1 \<le> unat (ss_IOcount s)" "unat (ss_IOcount s) < 2 ^ 32 - 1" "length (ss_inflight s) < 2 ^ 30" "\<not> hasCancelIOFlag s"
    and "qs \<noteq> []" "length qs \<le> 100" "valid_ptrs st qs" and "os_answers st = a # as" "a = 0 \<or> a = WSA_IO_PENDING"
    and "arr = nw_sendMessageTPSArr st"
  shows "\<exists>s' h. worker_step cb ti True t (Some i) ov st =
       Some (session_put (os_log (h\<lparr>nw_sendMessageTPSArr := arr[unat ti := arr ! unat ti + of_nat (length ds)], os_answers := as\<rparr>)
         (WSASend (ss_socket s) (map (wsabuf st) qs))) i s', True) \<and>
     release_all st ds = Some h \<and> send_rep s' [] qs \<and> ss_sendFlag s' = 1 \<and> ss_IOcount s' = ss_IOcount s \<and>
     ss_inflight s' = Send_io # ss_inflight s \<and> ss_recvBuffer s' = ss_recvBuffer s"
proof -
  have nz: "\<And>p. p \<in> set ds \<Longrightarrow> ptr_size st p \<noteq> 0" using assms(7) by blast
  show ?thesis unfolding assms(20) by (rule sent_next [OF assms(1-6) nz assms(8-19)]) auto
qed

theorem sent_then_next_witness:
  "\<exists>s st' s'. send_rep s [0x3000] [0x2000] \<and>
     worker_step login_callbacks 0 True 1 (Some 0) 0x1000000000000001 (ser_put (session_put ex_accepted 0 s) 0x2000 ex_one) = Some (st', True) \<and>
     session_at st' 0 = Some s' \<and> send_rep s' [] [0x3000] \<and> hd (os_calls st') = WSASend 77 [wsabuf ex_accepted 0x3000]"
proof -
  obtain q where q: "lfq_push (ss_sendBuffer ex_client) 0x3000 = Some (q, True)" "lfq_rep q ([] @ [0x3000]) 255"
    using lfq.push_law [of "ss_sendBuffer ex_client" "[]" 255 "0x3000"] ex_client(1) by (auto simp: send_rep_def)
  obtain d where d: "rb_push (ss_sendedBuffer ex_client) (le_bytes 8 (0x2000::u64)) 8 = Some (d, 8)" "rb_inv d"
      "rb_contents d = ptr_bytes ([] @ [0x2000])" "rb_cap d = rb_cap (ss_sendedBuffer ex_client)"
    by (rule ring.push_ptr [where q = "ss_sendedBuffer ex_client" and ps = "[]" and p = "0x2000"])
       (use ex_client(1) in \<open>simp_all add: send_rep_def\<close>)
  let ?s = "ex_client\<lparr>ss_sendBuffer := q, ss_sendedBuffer := d, ss_sendFlag := 1, ss_IOcount := 2, ss_inflight := [Send_io, Recv_io]\<rparr>"
  let ?st = "ser_put (session_put ex_accepted 0 ?s) 0x2000 ex_one"
  have rep: "send_rep ?s [0x3000] [0x2000]" using q(2) d ex_client(1) by (simp add: send_rep_def)
  have at: "session_at ?st 0 = Some ?s" using ex_accepted(6) by simp
  have a: "os_answers ?st = 0 # replicate 14 0" by (simp add: ser_put_def session_put_def ex_accepted(14) numeral_eq_Suc)
  have h: "ser_at ?st 0x2000 = Some ex_one" "ser_at ?st 0x3000 = Some (ex_ser 1024)"
    by (simp_all add: ser_at_def ser_put_def session_put_def ex_accepted(12)) (simp add: ex_boot_def)
  have z: "ptr_size ?st 0x2000 = 1" using h(1) ex_one by (simp add: ptr_size_def)
  have "ss_socket ?s = 77" by (simp add: ex_client)
  have w: "wsabuf ?st 0x3000 = wsabuf ex_accepted 0x3000" using h(2) by (simp add: wsabuf_def ser_at_def ser_put_def session_put_def)
  have "\<exists>s' h. worker_step login_callbacks 0 True 1 (Some 0) 0x1000000000000001 ?st =
       Some (session_put (os_log (h\<lparr>nw_sendMessageTPSArr := (nw_sendMessageTPSArr ?st)[unat (0::u16) := nw_sendMessageTPSArr ?st ! unat (0::u16) + of_nat (length [0x2000::u64])], os_answers := replicate 14 0\<rparr>)
         (WSASend (ss_socket ?s) (map (wsabuf ?st) [0x3000]))) 0 s', True) \<and>
     release_all ?st [0x2000] = Some h \<and> send_rep s' [] [0x3000] \<and> ss_sendFlag s' = 1 \<and> ss_IOcount s' = ss_IOcount ?s \<and>
     ss_inflight s' = Send_io # ss_inflight ?s \<and> ss_recvBuffer s' = ss_recvBuffer ?s"
    by (rule sent_then_next [OF at _ rep _ _ _ _ _ _ _ _ _ _ _ _ _ _ a _ refl])
       (use h z ex_client ex_accepted(16) in \<open>simp_all add: sendOverlappedCheck_def login_callbacks_def OnSend_def hasCancelIOFlag_def ser_put_def session_put_def\<close>)
  then obtain s' h' where r: "worker_step login_callbacks 0 True 1 (Some 0) 0x1000000000000001 ?st =
       Some (session_put (os_log (h'\<lparr>nw_sendMessageTPSArr := (nw_sendMessageTPSArr ?st)[unat (0::u16) := nw_sendMessageTPSArr ?st ! unat (0::u16) + of_nat (length [0x2000::u64])], os_answers := replicate 14 0\<rparr>)
         (WSASend (ss_socket ?s) (map (wsabuf ?st) [0x3000]))) 0 s', True)"
    "release_all ?st [0x2000] = Some h'" "send_rep s' [] [0x3000]" by blast
  have "pheap.more h' = pheap.more ?st" using r(2) ser_release_more by (auto split: bind_splits)
  then have "nw_sessionArray h' = nw_sessionArray ?st" by (rule network_of_more)
  then have l: "length (nw_sessionArray h') = 2" using ex_accepted(6) by simp
  show ?thesis
    by (rule exI [of _ ?s], rule exI, rule exI [of _ s'], intro conjI, rule rep, rule r(1))
       (use r(3) l w ex_client(7) in \<open>simp_all add: session_at_def session_put_def os_log_def\<close>)
qed

text \<open>C10. Accepting a client while a slot is free: the slot on top of the stack is taken, the session gets an identifier made of
  the counter and the index and is found under it, a receive is pending and holds the only reference, and the
  connection is in the table of the login server with the current tick.\<close>

theorem client_accepted:
  assumes "net_inv (\<lambda>_. 0) st" "nw_indexStack st = idx # rest" "sock \<noteq> INVALID_SOCKET" "ls_connSupply st = p # ps"
    and "os_answers st = a # as" "a = 0 \<or> a = WSA_IO_PENDING" and "sid = MAKE_SESSION_ID (nw_sessionCount st) idx"
  shows "\<exists>st'. accept_step login_callbacks sock ip port st = Some st' \<and>
    nw_sessionArray st' = (nw_sessionArray st)[unat idx := accepted_session (nw_sessionArray st ! unat idx) sid sock port ip] \<and>
    nw_indexStack st' = rest \<and> nw_sessionCount st' = nw_sessionCount st + 1 \<and> connected st' sid \<and>
    ls_connectionMap st' = AList.update sid p (ls_connectionMap st) \<and>
    ls_conns st' p = Some (connectionData_new (ls_tick st) ip) \<and>
    os_calls st' = WSARecv sock (recvIO_buffers (ss_recvBuffer (nw_sessionArray st ! unat idx))) # os_calls st"
  unfolding assms(7) by (rule accept_spec [OF assms(1-6)]) blast

theorem client_accepted_witness:
  "\<exists>st'. accept_step login_callbacks 78 5 6 ex_accepted = Some st' \<and> connected st' 0x0001000000000001 \<and>
     nw_indexStack st' = [] \<and> ls_connectionMap st' = [(0, 0x100), (0x0001000000000001, 0x200)]"
proof -
  have a: "os_answers ex_accepted = 0 # replicate 14 0" by (simp add: ex_accepted(14) numeral_eq_Suc)
  have s: "0x0001000000000001 = MAKE_SESSION_ID (nw_sessionCount ex_accepted) 1"
    by (simp add: ex_accepted_more(1) MAKE_SESSION_ID_def)
  show ?thesis
    using client_accepted [OF ex_accepted(2,7) _ ex_accepted_more(2) a _ s, of 78 5 6] by (auto simp: ex_accepted(8))
qed

text \<open>C11. The completion that takes the last reference of a session, here a failed one: the socket is closed once,
  every packet that was queued or sent is released, both buffers are empty, the slot goes back on the stack and the
  connection leaves the table.\<close>

theorem last_reference_closes:
  assumes "session_at st i = Some s" "ss_IOcount s = 1"
    and "send_rep s qs ds" "valid_ptrs st (qs @ ds)" "rb_inv (ss_recvBuffer s)"
  shows "\<exists>st' s' h. worker_step login_callbacks ti False t (Some i) ov st = Some (st', True) \<and>
    nw_sessionArray st' = (nw_sessionArray st)[i := s'] \<and> ss_IOcount s' = 0x80000000 \<and> send_rep s' [] [] \<and>
    rb_contents (ss_recvBuffer s') = [] \<and> nw_indexStack st' = GET_INDEX (ss_ID s) # nw_indexStack st \<and>
    ls_connectionMap st' = AList.delete (ss_ID s) (ls_connectionMap st) \<and>
    os_calls st' = CloseSocket (ss_socket s) # os_calls st \<and>
    release_all st (qs @ ds) = Some h \<and> ph_ser st' = ph_ser h \<and> ph_freed st' = ph_freed h"
  by (rule last_completion [OF assms]) blast

theorem last_reference_closes_witness:
  "\<exists>st'. worker_step login_callbacks 0 False 0 (Some 0) 0x1000000000000002 ex_accepted = Some (st', True) \<and>
     nw_indexStack st' = [0, 1] \<and> ls_connectionMap st' = [] \<and> hd (os_calls st') = CloseSocket 77"
proof -
  have r: "rb_inv (ss_recvBuffer ex_client)" using ex_client(2) by (simp add: recv_rep_def)
  have v: "valid_ptrs ex_accepted ([] @ [])" by simp
  have d: "AList.delete (0::u64) [(0, 0x100::u64)] = []" by (simp add: AList.delete_eq)
  show ?thesis
    using last_reference_closes [OF ex_accepted(4) ex_client(3,1) v r, of 0 0 "0x1000000000000002"]
    by (auto simp: ex_client GET_INDEX_def ex_accepted d)
qed

text \<open>C12. A start on which every call of the operating system succeeds returns \<open>true\<close> with the server running: all slots are free,
  each once on the stack in the order of their indexes, with empty buffers, and no session counts.\<close>

theorem server_started:
  assumes "start_ok env" "fresh_sessions env (unat n)" "nw_indexStack st = []"
  shows "\<exists>st'. start cb env self n w r st = Some (st', True) \<and> nw_isRun st' \<and> net_inv (\<lambda>_. 0) st' \<and>
    length (nw_sessionArray st') = unat n \<and> nw_indexStack st' = map of_nat [0..<unat n] \<and> unat (getSessionCount st') = 0 \<and>
    (\<forall>s \<in> set (nw_sessionArray st'). send_rep s [] [] \<and> recv_rep s [] \<and> ss_IOcount s = 0)"
  by (rule start_spec [OF assms]) blast

theorem server_started_witness:
  "\<exists>st'. start login_callbacks ex_start_env 0 5 4 3 ex_boot = Some (st', True) \<and> nw_indexStack st' = [0, 1, 2, 3, 4]"
proof -
  have "nw_indexStack ex_boot = []" by (simp add: ex_boot_def)
  from server_started [OF ex_start_ok ex_fresh this, of login_callbacks 0 5 4 3] show ?thesis by (auto simp: upt_rec)
qed

text \<open>C13. An identifier under which no session is connected any more is refused: \<open>findSession\<close> returns no session and leaves the
  state as it was; a connected one is returned with one more reference.\<close>

theorem session_found:
  assumes "net_inv refs st" "slot_used st sid" "i = unat (GET_INDEX sid)" "s = nw_sessionArray st ! i"
  shows "findSession od sid st = Some (if connected st sid
    then (session_put st i (s\<lparr>ss_IOcount := ss_IOcount s + 1\<rparr>), Some i) else (st, None))"
  unfolding assms(3,4) by (rule find_spec [OF assms(1,2)])

theorem session_found_witness:
  "findSession OnDisconnect 0x0005000000000000 ex_accepted = Some (ex_accepted, None) \<and>
   findSession OnDisconnect 0 ex_accepted = Some (session_put ex_accepted 0 (ex_client\<lparr>ss_IOcount := 2\<rparr>), Some 0)"
proof -
  have g: "unat (GET_INDEX 0x0005000000000000) = 0" "unat (GET_INDEX 0) = 0" by (simp_all add: GET_INDEX_def)
  have u: "slot_used ex_accepted 0x0005000000000000" "slot_used ex_accepted 0"
    by (simp_all add: slot_used_def g ex_accepted ex_client)
  have n: "\<not> connected ex_accepted 0x0005000000000000" by (simp add: connected_def g ex_accepted ex_client)
  show ?thesis
    using session_found [OF ex_accepted(2) u(1) g(1) [symmetric] refl, of OnDisconnect]
      session_found [OF ex_accepted(2) u(2) g(2) [symmetric] refl, of OnDisconnect] n ex_accepted(3,5) ex_client(3)
    by simp
qed



section \<open>Receiving and sending\<close>

text \<open>\<open>recvedPacket\<close> with a complete frame in front of the ring: the frame moves into the packet, header and payload,
  ready to be read from its first byte, and the ring keeps exactly the bytes behind it.\<close>

lemma frame_taken:
  assumes "recv_rep s bs" "5 \<le> length bs" "unat (frame_size bs) < 2 ^ 15" "n = 5 + unat (frame_size bs)" "n \<le> length bs"
    and "ser_at h p = Some ser" "fresh_for ser n"
  shows "\<exists>rb ser'. recvedPacket s h p = Some (s\<lparr>ss_recvBuffer := rb\<rparr>, ser_put h p ser', True) \<and>
    recv_rep (s\<lparr>ss_recvBuffer := rb\<rparr>) (drop n bs) \<and> sz_inv ser' \<and> sz_ho ser' = 0 \<and> sz_to ser' = n \<and>
    sz_data ser' = take n bs \<and> sz_referenceCounter ser' = sz_referenceCounter ser"
  unfolding assms(4) by (rule recvedPacket_frame [OF assms(1-3,5) [unfolded assms(4)] assms(6,7) [unfolded assms(4)]]) blast


text \<open>C15. When a connection is deleted, \<open>bufferClear\<close> ends: it releases every queued and every sent packet once, in order, and
  leaves all three buffers empty.\<close>

theorem buffers_cleared:
  assumes "send_rep s ps qs" "valid_ptrs h (ps @ qs)" "rb_inv (ss_recvBuffer s)"
  shows "\<exists>s' h'. bufferClear s h = Some (s', h') \<and> release_all h (ps @ qs) = Some h' \<and> send_rep s' [] [] \<and>
    rb_contents (ss_recvBuffer s') = []"
proof -
  have a: "lfq_rep (ss_sendBuffer s) ps 255" "rb_inv (ss_sendedBuffer s)" "rb_contents (ss_sendedBuffer s) = ptr_bytes qs"
    "rb_cap (ss_sendedBuffer s) = 2047"
    using assms(1) by (simp_all add: send_rep_def)
  show ?thesis by (rule bufferClear_spec [OF a(1-3) assms(2,3)]) (use a(4) in \<open>auto simp: send_rep_def\<close>)
qed

theorem buffers_cleared_witness:
  "\<exists>s s' h'. send_rep s [0x2000] [] \<and> bufferClear s (ser_put ex_accepted 0x2000 (ex_one\<lparr>sz_referenceCounter := 1\<rparr>)) = Some (s', h') \<and>
     send_rep s' [] [] \<and> 0x2000 \<in> set (ph_freed h')"
proof -
  obtain q where q: "lfq_push (ss_sendBuffer ex_client) 0x2000 = Some (q, True)" "lfq_rep q ([] @ [0x2000]) 255"
    using lfq.push_law [of "ss_sendBuffer ex_client" "[]" 255 "0x2000"] ex_client(1) by (auto simp: send_rep_def)
  let ?s = "ex_client\<lparr>ss_sendBuffer := q\<rparr>"
  let ?h = "ser_put ex_accepted 0x2000 (ex_one\<lparr>sz_referenceCounter := 1\<rparr>)"
  have r: "send_rep ?s [0x2000] []" using q(2) ex_client(1) by (simp add: send_rep_def)
  have at: "ser_at ?h 0x2000 = Some (ex_one\<lparr>sz_referenceCounter := 1\<rparr>)" by (simp add: ser_at_def ser_put_def)
  then have v: "valid_ptrs ?h ([0x2000] @ [])" by simp
  have rel: "release_all ?h ([0x2000] @ []) = Some (serializerFree (ser_put ?h 0x2000 (ex_one\<lparr>sz_referenceCounter := 0\<rparr>)) 0x2000)"
    using release_last [OF at] by simp
  have rb: "rb_inv (ss_recvBuffer ?s)" using ex_client(2) by (simp add: recv_rep_def)
  show ?thesis
    by (rule exI [of _ ?s]) (use r buffers_cleared [OF r v rb] rel in \<open>auto simp: serializerFree_def pool_Free_def\<close>)
qed

section \<open>The wire format\<close>

text \<open>C16. What \<open>setHeader\<close> and \<open>encryption\<close> put on the wire, \<open>decryption\<close> in any block of the receiver that holds these bytes
  accepts, and it restores the payload byte for byte, with the checksum of the header cleared.\<close>

theorem wire_roundtrip:
  fixes key sk :: byte
  assumes "sz_inv s" "sz_ho s = 5" "sz_to s = 5 + n" "n < 2 ^ 15"
  shows "\<exists>s1 s2. setHeader s key = Some s1 \<and> encryption s1 sk = Some s2 \<and> sz_inv s2 \<and> sz_ho s2 = 0 \<and> sz_to s2 = 5 + n \<and>
    (\<forall>r. sz_inv r \<and> sz_to r = 5 + n \<and> take (5 + n) (sz_mem r) = sz_data s2 \<longrightarrow>
       decryption r sk = Some (crypt_put r (0 # sz_payload s), True))"
  by (rule wire_accepted [OF assms, of key sk]) blast

theorem wire_roundtrip_witness:
  "\<exists>s s1 s2. sz_data s = [1, 2, 3] \<and> setHeader s 9 = Some s1 \<and> encryption s1 0x32 = Some s2 \<and>
     decryption s2 0x32 = Some (crypt_put s2 [0, 1, 2, 3], True)"
proof -
  have b: "sz_inv (ex_ser 1024)" "5 \<le> unat (sz_bufferSize (ex_ser 1024))" using ex_ser [of 1024] by simp_all
  note f = response_begin(1) [OF b, of 0] response_begin(2) [OF b]
  obtain s where s: "filled s ([] @ [1, 2, 3])"
    by (rule filled_put [OF f(1), of "[1, 2, 3]" ex_env]) (use f(2) ex_ser [of 1024] in simp_all)
  have F: "sz_inv s" "sz_ho s = 5" "sz_to s = 5 + 3" "sz_data s = [1, 2, 3]" using s by (simp_all add: filled_def)
  obtain s1 s2 where r: "setHeader s 9 = Some s1" "encryption s1 0x32 = Some s2" "sz_inv s2" "sz_ho s2 = 0" "sz_to s2 = 5 + 3"
    "\<forall>r. sz_inv r \<and> sz_to r = 5 + 3 \<and> take (5 + 3) (sz_mem r) = sz_data s2 \<longrightarrow>
       decryption r 0x32 = Some (crypt_put r (0 # sz_payload s), True)"
    using wire_roundtrip [OF F(1-3), of 9 "0x32"] by auto
  have "sz_data s2 = take (5 + 3) (sz_mem s2)" using r(4,5) by (simp add: sz_data_def)
  then show ?thesis using r F(4) filled_payload [OF s] by auto
qed

section \<open>Threads at the same time\<close>

text \<open>C17. The node pool with any number of threads inside \<open>Alloc\<close> and \<open>Free\<close>, one memory access at a time: as long as fewer than
  \<open>2 ^ 16\<close> push numbers are given out, every node is either in the free list or held by exactly one thread, once, and
  a thread that is left alone in the middle of a call is through after at most eight accesses.\<close>

theorem pool_exclusive:
  assumes "0 \<le> sint n" "good_malloc malloc (nat (sint n))" "nodePool_new raw pc malloc n = Some p"
    and "pool_run (pool_start p) k s" "nat (sint n) + k < 2 ^ 16"
  shows "\<exists>fs. pool_path (np_mem (ps_pool s)) (np_topKey (ps_pool s)) fs \<and>
    shared_out (malloc ` {0..<nat (sint n)}) fs (held s) \<and>
    (\<forall>t. ps_pc s t = Pool_idle \<or> (\<exists>a. snd (pool_solo 8 (ps_pc s t) (ps_pool s)) = Alloc_done a) \<or>
       snd (pool_solo 8 (ps_pc s t) (ps_pool s)) = Free_done)"
proof -
  obtain fs where inv: "pool_inv pc (malloc ` {0..<nat (sint n)}) (nat (sint n) + k) fs s"
    by (rule pool_safe [OF assms(1) _ _ assms(3-5)]) (use assms(2) in \<open>auto simp: good_malloc_def\<close>)
  show ?thesis
    by (intro exI [of _ fs] conjI allI) (use pool_invD(4,6) [OF inv] solo_ends [OF inv] in auto)
qed

theorem pool_exclusive_witness:
  "\<exists>p s. nodePool_new (\<lambda>_. node_new) 0 ex_malloc 2 = Some p \<and> pool_run (pool_start p) 0 s \<and>
     ps_pc s 0 = Alloc_read \<and> ps_pc s 1 = Alloc_read \<and> shared_out (ex_malloc ` {0..<2}) [128, 64] (held s)"
proof -
  have m: "good_malloc ex_malloc 2" using ex_malloc by (auto simp: good_malloc_def inj_on_def)
  have l: "map ex_malloc [0..<2] = [64, 128]" by (simp add: ex_malloc_def upt_rec)
  obtain p where p: "nodePool_new (\<lambda>_. node_new) 0 ex_malloc 2 = Some p" "np_rep p (rev (map ex_malloc [0..<2]))"
    using nodePool_new_spec [of 2 ex_malloc "\<lambda>_. node_new" 0] m by (auto simp: good_malloc_def)
  define s where "s = (pool_start p)\<lparr>ps_pc := (\<lambda>_. Pool_idle)(0 := Alloc_read, 1 := Alloc_read)\<rparr>"
  have r: "pool_run (pool_start p) 0 s"
    using run_alloc [OF run_alloc [OF run_start [of "pool_start p"], of 0], of 1] by (simp add: s_def pool_start_def fun_upd_twist)
  obtain fs where fs: "pool_path (np_mem p) (np_topKey p) fs" "shared_out (ex_malloc ` {0..<2}) fs (held s)"
    using pool_exclusive [OF _ _ p(1) r] m by (auto simp: s_def pool_start_def)
  have u: "pool_path m k as \<Longrightarrow> pool_path m k bs \<Longrightarrow> as = bs" for m k as bs
    by (induction as arbitrary: k bs) (case_tac bs; auto split: option.splits)+
  have "pool_path (np_mem p) (np_topKey p) [128, 64]" using p(2) l by (simp add: np_rep_def)
  then have "fs = [128, 64]" by (rule u [OF fs(1)])
  then show ?thesis using p(1) r fs(2) by (auto simp: s_def)
qed

text \<open>C18. Left alone, a thread inside \<open>push\<close> or \<open>pop\<close> makes the accesses that add up to the sequential operation: on a queue with room
  a push is thirteen accesses, on a queue that is not empty a pop is twelve, and both leave what the sequential definitions say.\<close>

theorem queue_alone:
  assumes "lfq_rep q xs c"
  shows "(length xs < c \<longrightarrow> (\<exists>q'. lfq_push q x = Some (q', True) \<and>
      queue_run (replicate 13 t) q (d(t := Push_number x)) = Some (q', d(t := Push_done True)))) \<and>
    (xs \<noteq> [] \<longrightarrow> (\<exists>q'. lfq_pop q = Some (q', Some (hd xs)) \<and>
      queue_run (replicate 12 t) q (d(t := Pop_size)) = Some (q', d(t := Pop_done (Some (hd xs))))))"
proof -
  obtain ks fs where c: "lfq_chain q ks fs" "xs = node_values (lq_mem q) (tl ks)" "c + 1 = length ks + length fs"
    using assms by (auto simp: lfq_rep_def)
  have l: "length xs = length ks - 1" "ks \<noteq> []" using c(2) lfq_chainD(1) [OF c(1)] by (simp_all add: node_values_def)
  have pu: "\<exists>q'. lfq_push q x = Some (q', True) \<and> queue_run (replicate 13 t) q (d(t := Push_number x)) = Some (q', d(t := Push_done True))"
    if "length xs < c"
  proof -
    have "0 < length ks" using l(2) by simp
    then have "fs \<noteq> []" using that l(1) c(3) by (intro notI) simp
    then obtain a gs where "fs = a # gs" by (cases fs) auto
    then show ?thesis using push_alone [of q ks a gs "d(t := Push_number x)" t x] c(1) by simp
  qed
  have po: "\<exists>q'. lfq_pop q = Some (q', Some (hd xs)) \<and> queue_run (replicate 12 t) q (d(t := Pop_size)) = Some (q', d(t := Pop_done (Some (hd xs))))"
    if ne: "xs \<noteq> []"
  proof -
    obtain k1 k2 kr where ks: "ks = k1 # k2 # kr" using ne l(2) c(2) by (cases ks; cases "tl ks") (auto simp: node_values_def)
    obtain q' y where "lfq_pop q = Some (q', Some y)" "queue_run (replicate 12 t) q (d(t := Pop_size)) = Some (q', d(t := Pop_done (Some y)))"
      using pop_alone [OF c(1) [unfolded ks], of "d(t := Pop_size)" t] by auto
    moreover have "\<exists>q'. lfq_pop q = Some (q', Some (hd xs))" using lfq.pop_law [of q "hd xs" "tl xs" c] assms ne by auto
    ultimately show ?thesis by auto
  qed
  from pu po show ?thesis by blast
qed

theorem queue_alone_witness:
  "\<exists>q q'. lfq_new (\<lambda>_. node_new) 0 ex_malloc 256 = Some q \<and>
     queue_run (replicate 13 0) q ((\<lambda>_. Pop_done None)(0 := Push_number 7)) = Some (q', (\<lambda>_. Pop_done None)(0 := Push_done True))"
proof -
  obtain q where q: "lfq_new (\<lambda>_. node_new) 0 ex_malloc 256 = Some q" "lfq_rep q [] 255"
    using lfq_new_spec [of 256 ex_malloc "\<lambda>_. node_new" 0] ex_malloc by (auto simp: good_malloc_def)
  then show ?thesis using queue_alone [OF q(2), of 7 0 "\<lambda>_. Pop_done None"] by auto
qed

text \<open>C19. Two threads inside \<open>pop\<close> at the same time: on every queue with at least two packets there is a schedule after which both have
  got the same packet, and the node of the old head has been freed twice, so that the pool hands it out again and again.\<close>

theorem two_pops_same_packet:
  assumes "lfq_rep q (x # y # xs) c"
  shows "\<exists>sched q' d. queue_run sched q (\<lambda>_. Pop_size) = Some (q', d) \<and> d 0 = Pop_done (Some x) \<and> d 1 = Pop_done (Some x) \<and>
    (\<exists>a p1 p2. a \<noteq> 0 \<and> np_Alloc (lq_np q') = Some (p1, a) \<and> np_Alloc p1 = Some (p2, a))"
  using two_pops_run [OF assms] by blast

theorem two_pops_same_packet_witness:
  "\<exists>q q1 sched q' d. lfq_new (\<lambda>_. node_new) 0 ex_malloc 256 = Some q \<and> lfq.push_all q [7, 8] = Some q1 \<and>
     queue_run sched q1 (\<lambda>_. Pop_size) = Some (q', d) \<and> d 0 = Pop_done (Some 7) \<and> d 1 = Pop_done (Some 7)"
proof -
  obtain q where q: "lfq_new (\<lambda>_. node_new) 0 ex_malloc 256 = Some q" "lfq_rep q [] 255"
    using lfq_new_spec [of 256 ex_malloc "\<lambda>_. node_new" 0] ex_malloc by (auto simp: good_malloc_def)
  obtain q1 where q1: "lfq.push_all q [7, 8] = Some q1" "lfq_rep q1 ([] @ [7, 8]) 255"
    using lfq.push_all_rep [OF q(2), of "[7, 8]"] by auto
  have "lfq_rep q1 [7, 8] 255" using q1(2) by simp
  from two_pops_same_packet [OF this] show ?thesis using q(1) q1(1) by blast
qed

text \<open>C20. Packets can overtake each other although only one thread at a time pops, on every empty queue with room for three packets and
  for all packets: the thread that pushes \<open>x\<close> is stopped between the test of the tail's key and its exchange; meanwhile the old tail is
  popped and recycled for \<open>z\<close> with an empty key, so that the exchange succeeds and the push of \<open>x\<close> returns while \<open>x\<close> hangs behind a node
  that is in no list yet. A packet \<open>w\<close> whose push has not even begun at that time is popped first, then \<open>z\<close>, and \<open>x\<close> last.\<close>

theorem push_overtaken:
  assumes "lfq_rep q [] n" "3 \<le> n"
  shows "\<exists>q1 d1 q2 d2. queue_run overtake_before q (overtake_threads x y z w) = Some (q1, d1) \<and>
    d1 0 = Push_done True \<and> d1 3 = Pop_done (Some y) \<and> d1 7 = Push_number w \<and>
    queue_run overtake_after q1 d1 = Some (q2, d2) \<and> d2 7 = Push_done True \<and> d2 2 = Push_done True \<and>
    d2 4 = Pop_done (Some w) \<and> d2 5 = Pop_done (Some z) \<and> d2 6 = Pop_done (Some x)"
proof -
  obtain q1 d1 D a b e k1 k2 where b: "queue_run overtake_before q (overtake_threads x y z w) = Some (q1, d1)"
    "overtaken q1 x z D a b e k1 k2" "d1 3 = Pop_done (Some y)" "d1 0 = Push_done True" "d1 7 = Push_number w"
    "d1 2 = Push_tail k2" "\<forall>t \<in> {4, 5, 6}. d1 t = Pop_size"
    by (rule overtake_begin [OF assms])
  obtain q2 d2 where "queue_run overtake_after q1 d1 = Some (q2, d2)" "d2 7 = Push_done True" "d2 2 = Push_done True"
    "d2 4 = Pop_done (Some w)" "d2 5 = Pop_done (Some z)" "d2 6 = Pop_done (Some x)"
    by (rule overtake_end [OF b(2,5-7)])
  with b(1,3-5) show ?thesis by blast
qed

theorem push_overtaken_witness:
  "\<exists>q1 d1 q2 d2. lfq_new (\<lambda>_. node_new) 0 ex_malloc 4 = Some ex_queue \<and>
     queue_run overtake_before ex_queue (overtake_threads 100 101 102 103) = Some (q1, d1) \<and> d1 0 = Push_done True \<and>
     d1 7 = Push_number 103 \<and> queue_run overtake_after q1 d1 = Some (q2, d2) \<and> d2 4 = Pop_done (Some 103) \<and> d2 6 = Pop_done (Some 100)"
proof -
  have m: "good_malloc ex_malloc (unat (4::u64))" using ex_malloc by (auto simp: good_malloc_def inj_on_def)
  have "lfq_rep ex_queue [] 3"
    using lfq_new_spec [of 4 ex_malloc "\<lambda>_. node_new" 0] m ex_queue_start by (auto simp: good_malloc_def)
  from push_overtaken [OF this, of 100 101 102 103] show ?thesis using ex_queue_start by auto
qed

text \<open>C21. Any number of threads that push and at most one at a time that pops, one memory access at a time, from the constructor on: as
  long as fewer than \<open>2 ^ 16\<close> push numbers are given out, no access goes wrong, nothing is popped that was not accepted and nothing twice, and
  when all calls have ended, every accepted packet was either popped or is in the list that starts at the head. So the overtaking
  above is the worst that can happen: no packet is lost or sent twice.\<close>

theorem packets_once:
  assumes "0 < unat n" "good_malloc malloc (unat n)" "lfq_new raw pc malloc n = Some q"
    and "queue_reach (queue_start q) k s" "unat n + k < 2 ^ 16"
  shows "(\<forall>t. idle (qs_pc s t) \<or> queue_pc_step (qs_pc s t) (qs_q s) \<noteq> None) \<and> mset (qs_out s) \<subseteq># mset (qs_in s) \<and>
    ((\<forall>t. idle (qs_pc s t)) \<longrightarrow> (\<exists>ks. key_path (lq_mem (qs_q s)) ks \<and> hd ks = lq_head (qs_q s) \<and>
       mset (qs_in s) = mset (qs_out s) + mset (node_values (lq_mem (qs_q s)) (tl ks))))"
proof -
  obtain g D j m where inv: "queue_inv pc D j m g (qs_q s) (qs_pc s) (qs_in s) (qs_out s)"
    by (rule single_consumer [OF assms(1,5) _ _ assms(3,4)]) (use assms(2) in \<open>auto simp: good_malloc_def\<close>)
  show ?thesis using access_defined [OF inv] out_sub [OF inv] idle_all [OF inv] by blast
qed

theorem packets_once_witness:
  "\<exists>k s ks. queue_reach (queue_start ex_queue) k s \<and> (\<forall>t. idle (qs_pc s t)) \<and> qs_in s = [7, 8] \<and> qs_out s = [8] \<and>
     hd ks = lq_head (qs_q s) \<and> node_values (lq_mem (qs_q s)) (tl ks) = [7]"
proof -
  obtain s where s: "sys_run three_schedule three_calls = Some s" "qs_in s = [7, 8]" "qs_out s = [8]"
    "idle (qs_pc s 0)" "idle (qs_pc s 1)" "idle (qs_pc s 2)"
    using three_run by (auto split: option.splits)
  obtain k where k: "k \<le> 42" "queue_reach (queue_start ex_queue) k s"
    using sys_run_reach(1) [OF three_reach s(1)] by (auto simp: three_schedule_def)
  have idle: "idle (qs_pc s t)" for t
  proof (cases "t \<in> {0, 1, 2}")
    case False
    then show ?thesis using sys_run_reach(2) [OF three_reach s(1), of t] by (auto simp: three_schedule_def three_calls_def)
  qed (use s(4-6) in auto)
  have m: "good_malloc ex_malloc (unat (4::u64))" using ex_malloc by (auto simp: good_malloc_def inj_on_def)
  have b: "unat (4::u64) + k < 2 ^ 16" "0 < unat (4::u64)" using k(1) by simp_all
  obtain ks where ks: "hd ks = lq_head (qs_q s)" "mset (qs_in s) = mset (qs_out s) + mset (node_values (lq_mem (qs_q s)) (tl ks))"
    using packets_once [OF b(2) m ex_queue_start k(2) b(1)] idle by blast
  have "node_values (lq_mem (qs_q s)) (tl ks) = [7]" using ks(2) by (simp add: s(2,3))
  then show ?thesis using k(2) idle s(2,3) ks(1) by blast
qed

text \<open>C22. Left alone, a thread inside \<open>sendIO\<close> or \<open>recvIO\<close> makes the accesses that add up to the sequential operation, on every branch, and the
  accept thread those of \<open>init\<close>: the state is the same, and the thread goes on in \<open>deleteSession\<close> exactly when the operation says so.\<close>

theorem session_alone:
  shows "(sendIO (sl_session st) st = Some (s', w', del) \<longrightarrow>
      (\<exists>n. thread_run n st Send_test = Some (sl_put w' s', if del then Del_cas 1 else Release 0))) \<and>
    (recvIO (sl_session st) st = Some (s', w', del) \<longrightarrow>
      (\<exists>n. thread_run n st Recv_test = Some (sl_put w' s', if del then Del_cas 1 else Release 0))) \<and>
    (\<exists>n. thread_run n st (Acc_id sid sock port ip) =
      Some ((sl_put st (session_init (sl_session st) sid sock port ip))\<lparr>sl_given := sid # sl_given st\<rparr>, Recv_test))"
  using send_alone [of st s' w' del] recv_alone [of st s' w' del] accept_alone [of st sid sock port ip] by (simp add: reaches_def)

theorem session_alone_witness:
  "\<exists>n s. thread_run n ex_posted Send_test = Some (sl_put ex_posted s, Release 0) \<and> ss_sendFlag s = 0"
proof -
  have s: "sendIO (sl_session ex_posted) ex_posted = Some ((sl_session ex_posted)\<lparr>ss_sendFlag := 0\<rparr>, ex_posted, False)"
    by (rule sendIO_empty [where ds = "[]"]) (use ex_posted(1) in \<open>simp_all add: conn_def Let_def\<close>)
  then obtain n where "thread_run n ex_posted Send_test = Some (sl_put ex_posted ((sl_session ex_posted)\<lparr>ss_sendFlag := 0\<rparr>), Release 0)"
    using mp [OF conjunct1 [OF session_alone] s] by auto
  then show ?thesis by (intro exI [of _ n] exI [of _ "(sl_session ex_posted)\<lparr>ss_sendFlag := 0\<rparr>"]) simp
qed

text \<open>C23. A packet can be left behind: with three packets posted to a connection there is a schedule of two workers after which both are
  done, no send is pending and \<open>sendFlag\<close> is clear, but the third packet is still in the queue, and only a receive is owed to the
  connection. \<open>sendIO\<close> finds the queue empty and resets the flag in two accesses, and between them a worker that has queued a packet finds the flag set.\<close>

theorem packet_stranded:
  assumes "c 0 = Slot_idle" "c 1 = Slot_idle"
    and "conn st [] [] 0 4 [Post_io (p3 OR 0x4000000000000000), Post_io (p2 OR 0x4000000000000000), Post_io (p1 OR 0x4000000000000000), Recv_io] ov"
    and "unat p1 < 2 ^ 60" "unat p2 < 2 ^ 60" "unat p3 < 2 ^ 60" "distinct [p1, p2, p3]"
    and "p1 OR 0x4000000000000000 \<notin> ov" "p2 OR 0x4000000000000000 \<notin> ov" "p3 OR 0x4000000000000000 \<notin> ov"
    and "valid_ptrs st [p1, p2]" "ptr_size st p1 \<noteq> 0" "ptr_size st p2 \<noteq> 0" "unat (ptr_size st p1) + unat (ptr_size st p2) < 2 ^ 32"
    and "os_answers st = 0 # as"
  shows "\<exists>moves st'. slot_run moves st c = Some (st', c) \<and> send_rep (sl_session st') [p3] [] \<and> ss_sendFlag (sl_session st') = 0 \<and>
    ss_inflight (sl_session st') = [Recv_io] \<and> ss_IOcount (sl_session st') = 1 \<and> \<not> hasCancelIOFlag (sl_session st')"
proof -
  obtain st' where "runs (st, c) (st', c)" "conn st' [p3] [] 0 1 [Recv_io] ov"
    using packet_strands [OF assms(1-6,8-10,7,11-15)] by blast
  then show ?thesis by (auto simp: runs_def conn_def Let_def)
qed

theorem packet_stranded_witness:
  "\<exists>moves st'. slot_run moves ex_posted (\<lambda>_. Slot_idle) = Some (st', \<lambda>_. Slot_idle) \<and> send_rep (sl_session st') [0x3000] [] \<and>
     ss_sendFlag (sl_session st') = 0 \<and> ss_inflight (sl_session st') = [Recv_io]"
  using packet_stranded [OF _ _ ex_posted(1) _ _ _ _ _ _ _ ex_posted(2) _ _ _ ex_posted(5), of "\<lambda>_. Slot_idle"]
  by (auto simp: ex_posted(3,4))

text \<open>C24. A slot that was never used is not protected: its counter is 0 without the flag, so \<open>findSession\<close> with an identifier of that slot other
  than 0 ends in \<open>deleteSession\<close>, which closes the slot's invalid socket and pushes the index of its identifier 0, the index of slot 0, onto the stack
  of free slots, whether slot 0 is in use or not.\<close>

theorem unused_slot_deleted:
  assumes "session_at st (unat (GET_INDEX sid)) = Some s" "ss_IOcount s = 0" "ss_ID s = 0" "sid \<noteq> 0"
    and "send_rep s [] []" "rb_inv (ss_recvBuffer s)"
  shows "\<exists>st'. findSession (\<lambda>_. Some) sid st = Some (st', None) \<and> nw_indexStack st' = 0 # nw_indexStack st \<and>
    os_calls st' = CloseSocket (ss_socket s) # os_calls st"
proof -
  let ?i = "unat (GET_INDEX sid)" and ?s2 = "s\<lparr>ss_IOcount := 0x80000000\<rparr>"
  have i: "?i < length (nw_sessionArray st)" using session_atD [OF assms(1)] by simp
  have f: "(1::u32) AND 0x80000000 = 0" by simp
  have r: "lfq_rep (ss_sendBuffer ?s2) [] 255" "rb_inv (ss_sendedBuffer ?s2)" "rb_contents (ss_sendedBuffer ?s2) = ptr_bytes []"
    "rb_inv (ss_recvBuffer ?s2)"
    using assms(5,6) by (simp_all add: send_rep_def)
  have b: "\<exists>s'. bufferClear ?s2 h = Some (s', h)" for h :: "'a network_scheme"
    by (rule bufferClear_spec [OF r(1-3) _ r(4), of h]) auto
  let ?h = "os_log (session_put st ?i (s\<lparr>ss_IOcount := 0\<rparr>)) (CloseSocket (ss_socket s))"
  obtain s' where s': "bufferClear ?s2 ?h = Some (s', ?h)" using b by blast
  have g: "unat (ucast sid :: u16) = ?i" by (simp add: GET_INDEX_def)
  have "findSession (\<lambda>_. Some) sid st = Some (let st3 = session_put ?h ?i s' in st3\<lparr>nw_indexStack := 0 # nw_indexStack st3\<rparr>, None)"
    using assms(1-4) i s'
    by (simp add: findSession_def session_release_def deleteSession_def incrementIO_def decrementIO_def cas_def Let_def g f session_put_put)
  then show ?thesis by (simp add: Let_def os_log_def session_put_def)
qed

theorem unused_slot_deleted_witness:
  "\<exists>st'. findSession (\<lambda>_. Some) 1 ex_accepted = Some (st', None) \<and> connected ex_accepted 0 \<and> nw_indexStack st' = [0, 1]"
proof -
  let ?s = "nw_sessionArray ex_accepted ! 1"
  have s: "session_at ex_accepted (unat (GET_INDEX 1)) = Some ?s" by (simp add: session_at_def GET_INDEX_def ex_accepted(6))
  show ?thesis
    using unused_slot_deleted [OF s] ex_started(14) [of 1] ex_accepted(3,7) by (auto simp: ex_accepted_more(5) [simplified] recv_rep_def)
qed

text \<open>C25. What the checksum decides: \<open>decryption\<close> accepts a block exactly when the decrypted checksum byte is the sum of the decrypted
  payload. So when the last byte of an accepted block is changed to any other value, the block is refused. But the checksum does not
  protect the other bytes: the top bit of the enciphered checksum and of every payload byte except the last two can be
  flipped on the way, and the block is accepted with a payload of the same length that is not the one that was sent.\<close>

theorem checksum_decides:
  assumes "crypt_ok s h n" "sz_to s = 5 + n" "dec_loop sk (nh_randKey h) 0 0 0 (crypt_span s n) = cs # p"
  shows "decryption s sk = Some (crypt_put s ((cs - sum_list p) # p), cs = sum_list p) \<and>
    (cs = sum_list p \<and> 0 < n \<and> y \<noteq> sz_mem s ! (4 + n) \<longrightarrow>
       (\<exists>s'. decryption (s\<lparr>sz_mem := (sz_mem s)[4 + n := y]\<rparr>) sk = Some (s', False))) \<and>
    (cs = sum_list p \<and> j + 2 \<le> n \<longrightarrow>
       (let s1 = s\<lparr>sz_mem := (sz_mem s)[4 + j := sz_mem s ! (4 + j) XOR 0x80]\<rparr> in
          \<exists>p'. decryption s1 sk = Some (crypt_put s1 (0 # p'), True) \<and> length p' = n \<and> p' \<noteq> p))"
  unfolding Let_def
  using decryption_spec [OF assms] last_byte_detected [OF assms] flip_undetected [OF assms] by (intro conjI impI) simp_all

theorem checksum_decides_witness:
  "\<exists>s s2 p. take 8 (sz_mem s) = nh_bytes (networkHeader_new 3 7 61) @ [103, 190, 218] \<and>
     decryption s 0x32 = Some (crypt_put s [0, 1, 2, 3], True) \<and>
     decryption (s\<lparr>sz_mem := (sz_mem s)[7 := 219]\<rparr>) 0x32 = Some (s2, False) \<and>
     decryption (s\<lparr>sz_mem := (sz_mem s)[4 := 189]\<rparr>) 0x32 = Some (crypt_put (s\<lparr>sz_mem := (sz_mem s)[4 := 189]\<rparr>) (0 # p), True) \<and>
     p \<noteq> [1, 2, 3]"
proof -
  let ?bs = "[0x77, 3, 0, 7, 61, 103, 190, 218] :: byte list"
  obtain s where s: "sz_inv s" "sz_data s = ?bs" "sz_ho s = 0" "sz_to s = 8" "sz_bufferSize s = 1024"
    by (rule ex_block [of ?bs]) simp_all
  have mem: "take 8 (sz_mem s) = ?bs" using s(2-4) by (simp add: sz_data_def)
  have nh: "nh_bytes (networkHeader_new 3 7 61) = take 5 ?bs" by code_simp
  have "take 5 (sz_mem s) = take 5 (take 8 (sz_mem s))" by (simp add: min_def)
  then have t5: "take 5 (sz_mem s) = nh_bytes (networkHeader_new 3 7 61)" unfolding mem nh .
  have ok: "crypt_ok s (networkHeader_new 3 7 61) 3" unfolding crypt_ok_def t5 using s by (simp add: networkHeader_new_def)
  have "crypt_span s 3 = drop 4 (take 8 (sz_mem s))" by (simp add: crypt_span_def drop_take)
  then have sp: "crypt_span s 3 = [61, 103, 190, 218]" unfolding mem by simp
  have dec: "dec_loop 0x32 (nh_randKey (networkHeader_new 3 7 61)) 0 0 0 (crypt_span s 3) = 6 # [1, 2, 3]" unfolding sp by code_simp
  have b: "sz_mem s ! 7 = 218" "sz_mem s ! 4 = 61"
    using arg_cong [OF mem, of "\<lambda>bs. bs ! 7"] arg_cong [OF mem, of "\<lambda>bs. bs ! 4"] by simp_all
  have "sz_to s = 5 + 3" using s(4) by simp
  note c = checksum_decides [OF ok this dec, of 219 0]
  show ?thesis
    unfolding nh by (rule exI [of _ s]) (use c mem b in \<open>auto simp: Let_def\<close>)
qed

section \<open>The serializer\<close>

text \<open>C26. Every pair of stream operators is inverse: a value written with \<open><<\<close> into a serializer with room comes back
  unchanged with \<open>>>\<close>, for all integer widths, \<open>bool\<close>, floating point and strings, and nothing is left.\<close>

theorem operators_roundtrip:
  assumes "sz_inv s" "sz_data s = []" "8 \<le> sz_room s" "4 + length str \<le> sz_room s"
  shows "comes_back (shl_bool env) shr_bool s b \<and> comes_back (shl_char env) shr_char s c \<and> comes_back (shl_uchar env) shr_uchar s c \<and>
    comes_back (shl_wchar env) shr_wchar s h \<and> comes_back (shl_short env) shr_short s h \<and> comes_back (shl_ushort env) shr_ushort s h \<and>
    comes_back (shl_int env) shr_int s i \<and> comes_back (shl_uint env) shr_uint s i \<and> comes_back (shl_long env) shr_long s i \<and>
    comes_back (shl_ulong env) shr_ulong s i \<and> comes_back (shl_longlong env) shr_longlong s q \<and>
    comes_back (shl_ulonglong env) shr_ulonglong s q \<and> comes_back (shl_float env) shr_float s i \<and>
    comes_back (shl_double env) shr_double s q \<and> comes_back (shl_string env) shr_string s str"
  using all_roundtrips [OF assms(1,2)] assms(3,4) by (simp add: comes_back_def string_enc_def)

theorem operators_roundtrip_witness:
  "\<exists>s1 s2. shl_string ex_env (ex_ser 16) [104, 105] = Some s1 \<and> shr_string s1 = Some (s2, [104, 105]) \<and> sz_data s2 = []"
  using operators_roundtrip [of "ex_ser 16" "[104, 105]" ex_env] ex_ser [of 16] by (simp add: comes_back_def)

text \<open>C27. A copy of a serializer has its own block with the same contents, with the same size and with head and tail at the same
  places in it (so that the room in front of the data, where the header goes, is kept), and a reference counter of its own that starts at zero. But when the original's block is from a heap the copy cannot be destroyed: the copy
  constructor takes the block from \<open>_aligned_malloc\<close> and keeps \<open>useHeap\<close>, so the destructor gives it to the wrong allocator.\<close>

theorem serializer_copied:
  assumes "sz_inv s" "env_alloc env False (sz_bufferSize s) \<noteq> 0"
  shows "\<exists>c. serializer_copy env s = Some c \<and> sz_inv c \<and> sz_data c = sz_data s \<and> sz_referenceCounter c = 0 \<and>
    sz_bufferPtr c = env_alloc env False (sz_bufferSize s) \<and> sz_bufferSize c = sz_bufferSize s \<and>
    sz_headPtr c = sz_bufferPtr c + (sz_headPtr s - sz_bufferPtr s) \<and>
    sz_tailPtr c = sz_bufferPtr c + (sz_tailPtr s - sz_bufferPtr s) \<and> (sz_useHeap s \<longrightarrow> serializer_delete c = None)"
proof -
  obtain c where c: "serializer_copy env s = Some c" "sz_inv c" "sz_data c = sz_data s" "sz_referenceCounter c = 0"
    "sz_useHeap s \<Longrightarrow> serializer_delete c = None"
    "sz_bufferPtr c = env_alloc env False (sz_bufferSize s)" "sz_bufferSize c = sz_bufferSize s"
    "sz_ho c = sz_ho s" "sz_to c = sz_to s"
    by (rule serializer_copy_spec [OF assms]) (auto simp: serializer_delete_def)
  have "sz_headPtr c - sz_bufferPtr c = sz_headPtr s - sz_bufferPtr s" "sz_tailPtr c - sz_bufferPtr c = sz_tailPtr s - sz_bufferPtr s"
    using c(8,9) by (simp_all add: sz_off_def word_unat_eq_iff)
  then have "sz_headPtr c = sz_bufferPtr c + (sz_headPtr s - sz_bufferPtr s)"
    "sz_tailPtr c = sz_bufferPtr c + (sz_tailPtr s - sz_bufferPtr s)" by (simp_all add: algebra_simps)
  with c show ?thesis by blast
qed

theorem serializer_copied_witness:
  "(\<exists>c. serializer_copy ex_env ex_one = Some c \<and> sz_data c = [7]) \<and>
   (\<exists>c. serializer_copy ex_env (serializer_new_heap_size ex_env 3 16) = Some c \<and> serializer_delete c = None)"
proof
  show "\<exists>c. serializer_copy ex_env ex_one = Some c \<and> sz_data c = [7]"
    using serializer_copied [of ex_one ex_env] ex_one by (auto simp: ex_env_def)
  have "sz_inv (serializer_new_heap_size ex_env 3 16)" "sz_useHeap (serializer_new_heap_size ex_env 3 16)"
    "env_alloc ex_env False (sz_bufferSize (serializer_new_heap_size ex_env 3 16)) \<noteq> 0"
    by (simp_all add: sz_inv_def serializer_new_heap_size_def sz_off_def ex_env_def fresh_block_def Let_def)
  then show "\<exists>c. serializer_copy ex_env (serializer_new_heap_size ex_env 3 16) = Some c \<and> serializer_delete c = None"
    using serializer_copied by blast
qed

text \<open>C28. A serializer that has to grow writes outside its block: \<open>resize\<close> computes the new tail from the new head and the
  old tail, so unless the new block lies within reach of the old one the write has no defined outcome.\<close>

theorem grow_faults:
  assumes "sz_inv s" "sz_room s < length bs" "length bs < 2 ^ 31"
    and "unat (sz_bufferSize s * 2) < unat (sz_tailPtr s - env_alloc env (sz_useHeap s) (sz_bufferSize s * 2))"
  shows "sz_put env s bs = None"
  by (rule sz_put_grow_faults [OF assms])

theorem grow_faults_witness: "sz_put \<lparr>env_alloc = (\<lambda>h n. if n = 4 then 0x10000 else 0x20000), env_raw = (\<lambda>_. 0)\<rparr>
    (serializer_new_size \<lparr>env_alloc = (\<lambda>h n. if n = 4 then 0x10000 else 0x20000), env_raw = (\<lambda>_. 0)\<rparr> 4) [1, 2, 3, 4, 5] = None"
  by (rule grow_faults) (simp_all add: sz_inv_def serializer_new_size_def sz_off_def fresh_block_def Let_def)

text \<open>C29. Reading more than is stored is not refused: the bytes that happen to lie behind the data in the block are returned as if
  they had been written, and the serializer is empty afterwards.\<close>

theorem short_read:
  assumes "sz_inv s" "sz_to s - sz_ho s < n" "sz_ho s + n \<le> unat (sz_bufferSize s)"
  shows "\<exists>s'. sz_get s n = Some (s', take n (drop (sz_ho s) (sz_mem s))) \<and> sz_inv s' \<and> sz_data s' = []"
  by (rule sz_get_short [OF assms]) blast

theorem short_read_witness: "\<exists>s'. sz_get (ex_ser 16) 4 = Some (s', [0xCD, 0xCD, 0xCD, 0xCD])"
proof -
  have "take 4 (drop 0 (sz_mem (ex_ser 16))) = [0xCD, 0xCD, 0xCD, 0xCD]"
    by (simp add: ex_ser_def serializer_new_size_def fresh_block_def ex_env_def Let_def upt_rec)
  then show ?thesis using short_read [of "ex_ser 16" 4] ex_ser [of 16] by auto
qed

section \<open>Buffers and queues\<close>

text \<open>C30. What the operations of the ring that do not copy bytes out do, on every well-formed ring: the constructor gives an empty ring whose
  size is the next power of two; \<open>MoveFront\<close> drops the oldest bytes, at most all of them; \<open>MoveRear\<close> takes over as many bytes as are free at most,
  behind the old contents; after a receive has put bytes at the tail, across the end of the block, \<open>MoveRear\<close> appends exactly these;
  \<open>clear\<close> empties the ring; a copy and an assigned ring have the contents and the size of the original, whatever was in the new block.\<close>

theorem ring_operations:
  assumes "rb_inv rb" "unat m < 2 ^ 31" "0 < unat n" "unat n \<le> 2 ^ 30" "length data \<le> unat (rb_freeSize rb)"
  shows "(\<exists>r. ringBuffer_new raw n = Some r \<and> rb_inv r \<and> rb_contents r = [] \<and>
      unat n \<le> unat (rb_bufferSize r) \<and> (unat n = 1 \<or> unat (rb_bufferSize r) < 2 * unat n)) \<and>
    (\<exists>r. rb_MoveFront rb m = (r, of_nat (min (unat m) (length (rb_contents rb)))) \<and> rb_inv r \<and>
      rb_contents r = drop (unat m) (rb_contents rb) \<and> rb_bufferSize r = rb_bufferSize rb) \<and>
    (\<exists>r new. rb_MoveRear rb m = (r, of_nat (length new)) \<and> length new = min (unat m) (rb_cap rb - length (rb_contents rb)) \<and>
      rb_inv r \<and> rb_contents r = rb_contents rb @ new \<and> rb_bufferSize r = rb_bufferSize rb) \<and>
    (\<exists>r1 r2. rb_fill rb data = Some r1 \<and> rb_contents r1 = rb_contents rb \<and>
      rb_MoveRear r1 (of_nat (length data)) = (r2, of_nat (length data)) \<and> rb_inv r2 \<and>
      rb_contents r2 = rb_contents rb @ data \<and> rb_bufferSize r2 = rb_bufferSize rb) \<and>
    rb_inv (rb_clear rb) \<and> rb_contents (rb_clear rb) = [] \<and>
    (\<exists>c. ringBuffer_copy raw rb = Some c \<and> rb_inv c \<and> rb_contents c = rb_contents rb \<and> rb_bufferSize c = rb_bufferSize rb) \<and>
    (\<exists>c. ringBuffer_assign raw False a rb = Some c \<and> rb_inv c \<and> rb_contents c = rb_contents rb \<and> rb_bufferSize c = rb_bufferSize rb)"
proof -
  obtain rf where "rb_MoveFront rb m = (rf, of_nat (min (unat m) (length (rb_contents rb))))" "rb_inv rf"
    "rb_contents rf = drop (unat m) (rb_contents rb)" "rb_bufferSize rf = rb_bufferSize rb"
    using rb_MoveFront_spec [OF assms(1,2)] by (auto simp: length_rb_contents min_def)
  moreover obtain rr new where "rb_MoveRear rb m = (rr, of_nat (length new))" "rb_inv rr" "rb_contents rr = rb_contents rb @ new"
    "length new = min (unat m) (rb_cap rb - length (rb_contents rb))" "rb_bufferSize rr = rb_bufferSize rb"
    using rb_MoveRear_spec [OF assms(1,2)] by (auto simp: length_rb_contents)
  ultimately show ?thesis
    using ringBuffer_new_spec [OF assms(3,4), of raw] rb_fill_MoveRear [OF assms(1,5)] rb_clear_spec [OF assms(1)]
      ringBuffer_copy_spec [OF assms(1), of raw] ringBuffer_assign_spec [OF assms(1), of raw a]
    by blast
qed

theorem ring_operations_witness:
  "(\<exists>r. rb_MoveFront ex_ring 3 = (r, 3) \<and> rb_contents r = [2]) \<and>
   (\<exists>r1 r2. rb_fill ex_ring [10, 11, 12] = Some r1 \<and> rb_contents r1 = [7, 8, 1, 2] \<and>
      rb_MoveRear r1 3 = (r2, 3) \<and> rb_contents r2 = [7, 8, 1, 2, 10, 11, 12]) \<and>
   (\<exists>c. ringBuffer_copy (\<lambda>_. 0xCD) ex_ring = Some c \<and> rb_contents c = [7, 8, 1, 2])"
proof -
  have f: "length [10, 11, 12 :: byte] \<le> unat (rb_freeSize ex_ring)" by (simp add: rb_freeSize_def rb_freeSize_of_def ex_ring_def)
  show ?thesis
    using ring_operations [OF ex_ring_inv _ _ _ f, of 3 5 "\<lambda>_. 0xCD" ex_ring] by (auto simp: ex_ring_contents)
qed

text \<open>C31. The ring is a bounded byte queue: \<open>push\<close> appends as many bytes as there is room for, across the end of the block, and returns
  that number; \<open>pop\<close> removes and returns the oldest bytes, in order; \<open>front\<close> returns the same bytes and changes nothing.\<close>

theorem ring_queue:
  assumes "rb_inv rb" and "unat n \<le> length data" and "k = min (unat n) (rb_cap rb - length (rb_contents rb))"
  shows "(\<exists>rb'. rb_push rb data n = Some (rb', of_nat k) \<and> rb_inv rb' \<and>
      rb_contents rb' = rb_contents rb @ take k data \<and> rb_bufferSize rb' = rb_bufferSize rb) \<and>
    (\<exists>rb'. rb_pop rb m = Some (rb', take (unat m) (rb_contents rb)) \<and> rb_inv rb' \<and> rb_contents rb' = drop (unat m) (rb_contents rb)) \<and>
    rb_front rb m = Some (take (unat m) (rb_contents rb))"
  using rb_push_spec [OF assms(1,2)] rb_pop_spec [OF assms(1), of m] rb_front_spec [OF assms(1), of m]
  by (auto simp: assms(3) length_rb_contents)

theorem ring_queue_witness:
  "(\<exists>rb'. rb_push ex_ring [10, 11, 12, 13] 4 = Some (rb', 3) \<and> rb_contents rb' = [7, 8, 1, 2, 10, 11, 12]) \<and>
   (\<exists>rb'. rb_pop ex_ring 3 = Some (rb', [7, 8, 1]) \<and> rb_contents rb' = [2]) \<and> rb_front ex_ring 3 = Some [7, 8, 1]"
  using ring_queue [of ex_ring 4 "[10, 11, 12, 13]" _ 3, OF ex_ring_inv _ refl]
  by (auto simp: ex_ring_contents ex_ring_size)

text \<open>Copying a ring, by construction or by assignment from another ring, gives a ring with the same contents, whatever the
  uninitialised memory of the new block holds.\<close>

lemma ring_copied:
  assumes "rb_inv b"
  shows "(\<exists>c. ringBuffer_copy raw b = Some c \<and> rb_inv c \<and> rb_contents c = rb_contents b) \<and>
    (\<exists>c. ringBuffer_assign raw False a b = Some c \<and> rb_inv c \<and> rb_contents c = rb_contents b)"
  using ringBuffer_copy_spec [OF assms, of raw] ringBuffer_assign_spec [OF assms, of raw a] by blast


text \<open>C32. The queue of packets with its node pool, run by one thread at a time: any number of pointers up to the capacity are all
  accepted, come out in the order in which they went in, and leave the queue empty again. When it is full \<open>push\<close> returns \<open>false\<close> and
  changes nothing of what is queued, when it is empty \<open>pop\<close> does. The queue, made of tagged keys and recycled nodes, thus
  implements a bounded list.\<close>

theorem queue_fifo:
  assumes "lfq_rep q [] c" and "length ys \<le> c"
  shows "\<exists>q1 q2 q3. lfq.push_all q ys = Some q1 \<and> lfq.pop_n (length ys) q1 = Some (q2, ys) \<and> lfq_rep q2 [] c \<and>
    lfq_pop q2 = Some (q3, None) \<and> lfq_rep q3 [] c \<and>
    (length ys = c \<longrightarrow> (\<exists>q4. lfq_push q1 x = Some (q4, False) \<and> lfq_rep q4 ys c))"
proof -
  obtain q1 where q1: "lfq.push_all q ys = Some q1" "lfq_rep q1 ys c" using lfq.push_all_rep [OF assms(1), of ys] assms(2) by auto
  obtain q2 where q2: "lfq.pop_n (length ys) q1 = Some (q2, ys)" "lfq_rep q2 [] c" using lfq.pop_n_rep [of q1 ys "[]" c] q1(2) by auto
  show ?thesis using q1 q2 lfq.push_full [OF q1(2), of x] lfq.pop_empty [OF q2(2)] by blast
qed

theorem queue_fifo_witness:
  "\<exists>q q1 q2 q3. lfq_new (\<lambda>_. node_new) 0 ex_malloc 256 = Some q \<and> lfq.push_all q (replicate 255 7) = Some q1 \<and>
     lfq.pop_n 255 q1 = Some (q2, replicate 255 7) \<and> lfq_rep q2 [] 255 \<and> lfq_push q1 8 = Some (q3, False)"
proof -
  obtain q where q: "lfq_new (\<lambda>_. node_new) 0 ex_malloc 256 = Some q" "lfq_rep q [] 255"
    using lfq_new_spec [of 256 ex_malloc "\<lambda>_. node_new" 0] ex_malloc by (auto simp: good_malloc_def)
  have l: "length (replicate 255 (7::u64)) = 255" by (rule length_replicate)
  show ?thesis using q(1) queue_fifo [OF q(2) eq_refl [OF l], of 8] unfolding l by blast
qed

text \<open>C33. Destroying a queue ends and frees every node exactly once, whatever is queued: the nodes of the list and those in
  the pool. Nothing that the constructor allocated is left.\<close>

theorem queue_destroyed:
  assumes "lfq_rep q xs c"
  shows "\<exists>p. lfq_delete q = Some p \<and> np_mem p = Map.empty"
  by (rule lfq_delete_spec [OF assms])

theorem queue_destroyed_witness:
  "\<exists>q q1 p. lfq_new (\<lambda>_. node_new) 0 ex_malloc 256 = Some q \<and> lfq.push_all q [7, 8, 9] = Some q1 \<and>
     lfq_delete q1 = Some p \<and> np_mem p = Map.empty"
proof -
  obtain q where q: "lfq_new (\<lambda>_. node_new) 0 ex_malloc 256 = Some q" "lfq_rep q [] 255"
    using lfq_new_spec [of 256 ex_malloc "\<lambda>_. node_new" 0] ex_malloc by (auto simp: good_malloc_def)
  obtain q1 where q1: "lfq.push_all q [7, 8, 9] = Some q1" "lfq_rep q1 ([] @ [7, 8, 9]) 255"
    using lfq.push_all_rep [OF q(2), of "[7, 8, 9]"] by auto
  show ?thesis using q(1) q1(1) queue_destroyed [OF q1(2)] by blast
qed

section \<open>The timeout thread and the services\<close>

text \<open>C34. In every state that the server can reach one pass of \<open>update\<close> ends; it cancels the I/O of exactly those connections whose
  last tick is longer ago than the threshold and changes no other session and no entry of the table. When no other thread
  comes in between, it thus never gets to \<open>OnDisconnect\<close>, which would wait for ever for the lock that \<open>update\<close> holds.\<close>

theorem timeouts_cancelled:
  assumes "start_ok env" "fresh_sessions env (unat n)" "nw_indexStack st0 = []" "ls_connectionMap st0 = []"
    and "start login_callbacks env self n w r st0 = Some (st1, True)" and "server_reach st1 st" "ls_run st"
  shows "\<exists>st'. update_step st = Some st' \<and> nw_indexStack st' = nw_indexStack st \<and> ls_connectionMap st' = ls_connectionMap st \<and>
    length (nw_sessionArray st') = length (nw_sessionArray st) \<and>
    (\<forall>i < length (nw_sessionArray st). nw_sessionArray st' ! i =
       (if expired_slot st (ls_tick st) (ls_connectionMap st) i then (nw_sessionArray st ! i)\<lparr>ss_cancelIOFlag := 1\<rparr>
        else nw_sessionArray st ! i))"
proof -
  have inv: "net_inv (\<lambda>_. 0) st" "table_ok st" using server_inv [OF assms(6)] start_table [OF assms(1-5)] by blast+
  have "\<forall>(sid, c) \<in> set (ls_connectionMap st). connected st sid \<and> ls_conns st c \<noteq> None"
    using inv(2) by (force simp: table_ok_def)
  from sweep_spec [OF inv(1) this, of "ls_tick st"] show ?thesis using assms(7) by (auto simp: update_step_def)
qed

theorem timeouts_cancelled_witness:
  "\<exists>st'. update_step (ex_accepted\<lparr>ls_tick := 20000\<rparr>) = Some st' \<and> nw_sessionArray st' ! 0 = ex_client\<lparr>ss_cancelIOFlag := 1\<rparr>"
proof -
  let ?st = "ex_accepted\<lparr>ls_tick := 20000\<rparr>"
  have e: "nw_indexStack ex_boot = []" "ls_connectionMap ex_boot = []" by (simp_all add: ex_boot_def)
  have "expired_slot ?st (ls_tick ?st) (ls_connectionMap ?st) 0"
    by (simp add: expired_slot_def timed_out_def ex_accepted GET_INDEX_def connectionData_new_def)
  then show ?thesis
    using timeouts_cancelled [OF ex_start_ok ex_fresh e ex_started(1) server_tick [OF ex_accepted_reach, of 20000]] ex_accepted(5,6) ex_accepted_more(4)
    by auto
qed


section \<open>Where the code falls short\<close>

text \<open>C36. A receive that fills the ring to its last free byte, which \<open>WSARecv\<close> is offered, is refused: the iteration ends
  without using the bytes and without returning the reference of the receive, which is pending no more.\<close>

theorem full_receive_lost:
  assumes "session_at st i = Some s" "recv_rep s bs" "ss_recvOverlapped s \<noteq> ss_sendOverlapped s"
    and "data \<noteq> []" "length bs + length data = 255"
  shows "\<exists>s1. do { st1 \<leftarrow> iocp_deliver i (ss_recvOverlapped s) data st;
          worker_step cb ti True (of_nat (length data)) (Some i) (ss_recvOverlapped s) st1 } = Some (session_put st i s1, True) \<and>
    recv_rep s1 bs \<and> ss_IOcount s1 = ss_IOcount s \<and> ss_inflight s1 = remove1 Recv_io (ss_inflight s)"
  by (rule recv_completion_full [OF assms]) blast

theorem full_receive_lost_witness:
  "\<exists>st' s1. do { st1 \<leftarrow> iocp_deliver 0 (ss_recvOverlapped ex_client) (replicate 255 7) ex_accepted;
          worker_step login_callbacks 0 True (of_nat (length (replicate 255 (7::byte)))) (Some 0) (ss_recvOverlapped ex_client) st1 } = Some (st', True) \<and>
    session_at st' 0 = Some s1 \<and> ss_IOcount s1 = 1 \<and> ss_inflight s1 = []"
proof -
  have o: "ss_recvOverlapped ex_client \<noteq> ss_sendOverlapped ex_client" by (simp add: ex_client)
  have d: "replicate 255 (7::byte) \<noteq> []" "length ([] :: byte list) + length (replicate 255 (7::byte)) = 255" by simp_all
  show ?thesis
    using full_receive_lost [OF ex_accepted(4) ex_client(2) o d, of login_callbacks 0] ex_client(3,4) ex_accepted(6)
    by (auto simp del: replicate.simps length_replicate)
qed

text \<open>C37. With more than 100 packets waiting, which the queue accepts, \<open>sendIO\<close> writes past its array of 100 buffers.\<close>

theorem too_many_queued:
  assumes "\<not> hasCancelIOFlag s" "ss_sendFlag s \<noteq> 1" "send_rep s qs []" "100 < length qs" "valid_ptrs w qs"
  shows "sendIO s w = None"
  by (rule sendIO_overflow [OF assms])

theorem too_many_queued_witness: "\<exists>s. send_rep s (replicate 101 0x2000) [] \<and> sendIO s ex_accepted = None"
proof -
  obtain q where q: "lfq_rep q ([] @ replicate 101 0x2000) 255"
    using lfq.push_all_rep [of "ss_sendBuffer ex_client" "[]" 255 "replicate 101 0x2000"] ex_client(1) by (auto simp: send_rep_def)
  let ?s = "ex_client\<lparr>ss_sendBuffer := q\<rparr>"
  have r: "send_rep ?s (replicate 101 0x2000) []" using q ex_client(1) by (simp add: send_rep_def)
  have "ser_at ex_accepted 0x2000 = Some (ex_ser 1024)" by (simp add: ser_at_def ex_accepted(12)) (simp add: ex_boot_def)
  then have v: "valid_ptrs ex_accepted (replicate 101 0x2000)" by (simp add: valid_ptrs_def)
  have "sendIO ?s ex_accepted = None"
    by (rule too_many_queued [OF _ _ r _ v]) (use ex_client in \<open>simp_all add: hasCancelIOFlag_def\<close>)
  then show ?thesis using r by blast
qed

text \<open>C38. A received header whose size field is -5: the worker's loop over the received packets does not end, because every turn reports a packet
  and leaves the receive buffer as it was. From a state that satisfies the invariant, the loop never comes to a result,
  whatever the pool hands out; and as long as the pool hands out unused blocks whose old bytes are no
  valid packet, every turn runs through \<open>OnRecv\<close>, cancels the I/O of the session once more, and is followed by the next one with the same bytes.\<close>

theorem negative_size_loops:
  assumes "net_inv refs st" "connected st sid" "session_at st (unat (GET_INDEX sid)) = Some s" "recv_rep s bs"
    and "5 \<le> length bs" "frame_size bs = -5"
    and "ph_supply st = ps @ qs" "distinct ps" "\<forall>p \<in> set ps. \<exists>ser. ser_at st p = Some ser \<and> stale_block ser"
    and "0 \<le> sint ti" "unat ti < length (nw_recvMessageTPSArr st)"
  shows "recv_loop login_callbacks ti (unat (GET_INDEX sid)) st = None \<and>
    (\<exists>st' s'. recv_turns login_callbacks ti (unat (GET_INDEX sid)) (length ps) st = Some st' \<and> ph_supply st' = qs \<and>
      session_at st' (unat (GET_INDEX sid)) = Some s' \<and> recv_rep s' bs \<and> (ps \<noteq> [] \<longrightarrow> hasCancelIOFlag s') \<and>
      os_calls st' = concat (replicate (length ps) [CancelIoEx (ss_socket s) Send_io, CancelIoEx (ss_socket s) Recv_io]) @ os_calls st)"
proof -
  have "stuck (unat (GET_INDEX sid)) bs st"
    using assms(1-4) by (auto simp: stuck_def session_at_def connected_def split: if_splits)
  then have "recv_loop login_callbacks ti (unat (GET_INDEX sid)) st \<noteq> Some r" for r by (rule stuck_never_returns [OF _ assms(5,6)])
  then have "recv_loop login_callbacks ti (unat (GET_INDEX sid)) st = None" by (cases "recv_loop login_callbacks ti (unat (GET_INDEX sid)) st") auto
  then show ?thesis using stale_turns [OF assms] by blast
qed

lemma ex_zero:
  shows "stale_block (serializer_new_size (ex_env\<lparr>env_raw := \<lambda>_. 0\<rparr>) 1024)"
proof -
  let ?z = "serializer_new_size (ex_env\<lparr>env_raw := \<lambda>_. 0\<rparr>) 1024"
  have z: "sz_inv ?z" "sz_referenceCounter ?z = 0" "sz_bufferSize ?z = 1024" "sz_mem ?z = replicate 1024 0"
    by (simp_all add: serializer_new_size_def ex_env_def sz_inv_def sz_off_def fresh_block_def Let_def map_replicate_const del: upt_rec_numeral)
  have h: "nh_of_bytes (replicate 5 0) = \<lparr>nh_code = 0, nh_size = 0, nh_randKey = 0, nh_checkSum = 0\<rparr>" by code_simp
  have "hd (dec_loop getStatickey 0 0 0 0 (replicate (Suc 0) 0)) \<noteq> 0" by code_simp
  then show ?thesis using z by (simp add: stale_block_def h take_replicate drop_replicate del: replicate.simps dec_loop.simps)
qed

theorem negative_size_loops_witness:
  "\<exists>st s st'. session_at st 0 = Some s \<and> recv_rep s [0x77, 0xFB, 0xFF, 0, 0] \<and> recv_loop login_callbacks 0 0 st = None \<and>
     recv_turns login_callbacks 0 0 2 st = Some st' \<and>
     take 4 (os_calls st') = [CancelIoEx 77 Send_io, CancelIoEx 77 Recv_io, CancelIoEx 77 Send_io, CancelIoEx 77 Recv_io]"
proof -
  let ?bs = "[0x77, 0xFB, 0xFF, 0, 0] :: byte list"
  obtain s where s: "recv_rep s ([] @ ?bs)" "s = ex_client\<lparr>ss_recvBuffer := ss_recvBuffer s\<rparr>"
    by (rule recv_arrive_recved [OF ex_client(2), of ?bs]) simp_all
  let ?z = "serializer_new_size (ex_env\<lparr>env_raw := \<lambda>_. 0\<rparr>) 1024"
  let ?x = "ex_accepted\<lparr>ph_ser := \<lambda>_. Some ?z\<rparr>"
  let ?st = "session_put ?x 0 s"
  have sf: "ss_ID s = 0" "ss_socket s = 77" "ss_IOcount s = 1" using ex_client(3,6,7) by (subst s(2), simp)+
  have g: "grow ex_client s" by (rule grow_same) (subst s(2), simp)+
  have "neutral ?x ?st" by (rule neutral_put) (use ex_accepted(5,6) ex_client(6) g in \<open>simp_all, subst s(2), simp\<close>)
  moreover have "neutral ex_accepted ?x" by (rule neutral_same_array) simp_all
  ultimately have n: "neutral ex_accepted ?st" by (rule neutral_trans [rotated])
  have inv: "net_inv (\<lambda>_. 0) ?st" by (rule neutral_inv [OF ex_accepted(2) n])
  have at: "session_at ?st (unat (GET_INDEX 0)) = Some s" by (simp add: session_at_def session_put_def ex_accepted(6) GET_INDEX_def)
  have c: "connected ?st 0" by (rule neutral_used_conn [OF ex_accepted(2) n ex_accepted(3)])
  have f: "frame_size ([] @ ?bs) = -5" "5 \<le> length ([] @ ?bs)" by (code_simp, simp)
  have "ph_supply ?st = ph_supply ex_boot" by (simp add: session_put_def ex_accepted(13))
  then have sup: "ph_supply ?st = [0x1000, 0x2000] @ map (\<lambda>i. of_nat (4096 * (i + 1))) [2..<64]"
    by (simp add: ex_boot_def upt_conv_Cons del: upt_rec_numeral)
  have blocks: "\<forall>p \<in> set [0x1000, 0x2000]. \<exists>ser. ser_at ?st p = Some ser \<and> stale_block ser"
    using ex_zero by (simp add: ser_at_def session_put_def)
  have ti: "0 \<le> sint (0::u16)" "unat (0::u16) < length (nw_recvMessageTPSArr ?st)" by (simp_all add: session_put_def ex_accepted(15))
  have d: "distinct [0x1000, 0x2000 :: u64]" by simp
  have r: "length [0x1000, 0x2000 :: u64] = 2"
    "concat (replicate 2 [CancelIoEx 77 Send_io, CancelIoEx 77 Recv_io]) = [CancelIoEx 77 Send_io, CancelIoEx 77 Recv_io, CancelIoEx 77 Send_io, CancelIoEx 77 Recv_io]"
    by (simp_all add: numeral_2_eq_2)
  have i: "unat (GET_INDEX 0) = 0" by (simp add: GET_INDEX_def)
  note T = negative_size_loops [OF inv c at s(1) f(2,1) sup d blocks ti, unfolded r(1) sf(2) r(2) i]
  obtain st' where "recv_turns login_callbacks 0 0 2 ?st = Some st'"
    "os_calls st' = [CancelIoEx 77 Send_io, CancelIoEx 77 Recv_io, CancelIoEx 77 Send_io, CancelIoEx 77 Recv_io] @ os_calls ?st"
    using conjunct2 [OF T] by blast
  then show ?thesis using conjunct1 [OF T] s(1) at unfolding i by (intro exI conjI) (assumption | simp)+
qed

text \<open>Session identifiers repeat: only the low 16 bits of the accept counter are kept, so 65536 connections later the same slot
  gives out the same identifier.\<close>

lemma session_id_reuse:
  shows "MAKE_SESSION_ID (c + 0x10000) i = MAKE_SESSION_ID c i \<and>
    (MAKE_SESSION_ID c i = MAKE_SESSION_ID d j \<longleftrightarrow> i = j \<and> take_bit 16 c = take_bit 16 d)"
proof -
  have "take_bit 16 (c + 0x10000 :: u32) = take_bit 16 c"
    unfolding word_uint_eq_iff
    by (simp add: unsigned_take_bit_eq uint_word_ariths) (simp add: take_bit_eq_mod mod_mod_cancel)
  then show ?thesis by (simp add: MAKE_SESSION_ID_eq)
qed

text \<open>After a successful start no worker finds its own index: the map is filled with the handles of the threads, but looked up
  with the pseudo handle of the current thread, so every worker gets index 0.\<close>

lemma worker_index_zero:
  assumes "start_ok env" "fresh_sessions env (unat n)" "nw_indexStack st = []" "nw_threadIndexMap st = []"
    and "GetCurrentThread \<notin> range (se_workerThread env)"
    and "start cb env self n w r st = Some (st1, True)"
  shows "snd (worker_threadIndex st1) = 0"
proof -
  obtain st' where s: "start cb env self n w r st = Some (st', True)"
    "\<And>h. map_of (nw_threadIndexMap st') h =
       (if h \<in> se_workerThread env ` {0..<unat w}
        then Some (of_nat (Max {j \<in> {0..<unat w}. se_workerThread env j = h})) else map_of (nw_threadIndexMap st) h)"
    by (rule start_spec [OF assms(1-3)]) blast
  have "GetCurrentThread \<notin> se_workerThread env ` {0..<unat w}" using assms(5) by blast
  then have "map_of (nw_threadIndexMap st1) GetCurrentThread = None" using s assms(4,6) by simp
  then show ?thesis by (simp add: worker_threadIndex_def)
qed


text \<open>C39. After a query that fails, \<open>mysqlConnector::query\<close> does not recover: it closes the connection but keeps its address, and uses
  the closed connection in the next round.\<close>

theorem query_after_failure:
  assumes "my_mysqlConnect m \<noteq> 0" "my_mysqlConnect m \<notin> set (my_closed m)" "my_queries m = e # qs" "e \<noteq> 0"
  shows "mysqlConnector_query m q res = None"
  using query_loop_fail [OF assms] by (simp add: mysqlConnector_query_def)

theorem query_after_failure_witness:
  "mysqlConnector_query ((ls_mysql ex_boot)\<lparr>my_queries := [1, 0, 0]\<rparr>) ''q'' [] = None"
  by (rule query_after_failure [where e = 1 and qs = "[0, 0]"]) (simp_all add: ex_boot_def)

text \<open>A result with one row is read column by column into the fields; with a second row of the same width the column
  index, which is not reset, runs past the end of that row.\<close>

lemma rows_read:
  assumes "length row = length res" "None \<notin> set row" "res \<noteq> []" "length row2 = length res"
  shows "fetch_rows [row] 0 res = Some (zip (map fst res) (map the row)) \<and> fetch_rows (row # row2 # rows) 0 res = None"
  using fetch_rows_one [OF assms(1,2)] fetch_rows_two [OF assms] by blast


text \<open>C40. Every session key is accepted: on a login request with any key of 64 bytes, and whatever the database answers to the query for the key
  of the account, no row or one row with any key, \<open>OnRecv\<close> asks exactly this one query, frees its result without a look at it,
  puts the client's key into the store under the account number and posts the response of a successful login.\<close>

theorem any_key_accepted:
  assumes "net_inv refs st" "connected st sid"
    and "ser_at st p = Some ser" "sz_inv ser" "sz_ho ser = 0" "sz_to ser = 5 + length d"
    and "d = login_request acc key rest" "length key = 64"
    and "wire_block w 0x32 d" "take (5 + length d) (sz_mem ser) = sz_data w"
    and "my_mysqlConnect (ls_mysql st) \<noteq> 0" "my_mysqlConnect (ls_mysql st) \<notin> set (my_closed (ls_mysql st))"
    and "my_queries (ls_mysql st) = 0 # qs'" "my_results (ls_mysql st) = rows # rs'" "rows = [] \<or> (\<exists>v. rows = [[v]])"
    and "ph_supply st = q # qs" "q \<noteq> p" "ser_at st q = Some s0" "sz_inv s0" "sz_referenceCounter s0 = 0" "164 \<le> unat (sz_bufferSize s0)"
    and "ls_rand st = rk # rs"
    and "length (ss_inflight (nw_sessionArray st ! unat (GET_INDEX sid))) < 2 ^ 30"
  shows "\<exists>st' resp. OnRecv sid p st = Some st' \<and>
    my_calls (ls_mysql st') = [Mysql_free_result, Mysql_store_result (my_mysqlConnect (ls_mysql st)),
      Mysql_query (my_mysqlConnect (ls_mysql st)) (login_query acc)] @ my_calls (ls_mysql st) \<and>
    ls_redis st' = redisConnector_set (ls_redis st) (to_string acc) key 1 \<and>
    os_calls st' = PostStatus (of_nat (unat (GET_INDEX sid))) (q OR 0x4000000000000000) # os_calls st \<and>
    ser_at st' q = Some resp \<and> wire_block resp 0x32 (response_payload acc (map (ls_stack st) [0..<20]))"
proof -
  obtain m res where m: "mysqlConnector_query (ls_mysql st) (login_query acc) (dbResult_new (\<lambda>ns. ns) [''sessionKey'']) = Some (m, res)"
    "my_calls m = [Mysql_free_result, Mysql_store_result (my_mysqlConnect (ls_mysql st)),
      Mysql_query (my_mysqlConnect (ls_mysql st)) (login_query acc)] @ my_calls (ls_mysql st)"
    by (rule query_answered [OF assms(11-15)])
  have "q \<noteq> 0" by (rule ser_at_nonnull [OF assms(18)])
  show ?thesis
    by (rule OnRecv_login [OF assms(1-10) m(1) assms(16-)])
       (use m(2) \<open>q \<noteq> 0\<close> in \<open>simp add: ser_at_def ser_put_def session_put_def os_log_def\<close>)
qed

theorem any_key_accepted_witness:
  "\<exists>ser st'. OnRecv 0 0x800 ((ser_put ex_accepted 0x800 ser)\<lparr>ls_mysql := (ls_mysql ex_boot)\<lparr>my_results := [[[Some ''another key'']]]\<rparr>\<rparr>) =
       Some st' \<and> my_calls (ls_mysql st') = [Mysql_free_result, Mysql_store_result 5, Mysql_query 5 (login_query 4711)] \<and>
     ls_redis st' = redisConnector_set (ls_redis ex_boot) (to_string 4711) ex_key 1 \<and>
     hd (os_calls st') = PostStatus 0 (0x1000 OR 0x4000000000000000)"
proof -
  let ?d = "login_request 4711 ex_key []"
  obtain w where w: "wire_block w 0x32 ?d" "length (sz_data w) = 79" using ex_request by blast
  obtain ser where s: "sz_put ex_env (ex_ser 1024) (sz_data w) = Some ser" "sz_inv ser" "sz_data ser = sz_data w" "sz_ho ser = 0" "sz_to ser = 79"
    using w(2) by (auto intro: ex_block [of "sz_data w"])
  have l: "length ?d = 74" "length ex_key = 64" by (simp_all add: login_request_def ex_key_def)
  have mem: "take (5 + length ?d) (sz_mem ser) = sz_data w" using s(3-5) l by (simp add: sz_data_def)
  let ?st = "(ser_put ex_accepted 0x800 ser)\<lparr>ls_mysql := (ls_mysql ex_boot)\<lparr>my_results := [[[Some ''another key'']]]\<rparr>\<rparr>"
  have sup: "ph_supply ?st = 0x1000 # map (\<lambda>i. of_nat (4096 * (i + 1))) [1..<64]"
    by (simp add: ser_put_def ex_accepted(13) ex_boot_def upt_conv_Cons del: upt_rec_numeral)
  have at: "ser_at ?st 0x800 = Some ser" "ser_at ?st 0x1000 = Some (ex_ser 1024)"
    by (simp_all add: ser_at_def ser_put_def ex_accepted(12)) (simp add: ex_boot_def)
  have r: "replicate 64 (0::u32) = 0 # replicate 63 0" by (simp add: eval_nat_numeral)
  have my: "my_mysqlConnect (ls_mysql ?st) \<noteq> 0" "my_mysqlConnect (ls_mysql ?st) \<notin> set (my_closed (ls_mysql ?st))"
    "my_queries (ls_mysql ?st) = 0 # replicate 63 0" "my_results (ls_mysql ?st) = [[Some ''another key'']] # []"
    "my_mysqlConnect (ls_mysql ?st) = 5" "my_calls (ls_mysql ?st) = []"
    by (simp_all add: ex_boot_def r)
  have row: "[[Some ''another key'']] = [] \<or> (\<exists>v. [[Some ''another key'']] = [[v]])" by simp
  have inv: "net_inv (\<lambda>_. 0) ?st" by (rule neutral_inv [OF ex_accepted(2)]) (rule neutral_same_array; simp)
  have c: "connected ?st 0" using ex_accepted(3) by (simp add: connected_def on_stack_def)
  have rk: "ls_rand ?st = 41 # replicate 63 41" by (simp add: ser_put_def ex_accepted(17) numeral_eq_Suc)
  have i: "unat (GET_INDEX 0) = 0" "nw_sessionArray ?st ! 0 = ex_client" by (simp_all add: GET_INDEX_def ex_accepted(5))
  have rd: "ls_redis ?st = ls_redis ex_boot" by (simp add: ser_put_def ex_accepted(20))
  have n: "sz_to ser = 5 + length ?d" "(0x1000 :: u64) \<noteq> 0x800" using s(5) l by simp_all
  have e: "sz_inv (ex_ser 1024)" "sz_referenceCounter (ex_ser 1024) = 0" "164 \<le> unat (sz_bufferSize (ex_ser 1024))"
    using ex_ser [of 1024] by simp_all
  have fl: "length (ss_inflight (nw_sessionArray ?st ! unat (GET_INDEX 0))) < 2 ^ 30" unfolding i by (simp add: ex_client(4))
  obtain st' resp where "OnRecv 0 0x800 ?st = Some st'"
    "my_calls (ls_mysql st') = [Mysql_free_result, Mysql_store_result (my_mysqlConnect (ls_mysql ?st)),
      Mysql_query (my_mysqlConnect (ls_mysql ?st)) (login_query 4711)] @ my_calls (ls_mysql ?st)"
    "ls_redis st' = redisConnector_set (ls_redis ?st) (to_string 4711) ex_key 1"
    "os_calls st' = PostStatus (of_nat 0) (0x1000 OR 0x4000000000000000) # os_calls ?st"
    using any_key_accepted [OF inv c at(1) s(2,4) n(1) refl l(2) w(1) mem my(1-4) row sup n(2) at(2) e rk fl] unfolding i by blast
  then show ?thesis unfolding my(5,6) rd by (intro exI conjI) (assumption | simp)+
qed
end
